(* ===== verification/Prelude.thy ===== *)
theory Prelude
  imports Main "HOL-Library.Word" "HOL-Library.Monad_Syntax" "HOL-Library.Multiset"
    "HOL-Library.Sublist" "HOL-Library.Product_Lexorder" "HOL-Library.Code_Target_Numeral"
begin

text \<open>
  Shared vocabulary of the development: the machine-integer types of the source
  (\<^verbatim>\<open>ProcId = u8\<close>, \<^verbatim>\<open>Tick = u64\<close>, \<^verbatim>\<open>AckBits = u32\<close>) and the arithmetic the source
  uses on them, the reading of a Rust panic as \<^term>\<open>None\<close> in the option monad, loops that
  may panic, and generic lemmas on lists and finite linear orders.

  Unsigned counters are natural numbers with the bound written out
  (\<open>u64_max\<close>; \<open>sat_add64\<close> is \<^verbatim>\<open>saturating_add\<close>, \<open>add64\<close> is the operator \<^verbatim>\<open>+\<close>, which
  panics on overflow when overflow checks are on and wraps otherwise). Bit masks are
  words, since the protocol computes on their bits.
\<close>

named_theorems panic_simps \<open>equations that show an operation does not panic\<close>
named_theorems inv_intros \<open>preservation of the components' invariants\<close>

type_synonym proc_id = nat
type_synonym tick = nat
type_synonym ack_bits = "32 word"
type_synonym byte = "8 word"

unbundle bit_operations_syntax

section \<open>Machine integers\<close>

definition u64_max :: nat where
  "u64_max = 18446744073709551615"

definition u32_max :: nat where
  "u32_max = 4294967295"

text \<open>\<^verbatim>\<open>u64::saturating_add\<close>.\<close>

definition sat_add64 :: "nat \<Rightarrow> nat \<Rightarrow> nat" where
  "sat_add64 a b = min (a + b) u64_max"

text \<open>\<^verbatim>\<open>u32::saturating_add\<close>.\<close>

definition sat_add32 :: "nat \<Rightarrow> nat \<Rightarrow> nat" where
  "sat_add32 a b = min (a + b) u32_max"

text \<open>
  The operator \<^verbatim>\<open>+\<close> on \<^verbatim>\<open>u64\<close>: with overflow checks (the debug profile) it panics,
  without them it wraps around.
\<close>

definition add64 :: "bool \<Rightarrow> nat \<Rightarrow> nat \<Rightarrow> nat option" where
  "add64 checks a b =
     (if a + b \<le> u64_max then Some (a + b)
      else if checks then None else Some ((a + b) mod (u64_max + 1)))"

text \<open>
  The operator \<^verbatim>\<open><<\<close> on \<^verbatim>\<open>u32\<close>: a shift distance of 32 or more panics with overflow
  checks and is reduced modulo 32 without them.
\<close>

definition shl32 :: "bool \<Rightarrow> 32 word \<Rightarrow> nat \<Rightarrow> 32 word option" where
  "shl32 checks x k =
     (if k < 32 then Some (push_bit k x)
      else if checks then None else Some (push_bit (k mod 32) x))"

section \<open>Loops whose body may panic\<close>

text \<open>
  \<open>all_opt f xs\<close> is the loop \<^verbatim>\<open>for x in xs { if !f(x) { return false; } } true\<close>;
  \<open>fold_opt f xs s\<close> runs \<open>f\<close> over \<open>xs\<close> on the state \<open>s\<close>.
\<close>

fun all_opt :: "('a \<Rightarrow> bool option) \<Rightarrow> 'a list \<Rightarrow> bool option" where
  "all_opt f [] = Some True"
| "all_opt f (x # xs) = do { b \<leftarrow> f x; if b then all_opt f xs else Some False }"

fun fold_opt :: "('a \<Rightarrow> 's \<Rightarrow> 's option) \<Rightarrow> 'a list \<Rightarrow> 's \<Rightarrow> 's option" where
  "fold_opt f [] s = Some s"
| "fold_opt f (x # xs) s = do { s' \<leftarrow> f x s; fold_opt f xs s' }"

text \<open>\<^verbatim>\<open>Iterator::min\<close>.\<close>

definition iter_min :: "'a::linorder list \<Rightarrow> 'a option" where
  "iter_min xs = (case xs of [] \<Rightarrow> None | y # ys \<Rightarrow> Some (fold min ys y))"

section \<open>Lemmas: arithmetic\<close>

lemma sat_add64_le: "sat_add64 a b \<le> u64_max"
  by (simp add: sat_add64_def)

lemma sat_add64_exact [simp]: "a + b \<le> u64_max \<Longrightarrow> sat_add64 a b = a + b"
  by (simp add: sat_add64_def)

lemma sat_add64_ge: "a \<le> u64_max \<Longrightarrow> a \<le> sat_add64 a b"
  by (simp add: sat_add64_def)

lemma sat_add64_one_gt: "a < u64_max \<Longrightarrow> sat_add64 a 1 = Suc a"
  by (simp add: sat_add64_def)

lemma add64_exact [panic_simps]: "a + b \<le> u64_max \<Longrightarrow> add64 checks a b = Some (a + b)"
  by (simp add: add64_def)

lemma shl32_small [panic_simps]: "k < 32 \<Longrightarrow> shl32 checks x k = Some (push_bit k x)"
  by (simp add: shl32_def)

lemma bit_shl_one: "k < 32 \<Longrightarrow> bit (push_bit k 1 :: 32 word) j \<longleftrightarrow> j = k"
  by (auto simp: bit_exp_iff)

lemma and_push_bit_one_eq_0:
  assumes "k < 32"
  shows "(w AND push_bit k 1 = 0) \<longleftrightarrow> \<not> bit (w :: 32 word) k"
proof -
  have *: "bit (w AND push_bit k 1) j \<longleftrightarrow> bit w k \<and> j = k" for j
    using bit_shl_one [OF assms, of j] by (auto simp only: bit_and_iff)
  show ?thesis
  proof
    assume "w AND push_bit k 1 = 0"
    then show "\<not> bit w k" using * [of k] by simp
  next
    assume "\<not> bit w k"
    then show "w AND push_bit k 1 = 0" using * by (intro bit_word_eqI) simp
  qed
qed

section \<open>Lemmas: loops that may panic\<close>

lemma all_opt_pure [panic_simps]:
  "(\<And>x. x \<in> set xs \<Longrightarrow> f x = Some (P x)) \<Longrightarrow> all_opt f xs = Some (\<forall>x\<in>set xs. P x)"
  by (induction xs) auto

lemma fold_opt_pure:
  "(\<And>x s. x \<in> set xs \<Longrightarrow> f x s = Some (g x s)) \<Longrightarrow> fold_opt f xs s = Some (fold g xs s)"
  by (induction xs arbitrary: s) auto

text \<open>The invariant rule of the loop: the body keeps \<open>I\<close> and does not panic under it.\<close>

lemma fold_opt_inv:
  assumes "\<And>x s. x \<in> set xs \<Longrightarrow> I s \<Longrightarrow> \<exists>s'. f x s = Some s' \<and> I s'"
    and "I s"
  shows "\<exists>s'. fold_opt f xs s = Some s' \<and> I s'"
  using assms
proof (induction xs arbitrary: s)
  case Nil
  then show ?case by simp
next
  case (Cons x xs)
  then obtain s1 where s1: "f x s = Some s1" "I s1" by force
  with Cons have "\<exists>s'. fold_opt f xs s1 = Some s' \<and> I s'" by auto
  with s1 show ?case by simp
qed

lemma fold_opt_pure_inv:
  assumes "\<And>x s. x \<in> set xs \<Longrightarrow> I s \<Longrightarrow> f x s = Some (g x s) \<and> I (g x s)" and "I s"
  shows "fold_opt f xs s = Some (fold g xs s) \<and> I (fold g xs s)"
  using assms by (induction xs arbitrary: s) auto

lemma fold_opt_append:
  "fold_opt f (xs @ ys) s = do { s' \<leftarrow> fold_opt f xs s; fold_opt f ys s' }"
  by (induction xs arbitrary: s) (auto split: bind_split)

section \<open>Lemmas: linear orders, sorted lists\<close>

lemma fold_opt_states:
  assumes "fold_opt f mvs s = Some s'" and "n < length mvs"
  shows "\<exists>s1 s2. fold_opt f (take n mvs) s = Some s1 \<and> f (mvs ! n) s1 = Some s2 \<and> fold_opt f (take (Suc n) mvs) s = Some s2"
  using assms
proof (induction mvs arbitrary: n s)
  case (Cons mv mvs)
  then obtain s1 where s1: "f mv s = Some s1" "fold_opt f mvs s1 = Some s'" by (auto simp: bind_eq_Some_conv)
  show ?case
  proof (cases n)
    case 0
    then show ?thesis using s1 by simp
  next
    case (Suc k)
    then show ?thesis using Cons.IH [OF s1(2), of k] Cons.prems(2) s1(1) by simp
  qed
qed simp

lemma fold_min_Min: "fold min ys y = Min (insert y (set ys))"
proof (induction ys arbitrary: y)
  case (Cons a ys)
  have "Min (insert (min a y) (set ys)) = min a (Min (insert y (set ys)))"
    by (cases "set ys = {}") (simp_all add: Min_insert min.assoc)
  with Cons show ?case by (simp add: insert_commute [of y a])
qed simp

lemma iter_min_Nil [simp]: "iter_min [] = None"
  by (simp add: iter_min_def)

lemma iter_min_None [simp]: "iter_min xs = None \<longleftrightarrow> xs = []"
  by (simp add: iter_min_def split: list.splits)

lemma iter_min_Some:
  "iter_min xs = Some k \<longleftrightarrow> k \<in> set xs \<and> (\<forall>j\<in>set xs. k \<le> j)"
proof (cases xs)
  case Nil
  then show ?thesis by (simp add: iter_min_def)
next
  case (Cons y ys)
  have "iter_min xs = Some (Min (set xs))"
    using Cons by (simp add: iter_min_def fold_min_Min)
  moreover have "finite (set xs)" "set xs \<noteq> {}" using Cons by auto
  ultimately show ?thesis by (auto intro: Min_eqI)
qed

lemma sorted_list_of_set_snoc:
  assumes "finite A" and "\<And>a. a \<in> A \<Longrightarrow> a < (k::'a::linorder)"
  shows "sorted_list_of_set (insert k A) = sorted_list_of_set A @ [k]"
proof -
  have "k \<notin> A" using assms(2) by blast
  then have "sorted_list_of_set (insert k A) = insort k (sorted_list_of_set A)"
    using assms(1) by simp
  also have "\<dots> = sorted_list_of_set A @ [k]"
    using assms by (intro sorted_insort_is_snoc) (auto intro: less_imp_le)
  finally show ?thesis .
qed

text \<open>An initial segment's elements come first in the enumeration of the whole set.\<close>

lemma sorted_list_of_set_prefix:
  assumes "finite B" and "A \<subseteq> B" and "\<And>a b. a \<in> A \<Longrightarrow> b \<in> B - A \<Longrightarrow> a < (b::'a::linorder)"
  shows "prefix (sorted_list_of_set A) (sorted_list_of_set B)"
proof -
  let ?xs = "sorted_list_of_set A @ sorted_list_of_set (B - A)"
  have fin: "finite A" "finite (B - A)" using assms(1,2) finite_subset by auto
  have "sorted ?xs" using fin assms(3) by (auto simp: sorted_append intro: less_imp_le)
  moreover have "distinct ?xs" using fin by auto
  moreover have "set ?xs = B" using fin assms(2) by auto
  ultimately have "sorted_list_of_set B = ?xs"
    by (metis sorted_list_of_set.idem_if_sorted_distinct)
  then show ?thesis by simp
qed

lemma prefix_concat: "prefix xs ys \<Longrightarrow> prefix (concat xs) (concat ys)"
  by (auto simp: prefix_def)

lemma prefix_concat_map: "prefix xs ys \<Longrightarrow> prefix (concat (map f xs)) (concat (map f ys))"
  by (auto simp: prefix_def)

lemma sort_key_mset_eq:
  assumes "mset xs = mset ys" and "inj_on f (set xs)"
  shows "sort_key f xs = sort_key f ys"
  using assms by (intro sort_key_inj_key_eq) auto

lemma case_option_the: "(case r of None \<Rightarrow> False | Some x \<Rightarrow> P x) \<Longrightarrow> r = Some (the r) \<and> P (the r)"
  by (cases r) auto

end
