(* ===== verification/BTree_Map.thy ===== *)
theory BTree_Map
  imports Prelude
begin

text \<open>
  \<^verbatim>\<open>std::collections::BTreeMap\<close> as the source uses it: an ordered finite map, held as
  the list of its entries in ascending key order, so that iterating it visits the keys in
  order. The locale \<open>ordered_map\<close> is the interface the protocol code relies on;
  the interpretation \<open>btm\<close> discharges its laws for the list.
\<close>

type_synonym ('k, 'v) btm = "('k \<times> 'v) list"

abbreviation btm_get :: "('k, 'v) btm \<Rightarrow> 'k \<Rightarrow> 'v option" where
  "btm_get m k \<equiv> map_of m k"

abbreviation btm_keys :: "('k, 'v) btm \<Rightarrow> 'k list" where
  "btm_keys m \<equiv> map fst m"

fun btm_insert :: "'k::linorder \<Rightarrow> 'v \<Rightarrow> ('k, 'v) btm \<Rightarrow> ('k, 'v) btm" where
  "btm_insert k v [] = [(k, v)]"
| "btm_insert k v ((j, w) # m) =
     (if k < j then (k, v) # (j, w) # m
      else if k = j then (k, v) # m
      else (j, w) # btm_insert k v m)"

definition btm_remove :: "'k \<Rightarrow> ('k, 'v) btm \<Rightarrow> ('k, 'v) btm" where
  "btm_remove k m = filter (\<lambda>e. fst e \<noteq> k) m"

text \<open>\<^verbatim>\<open>map.entry(k).or_insert_with(|| v)\<close>.\<close>

definition btm_or_insert :: "'k::linorder \<Rightarrow> 'v \<Rightarrow> ('k, 'v) btm \<Rightarrow> ('k, 'v) btm" where
  "btm_or_insert k v m = (case btm_get m k of None \<Rightarrow> btm_insert k v m | Some _ \<Rightarrow> m)"

definition btm_ok :: "('k::linorder, 'v) btm \<Rightarrow> bool" where
  "btm_ok m \<longleftrightarrow> sorted_wrt (<) (btm_keys m)"

section \<open>The interface\<close>

locale ordered_map =
  fixes empty :: "'m"
    and insert_at :: "'k::linorder \<Rightarrow> 'v \<Rightarrow> 'm \<Rightarrow> 'm"
    and remove_at :: "'k \<Rightarrow> 'm \<Rightarrow> 'm"
    and get :: "'m \<Rightarrow> 'k \<Rightarrow> 'v option"
    and keys :: "'m \<Rightarrow> 'k list"
    and ok :: "'m \<Rightarrow> bool"
  assumes keys_empty: "keys empty = []"
    and ok_empty: "ok empty"
    and ok_insert: "ok m \<Longrightarrow> ok (insert_at k v m)"
    and ok_remove: "ok m \<Longrightarrow> ok (remove_at k m)"
    and get_insert: "ok m \<Longrightarrow> get (insert_at k v m) j = (if j = k then Some v else get m j)"
    and get_remove: "ok m \<Longrightarrow> get (remove_at k m) j = (if j = k then None else get m j)"
    and keys_sorted: "ok m \<Longrightarrow> sorted_wrt (<) (keys m)"
    and keys_get: "ok m \<Longrightarrow> k \<in> set (keys m) \<longleftrightarrow> get m k \<noteq> None"
begin

lemma get_none_iff: "ok m \<Longrightarrow> get m k = None \<longleftrightarrow> k \<notin> set (keys m)"
  by (simp add: keys_get)

lemma set_keys_insert: "ok m \<Longrightarrow> set (keys (insert_at k v m)) = insert k (set (keys m))"
  by (auto simp: keys_get ok_insert get_insert split: if_splits)

lemma set_keys_remove: "ok m \<Longrightarrow> set (keys (remove_at k m)) = set (keys m) - {k}"
  by (auto simp: keys_get ok_remove get_remove split: if_splits)

lemma distinct_keys: "ok m \<Longrightarrow> distinct (keys m)"
  using keys_sorted strict_sorted_iff by blast

lemma length_keys: "ok m \<Longrightarrow> length (keys m) = card (set (keys m))"
  by (simp add: distinct_card distinct_keys)

lemma length_keys_insert: "ok m \<Longrightarrow> length (keys (insert_at k v m)) \<le> Suc (length (keys m))"
  by (simp add: length_keys ok_insert set_keys_insert card_insert_if)

lemma length_keys_remove:
  "ok m \<Longrightarrow> k \<in> set (keys m) \<Longrightarrow> Suc (length (keys (remove_at k m))) = length (keys m)"
  by (metis List.finite_set card_Suc_Diff1 length_keys ok_remove set_keys_remove)

lemma keys_hd_least: "ok m \<Longrightarrow> keys m = k # ks \<Longrightarrow> j \<in> set ks \<Longrightarrow> k < j"
  using keys_sorted by fastforce

lemma iter_min_keys: "ok m \<Longrightarrow> iter_min (keys m) = (case keys m of [] \<Rightarrow> None | k # _ \<Rightarrow> Some k)"
  using keys_hd_least by (fastforce simp: iter_min_Some split: list.splits)

end

section \<open>The list of entries implements it\<close>

lemma set_keys_btm_insert: "set (btm_keys (btm_insert k v m)) = insert k (set (btm_keys m))"
  by (induction k v m rule: btm_insert.induct) (simp_all add: insert_commute)

lemma btm_ok_insert [inv_intros]: "btm_ok m \<Longrightarrow> btm_ok (btm_insert k v m)"
proof (induction m)
  case Nil
  then show ?case by (simp add: btm_ok_def)
next
  case (Cons e m)
  obtain j w where e: "e = (j, w)" by fastforce
  have "btm_ok m" using Cons.prems by (simp add: btm_ok_def)
  with Cons have "btm_ok (btm_insert k v m)" by simp
  then show ?case
    using Cons.prems e set_keys_btm_insert [of k v m]
    by (auto simp: btm_ok_def)
qed

lemma get_btm_insert: "btm_get (btm_insert k v m) j = (if j = k then Some v else btm_get m j)"
  by (induction m) auto

lemma get_btm_remove: "btm_get (btm_remove k m) j = (if j = k then None else btm_get m j)"
  by (induction m) (auto simp: btm_remove_def)

lemma btm_ok_remove [inv_intros]: "btm_ok m \<Longrightarrow> btm_ok (btm_remove k m)"
  by (auto simp: btm_ok_def btm_remove_def sorted_wrt_map sorted_wrt_filter)

lemma btm_ok_Nil [simp]: "btm_ok []"
  by (simp add: btm_ok_def)

interpretation btm: ordered_map "[]" btm_insert btm_remove "map_of" "map fst" btm_ok
proof (unfold_locales, goal_cases)
  case (8 m k)
  then show ?case by (metis map_of_eq_None_iff list.set_map)
qed (simp_all add: btm_ok_insert btm_ok_remove get_btm_insert get_btm_remove,
     simp add: btm_ok_def)

lemma btm_or_insert_ok [inv_intros]: "btm_ok m \<Longrightarrow> btm_ok (btm_or_insert k v m)"
  by (simp add: btm_or_insert_def btm.ok_insert split: option.split)

lemma get_btm_or_insert:
  "btm_get (btm_or_insert k v m) j =
     (if j = k \<and> btm_get m k = None then Some v else btm_get m j)"
  by (auto simp: btm_or_insert_def get_btm_insert split: option.split)

lemma btm_mem_get: "btm_ok m \<Longrightarrow> (k, v) \<in> set m \<longleftrightarrow> btm_get m k = Some v"
  using btm.distinct_keys [of m] by (auto simp: map_of_eq_Some_iff)

end
