(* ===== verification/Types.thy ===== *)
theory Types
  imports BTree_Map
begin

text \<open>
  \<^verbatim>\<open>crates/trains-core/src/types.rs\<close> and the two build scripts that generate its
  constants: the ring configuration, payloads, trains and the acknowledgement mask.

  \<^verbatim>\<open>RING_SIZE\<close> and \<^verbatim>\<open>NUM_TRAINS\<close> come from a file the build generates, so they are
  the fields of a configuration every operation takes; \<open>core_build\<close> is the build script
  that produces them and \<open>valid_config\<close> what its assertions leave. The third field says
  whether the profile has overflow checks and debug assertions on.
\<close>

record config =
  RING_SIZE :: nat
  NUM_TRAINS :: nat
  checks :: bool

definition valid_config :: "config \<Rightarrow> bool" where
  "valid_config c \<longleftrightarrow> 2 \<le> RING_SIZE c \<and> RING_SIZE c \<le> 30 \<and>
     1 \<le> NUM_TRAINS c \<and> NUM_TRAINS c \<le> RING_SIZE c"

section \<open>Build scripts\<close>

text \<open>\<^verbatim>\<open>str::parse\<close> for an unsigned integer with the given maximum: an optional plus
  sign, at least one digit, nothing else, no overflow.\<close>

definition digit_of :: "char \<Rightarrow> nat option" where
  "digit_of c = (let n = (of_char c :: nat) in if 48 \<le> n \<and> n \<le> 57 then Some (n - 48) else None)"

fun parse_digits :: "nat \<Rightarrow> nat \<Rightarrow> string \<Rightarrow> nat option" where
  "parse_digits bound acc [] = Some acc"
| "parse_digits bound acc (c # cs) =
     (case digit_of c of
        None \<Rightarrow> None
      | Some d \<Rightarrow>
          (if acc * 10 + d \<le> bound then parse_digits bound (acc * 10 + d) cs else None))"

definition parse_uint :: "nat \<Rightarrow> string \<Rightarrow> nat option" where
  "parse_uint bound s =
     (let ds = (case s of [] \<Rightarrow> [] | c # cs \<Rightarrow> if c = CHR ''+'' then cs else s)
      in if ds = [] then None else parse_digits bound 0 ds)"

text \<open>\<^verbatim>\<open>env::var(name).ok().and_then(|s| s.parse().ok()).unwrap_or(d)\<close>.\<close>

definition env_or :: "nat \<Rightarrow> nat \<Rightarrow> string option \<Rightarrow> nat" where
  "env_or bound d v =
     (case v of None \<Rightarrow> d | Some s \<Rightarrow> (case parse_uint bound s of None \<Rightarrow> d | Some n \<Rightarrow> n))"

text \<open>\<^verbatim>\<open>trains-core/build.rs\<close>: the two constants, or a failed assertion.\<close>

definition core_build :: "string option \<Rightarrow> string option \<Rightarrow> (nat \<times> nat) option" where
  "core_build ring_var trains_var =
     (let ring_size = env_or u64_max 3 ring_var;
          num_trains = env_or u64_max 2 trains_var
      in if \<not> (2 \<le> ring_size \<and> ring_size \<le> 30) then None
         else if \<not> (num_trains \<ge> 1 \<and> num_trains \<le> ring_size) then None
         else Some (ring_size, num_trains))"

text \<open>\<^verbatim>\<open>trains-net/build.rs\<close>: the frame bound in bytes, or a failed assertion.\<close>

definition net_build :: "string option \<Rightarrow> nat option" where
  "net_build v =
     (let mb = env_or u32_max 16 v
      in if \<not> (1 \<le> mb \<and> mb \<le> 4096) then None
         else let max_frame_len = mb * 1024 * 1024
              in if \<not> max_frame_len \<le> u32_max then None else Some max_frame_len)"

section \<open>Payloads and trains\<close>

record payload =
  sender :: proc_id
  seq :: nat
  data :: "byte list"

record train =
  issuer :: proc_id
  clock :: tick
  payloads :: "payload list"
  ack_bits :: ack_bits

definition FULL_ACK :: "config \<Rightarrow> ack_bits" where
  "FULL_ACK c = push_bit (RING_SIZE c) 1 - 1"

definition is_fully_acked :: "config \<Rightarrow> train \<Rightarrow> bool" where
  "is_fully_acked c t \<longleftrightarrow> ack_bits t = FULL_ACK c"

definition is_acked_by :: "config \<Rightarrow> train \<Rightarrow> proc_id \<Rightarrow> bool option" where
  "is_acked_by c t p = do {
     m \<leftarrow> shl32 (checks c) 1 p;
     Some (ack_bits t AND m \<noteq> 0)
   }"

definition add_ack :: "config \<Rightarrow> proc_id \<Rightarrow> train \<Rightarrow> train option" where
  "add_ack c p t = do {
     m \<leftarrow> shl32 (checks c) 1 p;
     Some (t\<lparr>ack_bits := ack_bits t OR m\<rparr>)
   }"

text \<open>The key \<^verbatim>\<open>Train::clock_key\<close>; the delivery layer wraps the same pair as
  \<^verbatim>\<open>ClockKey\<close>.\<close>

definition clock_key_pair :: "train \<Rightarrow> tick \<times> proc_id" where
  "clock_key_pair t = (clock t, issuer t)"

text \<open>The identity \<^verbatim>\<open>(sender, seq)\<close> of a payload.\<close>

definition payload_id :: "payload \<Rightarrow> proc_id \<times> nat" where
  "payload_id p = (sender p, seq p)"

section \<open>Properties of the build scripts\<close>

text \<open>What a variable says, independently of the parser: the value of a decimal numeral by the places of its
  digits, and the texts that name a number.\<close>

primrec place_value :: "string \<Rightarrow> nat" where
  "place_value [] = 0"
| "place_value (c # cs) = (of_char c - 48) * 10 ^ length cs + place_value cs"

definition numeral_text :: "string \<Rightarrow> bool" where
  "numeral_text ds \<longleftrightarrow> ds \<noteq> [] \<and> set ds \<subseteq> set ''0123456789''"

definition names_number :: "string \<Rightarrow> nat \<Rightarrow> bool" where
  "names_number s n \<longleftrightarrow> (\<exists>ds. (s = ds \<or> s = CHR ''+'' # ds) \<and> numeral_text ds \<and> place_value ds = n)"

text \<open>A variable that is set to a number within the bound stands for it; an unset one, and any other
  text, for the default.\<close>

definition stands_for :: "nat \<Rightarrow> nat \<Rightarrow> string option \<Rightarrow> nat \<Rightarrow> bool" where
  "stands_for bound d v n \<longleftrightarrow>
     (if \<exists>s m. v = Some s \<and> names_number s m \<and> m \<le> bound then names_number (the v) n else n = d)"

lemma digit_of_iff: "digit_of c = Some d \<longleftrightarrow> c \<in> set ''0123456789'' \<and> d = of_char c - 48"
proof -
  have "c \<in> set ''0123456789''" if n: "48 \<le> (of_char c :: nat)" "of_char c \<le> (57::nat)"
  proof -
    have "m = 48 \<or> m = 49 \<or> m = 50 \<or> m = 51 \<or> m = 52 \<or> m = 53 \<or> m = 54 \<or> m = 55 \<or> m = 56 \<or> m = 57"
      if "48 \<le> m" "m \<le> 57" for m :: nat using that by presburger
    from this [OF n] have "(of_char c :: nat) \<in> set [48,49,50,51,52,53,54,55,56,57]" by simp
    then have "char_of (of_char c :: nat) \<in> set (map char_of [48,49,50,51,52,53,54,55,56,57::nat])"
      unfolding set_map by (rule imageI)
    moreover have "map char_of [48,49,50,51,52,53,54,55,56,57::nat] = ''0123456789''" by code_simp
    ultimately show ?thesis by (simp only: char_of_char)
  qed
  moreover have "48 \<le> (of_char c :: nat) \<and> of_char c \<le> (57::nat)" if "c \<in> set ''0123456789''" using that by auto
  ultimately show ?thesis by (auto simp: digit_of_def Let_def)
qed

text \<open>The overflow test after each digit is the test at the end.\<close>

lemma parse_digits_iff:
  "acc \<le> bound \<Longrightarrow> parse_digits bound acc ds = Some n \<longleftrightarrow>
     set ds \<subseteq> set ''0123456789'' \<and> n = acc * 10 ^ length ds + place_value ds \<and> n \<le> bound"
proof (induction ds arbitrary: acc)
  case (Cons c cs)
  show ?case
  proof (cases "digit_of c")
    case None
    then have "c \<notin> set ''0123456789''" using digit_of_iff by (metis option.distinct(1))
    then show ?thesis using None by simp
  next
    case (Some d)
    then have c: "c \<in> set ''0123456789''" "d = of_char c - 48" using digit_of_iff by blast+
    have val: "acc * 10 ^ length (c # cs) + place_value (c # cs) = (acc * 10 + d) * 10 ^ length cs + place_value cs"
      using c(2) by (simp add: algebra_simps)
    have "acc * 10 + d \<le> (acc * 10 + d) * 10 ^ length cs" by simp
    then have "acc * 10 + d \<le> bound" if "(acc * 10 + d) * 10 ^ length cs + place_value cs \<le> bound" using that by linarith
    then show ?thesis using Some c(1) Cons.IH [of "acc * 10 + d"] unfolding val by auto
  qed
qed auto

lemma parse_uint_iff: "parse_uint bound s = Some n \<longleftrightarrow> names_number s n \<and> n \<le> bound"
proof -
  have digits: "(if ds = [] then None else parse_digits bound 0 ds) = Some n \<longleftrightarrow> numeral_text ds \<and> place_value ds = n \<and> n \<le> bound"
    for ds by (auto simp: numeral_text_def parse_digits_iff simp del: list.set)
  have plus: "\<not> numeral_text (CHR ''+'' # cs)" for cs by (simp add: numeral_text_def)
  show ?thesis
  proof (cases "\<exists>cs. s = CHR ''+'' # cs")
    case True
    then obtain cs where "s = CHR ''+'' # cs" by blast
    then have "parse_uint bound s = (if cs = [] then None else parse_digits bound 0 cs)" by (simp add: parse_uint_def)
    moreover have "names_number s n \<longleftrightarrow> numeral_text cs \<and> place_value cs = n"
      using \<open>s = _\<close> plus [of cs] unfolding names_number_def by blast
    ultimately show ?thesis using digits [of cs] by simp
  next
    case False
    then have "parse_uint bound s = (if s = [] then None else parse_digits bound 0 s)"
      by (cases s) (auto simp: parse_uint_def simp del: parse_digits.simps)
    then show ?thesis using digits [of s] False by (auto simp: names_number_def)
  qed
qed

lemma env_or_iff: "env_or bound d v = n \<longleftrightarrow> stands_for bound d v n"
proof (cases v)
  case (Some s)
  show ?thesis
  proof (cases "parse_uint bound s")
    case None
    then have "\<not> (names_number s m \<and> m \<le> bound)" for m using parse_uint_iff [of bound s m] by simp
    then show ?thesis using Some None by (auto simp: env_or_def stands_for_def)
  next
    case (Some m)
    then have m: "names_number s m" "m \<le> bound" using parse_uint_iff by blast+
    then have "names_number s n \<longleftrightarrow> n = m" for n using parse_uint_iff [of "max bound n" s] by (metis max.cobounded1 max.cobounded2 order_trans option.inject)
    then show ?thesis using \<open>v = Some s\<close> Some m by (auto simp: env_or_def stands_for_def)
  qed
qed (auto simp: env_or_def stands_for_def)

text \<open>C40. The generated constants are well typed. The core's build script succeeds exactly when the two
  numbers the variables stand for (3 and 2 where a variable is not set, or is not an optional plus sign and
  decimal digits, or overflows 64 bits) are a ring of 2 to 30 members with 1 to that many
  trains, and emits these; the network's build script takes 1 to 4095 mebibytes (16 by default; 4096,
  which the range it prints allows, fails the second assertion) and emits them as bytes, so that
  every length fits the 32-bit header.\<close>

theorem build_constants_typed:
  "(core_build rv tv = Some (r, t) \<longleftrightarrow> stands_for u64_max 3 rv r \<and> stands_for u64_max 2 tv t \<and>
      valid_config \<lparr>RING_SIZE = r, NUM_TRAINS = t, checks = b\<rparr>) \<and>
   (net_build v = Some n \<longleftrightarrow> (\<exists>mb. stands_for u32_max 16 v mb \<and> 1 \<le> mb \<and> mb \<le> 4095 \<and> n = mb * 2 ^ 20))"
proof -
  have "core_build rv tv = Some (r, t) \<longleftrightarrow> env_or u64_max 3 rv = r \<and> env_or u64_max 2 tv = t \<and>
      valid_config \<lparr>RING_SIZE = r, NUM_TRAINS = t, checks = b\<rparr>"
    by (auto simp: core_build_def valid_config_def Let_def)
  moreover have "net_build v = Some n \<longleftrightarrow> (\<exists>mb. env_or u32_max 16 v = mb \<and> 1 \<le> mb \<and> mb \<le> 4095 \<and> n = mb * 2 ^ 20)"
    by (auto simp: net_build_def Let_def u32_max_def split: if_splits)
  ultimately show ?thesis unfolding env_or_iff by blast
qed

section \<open>Properties of the acknowledgement mask\<close>

lemma valid_configD:
  assumes "valid_config c"
  shows "2 \<le> RING_SIZE c" "RING_SIZE c \<le> 30" "0 < RING_SIZE c" "1 \<le> NUM_TRAINS c"
    "NUM_TRAINS c \<le> RING_SIZE c" "0 < NUM_TRAINS c"
  using assms by (auto simp: valid_config_def)

lemma FULL_ACK_mask: "FULL_ACK c = mask (RING_SIZE c)"
  by (simp add: FULL_ACK_def mask_eq_decr_exp push_bit_of_1)

lemma bit_FULL_ACK: "valid_config c \<Longrightarrow> bit (FULL_ACK c) i \<longleftrightarrow> i < RING_SIZE c"
  by (auto simp: FULL_ACK_mask Word.bit_mask_iff valid_config_def)

lemma is_acked_by_pure [panic_simps]:
  "p < 32 \<Longrightarrow> is_acked_by c t p = Some (bit (ack_bits t) p)"
  by (simp add: is_acked_by_def panic_simps and_push_bit_one_eq_0 flip: push_bit_of_1)

lemma add_ack_pure [panic_simps]:
  "p < 32 \<Longrightarrow> add_ack c p t = Some (t\<lparr>ack_bits := ack_bits t OR push_bit p 1\<rparr>)"
  by (simp add: add_ack_def panic_simps)

lemma bit_or_shl_one: "p < 32 \<Longrightarrow> bit (w OR push_bit p 1 :: 32 word) i \<longleftrightarrow> i = p \<or> bit w i"
  using bit_shl_one [of p i] by (auto simp only: bit_or_iff)

text \<open>Acknowledgements of ring members only: the full mask is reached exactly when
  every process has acknowledged.\<close>

lemma fully_acked_iff:
  assumes "valid_config c" and "\<And>i. bit (ack_bits t) i \<Longrightarrow> i < RING_SIZE c"
  shows "is_fully_acked c t \<longleftrightarrow> (\<forall>i<RING_SIZE c. bit (ack_bits t) i)"
proof -
  have "is_fully_acked c t \<longleftrightarrow> (\<forall>i. bit (ack_bits t) i = bit (FULL_ACK c) i)"
    unfolding is_fully_acked_def by (auto intro!: bit_word_eqI)
  then show ?thesis using assms by (auto simp: bit_FULL_ACK)
qed

end
