(* ===== verification/Clock.thy ===== *)
theory Clock
  imports Types
begin

text \<open>
  \<^verbatim>\<open>crates/trains-core/src/clock.rs\<close>: the per-issuer vector of the last clock seen, and
  the gap detection. The array \<^verbatim>\<open>[Tick; RING_SIZE]\<close> is a list of that length; indexing
  it out of range is a panic.
\<close>

record clock_state =
  seen :: "tick list"

datatype clock_check = Clock_Ok | Gap (expected: tick) (received: tick) | Duplicate

definition clock_new :: "config \<Rightarrow> clock_state" where
  "clock_new c = \<lparr>seen = replicate (RING_SIZE c) 0\<rparr>"

definition last_seen :: "clock_state \<Rightarrow> proc_id \<Rightarrow> tick option" where
  "last_seen cs q = (if q < length (seen cs) then Some (seen cs ! q) else None)"

definition clock_restore :: "clock_state \<Rightarrow> tick list \<Rightarrow> clock_state" where
  "clock_restore cs s = cs\<lparr>seen := s\<rparr>"

definition check_and_update ::
    "config \<Rightarrow> proc_id \<Rightarrow> tick \<Rightarrow> clock_state \<Rightarrow> (clock_state \<times> clock_check) option" where
  "check_and_update c q new_clock cs = do {
     prev \<leftarrow> last_seen cs q;
     if new_clock = prev then Some (cs, Duplicate)
     else if new_clock = sat_add64 prev 1 then
       Some (cs\<lparr>seen := (seen cs)[q := new_clock]\<rparr>, Clock_Ok)
     else if new_clock > prev then do {
       e \<leftarrow> add64 (checks c) prev 1;
       Some (cs\<lparr>seen := (seen cs)[q := new_clock]\<rparr>, Gap e new_clock)
     }
     else Some (cs, Duplicate)
   }"

section \<open>Well-formedness\<close>

definition clock_ok :: "config \<Rightarrow> clock_state \<Rightarrow> bool" where
  "clock_ok c cs \<longleftrightarrow> length (seen cs) = RING_SIZE c \<and> (\<forall>x\<in>set (seen cs). x \<le> u64_max)"

section \<open>Lemmas\<close>

lemma clock_ok_new [inv_intros]: "clock_ok c (clock_new c)"
  by (simp add: clock_ok_def clock_new_def)

lemma last_seen_pure [panic_simps]:
  "clock_ok c cs \<Longrightarrow> q < RING_SIZE c \<Longrightarrow> last_seen cs q = Some (seen cs ! q)"
  by (simp add: last_seen_def clock_ok_def)

lemma last_seen_panics: "clock_ok c cs \<Longrightarrow> last_seen cs q = None \<longleftrightarrow> RING_SIZE c \<le> q"
  by (auto simp: last_seen_def clock_ok_def)

text \<open>The classification the function computes, with its three outcomes.\<close>

definition clock_verdict :: "tick \<Rightarrow> tick \<Rightarrow> clock_check" where
  "clock_verdict prev new =
     (if new \<le> prev then Duplicate else if new = Suc prev then Clock_Ok else Gap (Suc prev) new)"

text \<open>On a well-formed vector and a clock of the machine's range the operation never panics
  (in particular the unchecked \<^verbatim>\<open>prev + 1\<close> cannot overflow), returns the verdict and
  stores the larger clock.\<close>

lemma check_and_update_pure [panic_simps]:
  assumes ok: "clock_ok c cs" and q: "q < RING_SIZE c" and new: "new \<le> u64_max"
  shows "check_and_update c q new cs =
     Some (cs\<lparr>seen := (seen cs)[q := max (seen cs ! q) new]\<rparr>, clock_verdict (seen cs ! q) new)"
proof -
  let ?prev = "seen cs ! q"
  have prev: "?prev \<le> u64_max" using ok q by (auto simp: clock_ok_def)
  have same: "cs\<lparr>seen := (seen cs)[q := ?prev]\<rparr> = cs" by simp
  consider "new \<le> ?prev" | "new = Suc ?prev" | "Suc ?prev < new" by linarith
  then show ?thesis
  proof cases
    case 1
    then show ?thesis
      using ok q prev same
      by (auto simp: check_and_update_def panic_simps clock_verdict_def max_def sat_add64_def)
  next
    case 2
    then show ?thesis
      using ok q new by (simp add: check_and_update_def panic_simps clock_verdict_def max_def)
  next
    case 3
    then show ?thesis
      using ok q new
      by (simp add: check_and_update_def panic_simps clock_verdict_def max_def sat_add64_def)
  qed
qed

lemma clock_ok_update [inv_intros]:
  "clock_ok c cs \<Longrightarrow> new \<le> u64_max \<Longrightarrow> clock_ok c (cs\<lparr>seen := (seen cs)[q := new]\<rparr>)"
  using set_update_subset_insert [of "seen cs" q new] by (auto simp: clock_ok_def)

lemma clock_ok_seen: "clock_ok c cs \<Longrightarrow> q < RING_SIZE c \<Longrightarrow> seen cs ! q \<le> u64_max"
  by (auto simp: clock_ok_def)

lemma check_and_update_ok [inv_intros]:
  assumes "clock_ok c cs" "q < RING_SIZE c" "new \<le> u64_max"
    "check_and_update c q new cs = Some (cs', v)"
  shows "clock_ok c cs'"
  using assms clock_ok_seen [OF assms(1,2)]
  by (auto simp: panic_simps intro!: clock_ok_update)

end
