(* ===== verification/Delivery.thy ===== *)
theory Delivery
  imports Clock
begin

text \<open>
  \<^verbatim>\<open>crates/trains-core/src/delivery.rs\<close>: the delivery modes, the total order on
  \<^verbatim>\<open>(clock, issuer)\<close> keys, and the per-process delivery state. A \<^verbatim>\<open>BTreeSet\<close> of keys is
  a set, since the code only inserts, tests membership, counts and copies it.
\<close>

datatype delivery_mode = UniformTotalOrder | TotalOrder | CausalOrder

datatype clock_key = ClockKey (ck_clock: tick) (ck_issuer: proc_id)

text \<open>The derived \<^verbatim>\<open>Ord\<close>: lexicographic on clock, then issuer.\<close>

instantiation clock_key :: linorder
begin

definition less_eq_clock_key :: "clock_key \<Rightarrow> clock_key \<Rightarrow> bool" where
  "less_eq_clock_key a b \<longleftrightarrow>
     ck_clock a < ck_clock b \<or> (ck_clock a = ck_clock b \<and> ck_issuer a \<le> ck_issuer b)"

definition less_clock_key :: "clock_key \<Rightarrow> clock_key \<Rightarrow> bool" where
  "less_clock_key a b \<longleftrightarrow>
     ck_clock a < ck_clock b \<or> (ck_clock a = ck_clock b \<and> ck_issuer a < ck_issuer b)"

instance
  by standard (auto simp: less_eq_clock_key_def less_clock_key_def clock_key.expand)

end

record delivery_state =
  mode :: delivery_mode
  done_keys :: "clock_key set"
  crashed_bits :: ack_bits

definition delivery_new :: "delivery_mode \<Rightarrow> delivery_state" where
  "delivery_new m = \<lparr>mode = m, done_keys = {}, crashed_bits = 0\<rparr>"

definition delivery_mark_crashed :: "config \<Rightarrow> proc_id \<Rightarrow> delivery_state \<Rightarrow> delivery_state option" where
  "delivery_mark_crashed c p d = do {
     m \<leftarrow> shl32 (checks c) 1 p;
     Some (d\<lparr>crashed_bits := crashed_bits d OR m\<rparr>)
   }"

definition delivery_unmark_crashed :: "config \<Rightarrow> proc_id \<Rightarrow> delivery_state \<Rightarrow> delivery_state option" where
  "delivery_unmark_crashed c p d = do {
     m \<leftarrow> shl32 (checks c) 1 p;
     Some (d\<lparr>crashed_bits := crashed_bits d AND NOT m\<rparr>)
   }"

definition is_crashed :: "config \<Rightarrow> delivery_state \<Rightarrow> proc_id \<Rightarrow> bool option" where
  "is_crashed c d p = do {
     m \<leftarrow> shl32 (checks c) 1 p;
     Some (crashed_bits d AND m \<noteq> 0)
   }"

definition delivery_restore :: "clock_key set \<Rightarrow> ack_bits \<Rightarrow> delivery_state \<Rightarrow> delivery_state" where
  "delivery_restore ks b d = d\<lparr>done_keys := ks, crashed_bits := b\<rparr>"

definition ready_to_deliver :: "config \<Rightarrow> delivery_state \<Rightarrow> ack_bits \<Rightarrow> delivery_mode \<Rightarrow> bool" where
  "ready_to_deliver c d acks m =
     (case m of
        UniformTotalOrder \<Rightarrow> acks = FULL_ACK c
      | TotalOrder \<Rightarrow>
          (let live_mask = FULL_ACK c AND NOT (crashed_bits d) in acks AND live_mask = live_mask)
      | CausalOrder \<Rightarrow> False)"

definition already_delivered :: "delivery_state \<Rightarrow> clock_key \<Rightarrow> bool" where
  "already_delivered d k \<longleftrightarrow> k \<in> done_keys d"

fun is_next_in_order :: "delivery_state \<Rightarrow> clock_key \<Rightarrow> clock_key list \<Rightarrow> bool" where
  "is_next_in_order d k known =
     (if k \<in> done_keys d then False
      else list_all (\<lambda>j. \<not> (j < k \<and> j \<notin> done_keys d)) known)"

text \<open>\<^verbatim>\<open>record_delivered\<close> carries a \<^verbatim>\<open>debug_assert!\<close>: it panics on a double delivery when
  debug assertions are on.\<close>

definition record_delivered :: "config \<Rightarrow> clock_key \<Rightarrow> delivery_state \<Rightarrow> delivery_state option" where
  "record_delivered c k d =
     (if checks c \<and> k \<in> done_keys d then None
      else Some (d\<lparr>done_keys := insert k (done_keys d)\<rparr>))"

section \<open>Lemmas\<close>

lemma clock_key_less: "ClockKey a i < ClockKey b j \<longleftrightarrow> a < b \<or> (a = b \<and> i < j)"
  by (simp add: less_clock_key_def)

lemma clock_key_le: "ClockKey a i \<le> ClockKey b j \<longleftrightarrow> a < b \<or> (a = b \<and> i \<le> j)"
  by (simp add: less_eq_clock_key_def)

lemma ck_collapse: "ClockKey (ck_clock k) (ck_issuer k) = k"
  by simp

lemma record_delivered_pure [panic_simps]:
  "k \<notin> done_keys d \<Longrightarrow> record_delivered c k d = Some (d\<lparr>done_keys := insert k (done_keys d)\<rparr>)"
  by (simp add: record_delivered_def)

lemma is_crashed_pure [panic_simps]:
  "p < 32 \<Longrightarrow> is_crashed c d p = Some (bit (crashed_bits d) p)"
  by (simp add: is_crashed_def panic_simps and_push_bit_one_eq_0 flip: push_bit_of_1)

lemma mark_crashed_pure [panic_simps]:
  "p < 32 \<Longrightarrow> delivery_mark_crashed c p d =
     Some (d\<lparr>crashed_bits := crashed_bits d OR push_bit p 1\<rparr>)"
  by (simp add: delivery_mark_crashed_def panic_simps)

lemma unmark_crashed_pure [panic_simps]:
  "p < 32 \<Longrightarrow> delivery_unmark_crashed c p d =
     Some (d\<lparr>crashed_bits := crashed_bits d AND NOT (push_bit p 1)\<rparr>)"
  by (simp add: delivery_unmark_crashed_def panic_simps)

lemma bit_and_not_shl_one:
  "p < 32 \<Longrightarrow> bit (w AND NOT (push_bit p 1) :: 32 word) i \<longleftrightarrow> i \<noteq> p \<and> bit w i"
  using bit_shl_one [of p i] bit_imp_le_length [of w i]
  by (auto simp only: bit_and_iff bit_not_iff possible_bit_word)

text \<open>The total-order condition, bit by bit: every ring member not confirmed crashed has
  acknowledged.\<close>

lemma ready_TotalOrder_iff:
  assumes "valid_config c"
  shows "ready_to_deliver c d acks TotalOrder \<longleftrightarrow>
    (\<forall>i<RING_SIZE c. \<not> bit (crashed_bits d) i \<longrightarrow> bit acks i)"
proof -
  let ?m = "FULL_ACK c AND NOT (crashed_bits d)"
  have m: "bit ?m i \<longleftrightarrow> i < RING_SIZE c \<and> \<not> bit (crashed_bits d) i" for i
    using assms valid_configD(2) [OF assms] by (auto simp: bit_and_iff bit_not_iff bit_FULL_ACK)
  have "ready_to_deliver c d acks TotalOrder \<longleftrightarrow> (\<forall>i. bit (acks AND ?m) i = bit ?m i)"
    unfolding ready_to_deliver_def Let_def by (auto intro!: bit_word_eqI)
  then show ?thesis using m by (auto simp: bit_and_iff)
qed

lemma ready_TotalOrder_no_crash:
  "valid_config c \<Longrightarrow> crashed_bits d = 0 \<Longrightarrow>
     ready_to_deliver c d acks TotalOrder \<longleftrightarrow> (\<forall>i<RING_SIZE c. bit acks i)"
  by (simp add: ready_TotalOrder_iff)

end
