(* ===== verification/Recovery.thy ===== *)
theory Recovery
  imports Delivery
begin

text \<open>
  \<^verbatim>\<open>crates/trains-core/src/recovery.rs\<close>: the snapshot, report and plan records of the view
  change and the pure merge \<^verbatim>\<open>compute_recovery_plan\<close>. Arrays \<^verbatim>\<open>[Tick; RING_SIZE]\<close> are
  lists; their length is part of \<open>report_ok\<close>, as the array type fixes it in the source.
\<close>

record state_snapshot =
  ss_seen :: "tick list"
  ss_done_keys :: "clock_key set"
  ss_crashed_bits :: ack_bits
  ss_view_floor :: "tick list"
  ss_broadcast_seen :: "(proc_id \<times> nat) set"

record recovery_report =
  rr_seen :: "tick list"
  rr_issued :: "tick list"
  rr_done :: "clock_key set"
  rr_have :: "(clock_key, payload list) btm"

datatype recovery_action = RA_Deliver "payload list" | RA_Skip

record recovery_plan =
  actions :: "(clock_key, recovery_action) btm"
  boundary :: "tick list"

definition reissue_clock :: "recovery_plan \<Rightarrow> proc_id \<Rightarrow> tick option" where
  "reissue_clock p q = (if q < length (boundary p) then Some (sat_add64 (boundary p ! q) 1) else None)"

section \<open>The merge\<close>

text \<open>The first loop: the highest clock any survivor saw or issued, per issuer.\<close>

definition merge_report :: "config \<Rightarrow> recovery_report \<Rightarrow> tick list \<Rightarrow> tick list" where
  "merge_report c r b =
     map (\<lambda>q. let cand = max (rr_seen r ! q) (rr_issued r ! q)
              in if cand > b ! q then cand else b ! q) [0..<RING_SIZE c]"

definition merge_boundary :: "config \<Rightarrow> recovery_report list \<Rightarrow> tick list" where
  "merge_boundary c reports = fold (merge_report c) reports (replicate (RING_SIZE c) 0)"

text \<open>The inner loop: the union of the survivors' payloads for one key, first occurrence of
  each identity kept.\<close>

definition add_payload ::
    "payload \<Rightarrow> payload list \<times> (proc_id \<times> nat) set \<Rightarrow> payload list \<times> (proc_id \<times> nat) set" where
  "add_payload p = (\<lambda>(ps, ids).
     if payload_id p \<in> ids then (ps, ids) else (ps @ [p], insert (payload_id p) ids))"

definition have_of :: "clock_key \<Rightarrow> recovery_report \<Rightarrow> payload list" where
  "have_of k r = (case btm_get (rr_have r) k of None \<Rightarrow> [] | Some ps \<Rightarrow> ps)"

definition union_payloads :: "clock_key \<Rightarrow> recovery_report list \<Rightarrow> payload list" where
  "union_payloads k reports =
     fst (fold (\<lambda>r acc. fold add_payload (have_of k r) acc) reports ([], {}))"

definition plan_key ::
    "recovery_report list \<Rightarrow> clock_key \<Rightarrow> (clock_key, recovery_action) btm \<Rightarrow>
     (clock_key, recovery_action) btm" where
  "plan_key reports k acts =
     (if list_all (\<lambda>r. k \<in> rr_done r) reports then acts
      else let ps = union_payloads k reports
           in btm_insert k (if ps = [] then RA_Skip else RA_Deliver ps) acts)"

definition compute_recovery_plan :: "config \<Rightarrow> recovery_report list \<Rightarrow> recovery_plan" where
  "compute_recovery_plan c reports =
     (let b = merge_boundary c reports;
          acts = fold (\<lambda>q acts. fold (\<lambda>cl acts. plan_key reports (ClockKey cl q) acts)
                                  [1..<Suc (b ! q)] acts)
                   [0..<RING_SIZE c] []
      in \<lparr>actions = acts, boundary = b\<rparr>)"

definition report_ok :: "config \<Rightarrow> recovery_report \<Rightarrow> bool" where
  "report_ok c r \<longleftrightarrow> length (rr_seen r) = RING_SIZE c \<and> length (rr_issued r) = RING_SIZE c \<and>
     (\<forall>x\<in>set (rr_seen r). x \<le> u64_max) \<and> (\<forall>x\<in>set (rr_issued r). x \<le> u64_max) \<and>
     btm_ok (rr_have r)"

section \<open>The boundary\<close>

lemma length_merge_report [simp]: "length (merge_report c r b) = RING_SIZE c"
  by (simp add: merge_report_def)

lemma merge_report_nth:
  "q < RING_SIZE c \<Longrightarrow> merge_report c r b ! q = max (b ! q) (max (rr_seen r ! q) (rr_issued r ! q))"
  by (auto simp: merge_report_def Let_def max_def)

lemma length_fold_merge [simp]:
  "length b = RING_SIZE c \<Longrightarrow> length (fold (merge_report c) reports b) = RING_SIZE c"
  by (induction reports arbitrary: b) auto

lemma length_merge_boundary [simp]: "length (merge_boundary c reports) = RING_SIZE c"
  by (simp add: merge_boundary_def)

text \<open>Each component of the boundary is the maximum of zero and the survivors' candidates.\<close>

lemma fold_merge_nth:
  assumes "q < RING_SIZE c"
  shows "fold (merge_report c) reports b ! q =
    Max (insert (b ! q) ((\<lambda>r. max (rr_seen r ! q) (rr_issued r ! q)) ` set reports))"
proof (induction reports arbitrary: b)
  case (Cons r rs)
  let ?f = "\<lambda>r. max (rr_seen r ! q) (rr_issued r ! q)"
  have "Max (insert (max (b ! q) (?f r)) (?f ` set rs)) =
      Max (insert (b ! q) (insert (?f r) (?f ` set rs)))"
    by (cases "rs = []") (simp_all add: max.assoc)
  with Cons assms show ?case by (simp add: merge_report_nth)
qed simp

lemma merge_boundary_nth:
  "q < RING_SIZE c \<Longrightarrow> merge_boundary c reports ! q =
    Max (insert 0 ((\<lambda>r. max (rr_seen r ! q) (rr_issued r ! q)) ` set reports))"
  by (simp add: merge_boundary_def fold_merge_nth)

lemma merge_boundary_ge:
  assumes "q < RING_SIZE c" and "r \<in> set reports"
  shows "rr_seen r ! q \<le> merge_boundary c reports ! q"
    and "rr_issued r ! q \<le> merge_boundary c reports ! q"
proof -
  have "max (rr_seen r ! q) (rr_issued r ! q) \<le> merge_boundary c reports ! q"
    unfolding merge_boundary_nth [OF assms(1)] using assms(2) by (intro Max_ge) auto
  then show "rr_seen r ! q \<le> merge_boundary c reports ! q"
    and "rr_issued r ! q \<le> merge_boundary c reports ! q" by auto
qed

lemma merge_boundary_le:
  assumes "q < RING_SIZE c" and "\<And>r. r \<in> set reports \<Longrightarrow> rr_seen r ! q \<le> m \<and> rr_issued r ! q \<le> m"
  shows "merge_boundary c reports ! q \<le> m"
  unfolding merge_boundary_nth [OF assms(1)] using assms(2) by (subst Max_le_iff) auto

section \<open>The payload union\<close>

lemma fold_fold_concat: "fold (\<lambda>x. fold f (g x)) xs s = fold f (concat (map g xs)) s"
  by (induction xs arbitrary: s) auto

lemma union_payloads_alt:
  "union_payloads k reports = fst (fold add_payload (concat (map (have_of k) reports)) ([], {}))"
  by (simp add: union_payloads_def fold_fold_concat [symmetric])

definition payloads_inv :: "payload list \<times> (proc_id \<times> nat) set \<Rightarrow> bool" where
  "payloads_inv acc \<longleftrightarrow> snd acc = payload_id ` set (fst acc) \<and> distinct (map payload_id (fst acc))"

lemma add_payload_inv: "payloads_inv acc \<Longrightarrow> payloads_inv (add_payload p acc)"
  by (auto simp: payloads_inv_def add_payload_def split: prod.splits)

lemma add_payload_set:
  "set (fst acc) \<subseteq> set (fst (add_payload p acc))"
  "set (fst (add_payload p acc)) \<subseteq> insert p (set (fst acc))"
  by (auto simp: add_payload_def split: prod.splits)

lemma add_payload_ids:
  "payloads_inv acc \<Longrightarrow>
     payload_id ` set (fst (add_payload p acc)) = insert (payload_id p) (payload_id ` set (fst acc))"
  by (auto simp: payloads_inv_def add_payload_def split: prod.splits)

lemma fold_add_payload:
  assumes "payloads_inv acc"
  shows "payloads_inv (fold add_payload ps acc) \<and>
    set (fst (fold add_payload ps acc)) \<subseteq> set (fst acc) \<union> set ps \<and>
    payload_id ` set (fst (fold add_payload ps acc)) = payload_id ` (set (fst acc) \<union> set ps)"
  using assms
proof (induction ps arbitrary: acc)
  case (Cons p ps)
  show ?case
    using Cons.IH [OF add_payload_inv [OF Cons.prems, of p]] add_payload_set(2) [of p acc]
      add_payload_ids [OF Cons.prems, of p]
    by (auto simp: image_Un)
qed simp

lemma union_payloads_set:
  shows "distinct (map payload_id (union_payloads k reports))"
    and "set (union_payloads k reports) \<subseteq> (\<Union>r\<in>set reports. set (have_of k r))"
    and "payload_id ` set (union_payloads k reports) =
      payload_id ` (\<Union>r\<in>set reports. set (have_of k r))"
  using fold_add_payload [of "([], {})" "concat (map (have_of k) reports)"]
  by (simp_all add: union_payloads_alt payloads_inv_def)

lemma union_payloads_Nil: "union_payloads k reports = [] \<longleftrightarrow> (\<forall>r\<in>set reports. have_of k r = [])"
  using union_payloads_set(3) [of k reports] by auto

section \<open>The actions\<close>

text \<open>The keys the merge visits, in its visiting order.\<close>

definition plan_keys :: "config \<Rightarrow> tick list \<Rightarrow> clock_key list" where
  "plan_keys c b = concat (map (\<lambda>q. map (\<lambda>cl. ClockKey cl q) [1..<Suc (b ! q)]) [0..<RING_SIZE c])"

lemma set_plan_keys:
  "k \<in> set (plan_keys c b) \<longleftrightarrow>
     ck_issuer k < RING_SIZE c \<and> 1 \<le> ck_clock k \<and> ck_clock k \<le> b ! ck_issuer k"
  by (cases k) (force simp: plan_keys_def)

lemma actions_as_fold:
  "actions (compute_recovery_plan c reports) =
     fold (plan_key reports) (plan_keys c (merge_boundary c reports)) []"
  by (simp add: compute_recovery_plan_def Let_def plan_keys_def fold_fold_concat [symmetric]
      fold_map comp_def)

lemma boundary_plan [simp]: "boundary (compute_recovery_plan c reports) = merge_boundary c reports"
  by (simp add: compute_recovery_plan_def Let_def)

lemma plan_key_ok: "btm_ok acts \<Longrightarrow> btm_ok (plan_key reports j acts)"
  by (auto simp: plan_key_def Let_def intro: inv_intros)

lemma fold_plan_key_ok: "btm_ok acts \<Longrightarrow> btm_ok (fold (plan_key reports) ks acts)"
  by (induction ks arbitrary: acts) (auto simp: plan_key_ok)

lemma fold_plan_key_get:
  "btm_get (fold (plan_key reports) ks acts) k =
      (if k \<in> set ks \<and> \<not> (\<forall>r\<in>set reports. k \<in> rr_done r)
       then Some (if union_payloads k reports = [] then RA_Skip
                  else RA_Deliver (union_payloads k reports))
       else btm_get acts k)"
proof (induction ks arbitrary: acts)
  case (Cons j ks)
  show ?case
    unfolding fold_simps(2) o_apply Cons.IH
    by (auto simp: plan_key_def Let_def get_btm_insert list_all_iff)
qed simp

lemma plan_ok [inv_intros]: "btm_ok (actions (compute_recovery_plan c reports))"
  by (simp add: actions_as_fold fold_plan_key_ok)

text \<open>The plan, key by key: an action exactly for the keys within the boundary that some
  survivor has not processed, a delivery exactly when some survivor holds payloads.\<close>

lemma plan_lookup:
  "btm_get (actions (compute_recovery_plan c reports)) k =
     (if ck_issuer k < RING_SIZE c \<and> 1 \<le> ck_clock k \<and>
         ck_clock k \<le> merge_boundary c reports ! ck_issuer k \<and>
         \<not> (\<forall>r\<in>set reports. k \<in> rr_done r)
      then Some (if \<forall>r\<in>set reports. have_of k r = [] then RA_Skip
                 else RA_Deliver (union_payloads k reports))
      else None)"
  by (auto simp: actions_as_fold fold_plan_key_get set_plan_keys union_payloads_Nil)

end
