(* ===== verification/Node.thy ===== *)
theory Node
  imports Recovery
begin

text \<open>
  \<^verbatim>\<open>crates/trains-core/src/node.rs\<close> and the input and output types of \<^verbatim>\<open>lib.rs\<close>: the
  state machine of one ring participant. Every method is a function of the configuration
  and the state; a method that can panic returns an option. A \<^verbatim>\<open>&mut Vec<Output>\<close>
  argument is passed and returned.
\<close>

datatype node_input = TrainReceived train | LocalBroadcast "byte list" | Tick

datatype node_output = ForwardTrain train | Deliver "payload list" | DeclareCrash proc_id

definition DELIVERED_CACHE_CAP :: nat where
  "DELIVERED_CACHE_CAP = 1024"

record trains_node =
  node_id :: proc_id
  clocks :: clock_state
  delivery :: delivery_state
  next_issue_clock :: tick
  next_seq :: nat
  pending :: "payload list"
  parked :: "(clock_key, train) btm"
  broadcast_seen :: "(proc_id \<times> nat) set"
  delivered_cache :: "(clock_key, payload list) btm"
  view_floor :: "tick list"
  frozen :: bool

definition key_of :: "train \<Rightarrow> clock_key" where
  "key_of t = ClockKey (clock t) (issuer t)"

definition node_new :: "config \<Rightarrow> proc_id \<Rightarrow> delivery_mode \<Rightarrow> trains_node option" where
  "node_new c i m =
     (if i < RING_SIZE c then
        Some \<lparr>node_id = i, clocks = clock_new c, delivery = delivery_new m,
              next_issue_clock = 1, next_seq = 0, pending = [], parked = [],
              broadcast_seen = {}, delivered_cache = [],
              view_floor = replicate (RING_SIZE c) 0, frozen = False\<rparr>
      else None)"

definition seen_clocks :: "config \<Rightarrow> trains_node \<Rightarrow> tick list option" where
  "seen_clocks c n = those (map (\<lambda>q. last_seen (clocks n) q) [0..<RING_SIZE c])"

definition sort_payloads :: "payload list \<Rightarrow> payload list" where
  "sort_payloads ps = sort_key payload_id ps"

text \<open>\<^verbatim>\<open>broadcast_seen.insert((p.sender, p.seq))\<close> for every payload of a list.\<close>

definition note_payloads :: "payload list \<Rightarrow> trains_node \<Rightarrow> trains_node" where
  "note_payloads ps n = n\<lparr>broadcast_seen := broadcast_seen n \<union> payload_id ` set ps\<rparr>"

section \<open>Broadcast, issue\<close>

definition handle_broadcast :: "byte list \<Rightarrow> trains_node \<Rightarrow> trains_node \<times> node_output list" where
  "handle_broadcast bytes n =
     (let key = (node_id n, next_seq n)
      in if key \<in> broadcast_seen n then (n, [])
         else (n\<lparr>broadcast_seen := insert key (broadcast_seen n),
                 pending := pending n @ [\<lparr>sender = node_id n, seq = next_seq n, data = bytes\<rparr>],
                 next_seq := sat_add64 (next_seq n) 1\<rparr>, []))"

definition issue_new_train :: "config \<Rightarrow> trains_node \<Rightarrow> (trains_node \<times> train) option" where
  "issue_new_train c n = do {
     let n1 = note_payloads (pending n)
                (n\<lparr>next_issue_clock := sat_add64 (next_issue_clock n) 1, pending := []\<rparr>);
     t \<leftarrow> add_ack c (node_id n)
            \<lparr>issuer = node_id n, clock = next_issue_clock n, payloads = pending n, ack_bits = 0\<rparr>;
     Some (n1, t)
   }"

definition issue_initial_train :: "config \<Rightarrow> trains_node \<Rightarrow> (trains_node \<times> train) option" where
  "issue_initial_train c n = issue_new_train c n"

definition reissue_train :: "config \<Rightarrow> trains_node \<Rightarrow> (trains_node \<times> train) option" where
  "reissue_train c n = issue_new_train c n"

section \<open>Delivery\<close>

definition seen_clocks_advanced_enough :: "config \<Rightarrow> trains_node \<Rightarrow> clock_key \<Rightarrow> bool option" where
  "seen_clocks_advanced_enough c n key =
     all_opt (\<lambda>q. do {
       crashed \<leftarrow> is_crashed c (delivery n) q;
       if crashed then Some True
       else do { q_seen \<leftarrow> last_seen (clocks n) q; Some (\<not> q_seen < ck_clock key) }
     }) [0..<NUM_TRAINS c]"

definition is_deliverable :: "config \<Rightarrow> trains_node \<Rightarrow> clock_key \<Rightarrow> bool option" where
  "is_deliverable c n key =
     (if list_ex (\<lambda>p. p < key) (btm_keys (parked n)) then Some False
      else do {
        all_known \<leftarrow> all_opt (\<lambda>q. do {
          q_seen \<leftarrow> last_seen (clocks n) q;
          if q_seen = 0 then Some True
          else Some (list_all (\<lambda>cl. \<not> (ClockKey cl q < key \<and>
                       \<not> already_delivered (delivery n) (ClockKey cl q))) [1..<Suc q_seen])
        }) [0..<RING_SIZE c];
        if \<not> all_known then Some False
        else seen_clocks_advanced_enough c n key
      })"

text \<open>The eviction loop of \<^verbatim>\<open>cache_delivered\<close>: drop the smallest key while over the bound.\<close>

lemma btm_remove_hd_shorter: "length (btm_remove k ((k, v) # m)) < Suc (length m)"
  by (simp add: btm_remove_def less_Suc_eq_le)

function evict :: "nat \<Rightarrow> ('k, 'v) btm \<Rightarrow> ('k, 'v) btm" where
  "evict cap [] = []"
| "evict cap ((k, v) # m) =
     (if length ((k, v) # m) > cap then evict cap (btm_remove k ((k, v) # m)) else (k, v) # m)"
  by pat_completeness auto
termination
  by (relation "measure (\<lambda>(cap, m). length m)") (simp_all add: btm_remove_hd_shorter)

definition cache_delivered :: "clock_key \<Rightarrow> payload list \<Rightarrow> trains_node \<Rightarrow> trains_node" where
  "cache_delivered key ps n =
     (if ps = [] then n
      else n\<lparr>delivered_cache :=
               evict DELIVERED_CACHE_CAP (btm_insert key ps (delivered_cache n))\<rparr>)"

text \<open>The delivery both \<^verbatim>\<open>try_deliver\<close> and \<^verbatim>\<open>drain_parked\<close> perform once a key is in order:
  record it, and unless the train is empty cache and output its sorted payloads.\<close>

definition emit_delivery ::
    "config \<Rightarrow> clock_key \<Rightarrow> payload list \<Rightarrow> trains_node \<Rightarrow> node_output list \<Rightarrow>
     (trains_node \<times> node_output list) option" where
  "emit_delivery c key ps n outs = do {
     d \<leftarrow> record_delivered c key (delivery n);
     let n1 = n\<lparr>delivery := d\<rparr>;
     if ps = [] then Some (n1, outs)
     else Some (cache_delivered key ps n1, outs @ [Deliver (sort_payloads ps)])
   }"

definition try_deliver ::
    "config \<Rightarrow> train \<Rightarrow> trains_node \<Rightarrow> node_output list \<Rightarrow> (trains_node \<times> node_output list) option" where
  "try_deliver c t n outs =
     (if frozen n then Some (n, outs)
      else if \<not> ready_to_deliver c (delivery n) (ack_bits t) (mode (delivery n)) then Some (n, outs)
      else let key = key_of t
           in if already_delivered (delivery n) key then Some (n, outs)
              else do {
                ok \<leftarrow> is_deliverable c n key;
                if \<not> ok then Some (n\<lparr>parked := btm_or_insert key t (parked n)\<rparr>, outs)
                else emit_delivery c key (payloads t) n outs
              })"

lemma emit_delivery_parked:
  "emit_delivery c k ps n outs = Some (n', outs') \<Longrightarrow> parked n' = parked n"
  by (auto simp: emit_delivery_def cache_delivered_def bind_eq_Some_conv Let_def split: if_splits)

text \<open>The loop of \<^verbatim>\<open>drain_parked\<close>. It ends because each round removes a parked train.\<close>

function drain_loop ::
    "config \<Rightarrow> trains_node \<Rightarrow> node_output list \<Rightarrow> (trains_node \<times> node_output list) option" where
  "drain_loop c n outs =
     (case iter_min (btm_keys (parked n)) of
        None \<Rightarrow> Some (n, outs)
      | Some key \<Rightarrow> do {
          ok \<leftarrow> is_deliverable c n key;
          if \<not> ok then Some (n, outs)
          else do {
            t \<leftarrow> btm_get (parked n) key;
            r \<leftarrow> emit_delivery c key (payloads t) (n\<lparr>parked := btm_remove key (parked n)\<rparr>) outs;
            drain_loop c (fst r) (snd r)
          }
        })"
  by pat_completeness auto
termination
proof (relation "measure (\<lambda>(c, n, outs). length (parked n))", goal_cases)
  case 1
  then show ?case by simp
next
  case (2 c n outs key ok t r)
  have "parked (fst r) = btm_remove key (parked n)"
    using 2 emit_delivery_parked [of c key "payloads t" "n\<lparr>parked := btm_remove key (parked n)\<rparr>" outs
        "fst r" "snd r"] by simp
  moreover have "key \<in> set (btm_keys (parked n))"
    using 2(1) by (simp add: iter_min_Some)
  ultimately have "length (parked (fst r)) < length (parked n)"
    by (auto simp: btm_remove_def intro!: length_filter_less)
  then show ?case by (simp add: case_prod_beta)
qed

declare drain_loop.simps [simp del]

definition drain_parked ::
    "config \<Rightarrow> trains_node \<Rightarrow> node_output list \<Rightarrow> (trains_node \<times> node_output list) option" where
  "drain_parked c n outs = (if frozen n then Some (n, outs) else drain_loop c n outs)"

section \<open>Trains\<close>

definition handle_foreign_train ::
    "config \<Rightarrow> train \<Rightarrow> trains_node \<Rightarrow> (trains_node \<times> node_output list) option" where
  "handle_foreign_train c t n = do {
     prev_seen \<leftarrow> last_seen (clocks n) (issuer t);
     if prev_seen \<ge> clock t \<and> prev_seen > 0 then do {
       (n1, outs) \<leftarrow> try_deliver c t (note_payloads (payloads t) n) [];
       drain_parked c n1 (outs @ [ForwardTrain t])
     }
     else do {
       (cs, check) \<leftarrow> check_and_update c (issuer t) (clock t) (clocks n);
       let outs = (case check of Gap _ _ \<Rightarrow> [DeclareCrash (issuer t)] | _ \<Rightarrow> []);
       let t1 = t\<lparr>payloads := payloads t @ pending n\<rparr>;
       let n1 = note_payloads (payloads t1) (n\<lparr>clocks := cs, pending := []\<rparr>);
       t2 \<leftarrow> add_ack c (node_id n) t1;
       drain_parked c n1 (outs @ [ForwardTrain t2])
     }
   }"

definition handle_returning_train ::
    "config \<Rightarrow> train \<Rightarrow> trains_node \<Rightarrow> (trains_node \<times> node_output list) option" where
  "handle_returning_train c t n = do {
     (cs, _) \<leftarrow> check_and_update c (node_id n) (clock t) (clocks n);
     let n1 = n\<lparr>clocks := cs\<rparr>;
     if already_delivered (delivery n1) (key_of t) then do {
       (n2, t') \<leftarrow> issue_new_train c n1;
       Some (n2, [ForwardTrain t'])
     }
     else do {
       (n2, outs) \<leftarrow> try_deliver c t n1 [];
       (n3, outs') \<leftarrow> drain_parked c n2 outs;
       Some (n3, outs' @ [ForwardTrain t])
     }
   }"

definition handle_train ::
    "config \<Rightarrow> train \<Rightarrow> trains_node \<Rightarrow> (trains_node \<times> node_output list) option" where
  "handle_train c t n =
     (if issuer t < RING_SIZE c \<and> clock t \<le> view_floor n ! issuer t then Some (n, [])
      else if issuer t = node_id n then handle_returning_train c t n
      else handle_foreign_train c t n)"

definition handle_tick :: "trains_node \<Rightarrow> trains_node \<times> node_output list" where
  "handle_tick n = (n, [])"

fun step :: "config \<Rightarrow> node_input \<Rightarrow> trains_node \<Rightarrow> (trains_node \<times> node_output list) option" where
  "step c (LocalBroadcast bytes) n = Some (handle_broadcast bytes n)"
| "step c (TrainReceived t) n = handle_train c t n"
| "step c Tick n = Some (handle_tick n)"

section \<open>Crash confirmation and re-admission\<close>

definition mark_crashed :: "config \<Rightarrow> proc_id \<Rightarrow> trains_node \<Rightarrow> trains_node option" where
  "mark_crashed c p n = do { d \<leftarrow> delivery_mark_crashed c p (delivery n); Some (n\<lparr>delivery := d\<rparr>) }"

definition confirm_crash :: "config \<Rightarrow> proc_id \<Rightarrow> trains_node \<Rightarrow> (trains_node \<times> node_output list) option" where
  "confirm_crash c p n = do {
     d \<leftarrow> delivery_mark_crashed c p (delivery n);
     drain_parked c (n\<lparr>delivery := d\<rparr>) []
   }"

definition readmit_node :: "config \<Rightarrow> proc_id \<Rightarrow> trains_node \<Rightarrow> trains_node option" where
  "readmit_node c p n = do { d \<leftarrow> delivery_unmark_crashed c p (delivery n); Some (n\<lparr>delivery := d\<rparr>) }"

definition set_frozen :: "bool \<Rightarrow> trains_node \<Rightarrow> trains_node" where
  "set_frozen b n = n\<lparr>frozen := b\<rparr>"

section \<open>State transfer and view-change recovery\<close>

definition export_state :: "config \<Rightarrow> trains_node \<Rightarrow> state_snapshot option" where
  "export_state c n = do {
     s \<leftarrow> seen_clocks c n;
     Some \<lparr>ss_seen = s, ss_done_keys = done_keys (delivery n),
           ss_crashed_bits = crashed_bits (delivery n), ss_view_floor = view_floor n,
           ss_broadcast_seen = broadcast_seen n\<rparr>
   }"

definition import_state :: "state_snapshot \<Rightarrow> trains_node \<Rightarrow> trains_node option" where
  "import_state snap n = do {
     let slot = node_id n;
     if \<not> (slot < length (ss_seen snap) \<and> slot < length (ss_view_floor snap)) then None
     else do {
       let base = max (ss_seen snap ! slot) (ss_view_floor snap ! slot);
       Some (n\<lparr>clocks := clock_restore (clocks n) (ss_seen snap),
               delivery := delivery_restore (ss_done_keys snap) (ss_crashed_bits snap) (delivery n),
               view_floor := ss_view_floor snap,
               broadcast_seen := ss_broadcast_seen snap,
               next_issue_clock := sat_add64 base 1,
               frozen := False, pending := [], parked := [], delivered_cache := []\<rparr>)
     }
   }"

definition recovery_report :: "config \<Rightarrow> trains_node \<Rightarrow> recovery_report option" where
  "recovery_report c n = do {
     s \<leftarrow> seen_clocks c n;
     let issued = (replicate (RING_SIZE c) 0)[node_id n := next_issue_clock n - 1];
     let have1 = fold (\<lambda>(k, ps) h. if ps \<noteq> [] then btm_insert k ps h else h) (delivered_cache n) [];
     let have2 = fold (\<lambda>(k, t) h. if payloads t \<noteq> [] then btm_or_insert k (payloads t) h else h)
                   (parked n) have1;
     Some \<lparr>rr_seen = s, rr_issued = issued, rr_done = done_keys (delivery n), rr_have = have2\<rparr>
   }"

definition apply_action ::
    "config \<Rightarrow> clock_key \<times> recovery_action \<Rightarrow> trains_node \<times> node_output list \<Rightarrow>
     (trains_node \<times> node_output list) option" where
  "apply_action c = (\<lambda>(key, action) (n, outs). do {
     (cs, _) \<leftarrow> check_and_update c (ck_issuer key) (ck_clock key) (clocks n);
     let n1 = n\<lparr>clocks := cs, parked := btm_remove key (parked n)\<rparr>;
     if already_delivered (delivery n1) key then Some (n1, outs)
     else (case action of
         RA_Deliver ps \<Rightarrow> do {
           d \<leftarrow> record_delivered c key (delivery n1);
           let n2 = n1\<lparr>delivery := d\<rparr>;
           if ps = [] then Some (n2, outs)
           else Some (cache_delivered key ps (note_payloads ps n2),
                      outs @ [Deliver (sort_payloads ps)])
         }
       | RA_Skip \<Rightarrow> do {
           d \<leftarrow> record_delivered c key (delivery n1);
           Some (n1\<lparr>delivery := d\<rparr>, outs)
         })
   })"

definition raise_floor :: "config \<Rightarrow> tick list \<Rightarrow> tick list \<Rightarrow> tick list" where
  "raise_floor c b fl = map (\<lambda>q. if b ! q > fl ! q then b ! q else fl ! q) [0..<RING_SIZE c]"

definition apply_recovery ::
    "config \<Rightarrow> recovery_plan \<Rightarrow> trains_node \<Rightarrow> (trains_node \<times> node_output list) option" where
  "apply_recovery c plan n = do {
     (n1, outs) \<leftarrow> fold_opt (apply_action c) (actions plan) (n, []);
     let n2 = n1\<lparr>view_floor := raise_floor c (boundary plan) (view_floor n1)\<rparr>;
     want \<leftarrow> reissue_clock plan (node_id n2);
     let n3 = (if want > next_issue_clock n2 then n2\<lparr>next_issue_clock := want\<rparr> else n2);
     drain_parked c (n3\<lparr>frozen := False\<rparr>) outs
   }"

end
