(* ===== verification/Node_Inv.thy ===== *)
theory Node_Inv
  imports Node
begin

text \<open>
  The invariant of one node and what a step delivers. \<open>node_wf\<close> is the structural part
  (array lengths, machine bounds, consistency of the parked map with the delivered keys);
  \<open>node_ok\<close> adds that a node that is not frozen holds no deliverable parked train, which
  the drain at the end of every handler re-establishes. \<open>delivers\<close> is the relation
  between the node before and after a run of deliveries: every operation that delivers is
  shown to perform such a run, and order and completeness are proved once, on the relation.
\<close>

section \<open>Deliverability without the panic monad\<close>

definition known :: "config \<Rightarrow> trains_node \<Rightarrow> clock_key \<Rightarrow> bool" where
  "known c n k \<longleftrightarrow> ck_issuer k < RING_SIZE c \<and> 1 \<le> ck_clock k \<and>
     ck_clock k \<le> seen (clocks n) ! ck_issuer k"

definition deliverable :: "config \<Rightarrow> trains_node \<Rightarrow> clock_key \<Rightarrow> bool" where
  "deliverable c n k \<longleftrightarrow>
     (\<forall>j\<in>set (btm_keys (parked n)). k \<le> j) \<and>
     (\<forall>j. known c n j \<and> j < k \<longrightarrow> j \<in> done_keys (delivery n)) \<and>
     (\<forall>q<NUM_TRAINS c. bit (crashed_bits (delivery n)) q \<or> ck_clock k \<le> seen (clocks n) ! q)"

definition quiescent :: "config \<Rightarrow> trains_node \<Rightarrow> bool" where
  "quiescent c n \<longleftrightarrow> (\<forall>k\<in>set (btm_keys (parked n)). \<not> deliverable c n k)"

definition node_wf :: "config \<Rightarrow> trains_node \<Rightarrow> bool" where
  "node_wf c n \<longleftrightarrow>
     node_id n < RING_SIZE c \<and> clock_ok c (clocks n) \<and>
     btm_ok (parked n) \<and> btm_ok (delivered_cache n) \<and>
     length (delivered_cache n) \<le> DELIVERED_CACHE_CAP \<and>
     (\<forall>(k, t)\<in>set (parked n). key_of t = k \<and> known c n k \<and> k \<notin> done_keys (delivery n)) \<and>
     (\<forall>k\<in>done_keys (delivery n). known c n k) \<and>
     length (view_floor n) = RING_SIZE c \<and> (\<forall>x\<in>set (view_floor n). x \<le> u64_max) \<and>
     1 \<le> next_issue_clock n \<and> next_issue_clock n \<le> u64_max \<and> next_seq n \<le> u64_max"

definition node_ok :: "config \<Rightarrow> trains_node \<Rightarrow> bool" where
  "node_ok c n \<longleftrightarrow> node_wf c n \<and> (\<not> frozen n \<longrightarrow> quiescent c n)"

lemma node_wfD:
  assumes "node_wf c n"
  shows "node_id n < RING_SIZE c" "clock_ok c (clocks n)" "btm_ok (parked n)"
    "btm_ok (delivered_cache n)" "length (delivered_cache n) \<le> DELIVERED_CACHE_CAP"
    "\<And>k t. btm_get (parked n) k = Some t \<Longrightarrow>
       key_of t = k \<and> known c n k \<and> k \<notin> done_keys (delivery n)"
    "length (view_floor n) = RING_SIZE c" "next_issue_clock n \<le> u64_max"
    "1 \<le> next_issue_clock n" "\<And>k. k \<in> done_keys (delivery n) \<Longrightarrow> known c n k"
  using assms by (auto simp: node_wf_def dest: map_of_SomeD)

lemma node_okD:
  assumes "node_ok c n"
  shows "node_wf c n" "\<not> frozen n \<Longrightarrow> quiescent c n"
  using assms by (auto simp: node_ok_def)

lemma quiescentD: "quiescent c n \<Longrightarrow> k \<in> set (btm_keys (parked n)) \<Longrightarrow> \<not> deliverable c n k"
  by (simp only: quiescent_def) blast

lemma parked_keyE:
  assumes "k \<in> set (btm_keys (parked n))"
  obtains t where "btm_get (parked n) k = Some t"
  using assms by (cases "btm_get (parked n) k") (auto simp: map_of_eq_None_iff)

lemma gate_pure:
  assumes "valid_config c" and "clock_ok c (clocks n)"
  shows "seen_clocks_advanced_enough c n k =
    Some (\<forall>q<NUM_TRAINS c. bit (crashed_bits (delivery n)) q \<or> ck_clock k \<le> seen (clocks n) ! q)"
  (is "_ = Some ?r")
proof -
  have "seen_clocks_advanced_enough c n k = Some (\<forall>q\<in>set [0..<NUM_TRAINS c].
      bit (crashed_bits (delivery n)) q \<or> ck_clock k \<le> seen (clocks n) ! q)"
    unfolding seen_clocks_advanced_enough_def
    using assms valid_configD [OF assms(1)]
    by (intro all_opt_pure) (auto simp: panic_simps not_less)
  then show ?thesis by auto
qed

lemma is_deliverable_pure [panic_simps]:
  assumes "valid_config c" and ok: "clock_ok c (clocks n)"
  shows "is_deliverable c n k = Some (deliverable c n k)"
proof -
  let ?P = "\<lambda>q. \<forall>cl\<in>{1..seen (clocks n) ! q}.
      ClockKey cl q < k \<longrightarrow> ClockKey cl q \<in> done_keys (delivery n)"
  have known: "all_opt (\<lambda>q. do {
          q_seen \<leftarrow> last_seen (clocks n) q;
          if q_seen = 0 then Some True
          else Some (list_all (\<lambda>cl. \<not> (ClockKey cl q < k \<and>
                       \<not> already_delivered (delivery n) (ClockKey cl q))) [1..<Suc q_seen])
        }) [0..<RING_SIZE c] = Some (\<forall>q\<in>set [0..<RING_SIZE c]. ?P q)"
  proof (rule all_opt_pure, goal_cases)
    case (1 q)
    then show ?case using ok
      by (auto simp: panic_simps list_all_iff already_delivered_def simp del: upt_Suc)
  qed
  have "(\<forall>q\<in>set [0..<RING_SIZE c]. ?P q) \<longleftrightarrow>
      (\<forall>j. known c n j \<and> j < k \<longrightarrow> j \<in> done_keys (delivery n))" (is "?a = ?b")
  proof
    assume ?a
    then show ?b by (metis atLeastAtMost_iff atLeastLessThan_iff atLeastLessThan_upt
          clock_key.collapse known_def le0)
  qed (auto simp: known_def)
  moreover have "list_ex (\<lambda>p. p < k) (btm_keys (parked n)) \<longleftrightarrow>
      \<not> (\<forall>j\<in>set (btm_keys (parked n)). k \<le> j)"
    by (auto simp: list_ex_iff not_le)
  ultimately show ?thesis
    unfolding is_deliverable_def known deliverable_def
    by (simp add: gate_pure [OF assms])
qed

section \<open>One delivery\<close>

definition deliver_one :: "train \<Rightarrow> trains_node \<Rightarrow> trains_node" where
  "deliver_one t n = cache_delivered (key_of t) (payloads t)
     (n\<lparr>delivery := (delivery n)\<lparr>done_keys := insert (key_of t) (done_keys (delivery n))\<rparr>,
        parked := btm_remove (key_of t) (parked n)\<rparr>)"

definition deliver_out :: "train \<Rightarrow> node_output list" where
  "deliver_out t = (if payloads t = [] then [] else [Deliver (sort_payloads (payloads t))])"

lemma cache_delivered_simps [simp]:
  "node_id (cache_delivered k ps n) = node_id n"
  "clocks (cache_delivered k ps n) = clocks n"
  "delivery (cache_delivered k ps n) = delivery n"
  "next_issue_clock (cache_delivered k ps n) = next_issue_clock n"
  "next_seq (cache_delivered k ps n) = next_seq n"
  "pending (cache_delivered k ps n) = pending n"
  "parked (cache_delivered k ps n) = parked n"
  "broadcast_seen (cache_delivered k ps n) = broadcast_seen n"
  "view_floor (cache_delivered k ps n) = view_floor n"
  "frozen (cache_delivered k ps n) = frozen n"
  by (simp_all add: cache_delivered_def)

lemma deliver_one_simps [simp]:
  "node_id (deliver_one t n) = node_id n"
  "clocks (deliver_one t n) = clocks n"
  "mode (delivery (deliver_one t n)) = mode (delivery n)"
  "crashed_bits (delivery (deliver_one t n)) = crashed_bits (delivery n)"
  "done_keys (delivery (deliver_one t n)) = insert (key_of t) (done_keys (delivery n))"
  "next_issue_clock (deliver_one t n) = next_issue_clock n"
  "next_seq (deliver_one t n) = next_seq n"
  "pending (deliver_one t n) = pending n"
  "parked (deliver_one t n) = btm_remove (key_of t) (parked n)"
  "broadcast_seen (deliver_one t n) = broadcast_seen n"
  "view_floor (deliver_one t n) = view_floor n"
  "frozen (deliver_one t n) = frozen n"
  by (simp_all add: deliver_one_def)

lemma evict_spec:
  "btm_ok m \<Longrightarrow> btm_ok (evict cap m) \<and> length (evict cap m) \<le> cap \<and> suffix (evict cap m) m"
proof (induction cap m rule: evict.induct)
  case (2 cap k v m)
  have rem: "btm_remove k ((k, v) # m) = m"
    using 2(2) by (auto simp: btm_remove_def btm_ok_def filter_id_conv)
  have "btm_ok m" using 2(2) by (simp add: btm_ok_def)
  then show ?case
    using 2 by (cases "length ((k, v) # m) > cap") (simp_all add: rem suffix_ConsI)
qed simp

lemma cache_delivered_ok:
  assumes "btm_ok (delivered_cache n)" and "length (delivered_cache n) \<le> DELIVERED_CACHE_CAP"
  shows "btm_ok (delivered_cache (cache_delivered k ps n))"
    and "length (delivered_cache (cache_delivered k ps n)) \<le> DELIVERED_CACHE_CAP"
  using assms evict_spec [OF btm.ok_insert [OF assms(1)]] by (simp_all add: cache_delivered_def)

lemma known_cong: "clocks n' = clocks n \<Longrightarrow> known c n' = known c n"
  by (simp add: known_def fun_eq_iff)

lemma node_wf_deliver_one:
  assumes "node_wf c n" and "known c n (key_of t)"
  shows "node_wf c (deliver_one t n)"
proof -
  have "btm_ok (parked (deliver_one t n))" using assms by (simp add: node_wf_def btm.ok_remove)
  moreover have "\<forall>(k, s)\<in>set (parked (deliver_one t n)). key_of s = k \<and>
      known c (deliver_one t n) k \<and> k \<notin> done_keys (delivery (deliver_one t n))"
    using assms by (auto simp: node_wf_def btm_remove_def known_cong [of "deliver_one t n" n])
  moreover have "btm_ok (delivered_cache (deliver_one t n))"
    "length (delivered_cache (deliver_one t n)) \<le> DELIVERED_CACHE_CAP"
    unfolding deliver_one_def
    using node_wfD(4,5) [OF assms(1)] by (auto intro!: cache_delivered_ok)
  ultimately show ?thesis
    using assms by (simp add: node_wf_def known_cong [of "deliver_one t n" n])
qed

lemma emit_delivery_pure:
  assumes "key_of t \<notin> done_keys (delivery n)" and "btm_get (parked n) (key_of t) = None"
  shows "emit_delivery c (key_of t) (payloads t) n outs =
    Some (deliver_one t n, outs @ deliver_out t)"
proof -
  have "btm_remove (key_of t) (parked n) = parked n"
    using assms(2) by (force simp: btm_remove_def map_of_eq_None_iff intro!: filter_True)
  then show ?thesis
    using assms(1)
    by (auto simp: emit_delivery_def panic_simps deliver_one_def deliver_out_def
        cache_delivered_def Let_def)
qed

section \<open>Runs of deliveries\<close>

inductive delivers :: "config \<Rightarrow> trains_node \<Rightarrow> train list \<Rightarrow> trains_node \<Rightarrow> bool" for c where
  delivers_Nil: "delivers c n [] n"
| delivers_Cons: "known c n (key_of t) \<Longrightarrow> key_of t \<notin> done_keys (delivery n) \<Longrightarrow>
    deliverable c n (key_of t) \<Longrightarrow> delivers c (deliver_one t n) ts n' \<Longrightarrow>
    delivers c n (t # ts) n'"

inductive_cases delivers_ConsE: "delivers c n (t # ts) n'"
inductive_simps delivers_Nil_iff [simp]: "delivers c n [] n'"

definition deliver_outs :: "train list \<Rightarrow> node_output list" where
  "deliver_outs ts = concat (map deliver_out ts)"

lemma deliver_outs_simps [simp]:
  "deliver_outs [] = []" "deliver_outs (t # ts) = deliver_out t @ deliver_outs ts"
  "deliver_outs (ts @ us) = deliver_outs ts @ deliver_outs us"
  by (simp_all add: deliver_outs_def)

lemma delivers_append:
  "delivers c n ts n1 \<Longrightarrow> delivers c n1 us n2 \<Longrightarrow> delivers c n (ts @ us) n2"
  by (induction rule: delivers.induct) (auto intro: delivers.intros)

lemma delivers_frame:
  assumes "delivers c n ts n'"
  shows "node_id n' = node_id n" "clocks n' = clocks n"
    "mode (delivery n') = mode (delivery n)"
    "crashed_bits (delivery n') = crashed_bits (delivery n)"
    "next_issue_clock n' = next_issue_clock n" "next_seq n' = next_seq n"
    "pending n' = pending n" "broadcast_seen n' = broadcast_seen n"
    "view_floor n' = view_floor n" "frozen n' = frozen n"
  using assms by (induction rule: delivers.induct) simp_all

lemma delivers_done:
  "delivers c n ts n' \<Longrightarrow>
     done_keys (delivery n') = done_keys (delivery n) \<union> key_of ` set ts"
  by (induction rule: delivers.induct) auto

lemma delivers_parked:
  "delivers c n ts n' \<Longrightarrow> parked n' = filter (\<lambda>e. fst e \<notin> key_of ` set ts) (parked n)"
  by (induction rule: delivers.induct)
    (auto simp: btm_remove_def intro: filter_cong)

lemma delivers_wf: "delivers c n ts n' \<Longrightarrow> node_wf c n \<Longrightarrow> node_wf c n'"
  by (induction rule: delivers.induct) (auto intro: node_wf_deliver_one)

lemma delivers_known: "delivers c n ts n' \<Longrightarrow> t \<in> set ts \<Longrightarrow> known c n (key_of t)"
  by (induction rule: delivers.induct) (auto simp: known_cong [of "deliver_one _ _"])

lemma delivers_fresh: "delivers c n ts n' \<Longrightarrow> t \<in> set ts \<Longrightarrow> key_of t \<notin> done_keys (delivery n)"
  by (induction rule: delivers.induct) auto

text \<open>A run delivers keys in strictly ascending order: a known key below a deliverable one
  has been delivered already.\<close>

lemma delivers_ascending: "delivers c n ts n' \<Longrightarrow> sorted_wrt (<) (map key_of ts)"
proof (induction rule: delivers.induct)
  case (delivers_Cons n t ts n')
  have "key_of t < key_of s" if s: "s \<in> set ts" for s
  proof (rule ccontr)
    assume "\<not> key_of t < key_of s"
    moreover have "key_of s \<noteq> key_of t" "key_of s \<notin> done_keys (delivery n)"
      using delivers_fresh [OF delivers_Cons(4) s] by auto
    moreover have "known c n (key_of s)"
      using delivers_known [OF delivers_Cons(4) s] by (simp add: known_cong [of "deliver_one t n"])
    ultimately show False using delivers_Cons(3) by (auto simp: deliverable_def)
  qed
  with delivers_Cons show ?case by simp
qed simp

section \<open>The drain\<close>

text \<open>\<^verbatim>\<open>drain_parked\<close> neither panics nor stops early: on a well-formed node it performs a run
  of deliveries of parked trains, after which no parked train is deliverable.\<close>

lemma quiescent_min:
  assumes "\<not> deliverable c n k" and "k \<in> set (btm_keys (parked n))"
    and "\<forall>j\<in>set (btm_keys (parked n)). k \<le> j"
  shows "quiescent c n"
  unfolding quiescent_def
proof
  fix j assume j: "j \<in> set (btm_keys (parked n))"
  show "\<not> deliverable c n j"
  proof (cases "j = k")
    case False
    with j assms(3) have "\<not> j \<le> k" by force
    with assms(2) show ?thesis by (auto simp: deliverable_def)
  qed (use assms(1) in simp)
qed

lemma drain_loop_spec:
  assumes "valid_config c" and "node_wf c n"
  shows "\<exists>ts n'. drain_loop c n outs = Some (n', outs @ deliver_outs ts) \<and>
    delivers c n ts n' \<and> quiescent c n' \<and> set ts \<subseteq> snd ` set (parked n)"
  using assms
proof (induction "length (parked n)" arbitrary: n outs rule: less_induct)
  case less
  note wf = node_wfD [OF less.prems(2)]
  show ?case
  proof (cases "iter_min (btm_keys (parked n))")
    case None
    then show ?thesis
      by (intro exI [of _ "[]"] exI [of _ n]) (simp add: drain_loop.simps quiescent_def)
  next
    case (Some k)
    then have k: "k \<in> set (btm_keys (parked n))" "\<forall>j\<in>set (btm_keys (parked n)). k \<le> j"
      unfolding iter_min_Some by blast+
    obtain t where t: "btm_get (parked n) k = Some t" using k(1) by (rule parked_keyE)
    show ?thesis
    proof (cases "deliverable c n k")
      case False
      then have "quiescent c n" using k by (rule quiescent_min)
      with False Some show ?thesis
        by (intro exI [of _ "[]"] exI [of _ n])
          (simp add: drain_loop.simps is_deliverable_pure [OF less.prems(1) wf(2)])
    next
      case True
      have kt: "key_of t = k" "known c n k" "k \<notin> done_keys (delivery n)" using wf(6) [OF t] by auto
      let ?n0 = "n\<lparr>parked := btm_remove k (parked n)\<rparr>"
      let ?n1 = "deliver_one t n"
      have one: "deliver_one t ?n0 = ?n1"
        using kt by (simp add: deliver_one_def btm_remove_def cache_delivered_def)
      have emit: "emit_delivery c k (payloads t) ?n0 outs = Some (?n1, outs @ deliver_out t)"
        using emit_delivery_pure [of t ?n0 c outs] kt one by (simp add: get_btm_remove)
      have "length (parked ?n1) < length (parked n)"
        using k(1) kt by (auto simp: btm_remove_def intro!: length_filter_less)
      from less.hyps [OF this less.prems(1) node_wf_deliver_one [OF less.prems(2)],
          OF kt(2) [folded kt(1)], of "outs @ deliver_out t"]
      obtain ts n' where rest: "drain_loop c ?n1 (outs @ deliver_out t) =
            Some (n', (outs @ deliver_out t) @ deliver_outs ts)"
          "delivers c ?n1 ts n'" "quiescent c n'" "set ts \<subseteq> snd ` set (parked ?n1)" by blast
      have "drain_loop c n outs = drain_loop c ?n1 (outs @ deliver_out t)"
        by (subst drain_loop.simps)
          (simp add: Some True t emit is_deliverable_pure [OF less.prems(1) wf(2)])
      moreover have "delivers c n (t # ts) n'"
        using kt True rest(2) by (auto intro: delivers.intros)
      moreover have "set (t # ts) \<subseteq> snd ` set (parked n)"
        using rest(4) map_of_SomeD [OF t] by (force simp: btm_remove_def)
      ultimately show ?thesis
        using rest by (intro exI [of _ "t # ts"] exI [of _ n']) simp
    qed
  qed
qed

lemma drain_parked_spec:
  assumes "valid_config c" and "node_wf c n"
  obtains ts n' where "drain_parked c n outs = Some (n', outs @ deliver_outs ts)"
    "delivers c n ts n'" "node_ok c n'" "set ts \<subseteq> snd ` set (parked n)" "frozen n \<Longrightarrow> ts = []"
proof (cases "frozen n")
  case True
  then show ?thesis
    using that [of n "[]"] assms by (simp add: drain_parked_def node_ok_def)
next
  case False
  obtain ts n' where r: "drain_loop c n outs = Some (n', outs @ deliver_outs ts)"
      "delivers c n ts n'" "quiescent c n'" "set ts \<subseteq> snd ` set (parked n)"
    using drain_loop_spec [OF assms] by blast
  show ?thesis
    by (rule that [of n' ts])
      (use r False delivers_wf [OF r(2) assms(2)] in \<open>simp_all add: drain_parked_def node_ok_def\<close>)
qed

section \<open>The handlers\<close>

definition ready :: "config \<Rightarrow> train \<Rightarrow> trains_node \<Rightarrow> bool" where
  "ready c t n \<longleftrightarrow> ready_to_deliver c (delivery n) (ack_bits t) (mode (delivery n))"

text \<open>The train may be parked (when it is ready and not delivered yet), then a run of
  deliveries follows, of trains that were parked or of the incoming one.\<close>

definition maybe_park :: "config \<Rightarrow> train \<Rightarrow> trains_node \<Rightarrow> trains_node \<Rightarrow> bool" where
  "maybe_park c t n n1 \<longleftrightarrow> n1 = n \<or>
     (\<not> frozen n \<and> ready c t n \<and> key_of t \<notin> done_keys (delivery n) \<and>
      n1 = n\<lparr>parked := btm_or_insert (key_of t) t (parked n)\<rparr>)"

definition delivery_run ::
    "config \<Rightarrow> train \<Rightarrow> trains_node \<Rightarrow> train list \<Rightarrow> trains_node \<Rightarrow> bool" where
  "delivery_run c t n ts n' \<longleftrightarrow> (\<exists>n1. maybe_park c t n n1 \<and> delivers c n1 ts n') \<and>
     (\<forall>s\<in>set ts. s \<in> snd ` set (parked n) \<or> (s = t \<and> ready c t n)) \<and>
     (frozen n \<longrightarrow> ts = [])"

lemma delivery_run_frame:
  assumes "delivery_run c t n ts n'"
  shows "clocks n' = clocks n" "pending n' = pending n" "next_issue_clock n' = next_issue_clock n"
    "node_id n' = node_id n" "next_seq n' = next_seq n"
  using assms by (auto simp: delivery_run_def maybe_park_def delivers_frame)

lemma set_btm_or_insert: "set (btm_or_insert k v m) \<subseteq> insert (k, v) (set m)"
proof -
  have "set (btm_insert k v m) \<subseteq> insert (k, v) (set m)"
    by (induction k v m rule: btm_insert.induct) auto
  then show ?thesis by (auto simp: btm_or_insert_def split: option.splits)
qed

lemma set_maybe_park:
  "maybe_park c t n n1 \<Longrightarrow> s \<in> snd ` set (parked n1) \<Longrightarrow>
     s \<in> snd ` set (parked n) \<or> (s = t \<and> ready c t n)"
  using set_btm_or_insert [of "key_of t" t "parked n"] by (auto simp: maybe_park_def)

lemma maybe_park_wf:
  assumes "node_wf c n" and "known c n (key_of t)" and "maybe_park c t n n1"
  shows "node_wf c n1"
proof -
  have "known c (n\<lparr>parked := p\<rparr>) = known c n" for p by (rule known_cong) simp
  then show ?thesis
    using assms set_btm_or_insert [of "key_of t" t "parked n"]
    by (fastforce simp: maybe_park_def node_wf_def intro: btm_or_insert_ok)
qed

lemma parked_get_mem: "node_wf c n \<Longrightarrow> btm_get (parked n) k = None \<longleftrightarrow> k \<notin> set (btm_keys (parked n))"
  by (simp add: btm.get_none_iff node_wfD)

text \<open>\<^verbatim>\<open>try_deliver\<close> followed by \<^verbatim>\<open>drain_parked\<close>, as every handler composes them. The
  premise on the incoming key is what the invariant gives: a key that is both parked and
  deliverable does not occur on a node that is not frozen.\<close>

lemma try_deliver_spec:
  assumes c: "valid_config c" and wf: "node_wf c n" and k: "known c n (key_of t)"
    and blocked: "\<not> frozen n \<Longrightarrow> key_of t \<in> set (btm_keys (parked n)) \<Longrightarrow>
      \<not> deliverable c n (key_of t)"
  shows "\<exists>n1 n2 ts. try_deliver c t n outs = Some (n2, outs @ deliver_outs ts) \<and>
    maybe_park c t n n1 \<and> delivers c n1 ts n2 \<and>
    (ts = [] \<or> (\<not> frozen n \<and> ts = [t] \<and> ready c t n))"
proof -
  note del = is_deliverable_pure [OF c node_wfD(2) [OF wf]]
  show ?thesis
  proof (cases "frozen n \<or> \<not> ready c t n \<or> key_of t \<in> done_keys (delivery n)")
    case True
    then show ?thesis
      by (intro exI [of _ n] exI [of _ "[]"])
        (auto simp: try_deliver_def ready_def already_delivered_def Let_def maybe_park_def)
  next
    case False
    then have cond: "\<not> frozen n" "ready c t n" "key_of t \<notin> done_keys (delivery n)" by auto
    show ?thesis
    proof (cases "deliverable c n (key_of t)")
      case True
      then have "btm_get (parked n) (key_of t) = None"
        using blocked cond(1) by (auto simp: parked_get_mem [OF wf])
      then have "try_deliver c t n outs = Some (deliver_one t n, outs @ deliver_out t)"
        using cond True del
        by (simp add: try_deliver_def ready_def already_delivered_def emit_delivery_pure)
      moreover have "delivers c n [t] (deliver_one t n)"
        using cond True k by (auto intro: delivers.intros)
      ultimately show ?thesis
        using cond
        by (intro exI [of _ n] exI [of _ "deliver_one t n"] exI [of _ "[t]"])
          (simp add: maybe_park_def)
    next
      case False
      let ?n1 = "n\<lparr>parked := btm_or_insert (key_of t) t (parked n)\<rparr>"
      have "try_deliver c t n outs = Some (?n1, outs)"
        using cond False del by (simp add: try_deliver_def ready_def already_delivered_def)
      then show ?thesis
        using cond by (intro exI [of _ ?n1] exI [of _ "[]"]) (simp add: maybe_park_def)
    qed
  qed
qed

lemma try_drain_spec:
  assumes c: "valid_config c" and wf: "node_wf c n" and k: "known c n (key_of t)"
    and blocked: "\<not> frozen n \<Longrightarrow> key_of t \<in> set (btm_keys (parked n)) \<Longrightarrow>
      \<not> deliverable c n (key_of t)"
  shows "\<exists>n2 n' ts us. try_deliver c t n [] = Some (n2, deliver_outs ts) \<and>
    drain_parked c n2 (deliver_outs ts @ mid) = Some (n', deliver_outs ts @ mid @ deliver_outs us) \<and>
    delivery_run c t n (ts @ us) n' \<and> node_ok c n'"
proof -
  obtain n1 n2 ts where td: "try_deliver c t n [] = Some (n2, deliver_outs ts)"
      "maybe_park c t n n1" "delivers c n1 ts n2" "ts = [] \<or> (\<not> frozen n \<and> ts = [t] \<and> ready c t n)"
    using try_deliver_spec [OF assms, of "[]"] by auto
  note wf2 = delivers_wf [OF td(3) maybe_park_wf [OF wf k td(2)]]
  obtain us n' where dp: "drain_parked c n2 (deliver_outs ts @ mid) =
        Some (n', (deliver_outs ts @ mid) @ deliver_outs us)"
      "delivers c n2 us n'" "node_ok c n'" "set us \<subseteq> snd ` set (parked n2)" "frozen n2 \<Longrightarrow> us = []"
    using drain_parked_spec [OF c wf2] by metis
  have fr: "frozen n2 = frozen n"
    using td(2) delivers_frame(10) [OF td(3)] by (auto simp: maybe_park_def)
  have "set us \<subseteq> snd ` set (parked n1)"
    using dp(4) by (auto simp: delivers_parked [OF td(3)])
  then have "\<forall>s\<in>set (ts @ us). s \<in> snd ` set (parked n) \<or> (s = t \<and> ready c t n)"
    using td(4) set_maybe_park [OF td(2)] by auto
  moreover have "frozen n \<longrightarrow> ts @ us = []" using td(4) dp(5) fr by auto
  ultimately have "delivery_run c t n (ts @ us) n'"
    unfolding delivery_run_def using td(2) delivers_append [OF td(3) dp(2)] by blast
  then show ?thesis using td(1) dp(1,3) by auto
qed

text \<open>Operations that change only components the invariant does not read.\<close>

lemma note_payloads_simps [simp]:
  "node_id (note_payloads ps n) = node_id n" "clocks (note_payloads ps n) = clocks n"
  "delivery (note_payloads ps n) = delivery n" "parked (note_payloads ps n) = parked n"
  "next_issue_clock (note_payloads ps n) = next_issue_clock n"
  "next_seq (note_payloads ps n) = next_seq n" "pending (note_payloads ps n) = pending n"
  "delivered_cache (note_payloads ps n) = delivered_cache n"
  "view_floor (note_payloads ps n) = view_floor n" "frozen (note_payloads ps n) = frozen n"
  "broadcast_seen (note_payloads ps n) = broadcast_seen n \<union> payload_id ` set ps"
  by (simp_all add: note_payloads_def)

lemma deliverable_cong:
  "clocks n' = clocks n \<Longrightarrow> delivery n' = delivery n \<Longrightarrow> parked n' = parked n \<Longrightarrow>
     deliverable c n' = deliverable c n"
  by (simp add: deliverable_def known_cong [of n' n] fun_eq_iff)

lemma node_ok_cong:
  assumes "node_id n' = node_id n" "clocks n' = clocks n" "delivery n' = delivery n"
    "parked n' = parked n" "delivered_cache n' = delivered_cache n" "view_floor n' = view_floor n"
    "frozen n' = frozen n" "1 \<le> next_issue_clock n'" "next_issue_clock n' \<le> u64_max"
    "next_seq n' \<le> u64_max" "node_ok c n"
  shows "node_ok c n'"
  using assms deliverable_cong [of n' n c] known_cong [of n' n c]
  by (simp add: node_ok_def node_wf_def quiescent_def)

lemma note_payloads_ok: "node_ok c n \<Longrightarrow> node_ok c (note_payloads ps n)"
  by (rule node_ok_cong [of _ n]) (auto simp: node_ok_def node_wf_def)

text \<open>The vector entry of an issuer raised to a clock.\<close>

definition raise_seen :: "proc_id \<Rightarrow> tick \<Rightarrow> trains_node \<Rightarrow> trains_node" where
  "raise_seen q cl n = n\<lparr>clocks := (clocks n)\<lparr>seen := (seen (clocks n))[q := max (seen (clocks n) ! q) cl]\<rparr>\<rparr>"

lemma raise_seen_simps [simp]:
  "node_id (raise_seen q cl n) = node_id n" "delivery (raise_seen q cl n) = delivery n"
  "parked (raise_seen q cl n) = parked n" "next_issue_clock (raise_seen q cl n) = next_issue_clock n"
  "next_seq (raise_seen q cl n) = next_seq n" "pending (raise_seen q cl n) = pending n"
  "delivered_cache (raise_seen q cl n) = delivered_cache n"
  "view_floor (raise_seen q cl n) = view_floor n" "frozen (raise_seen q cl n) = frozen n"
  "broadcast_seen (raise_seen q cl n) = broadcast_seen n"
  by (simp_all add: raise_seen_def)

lemma clocks_raise_seen:
  "clocks (raise_seen q cl n) = (clocks n)\<lparr>seen := (seen (clocks n))[q := max (seen (clocks n) ! q) cl]\<rparr>"
  by (simp add: raise_seen_def)

lemma seen_raise_seen:
  assumes "clock_ok c (clocks n)" and "j < RING_SIZE c"
  shows "seen (clocks (raise_seen q cl n)) ! j =
    (if j = q then max (seen (clocks n) ! q) cl else seen (clocks n) ! j)"
  using assms by (auto simp: raise_seen_def clock_ok_def nth_list_update)

lemma raise_seen_same:
  "cl \<le> seen (clocks n) ! q \<Longrightarrow> raise_seen q cl n = n"
  by (simp add: raise_seen_def max_absorb1)

lemma known_raise_seen:
  assumes "clock_ok c (clocks n)"
  shows "known c n k \<Longrightarrow> known c (raise_seen q cl n) k"
    and "q < RING_SIZE c \<Longrightarrow> 1 \<le> cl \<Longrightarrow> known c (raise_seen q cl n) (ClockKey cl q)"
  using assms by (auto simp: known_def seen_raise_seen)

lemma node_wf_raise_seen:
  assumes "node_wf c n" and "cl \<le> u64_max" and "q < RING_SIZE c"
  shows "node_wf c (raise_seen q cl n)"
proof -
  have "clock_ok c (clocks (raise_seen q cl n))"
    unfolding raise_seen_def using assms clock_ok_seen [OF node_wfD(2) [OF assms(1)] assms(3)]
    by (auto intro!: clock_ok_update simp: node_wfD)
  then show ?thesis
    using assms(1) known_raise_seen(1) [OF node_wfD(2) [OF assms(1)]]
    by (auto simp: node_wf_def)
qed

lemma known_key_of:
  "known c n (key_of t) \<longleftrightarrow> issuer t < RING_SIZE c \<and> 1 \<le> clock t \<and> clock t \<le> seen (clocks n) ! issuer t"
  by (simp add: known_def key_of_def)

lemma seen_clocks_pure:
  assumes "node_wf c n"
  shows "seen_clocks c n = Some (seen (clocks n))"
proof -
  have ok: "clock_ok c (clocks n)" using assms by (rule node_wfD(2))
  have "those (map Some xs) = Some xs" for xs :: "tick list" by (induction xs) auto
  moreover have "map (last_seen (clocks n)) [0..<RING_SIZE c] = map Some (seen (clocks n))"
    using ok by (intro nth_equalityI) (auto simp: clock_ok_def last_seen_def)
  ultimately show ?thesis by (simp add: seen_clocks_def)
qed

end
