(* ===== verification/Node_Steps.thy ===== *)
theory Node_Steps
  imports Node_Inv
begin

text \<open>
  What each handler of \<^verbatim>\<open>node.rs\<close> does on a node that satisfies its invariant: it does not
  panic, it keeps the invariant, and its effect is the local update of the handler
  followed by a run of deliveries. \<open>step_cases\<close> collects the five ways a received train is
  handled; the ring, reference and recovery theories work from it.
\<close>

section \<open>Projections of the outputs\<close>

definition sends :: "node_output list \<Rightarrow> train list" where
  "sends outs = concat (map (\<lambda>out. case out of ForwardTrain t \<Rightarrow> [t] | _ \<Rightarrow> []) outs)"

definition batches :: "node_output list \<Rightarrow> payload list list" where
  "batches outs = concat (map (\<lambda>out. case out of Deliver ps \<Rightarrow> [ps] | _ \<Rightarrow> []) outs)"

definition declared :: "node_output list \<Rightarrow> proc_id list" where
  "declared outs = concat (map (\<lambda>out. case out of DeclareCrash p \<Rightarrow> [p] | _ \<Rightarrow> []) outs)"

definition batch_of :: "train \<Rightarrow> payload list list" where
  "batch_of t = (if payloads t = [] then [] else [sort_payloads (payloads t)])"

lemma sends_simps [simp]:
  "sends [] = []" "sends (xs @ ys) = sends xs @ sends ys"
  "sends (ForwardTrain t # xs) = t # sends xs" "sends (Deliver ps # xs) = sends xs"
  "sends (DeclareCrash p # xs) = sends xs"
  by (simp_all add: sends_def)

lemma batches_simps [simp]:
  "batches [] = []" "batches (xs @ ys) = batches xs @ batches ys"
  "batches (ForwardTrain t # xs) = batches xs" "batches (Deliver ps # xs) = ps # batches xs"
  "batches (DeclareCrash p # xs) = batches xs"
  by (simp_all add: batches_def)

lemma declared_simps [simp]:
  "declared [] = []" "declared (xs @ ys) = declared xs @ declared ys"
  "declared (ForwardTrain t # xs) = declared xs" "declared (Deliver ps # xs) = declared xs"
  "declared (DeclareCrash p # xs) = p # declared xs"
  by (simp_all add: declared_def)

lemma outs_deliver_outs [simp]:
  "sends (deliver_outs ts) = []" "declared (deliver_outs ts) = []"
  "batches (deliver_outs ts) = concat (map batch_of ts)"
  by (induction ts) (simp_all add: deliver_out_def batch_of_def)

section \<open>Pure forms of the handlers' local updates\<close>

text \<open>First lap at a foreign node: the train as forwarded, the node as updated.\<close>

definition load_train :: "trains_node \<Rightarrow> train \<Rightarrow> train" where
  "load_train n t = t\<lparr>payloads := payloads t @ pending n,
     ack_bits := ack_bits t OR push_bit (node_id n) 1\<rparr>"

definition load_node :: "train \<Rightarrow> trains_node \<Rightarrow> trains_node" where
  "load_node t n = note_payloads (payloads t @ pending n)
     ((raise_seen (issuer t) (clock t) n)\<lparr>pending := []\<rparr>)"

definition gap_outs :: "train \<Rightarrow> trains_node \<Rightarrow> node_output list" where
  "gap_outs t n = (if Suc (seen (clocks n) ! issuer t) < clock t then [DeclareCrash (issuer t)] else [])"

lemma outs_gap_outs [simp]: "sends (gap_outs t n) = []" "batches (gap_outs t n) = []"
  by (simp_all add: gap_outs_def)

definition fresh_train :: "trains_node \<Rightarrow> train" where
  "fresh_train n = \<lparr>issuer = node_id n, clock = next_issue_clock n, payloads = pending n,
     ack_bits = push_bit (node_id n) 1\<rparr>"

definition issue_node :: "trains_node \<Rightarrow> trains_node" where
  "issue_node n = note_payloads (pending n)
     (n\<lparr>next_issue_clock := sat_add64 (next_issue_clock n) 1, pending := []\<rparr>)"

lemma load_node_simps [simp]:
  "node_id (load_node t n) = node_id n" "delivery (load_node t n) = delivery n"
  "clocks (load_node t n) = clocks (raise_seen (issuer t) (clock t) n)"
  "parked (load_node t n) = parked n" "next_issue_clock (load_node t n) = next_issue_clock n"
  "next_seq (load_node t n) = next_seq n" "pending (load_node t n) = []"
  "delivered_cache (load_node t n) = delivered_cache n"
  "view_floor (load_node t n) = view_floor n" "frozen (load_node t n) = frozen n"
  "broadcast_seen (load_node t n) = broadcast_seen n \<union> payload_id ` set (payloads t @ pending n)"
  by (simp_all add: load_node_def raise_seen_def)

lemma issue_node_simps [simp]:
  "node_id (issue_node n) = node_id n" "delivery (issue_node n) = delivery n"
  "clocks (issue_node n) = clocks n" "parked (issue_node n) = parked n"
  "next_issue_clock (issue_node n) = sat_add64 (next_issue_clock n) 1"
  "next_seq (issue_node n) = next_seq n" "pending (issue_node n) = []"
  "delivered_cache (issue_node n) = delivered_cache n"
  "view_floor (issue_node n) = view_floor n" "frozen (issue_node n) = frozen n"
  "broadcast_seen (issue_node n) = broadcast_seen n \<union> payload_id ` set (pending n)"
  by (simp_all add: issue_node_def)

lemma id_small: "valid_config c \<Longrightarrow> node_wf c n \<Longrightarrow> node_id n < 32"
  using valid_configD(2) [of c] node_wfD(1) [of c n] by auto

lemma issue_new_train_pure:
  assumes "valid_config c" and "node_wf c n"
  shows "issue_new_train c n = Some (issue_node n, fresh_train n)"
  using id_small [OF assms]
  by (simp add: issue_new_train_def panic_simps issue_node_def fresh_train_def Let_def)

lemma issue_node_ok: "node_ok c n \<Longrightarrow> node_ok c (issue_node n)"
  using sat_add64_ge [of "next_issue_clock n" 1]
  by (intro node_ok_cong [of "issue_node n" n]) (auto simp: node_ok_def node_wf_def sat_add64_le)

lemma load_node_wf:
  assumes "node_wf c n" and "issuer t < RING_SIZE c" and "clock t \<le> u64_max"
  shows "node_wf c (load_node t n)"
  using node_wf_raise_seen [OF assms(1,3,2)] known_cong [of "load_node t n" "raise_seen (issuer t) (clock t) n" c]
  by (simp add: node_wf_def)

section \<open>Foreign trains\<close>

lemma handle_foreign_replay:
  assumes c: "valid_config c" and ok: "node_ok c n" and i: "issuer t < RING_SIZE c"
    and cl: "1 \<le> clock t" "clock t \<le> seen (clocks n) ! issuer t"
  shows "\<exists>n' ts us. handle_foreign_train c t n =
      Some (n', deliver_outs ts @ [ForwardTrain t] @ deliver_outs us) \<and>
    delivery_run c t (note_payloads (payloads t) n) (ts @ us) n' \<and> node_ok c n'"
proof -
  let ?n = "note_payloads (payloads t) n"
  have ok': "node_ok c ?n" using ok by (rule note_payloads_ok)
  note wf = node_okD(1) [OF ok']
  have known: "known c ?n (key_of t)" using i cl by (simp add: known_key_of)
  have "\<not> deliverable c ?n (key_of t)"
    if "\<not> frozen ?n" "key_of t \<in> set (btm_keys (parked ?n))"
    using node_okD(2) [OF ok' that(1)] that(2) by (rule quiescentD)
  from try_drain_spec [OF c wf known this, of "[ForwardTrain t]"]
  obtain n2 n' ts us where "try_deliver c t ?n [] = Some (n2, deliver_outs ts)"
    "drain_parked c n2 (deliver_outs ts @ [ForwardTrain t]) =
       Some (n', deliver_outs ts @ [ForwardTrain t] @ deliver_outs us)"
    "delivery_run c t ?n (ts @ us) n'" "node_ok c n'" by blast
  moreover have "last_seen (clocks n) (issuer t) = Some (seen (clocks n) ! issuer t)"
    using i node_wfD(2) [OF wf] by (simp add: panic_simps)
  ultimately show ?thesis using cl by (auto simp: handle_foreign_train_def)
qed

lemma handle_foreign_first_eq:
  assumes c: "valid_config c" and wf: "node_wf c n" and i: "issuer t < RING_SIZE c"
    and cl: "seen (clocks n) ! issuer t < clock t" "clock t \<le> u64_max"
  shows "handle_foreign_train c t n =
    drain_parked c (load_node t n) (gap_outs t n @ [ForwardTrain (load_train n t)])"
proof -
  have gap: "(case clock_verdict (seen (clocks n) ! issuer t) (clock t) of
      Gap _ _ \<Rightarrow> [DeclareCrash (issuer t)] | _ \<Rightarrow> []) = gap_outs t n"
    using cl by (auto simp: clock_verdict_def gap_outs_def)
  show ?thesis
    using cl i node_wfD(2) [OF wf] id_small [OF c wf]
    by (simp add: handle_foreign_train_def panic_simps gap [symmetric] load_node_def load_train_def
        raise_seen_def Let_def)
qed

lemma handle_foreign_first:
  assumes c: "valid_config c" and ok: "node_ok c n" and i: "issuer t < RING_SIZE c"
    and cl: "seen (clocks n) ! issuer t < clock t" "clock t \<le> u64_max"
  shows "\<exists>n' ts. handle_foreign_train c t n =
      Some (n', gap_outs t n @ [ForwardTrain (load_train n t)] @ deliver_outs ts) \<and>
    delivers c (load_node t n) ts n' \<and> set ts \<subseteq> snd ` set (parked n) \<and>
    (frozen n \<longrightarrow> ts = []) \<and> node_ok c n'"
proof -
  note wf = node_okD(1) [OF ok]
  obtain ts n' where dp: "drain_parked c (load_node t n) (gap_outs t n @ [ForwardTrain (load_train n t)]) =
        Some (n', (gap_outs t n @ [ForwardTrain (load_train n t)]) @ deliver_outs ts)"
      "delivers c (load_node t n) ts n'" "node_ok c n'" "set ts \<subseteq> snd ` set (parked (load_node t n))"
      "frozen (load_node t n) \<Longrightarrow> ts = []"
    using drain_parked_spec [OF c load_node_wf [OF wf i cl(2)]] by metis
  then show ?thesis by (auto simp: handle_foreign_first_eq [OF c wf i cl])
qed

section \<open>Returning trains\<close>

lemma raise_seen_done:
  assumes "node_wf c n" and "key_of t \<in> done_keys (delivery n)"
  shows "raise_seen (issuer t) (clock t) n = n"
  using node_wfD(10) [OF assms] by (intro raise_seen_same) (simp add: known_key_of)

lemma handle_returning_recycle:
  assumes c: "valid_config c" and ok: "node_ok c n" and i: "issuer t = node_id n"
    and cl: "clock t \<le> u64_max" and don: "key_of t \<in> done_keys (delivery n)"
  shows "handle_returning_train c t n =
    Some (issue_node n, [ForwardTrain (fresh_train n)])"
proof -
  note wf = node_okD(1) [OF ok]
  have "check_and_update c (node_id n) (clock t) (clocks n) =
      Some (clocks n, clock_verdict (seen (clocks n) ! node_id n) (clock t))"
    using arg_cong [OF raise_seen_done [OF wf don], of clocks] cl node_wfD [OF wf] i
    by (simp add: panic_simps clocks_raise_seen)
  then show ?thesis
    using don issue_new_train_pure [OF c wf]
    by (simp add: handle_returning_train_def already_delivered_def Let_def)
qed

lemma handle_returning_first:
  assumes c: "valid_config c" and ok: "node_ok c n" and i: "issuer t = node_id n"
    and cl: "1 \<le> clock t" "clock t \<le> u64_max" and don: "key_of t \<notin> done_keys (delivery n)"
  shows "\<exists>n' ts us. handle_returning_train c t n =
      Some (n', deliver_outs ts @ deliver_outs us @ [ForwardTrain t]) \<and>
    delivery_run c t (raise_seen (node_id n) (clock t) n) (ts @ us) n' \<and> node_ok c n'"
proof -
  let ?n = "raise_seen (node_id n) (clock t) n"
  note wf = node_okD(1) [OF ok]
  note idn = node_wfD(1) [OF wf]
  note wf' = node_wf_raise_seen [OF wf cl(2) idn]
  have known: "known c ?n (key_of t)"
    using known_raise_seen(2) [OF node_wfD(2) [OF wf] idn cl(1)] i by (simp add: key_of_def)
  have "\<not> deliverable c ?n (key_of t)"
    if fr: "\<not> frozen ?n" and p: "key_of t \<in> set (btm_keys (parked ?n))"
  proof -
    have "key_of t \<in> set (btm_keys (parked n))" using p by simp
    then obtain s where "btm_get (parked n) (key_of t) = Some s" by (rule parked_keyE)
    then have "clock t \<le> seen (clocks n) ! node_id n"
      using node_wfD(6) [OF wf] i by (metis known_key_of)
    then have "?n = n" by (rule raise_seen_same)
    then show ?thesis using quiescentD [of c n] node_okD(2) [OF ok] fr p by metis
  qed
  from try_drain_spec [OF c wf' known this, of "[]"]
  obtain n2 n' ts us where td: "try_deliver c t ?n [] = Some (n2, deliver_outs ts)"
    "drain_parked c n2 (deliver_outs ts @ []) = Some (n', deliver_outs ts @ [] @ deliver_outs us)"
    "delivery_run c t ?n (ts @ us) n'" "node_ok c n'" by blast
  have "check_and_update c (node_id n) (clock t) (clocks n) =
      Some (clocks ?n, clock_verdict (seen (clocks n) ! node_id n) (clock t))"
    using cl idn node_wfD(2) [OF wf] by (simp add: panic_simps raise_seen_def)
  then have "handle_returning_train c t n =
      Some (n', deliver_outs ts @ deliver_outs us @ [ForwardTrain t])"
    using td don
    by (simp add: handle_returning_train_def already_delivered_def raise_seen_def Let_def)
  with td show ?thesis by blast
qed

section \<open>One received train\<close>

text \<open>The five ways \<^verbatim>\<open>handle_train\<close> treats a train of a ring member: fenced by the view
  floor, replayed, seen for the first time, returned to its issuer undelivered, returned
  delivered.\<close>

lemma step_cases [consumes 4, case_names fenced replay first recycle return]:
  assumes c: "valid_config c" and ok: "node_ok c n" and i: "issuer t < RING_SIZE c"
    and cl: "clock t \<le> u64_max"
  obtains
    (fenced) "clock t \<le> view_floor n ! issuer t" "step c (TrainReceived t) n = Some (n, [])"
  | (replay) n' ts us where "issuer t \<noteq> node_id n" "view_floor n ! issuer t < clock t"
      "clock t \<le> seen (clocks n) ! issuer t"
      "step c (TrainReceived t) n = Some (n', deliver_outs ts @ [ForwardTrain t] @ deliver_outs us)"
      "delivery_run c t (note_payloads (payloads t) n) (ts @ us) n'" "node_ok c n'"
  | (first) n' ts where "issuer t \<noteq> node_id n" "view_floor n ! issuer t < clock t"
      "seen (clocks n) ! issuer t < clock t"
      "step c (TrainReceived t) n =
         Some (n', gap_outs t n @ [ForwardTrain (load_train n t)] @ deliver_outs ts)"
      "delivers c (load_node t n) ts n'" "set ts \<subseteq> snd ` set (parked n)"
      "frozen n \<Longrightarrow> ts = []" "node_ok c n'"
  | (recycle) "issuer t = node_id n" "view_floor n ! issuer t < clock t"
      "key_of t \<in> done_keys (delivery n)"
      "step c (TrainReceived t) n = Some (issue_node n, [ForwardTrain (fresh_train n)])"
  | (return) n' ts us where "issuer t = node_id n" "view_floor n ! issuer t < clock t"
      "key_of t \<notin> done_keys (delivery n)"
      "step c (TrainReceived t) n = Some (n', deliver_outs ts @ deliver_outs us @ [ForwardTrain t])"
      "delivery_run c t (raise_seen (node_id n) (clock t) n) (ts @ us) n'" "node_ok c n'"
proof (cases "clock t \<le> view_floor n ! issuer t")
  case True
  then show ?thesis using fenced i by (simp add: handle_train_def)
next
  case False
  then have fl: "view_floor n ! issuer t < clock t" "1 \<le> clock t" by auto
  show ?thesis
  proof (cases "issuer t = node_id n")
    case True
    then have st: "step c (TrainReceived t) n = handle_returning_train c t n"
      using False by (simp add: handle_train_def)
    show ?thesis
    proof (cases "key_of t \<in> done_keys (delivery n)")
      case d: True
      show ?thesis
        by (rule recycle [OF True fl(1) d]) (simp only: st handle_returning_recycle [OF c ok True cl d])
    next
      case d: False
      from handle_returning_first [OF c ok True fl(2) cl d] show ?thesis
        using return [OF True fl(1) d] st by metis
    qed
  next
    case foreign: False
    then have st: "step c (TrainReceived t) n = handle_foreign_train c t n"
      using False by (simp add: handle_train_def)
    show ?thesis
    proof (cases "clock t \<le> seen (clocks n) ! issuer t")
      case s: True
      from handle_foreign_replay [OF c ok i fl(2) s] show ?thesis
        using replay [OF foreign fl(1) s] st by metis
    next
      case s: False
      then have s': "seen (clocks n) ! issuer t < clock t" by simp
      from handle_foreign_first [OF c ok i s' cl] show ?thesis
        using first [OF foreign fl(1) s'] st by metis
    qed
  qed
qed

section \<open>Runs\<close>

text \<open>Feeding a list of inputs, collecting the outputs of each step.\<close>

fun run_node ::
    "(node_input \<Rightarrow> 's \<Rightarrow> ('s \<times> node_output list) option) \<Rightarrow> node_input list \<Rightarrow> 's \<Rightarrow>
     ('s \<times> node_output list list) option" where
  "run_node st [] s = Some (s, [])"
| "run_node st (inp # inps) s = do {
     (s1, outs) \<leftarrow> st inp s;
     (s2, rest) \<leftarrow> run_node st inps s1;
     Some (s2, outs # rest)
   }"

section \<open>No panic, invariant\<close>

fun input_ok :: "config \<Rightarrow> node_input \<Rightarrow> bool" where
  "input_ok c (TrainReceived t) \<longleftrightarrow> issuer t < RING_SIZE c \<and> clock t \<le> u64_max"
| "input_ok c (LocalBroadcast bs) \<longleftrightarrow> True"
| "input_ok c Tick \<longleftrightarrow> True"

lemma recv_next_seq:
  assumes c: "valid_config c" and ok: "node_ok c n" and t: "issuer t < RING_SIZE c" "clock t \<le> u64_max"
    and st: "step c (TrainReceived t) n = Some (n', outs)"
  shows "next_seq n' = next_seq n"
  using c ok t
proof (cases rule: step_cases)
  case (first n1 ts)
  then show ?thesis using st delivers_frame(6) [OF first(5)] by simp
qed (use st in \<open>auto dest: delivery_run_frame(5)\<close>)

lemma node_new_ok:
  assumes "node_new c i m = Some n"
  shows "node_ok c n"
  using assms
  by (auto simp: node_new_def node_ok_def node_wf_def quiescent_def clock_ok_new u64_max_def
      DELIVERED_CACHE_CAP_def delivery_new_def split: if_splits)

lemma handle_broadcast_ok: "node_ok c n \<Longrightarrow> node_ok c (fst (handle_broadcast bs n))"
  by (rule node_ok_cong [of _ n])
    (auto simp: handle_broadcast_def Let_def sat_add64_le node_ok_def node_wf_def)

lemma step_ok:
  assumes c: "valid_config c" and ok: "node_ok c n" and inp: "input_ok c inp"
  shows "\<exists>n' outs. step c inp n = Some (n', outs) \<and> node_ok c n'"
proof (cases inp)
  case (TrainReceived t)
  then have t: "issuer t < RING_SIZE c" "clock t \<le> u64_max" using inp by auto
  show ?thesis
    using c ok t
  proof (cases rule: step_cases)
    case recycle
    then show ?thesis using TrainReceived ok issue_node_ok by simp
  qed (use TrainReceived ok in simp_all)
next
  case (LocalBroadcast bs)
  then show ?thesis
    using handle_broadcast_ok [OF ok, of bs] by (cases "handle_broadcast bs n") simp
next
  case Tick
  then show ?thesis using ok by (simp add: handle_tick_def)
qed

text \<open>Without the fence a train of an issuer outside the ring reaches an array access.\<close>

lemma step_out_of_ring:
  assumes "valid_config c" and "node_ok c n" and "RING_SIZE c \<le> issuer t"
  shows "step c (TrainReceived t) n = None"
proof -
  have "last_seen (clocks n) (issuer t) = None"
    using assms last_seen_panics node_wfD(2) [OF node_okD(1) [OF assms(2)]] by blast
  moreover have "issuer t \<noteq> node_id n"
    using assms(3) node_wfD(1) [OF node_okD(1) [OF assms(2)]] by auto
  ultimately show ?thesis using assms(3) by (simp add: handle_train_def handle_foreign_train_def)
qed

section \<open>Order of the deliveries of a step\<close>

lemma delivery_run_order:
  assumes "delivery_run c t n ts n'"
  shows "sorted_wrt (<) (map key_of ts)"
    "done_keys (delivery n') = done_keys (delivery n) \<union> key_of ` set ts"
    "key_of ` set ts \<inter> done_keys (delivery n) = {}"
proof -
  obtain n1 where n1: "maybe_park c t n n1" "delivers c n1 ts n'"
    using assms by (auto simp: delivery_run_def)
  have "delivery n1 = delivery n" using n1(1) by (auto simp: maybe_park_def)
  then show "sorted_wrt (<) (map key_of ts)"
    "done_keys (delivery n') = done_keys (delivery n) \<union> key_of ` set ts"
    "key_of ` set ts \<inter> done_keys (delivery n) = {}"
    using delivers_ascending [OF n1(2)] delivers_done [OF n1(2)] delivers_fresh [OF n1(2)] by auto
qed

lemma step_deliveries:
  assumes c: "valid_config c" and ok: "node_ok c n" and inp: "input_ok c inp"
    and st: "step c inp n = Some (n', outs)"
  shows "\<exists>ts. batches outs = concat (map batch_of ts) \<and> sorted_wrt (<) (map key_of ts) \<and>
    done_keys (delivery n') = done_keys (delivery n) \<union> key_of ` set ts \<and>
    key_of ` set ts \<inter> done_keys (delivery n) = {} \<and> (frozen n \<longrightarrow> ts = [])"
proof (cases inp)
  case (TrainReceived t)
  then have t: "issuer t < RING_SIZE c" "clock t \<le> u64_max" using inp by auto
  show ?thesis
    using c ok t
  proof (cases rule: step_cases)
    case (replay m ts us)
    then show ?thesis
      using TrainReceived st delivery_run_order [OF replay(5)]
      by (intro exI [of _ "ts @ us"]) (auto simp: delivery_run_def)
  next
    case (first m ts)
    then show ?thesis
      using TrainReceived st delivers_ascending [OF first(5)] delivers_done [OF first(5)]
        delivers_fresh [OF first(5)]
      by (intro exI [of _ ts]) auto
  next
    case (return m ts us)
    then show ?thesis
      using TrainReceived st delivery_run_order [OF return(5)]
      by (intro exI [of _ "ts @ us"]) (auto simp: delivery_run_def)
  qed (use TrainReceived st in \<open>auto intro!: exI [of _ "[]"]\<close>)
next
  case (LocalBroadcast bs)
  then show ?thesis
    using st by (auto simp: handle_broadcast_def Let_def intro!: exI [of _ "[]"] split: if_splits)
next
  case Tick
  then show ?thesis using st by (auto simp: handle_tick_def intro!: exI [of _ "[]"])
qed

section \<open>Properties of one node\<close>

text \<open>A small configuration, and a node that has issued a train, for the witnesses.\<close>

definition cfg2 :: config where
  "cfg2 = \<lparr>RING_SIZE = 2, NUM_TRAINS = 1, checks = True\<rparr>"

definition demo_payload :: payload where
  "demo_payload = \<lparr>sender = 0, seq = 0, data = [7]\<rparr>"

definition demo_train :: "ack_bits \<Rightarrow> train" where
  "demo_train b = \<lparr>issuer = 0, clock = 1, payloads = [demo_payload], ack_bits = b\<rparr>"

lemma cfg2_valid: "valid_config cfg2"
  by (simp add: cfg2_def valid_config_def)

definition demo_node :: "proc_id \<Rightarrow> trains_node" where
  "demo_node i = the (node_new cfg2 i UniformTotalOrder)"

lemma demo_node_ok: "i < 2 \<Longrightarrow> node_ok cfg2 (demo_node i)"
  by (rule node_new_ok [where i = i and m = UniformTotalOrder])
    (simp add: demo_node_def node_new_def cfg2_def)

lemma demo_node_fields:
  "i < 2 \<Longrightarrow> node_id (demo_node i) = i" "i < 2 \<Longrightarrow> clocks (demo_node i) = \<lparr>seen = [0, 0]\<rparr>"
  "i < 2 \<Longrightarrow> view_floor (demo_node i) = [0, 0]" "i < 2 \<Longrightarrow> pending (demo_node i) = []"
  "i < 2 \<Longrightarrow> next_issue_clock (demo_node i) = 1" "i < 2 \<Longrightarrow> frozen (demo_node i) = False"
  "i < 2 \<Longrightarrow> done_keys (delivery (demo_node i)) = {}"
  by (simp_all add: demo_node_def node_new_def cfg2_def clock_new_def delivery_new_def numeral_2_eq_2)

text \<open>C11. Every input the wire type allows for a ring member (an issuer below the ring size, a
  64-bit clock) is handled without a panic, and the node's invariant holds afterwards:
  array lengths, machine bounds, the bound on the delivered cache, no key both parked and
  done, and no deliverable train left parked.\<close>

theorem step_total:
  assumes "valid_config c" and "node_ok c n" and "input_ok c inp"
  shows "\<exists>n' outs. step c inp n = Some (n', outs) \<and> node_ok c n'"
  using assms by (rule step_ok)

theorem step_total_witness:
  "\<exists>n' outs. step cfg2 (TrainReceived (demo_train 1)) (demo_node 1) = Some (n', outs) \<and> node_ok cfg2 n'"
  using step_total [OF cfg2_valid demo_node_ok, of 1 "TrainReceived (demo_train 1)"]
  by (simp add: cfg2_def demo_train_def u64_max_def)

text \<open>C12. The deliveries of a step come from a list of trains with strictly ascending
  \<^verbatim>\<open>(clock, issuer)\<close> keys, none of them delivered before; exactly those keys are recorded,
  and the batches are their payloads in \<^verbatim>\<open>(sender, seq)\<close> order, empty trains giving none.\<close>

theorem step_delivers_in_key_order:
  assumes "valid_config c" and "node_ok c n" and "input_ok c inp"
    and "step c inp n = Some (n', outs)"
  shows "\<exists>ts. batches outs = concat (map batch_of ts) \<and> sorted_wrt (<) (map key_of ts) \<and>
    done_keys (delivery n') = done_keys (delivery n) \<union> key_of ` set ts \<and>
    key_of ` set ts \<inter> done_keys (delivery n) = {}"
  using step_deliveries [OF assms] by blast

theorem step_delivers_in_key_order_witness:
  "\<exists>ts. batches (snd (the (step cfg2 (TrainReceived (demo_train 3)) (demo_node 0)))) =
      concat (map batch_of ts) \<and> sorted_wrt (<) (map key_of ts)"
  using step_delivers_in_key_order [OF cfg2_valid demo_node_ok, of 0 "TrainReceived (demo_train 3)"
      "fst (the (step cfg2 (TrainReceived (demo_train 3)) (demo_node 0)))"
      "snd (the (step cfg2 (TrainReceived (demo_train 3)) (demo_node 0)))"]
    step_ok [OF cfg2_valid demo_node_ok, of 0 "TrainReceived (demo_train 3)"]
  by (auto simp: cfg2_def demo_train_def u64_max_def)

text \<open>First lap at a node that is not the issuer: the train is forwarded with the node's
  pending payloads appended in order and its acknowledgement set, the pending list is
  emptied, the issuer's clock recorded, and a crash of the issuer is declared exactly when
  the clock skips a value.\<close>

theorem first_lap_forwards_loaded:
  assumes "valid_config c" and "node_ok c n" and "issuer t < RING_SIZE c" and "issuer t \<noteq> node_id n"
    and "clock t \<le> u64_max" and "view_floor n ! issuer t < clock t"
    and "seen (clocks n) ! issuer t < clock t"
  shows "\<exists>n' outs. step c (TrainReceived t) n = Some (n', outs) \<and>
    sends outs = [t\<lparr>payloads := payloads t @ pending n,
                    ack_bits := ack_bits t OR push_bit (node_id n) 1\<rparr>] \<and>
    pending n' = [] \<and> seen (clocks n') ! issuer t = clock t \<and>
    declared outs = (if clock t = Suc (seen (clocks n) ! issuer t) then [] else [issuer t])"
  using assms(1-3,5)
proof (cases rule: step_cases)
  case (first m ts)
  have "issuer t < length (seen (clocks n))"
    using assms(3) node_wfD(2) [OF node_okD(1) [OF assms(2)]] by (simp add: clock_ok_def)
  then have "seen (clocks m) ! issuer t = clock t"
    using delivers_frame(2) [OF first(5)] assms(7) by (simp add: clocks_raise_seen)
  moreover have "declared (gap_outs t n) =
      (if clock t = Suc (seen (clocks n) ! issuer t) then [] else [issuer t])"
    using assms(7) by (auto simp: gap_outs_def)
  ultimately show ?thesis
    using first(4) delivers_frame(7) [OF first(5)] by (simp add: load_train_def)
qed (use assms in auto)

text \<open>Recycling: a train that returns to its issuer after it was delivered there is replaced
  by a new one stamped with the next clock, carrying all pending payloads and only the
  issuer's acknowledgement; the clock counter advances, saturating at the largest
  64-bit value.\<close>

theorem returned_train_recycles:
  assumes "valid_config c" and "node_ok c n" and "issuer t = node_id n" and "clock t \<le> u64_max"
    and "view_floor n ! node_id n < clock t" and "key_of t \<in> done_keys (delivery n)"
  shows "\<exists>n'. step c (TrainReceived t) n = Some (n', [ForwardTrain
      \<lparr>issuer = node_id n, clock = next_issue_clock n, payloads = pending n,
       ack_bits = push_bit (node_id n) 1\<rparr>]) \<and>
    pending n' = [] \<and> next_issue_clock n' = min (next_issue_clock n + 1) u64_max"
proof -
  have "issuer t < RING_SIZE c" using assms(2,3) node_wfD(1) [OF node_okD(1)] by simp
  with assms(1,2) show ?thesis
    using assms(4)
    by (cases rule: step_cases) (use assms in \<open>auto simp: fresh_train_def sat_add64_def\<close>)
qed

text \<open>Old-view fencing: a train at or below the installed view floor changes nothing and is
  neither delivered nor forwarded.\<close>

theorem stale_train_absorbed:
  assumes "issuer t < RING_SIZE c" and "clock t \<le> view_floor n ! issuer t"
  shows "step c (TrainReceived t) n = Some (n, [])"
  using assms by (simp add: handle_train_def)

theorem stale_train_absorbed_witness:
  "step cfg2 (TrainReceived \<lparr>issuer = 1, clock = 0, payloads = [], ack_bits = 0\<rparr>) (demo_node 0) =
     Some (demo_node 0, [])"
  using stale_train_absorbed [of "\<lparr>issuer = 1, clock = 0, payloads = [], ack_bits = 0\<rparr>" cfg2 "demo_node 0"]
  by (simp add: cfg2_def)

end
