(* ===== verification/Systems.thy ===== *)
theory Systems
  imports Prelude
begin

text \<open>
  Transition systems shared by the components that run as sequences of steps: the states
  reached from an initial one, the invariant rule, and simulation of one system by
  another up to stuttering. Each locale is interpreted on the model's own systems, in the
  theories that define them.
\<close>

inductive reach :: "('s \<Rightarrow> bool) \<Rightarrow> ('s \<Rightarrow> 's \<Rightarrow> bool) \<Rightarrow> 's \<Rightarrow> bool" for init step where
  reach_init: "init s \<Longrightarrow> reach init step s"
| reach_step: "reach init step s \<Longrightarrow> step s s' \<Longrightarrow> reach init step s'"

lemma reach_rtranclp: "reach init step s \<Longrightarrow> step\<^sup>*\<^sup>* s s' \<Longrightarrow> reach init step s'"
  by (rotate_tac 1, induction rule: rtranclp_induct) (auto intro: reach.intros)

lemma reach_reach: "reach (reach init st) st x \<Longrightarrow> reach init st x"
  by (induction rule: reach.induct) (auto intro: reach.reach_step)

text \<open>A list of moves, each a step, leads from a reached state to a reached state.\<close>

lemma fold_opt_reach:
  assumes "\<And>mv s s'. f mv s = Some s' \<Longrightarrow> step s s'"
    and "reach init step s" and "fold_opt f mvs s = Some s'"
  shows "reach init step s'"
  using assms(2,3)
proof (induction mvs arbitrary: s)
  case (Cons mv mvs)
  then obtain s1 where "f mv s = Some s1" "fold_opt f mvs s1 = Some s'"
    by (auto split: bind_splits)
  then show ?case using Cons assms(1) reach_step by metis
qed simp

locale invariant_system =
  fixes init :: "'s \<Rightarrow> bool" and step :: "'s \<Rightarrow> 's \<Rightarrow> bool" and inv :: "'s \<Rightarrow> bool"
  assumes inv_init: "init s \<Longrightarrow> inv s"
    and inv_step: "inv s \<Longrightarrow> step s s' \<Longrightarrow> inv s'"
begin

lemma reach_inv: "reach init step s \<Longrightarrow> inv s"
  by (induction rule: reach.induct) (auto intro: inv_init inv_step)

lemma steps_inv: "step\<^sup>*\<^sup>* s s' \<Longrightarrow> inv s \<Longrightarrow> inv s'"
  by (induction rule: rtranclp_induct) (auto intro: inv_step)

end

locale simulation_system =
  fixes init :: "'c \<Rightarrow> bool" and step :: "'c \<Rightarrow> 'c \<Rightarrow> bool"
    and spec_init :: "'a \<Rightarrow> bool" and spec_step :: "'a \<Rightarrow> 'a \<Rightarrow> bool"
    and sim :: "'c \<Rightarrow> 'a \<Rightarrow> bool"
  assumes sim_init: "init s \<Longrightarrow> \<exists>a. spec_init a \<and> sim s a"
    and sim_step: "reach init step s \<Longrightarrow> sim s a \<Longrightarrow> step s s' \<Longrightarrow>
      \<exists>a'. spec_step\<^sup>*\<^sup>* a a' \<and> sim s' a'"
begin

lemma reach_sim: "reach init step s \<Longrightarrow> \<exists>a. reach spec_init spec_step a \<and> sim s a"
proof (induction rule: reach.induct)
  case (reach_init s)
  then show ?case using sim_init by (blast intro: reach.reach_init)
next
  case (reach_step s s')
  then show ?case using sim_step reach_rtranclp by metis
qed

end

end
