(* ===== verification/Soup.thy ===== *)
theory Soup
  imports Node_Steps Systems
begin

text \<open>
  The nodes of one view on an unreliable network: every train ever forwarded stays
  available to every node, so trains may be lost, delayed, duplicated and reordered and a
  node may stop for good at any point. Nodes run \<^verbatim>\<open>TrainsNode::step\<close> and issue trains with
  \<^verbatim>\<open>issue_initial_train\<close> (also \<^verbatim>\<open>reissue_train\<close>, the same function). The network records, per
  node, the batches delivered and the byte strings submitted. The theory shows the
  safety of the ordering protocol on this network; \<open>Ring\<close> derives it for the ring.
\<close>

record net =
  nodes :: "proc_id \<Rightarrow> trains_node"
  sent :: "train set"
  dlog :: "proc_id \<Rightarrow> payload list list"
  submitted :: "proc_id \<Rightarrow> byte list list"

definition net_apply :: "proc_id \<Rightarrow> trains_node \<times> node_output list \<Rightarrow> net \<Rightarrow> net" where
  "net_apply i r s = s\<lparr>nodes := (nodes s)(i := fst r), sent := sent s \<union> set (sends (snd r)),
     dlog := (dlog s)(i := dlog s i @ batches (snd r))\<rparr>"

definition submit :: "proc_id \<Rightarrow> byte list \<Rightarrow> net \<Rightarrow> net" where
  "submit i bs s = s\<lparr>submitted := (submitted s)(i := submitted s i @ [bs])\<rparr>"

definition soup_init :: "config \<Rightarrow> delivery_mode \<Rightarrow> net \<Rightarrow> bool" where
  "soup_init c m s \<longleftrightarrow> valid_config c \<and> (\<forall>i<RING_SIZE c. node_new c i m = Some (nodes s i)) \<and> sent s = {} \<and>
     dlog s = (\<lambda>_. []) \<and> submitted s = (\<lambda>_. [])"

inductive soup_step :: "config \<Rightarrow> net \<Rightarrow> net \<Rightarrow> bool" for c where
  soup_bcast: "i < RING_SIZE c \<Longrightarrow> step c (LocalBroadcast bs) (nodes s i) = Some r \<Longrightarrow>
    soup_step c s (submit i bs (net_apply i r s))"
| soup_tick: "i < RING_SIZE c \<Longrightarrow> step c Tick (nodes s i) = Some r \<Longrightarrow>
    soup_step c s (net_apply i r s)"
| soup_recv: "i < RING_SIZE c \<Longrightarrow> t \<in> sent s \<Longrightarrow> step c (TrainReceived t) (nodes s i) = Some r \<Longrightarrow>
    soup_step c s (net_apply i r s)"
| soup_issue: "i < NUM_TRAINS c \<Longrightarrow> issue_initial_train c (nodes s i) = Some (n', t) \<Longrightarrow>
    soup_step c s (net_apply i (n', [ForwardTrain t]) s)"

section \<open>The invariant\<close>

text \<open>Node \<open>i\<close> has contributed to the train with key \<open>k\<close>: as its issuer when it
  was issued, as another node on the first lap.\<close>

definition acked :: "net \<Rightarrow> proc_id \<Rightarrow> clock_key \<Rightarrow> bool" where
  "acked s i k \<longleftrightarrow> (if i = ck_issuer k then ck_clock k < next_issue_clock (nodes s i)
     else ck_clock k \<le> seen (clocks (nodes s i)) ! ck_issuer k)"

type_synonym contrib = "proc_id \<Rightarrow> clock_key \<Rightarrow> payload list"

definition train_ok :: "config \<Rightarrow> contrib \<Rightarrow> (proc_id \<Rightarrow> clock_key \<Rightarrow> bool) \<Rightarrow> train \<Rightarrow> bool" where
  "train_ok c C A t \<longleftrightarrow> issuer t < NUM_TRAINS c \<and> 1 \<le> clock t \<and> bit (ack_bits t) (issuer t) \<and>
     (\<forall>i. bit (ack_bits t) i \<longrightarrow> i < RING_SIZE c \<and> A i (key_of t)) \<and>
     mset (payloads t) = (\<Sum>i | i < RING_SIZE c \<and> bit (ack_bits t) i. mset (C i (key_of t)))"

definition all_acks :: "config \<Rightarrow> train \<Rightarrow> bool" where
  "all_acks c t \<longleftrightarrow> (\<forall>i<RING_SIZE c. bit (ack_bits t) i)"

text \<open>The global content of a key: the batch every node delivers for it.\<close>

definition merged :: "config \<Rightarrow> contrib \<Rightarrow> clock_key \<Rightarrow> payload list" where
  "merged c C k = concat (map (\<lambda>i. C i k) [0..<RING_SIZE c])"

definition content :: "config \<Rightarrow> contrib \<Rightarrow> clock_key \<Rightarrow> payload list list" where
  "content c C k = (if merged c C k = [] then [] else [sort_payloads (merged c C k)])"

definition proper :: "config \<Rightarrow> clock_key \<Rightarrow> bool" where
  "proper c k \<longleftrightarrow> 1 \<le> ck_clock k \<and> ck_issuer k < NUM_TRAINS c"

definition initial_segment :: "config \<Rightarrow> clock_key set \<Rightarrow> bool" where
  "initial_segment c A \<longleftrightarrow> finite A \<and> (\<forall>k\<in>A. proper c k) \<and>
     (\<forall>k\<in>A. \<forall>j. proper c j \<and> j < k \<longrightarrow> j \<in> A)"

definition log_of :: "config \<Rightarrow> contrib \<Rightarrow> clock_key set \<Rightarrow> payload list list" where
  "log_of c C A = concat (map (content c C) (sorted_list_of_set A))"

text \<open>The payloads of one sender: those pending and those contributed, each once, each with
  the bytes submitted under its sequence number.\<close>

definition origin :: "net \<Rightarrow> proc_id \<Rightarrow> payload \<Rightarrow> bool" where
  "origin s i p \<longleftrightarrow> sender p = i \<and> payload_id p \<in> broadcast_seen (nodes s i) \<and>
     seq p < length (submitted s i) \<and> data p = submitted s i ! seq p"

definition held :: "contrib \<Rightarrow> net \<Rightarrow> proc_id \<Rightarrow> payload set" where
  "held C s i = set (pending (nodes s i)) \<union> (\<Union>k. set (C i k))"

definition apart :: "payload list \<Rightarrow> (clock_key \<Rightarrow> payload list) \<Rightarrow> bool" where
  "apart ps Ci \<longleftrightarrow> distinct (map payload_id ps) \<and> (\<forall>k. distinct (map payload_id (Ci k))) \<and>
     (\<forall>k. payload_id ` set ps \<inter> payload_id ` set (Ci k) = {}) \<and>
     (\<forall>k k'. k \<noteq> k' \<longrightarrow> payload_id ` set (Ci k) \<inter> payload_id ` set (Ci k') = {})"

definition counter_ok :: "net \<Rightarrow> proc_id \<Rightarrow> bool" where
  "counter_ok s i \<longleftrightarrow> next_seq (nodes s i) = min (length (submitted s i)) u64_max \<and>
     (\<forall>x. (i, x) \<in> broadcast_seen (nodes s i) \<longrightarrow> x < length (submitted s i)) \<and>
     (u64_max < length (submitted s i) \<longrightarrow> (i, u64_max) \<in> broadcast_seen (nodes s i))"

definition own_ok :: "contrib \<Rightarrow> net \<Rightarrow> proc_id \<Rightarrow> bool" where
  "own_ok C s i \<longleftrightarrow> (\<forall>p\<in>held C s i. origin s i p) \<and> apart (pending (nodes s i)) (C i) \<and>
     counter_ok s i"

definition node_inv :: "config \<Rightarrow> contrib \<Rightarrow> net \<Rightarrow> proc_id \<Rightarrow> bool" where
  "node_inv c C s i \<longleftrightarrow>
     node_wf c (nodes s i) \<and> node_id (nodes s i) = i \<and> crashed_bits (delivery (nodes s i)) = 0 \<and>
     (\<forall>t\<in>snd ` set (parked (nodes s i)). t \<in> sent s \<and> all_acks c t) \<and>
     initial_segment c (done_keys (delivery (nodes s i))) \<and>
     (\<forall>k\<in>done_keys (delivery (nodes s i)). \<forall>j<RING_SIZE c. acked s j k) \<and>
     dlog s i = log_of c C (done_keys (delivery (nodes s i))) \<and>
     (\<forall>k. C i k \<noteq> [] \<longrightarrow> acked s i k) \<and> own_ok C s i"

definition soup_inv :: "config \<Rightarrow> contrib \<Rightarrow> net \<Rightarrow> bool" where
  "soup_inv c C s \<longleftrightarrow> (\<forall>i<RING_SIZE c. node_inv c C s i) \<and> (\<forall>t\<in>sent s. train_ok c C (acked s) t)"

lemma node_invD:
  assumes "soup_inv c C s" and "i < RING_SIZE c"
  shows "node_wf c (nodes s i)" "node_id (nodes s i) = i"
    "crashed_bits (delivery (nodes s i)) = 0"
    "\<And>t. t \<in> snd ` set (parked (nodes s i)) \<Longrightarrow> t \<in> sent s \<and> all_acks c t"
    "initial_segment c (done_keys (delivery (nodes s i)))"
    "\<And>k j. k \<in> done_keys (delivery (nodes s i)) \<Longrightarrow> j < RING_SIZE c \<Longrightarrow> acked s j k"
    "dlog s i = log_of c C (done_keys (delivery (nodes s i)))"
    "\<And>k. C i k \<noteq> [] \<Longrightarrow> acked s i k" "own_ok C s i"
  using assms by (auto simp: soup_inv_def node_inv_def)

lemma sent_ok: "soup_inv c C s \<Longrightarrow> t \<in> sent s \<Longrightarrow> train_ok c C (acked s) t"
  by (simp add: soup_inv_def)

lemma own_okD:
  assumes "own_ok C s i"
  shows "\<And>p k. p \<in> set (C i k) \<Longrightarrow> origin s i p"
    "\<And>k. distinct (map payload_id (C i k))"
    "\<And>k k'. k \<noteq> k' \<Longrightarrow> payload_id ` set (C i k) \<inter> payload_id ` set (C i k') = {}"
  using assms by (auto simp: own_ok_def held_def apart_def)

lemma pending_origin: "own_ok C s i \<Longrightarrow> p \<in> set (pending (nodes s i)) \<Longrightarrow> origin s i p"
  by (simp add: own_ok_def held_def)

lemma origin_sender: "origin s i p \<Longrightarrow> sender p = i"
  by (simp add: origin_def)

lemma own_ok_cong:
  "nodes s' j = nodes s j \<Longrightarrow> submitted s' j = submitted s j \<Longrightarrow> own_ok C s' j = own_ok C s j"
  by (simp add: own_ok_def held_def origin_def counter_ok_def)

text \<open>From one state to a later one, contributions stay what they are and no payload is
  dropped: what a sender holds stays pending or on a train.\<close>

definition extends :: "config \<Rightarrow> contrib \<Rightarrow> net \<Rightarrow> contrib \<Rightarrow> net \<Rightarrow> bool" where
  "extends c C s C' s' \<longleftrightarrow> (\<forall>i k. acked s i k \<longrightarrow> acked s' i k \<and> C' i k = C i k) \<and>
     (\<forall>i k. C' i k \<noteq> C i k \<longrightarrow> proper c k) \<and>
     (\<forall>i. held C s i \<subseteq> held C' s' i)"

lemma extends_refl: "extends c C s C s"
  by (simp add: extends_def)

lemma extends_trans: "extends c C s C' s' \<Longrightarrow> extends c C' s' C'' s'' \<Longrightarrow> extends c C s C'' s''"
  unfolding extends_def by (metis subset_trans)

lemma extends_node:
  assumes "nodes s' = (nodes s)(i := n')" and "next_issue_clock (nodes s i) \<le> next_issue_clock n'"
    and "\<And>q. q \<noteq> i \<Longrightarrow> seen (clocks (nodes s i)) ! q \<le> seen (clocks n') ! q"
    and "set (pending (nodes s i)) \<subseteq> set (pending n')"
  shows "extends c C s C s'"
  using assms le_trans by (fastforce simp: extends_def acked_def held_def split: if_splits)

lemma extends_contribute:
  assumes "nodes s' = (nodes s)(i := n')" and "next_issue_clock (nodes s i) \<le> next_issue_clock n'"
    and "\<And>q. q \<noteq> i \<Longrightarrow> seen (clocks (nodes s i)) ! q \<le> seen (clocks n') ! q"
    and "\<not> acked s i k" and "C i k \<noteq> [] \<longrightarrow> acked s i k" and "proper c k"
  shows "extends c C s (C(i := (C i)(k := pending (nodes s i)))) s'"
  unfolding extends_def
proof (intro conjI allI impI)
  fix j x assume "acked s j x"
  then show "acked s' j x" using assms(1-3) le_trans by (fastforce simp: acked_def split: if_splits)
next
  fix j x assume "acked s j x"
  then show "(C(i := (C i)(k := pending (nodes s i)))) j x = C j x" using assms(4) by auto
next
  fix j x assume "(C(i := (C i)(k := pending (nodes s i)))) j x \<noteq> C j x"
  then show "proper c x" using assms(6) by (auto split: if_splits)
next
  fix j
  show "held C s j \<subseteq> held (C(i := (C i)(k := pending (nodes s i)))) s' j"
  proof (cases "j = i")
    case True
    then show ?thesis using assms(4,5) by (auto simp: held_def) (metis empty_iff empty_set)
  qed (simp add: held_def assms(1))
qed

section \<open>Contents\<close>

lemma train_payload:
  assumes t: "train_ok c C A t" and p: "p \<in> set (payloads t)"
  obtains i where "i < RING_SIZE c" "bit (ack_bits t) i" "p \<in> set (C i (key_of t))"
proof -
  have "p \<in># (\<Sum>i | i < RING_SIZE c \<and> bit (ack_bits t) i. mset (C i (key_of t)))"
    using t p by (metis set_mset_mset train_ok_def)
  then show ?thesis by (auto simp: set_mset_sum that)
qed

lemma mset_merged: "mset (merged c C k) = (\<Sum>i<RING_SIZE c. mset (C i k))"
  by (simp add: merged_def mset_concat sum_list_sum_nth atLeast0LessThan comp_def)

lemma set_merged: "p \<in> set (merged c C k) \<longleftrightarrow> (\<exists>i<RING_SIZE c. p \<in> set (C i k))"
  by (auto simp: merged_def)

lemma inj_merged:
  assumes "\<And>i. i < RING_SIZE c \<Longrightarrow> own_ok C s i"
  shows "inj_on payload_id (set (merged c C k))"
proof (rule inj_onI)
  fix p q assume p: "p \<in> set (merged c C k)" and q: "q \<in> set (merged c C k)"
    and eq: "payload_id p = payload_id q"
  obtain i j where i: "i < RING_SIZE c" "p \<in> set (C i k)" and j: "j < RING_SIZE c" "q \<in> set (C j k)"
    using p q by (auto simp: set_merged)
  have "i = j" using origin_sender [OF own_okD(1) [OF assms]] i j eq by (metis payload_id_def prod.inject)
  then show "p = q" using i j eq own_okD(2) [OF assms, of i k] by (auto simp: distinct_map inj_on_def)
qed

text \<open>A fully acknowledged train carries exactly the content of its key.\<close>

lemma full_train_content:
  assumes inv: "soup_inv c C s" and t: "train_ok c C A t" "all_acks c t"
  shows "batch_of t = content c C (key_of t)"
proof -
  have "{i. i < RING_SIZE c \<and> bit (ack_bits t) i} = {..<RING_SIZE c}"
    using t(2) by (auto simp: all_acks_def)
  then have m: "mset (payloads t) = mset (merged c C (key_of t))"
    using t(1) by (simp add: train_ok_def mset_merged)
  have "inj_on payload_id (set (payloads t))"
    using inj_merged [OF node_invD(9) [OF inv]] mset_eq_setD [OF m] by simp
  then have "sort_payloads (payloads t) = sort_payloads (merged c C (key_of t))"
    unfolding sort_payloads_def by (rule sort_key_mset_eq [OF m])
  moreover have "payloads t = [] \<longleftrightarrow> merged c C (key_of t) = []"
    using m by (metis mset_zero_iff_right)
  ultimately show ?thesis by (simp add: batch_of_def content_def)
qed

lemma ready_all_acks:
  assumes c: "valid_config c" and "crashed_bits (delivery n) = 0" and "ready c t n"
  shows "all_acks c t"
  using assms ready_TotalOrder_no_crash [OF c assms(2)] bit_FULL_ACK [OF c]
  by (cases "mode (delivery n)") (auto simp: ready_def ready_to_deliver_def all_acks_def)

section \<open>The local moves keep the invariant\<close>

definition set_node :: "proc_id \<Rightarrow> trains_node \<Rightarrow> net \<Rightarrow> net" where
  "set_node i n s = s\<lparr>nodes := (nodes s)(i := n)\<rparr>"

lemma set_node_simps [simp]:
  "nodes (set_node i n s) = (nodes s)(i := n)" "sent (set_node i n s) = sent s"
  "dlog (set_node i n s) = dlog s" "submitted (set_node i n s) = submitted s"
  "set_node i n (set_node i n0 s) = set_node i n s" "set_node i (nodes s i) s = s"
  by (simp_all add: set_node_def)

lemma submit_simps [simp]:
  "nodes (submit i bs s) = nodes s" "sent (submit i bs s) = sent s" "dlog (submit i bs s) = dlog s"
  "submitted (submit i bs s) = (submitted s)(i := submitted s i @ [bs])"
  by (simp_all add: submit_def)

lemma sent_payload:
  assumes inv: "soup_inv c C s" and t: "t \<in> sent s" "p \<in> set (payloads t)"
  shows "sender p < RING_SIZE c" "seq p < length (submitted s (sender p))"
    "data p = submitted s (sender p) ! seq p"
proof -
  obtain i where i: "i < RING_SIZE c" "p \<in> set (C i (key_of t))"
    using train_payload [OF sent_ok [OF inv t(1)] t(2)] by blast
  note own = own_okD [OF node_invD(9) [OF inv i(1)]]
  show "sender p < RING_SIZE c" "seq p < length (submitted s (sender p))"
    "data p = submitted s (sender p) ! seq p"
    using own(1) [OF i(2)] i(1) by (simp_all add: origin_def)
qed

text \<open>A move of one node that contributes and delivers nothing.\<close>

lemma soup_inv_local:
  assumes inv: "soup_inv c C s" and i: "i < RING_SIZE c"
    and wf: "node_wf c n'" "node_id n' = i" "crashed_bits (delivery n') = 0"
    and park: "\<And>t. t \<in> snd ` set (parked n') \<Longrightarrow> t \<in> sent s \<and> all_acks c t"
    and same: "done_keys (delivery n') = done_keys (delivery (nodes s i))"
      "next_issue_clock n' = next_issue_clock (nodes s i)"
      "next_seq n' = next_seq (nodes s i)" "pending n' = pending (nodes s i)"
      "\<And>q. q \<noteq> i \<Longrightarrow> seen (clocks n') ! q = seen (clocks (nodes s i)) ! q"
    and ids: "broadcast_seen n' = broadcast_seen (nodes s i) \<union> X"
      "X \<subseteq> (\<Union>t\<in>sent s. payload_id ` set (payloads t))"
  shows "soup_inv c C (set_node i n' s)"
proof -
  have acked: "acked (set_node i n' s) = acked s"
    using same by (auto simp: acked_def fun_eq_iff)
  have "x < length (submitted s i)" if "(i, x) \<in> X" for x
    using that ids(2) sent_payload [OF inv] by (force simp: payload_id_def)
  then have own: "own_ok C (set_node i n' s) i"
    using node_invD(9) [OF inv i] same ids(1)
    by (auto simp: own_ok_def held_def origin_def counter_ok_def)
  have "node_inv c C (set_node i n' s) j" if j: "j < RING_SIZE c" for j
  proof (cases "j = i")
    case True
    then show ?thesis
      using wf park same own node_invD [OF inv i] by (simp add: node_inv_def acked)
  next
    case False
    then have "own_ok C (set_node i n' s) j = own_ok C s j" by (intro own_ok_cong) simp_all
    then show ?thesis
      using False node_invD [OF inv j] by (simp add: node_inv_def acked)
  qed
  then show ?thesis using sent_ok [OF inv] by (simp add: soup_inv_def acked)
qed

text \<open>A submission.\<close>

lemma own_ok_submit:
  assumes own: "own_ok C s i" and idn: "node_id (nodes s i) = i"
  shows "own_ok C (submit i bs (set_node i (fst (handle_broadcast bs (nodes s i))) s)) i"
    (is "own_ok C ?s i")
proof -
  let ?n = "nodes s i" and ?n' = "fst (handle_broadcast bs (nodes s i))"
  let ?p = "\<lparr>sender = i, seq = next_seq ?n, data = bs\<rparr>"
  let ?len = "length (submitted s i)"
  have org: "\<And>p. p \<in> held C s i \<Longrightarrow> origin s i p" and ap: "apart (pending ?n) (C i)"
    and ct: "counter_ok s i" using own by (auto simp: own_ok_def)
  show ?thesis
  proof (cases "(i, next_seq ?n) \<in> broadcast_seen ?n")
    case True
    then have n': "?n' = ?n" using idn by (simp add: handle_broadcast_def)
    have "u64_max < ?len" "next_seq ?n = u64_max"
      using True ct by (auto simp: counter_ok_def min_def split: if_splits)
    then have "counter_ok ?s i" using ct True unfolding counter_ok_def n' by (auto intro: less_SucI)
    then show ?thesis
      using org ap unfolding own_ok_def held_def origin_def n'
      by (auto simp: nth_append less_Suc_eq)
  next
    case False
    then have len: "next_seq ?n = ?len" "?len \<le> u64_max"
      using ct by (auto simp: counter_ok_def min_def split: if_splits)
    have n': "?n' = ?n\<lparr>broadcast_seen := insert (i, ?len) (broadcast_seen ?n),
        pending := pending ?n @ [?p], next_seq := sat_add64 ?len 1\<rparr>"
      using False idn len by (simp add: handle_broadcast_def)
    have pid: "payload_id ?p = (i, ?len)" by (simp add: payload_id_def len)
    have fresh: "(i, ?len) \<noteq> payload_id q" if "q \<in> held C s i" for q
      using org [OF that] by (auto simp: origin_def payload_id_def)
    have "apart (pending ?n @ [?p]) (C i)"
      using ap fresh pid by (fastforce simp: apart_def held_def)
    moreover have "counter_ok ?s i"
      using ct len unfolding counter_ok_def n' by (auto simp: sat_add64_def less_SucI)
    moreover have "origin ?s i p" if "p \<in> held C s i" for p
      using org [OF that] unfolding origin_def n' by (simp add: nth_append)
    moreover have "origin ?s i ?p" unfolding origin_def n' pid by (simp add: len)
    moreover have "held C ?s i = insert ?p (held C s i)" unfolding held_def n' by auto
    ultimately show ?thesis unfolding own_ok_def n' by auto
  qed
qed

lemma soup_inv_submit:
  assumes inv: "soup_inv c C s" and i: "i < RING_SIZE c" and ok: "node_ok c (nodes s i)"
  shows "soup_inv c C (submit i bs (set_node i (fst (handle_broadcast bs (nodes s i))) s))"
    (is "soup_inv c C ?s")
proof -
  note own = node_invD(9) [OF inv i] and idn = node_invD(2) [OF inv i]
  have acked: "acked ?s = acked s"
    by (auto simp: acked_def fun_eq_iff submit_def handle_broadcast_def Let_def)
  have own': "own_ok C ?s i" using own idn by (rule own_ok_submit)
  have "node_inv c C ?s j" if j: "j < RING_SIZE c" for j
  proof (cases "j = i")
    case True
    then show ?thesis
      using own' node_invD [OF inv i] node_okD(1) [OF handle_broadcast_ok [OF ok, of bs]]
      unfolding node_inv_def acked by (simp add: submit_def handle_broadcast_def Let_def)
  next
    case False
    then have "own_ok C ?s j = own_ok C s j" by (intro own_ok_cong) (simp_all add: submit_def)
    then show ?thesis
      using False node_invD [OF inv j] unfolding node_inv_def acked by (simp add: submit_def)
  qed
  then show ?thesis using sent_ok [OF inv] unfolding soup_inv_def acked by (simp add: submit_def)
qed

text \<open>One delivery at node \<open>i\<close>, then a run of them.\<close>

definition deliver_net :: "proc_id \<Rightarrow> trains_node \<Rightarrow> payload list list \<Rightarrow> net \<Rightarrow> net" where
  "deliver_net i n ps s = s\<lparr>nodes := (nodes s)(i := n), dlog := (dlog s)(i := dlog s i @ ps)\<rparr>"

lemma deliver_net_simps [simp]:
  "nodes (deliver_net i n ps s) = (nodes s)(i := n)" "sent (deliver_net i n ps s) = sent s"
  "dlog (deliver_net i n ps s) = (dlog s)(i := dlog s i @ ps)"
  "submitted (deliver_net i n ps s) = submitted s"
  by (simp_all add: deliver_net_def)

lemma initial_segment_next:
  assumes seg: "initial_segment c (done_keys (delivery n))"
    and nc: "crashed_bits (delivery n) = 0" and k: "proper c k" "k \<notin> done_keys (delivery n)"
    and del: "deliverable c n k" and N: "NUM_TRAINS c \<le> RING_SIZE c"
  shows "initial_segment c (insert k (done_keys (delivery n)))"
    and "\<And>j. j \<in> done_keys (delivery n) \<Longrightarrow> j < k"
proof -
  show less: "j < k" if "j \<in> done_keys (delivery n)" for j
  proof (rule ccontr)
    assume "\<not> j < k"
    then have "k < j" using that k(2) by (metis linorder_neqE)
    then show False using that k seg unfolding initial_segment_def by blast
  qed
  have "j \<in> done_keys (delivery n)" if j: "proper c j" "j < k" for j
  proof -
    have "ck_clock j \<le> ck_clock k" using j(2) by (auto simp: less_clock_key_def)
    also have "\<dots> \<le> seen (clocks n) ! ck_issuer j"
      using del nc j(1) by (auto simp: deliverable_def proper_def)
    finally have "known c n j" using j(1) N by (simp add: known_def proper_def)
    then show ?thesis using del j(2) by (simp add: deliverable_def)
  qed
  then show "initial_segment c (insert k (done_keys (delivery n)))"
    using seg k unfolding initial_segment_def by (metis finite_insert insert_iff)
qed

lemma soup_inv_deliver:
  assumes c: "valid_config c" and inv: "soup_inv c C s" and i: "i < RING_SIZE c"
    and t: "t \<in> sent s" "all_acks c t"
    and k: "known c (nodes s i) (key_of t)" "key_of t \<notin> done_keys (delivery (nodes s i))"
      "deliverable c (nodes s i) (key_of t)"
  shows "soup_inv c C (deliver_net i (deliver_one t (nodes s i)) (batch_of t) s)" (is "soup_inv c C ?s")
proof -
  let ?n = "nodes s i" and ?k = "key_of t"
  note I = node_invD [OF inv i]
  have acked: "acked ?s = acked s" by (auto simp: acked_def fun_eq_iff)
  have tok: "train_ok c C (acked s) t" using inv t(1) by (rule sent_ok)
  have "proper c ?k" using tok by (simp add: proper_def train_ok_def key_of_def)
  note seg = initial_segment_next [OF I(5) I(3) this k(2,3) valid_configD(5) [OF c]]
  have "acked s j ?k" if "j < RING_SIZE c" for j
    using that t(2) tok by (simp add: all_acks_def train_ok_def)
  moreover have "dlog ?s i = log_of c C (insert ?k (done_keys (delivery ?n)))"
    using I(5,7) full_train_content [OF inv tok t(2)] seg(2)
    by (simp add: log_of_def sorted_list_of_set_snoc initial_segment_def
        del: sorted_list_of_set_insert_remove)
  moreover have "own_ok C ?s i"
    using I(9) by (simp add: own_ok_def held_def origin_def counter_ok_def)
  moreover have "\<forall>t\<in>snd ` set (parked (deliver_one t ?n)). t \<in> sent s \<and> all_acks c t"
    using I(4) by (auto simp: btm_remove_def)
  ultimately have "node_inv c C ?s i"
    using I seg(1) node_wf_deliver_one [OF I(1) k(1)] by (auto simp: node_inv_def acked)
  moreover have "node_inv c C ?s j" if "j < RING_SIZE c" "j \<noteq> i" for j
    using that node_invD [OF inv that(1)] own_ok_cong [of ?s j s C] by (simp add: node_inv_def acked)
  ultimately show ?thesis using sent_ok [OF inv] by (auto simp: soup_inv_def acked)
qed

lemma soup_inv_delivers:
  assumes "delivers c n ts n'" and c: "valid_config c" and i: "i < RING_SIZE c"
    and "soup_inv c C s" and "nodes s i = n" and "\<And>t. t \<in> set ts \<Longrightarrow> t \<in> sent s \<and> all_acks c t"
  shows "soup_inv c C (deliver_net i n' (concat (map batch_of ts)) s)"
  using assms(1,4-6)
proof (induction arbitrary: s rule: delivers.induct)
  case (delivers_Nil n)
  then have "deliver_net i n [] s = s" by (auto simp: deliver_net_def)
  then show ?case using delivers_Nil by simp
next
  case (delivers_Cons n t ts n')
  let ?s = "deliver_net i (deliver_one t (nodes s i)) (batch_of t) s"
  have "soup_inv c C ?s"
    using delivers_Cons by (intro soup_inv_deliver [OF c _ i]) auto
  then have "soup_inv c C (deliver_net i n' (concat (map batch_of ts)) ?s)"
    using delivers_Cons.prems by (intro delivers_Cons.IH) auto
  then show ?case by (simp add: deliver_net_def)
qed

text \<open>A contribution: node \<open>i\<close> puts its pending payloads on the train with key \<open>k\<close>, as the
  issuer or on the first lap.\<close>

lemma train_ok_update:
  assumes t: "train_ok c C A t" and A: "\<And>j k. A j k \<Longrightarrow> A' j k" and new: "\<not> A i k"
  shows "train_ok c (C(i := (C i)(k := ps))) A' t"
proof -
  have "(C(i := (C i)(k := ps))) j (key_of t) = C j (key_of t)" if "bit (ack_bits t) j" for j
    using that t new by (auto simp: train_ok_def)
  then have "(\<Sum>j | j < RING_SIZE c \<and> bit (ack_bits t) j. mset ((C(i := (C i)(k := ps))) j (key_of t))) =
      (\<Sum>j | j < RING_SIZE c \<and> bit (ack_bits t) j. mset (C j (key_of t)))"
    by (intro sum.cong) auto
  then show ?thesis using t A by (simp add: train_ok_def)
qed

lemma log_of_update:
  assumes "k \<notin> A"
  shows "log_of c (C(i := (C i)(k := ps))) A = log_of c C A"
proof -
  have "merged c (C(i := (C i)(k := ps))) j = merged c C j" if "j \<in> A" for j
    unfolding merged_def using that assms by (intro arg_cong [of _ _ concat] map_cong) auto
  then have "content c (C(i := (C i)(k := ps))) j = content c C j" if "j \<in> A" for j
    using that by (simp add: content_def)
  then show ?thesis
    unfolding log_of_def by (cases "finite A") (auto intro!: arg_cong [of _ _ concat])
qed

lemma apart_move: "apart ps Ci \<Longrightarrow> apart [] (Ci(k := ps))"
  unfolding apart_def by (simp add: Int_commute)

lemma own_ok_contribute:
  assumes own: "own_ok C s i"
    and n': "nodes s' i = n'" "submitted s' = submitted s" "pending n' = []"
      "next_seq n' = next_seq (nodes s i)" "broadcast_seen n' = broadcast_seen (nodes s i) \<union> X"
    and X: "\<And>x. (i, x) \<in> X \<Longrightarrow> x < length (submitted s i)"
  shows "own_ok (C(i := (C i)(k := pending (nodes s i)))) s' i" (is "own_ok ?C s' i")
proof -
  have "held ?C s' i \<subseteq> held C s i" using n' by (auto simp: held_def split: if_splits)
  moreover have "origin s' i p" if "origin s i p" for p using that n' by (auto simp: origin_def)
  moreover have "apart [] (?C i)" using own apart_move by (simp add: own_ok_def)
  moreover have "counter_ok s' i" using own n' X by (auto simp: own_ok_def counter_ok_def)
  ultimately show ?thesis using own n' by (auto simp: own_ok_def)
qed

definition contribute :: "proc_id \<Rightarrow> trains_node \<Rightarrow> train \<Rightarrow> net \<Rightarrow> net" where
  "contribute i n t s = s\<lparr>nodes := (nodes s)(i := n), sent := insert t (sent s)\<rparr>"

lemma contribute_simps [simp]:
  "nodes (contribute i n t s) = (nodes s)(i := n)" "sent (contribute i n t s) = insert t (sent s)"
  "dlog (contribute i n t s) = dlog s" "submitted (contribute i n t s) = submitted s"
  by (simp_all add: contribute_def)

lemma soup_inv_contribute:
  assumes inv: "soup_inv c C s" and i: "i < RING_SIZE c" and new: "\<not> acked s i k"
    and wf: "node_wf c n'" "node_id n' = i"
    and same: "delivery n' = delivery (nodes s i)" "parked n' = parked (nodes s i)"
      "next_seq n' = next_seq (nodes s i)" "pending n' = []"
    and mono: "next_issue_clock (nodes s i) \<le> next_issue_clock n'"
      "\<And>q. q \<noteq> i \<Longrightarrow> seen (clocks (nodes s i)) ! q \<le> seen (clocks n') ! q"
    and ids: "broadcast_seen n' = broadcast_seen (nodes s i) \<union> X"
      "\<And>x. (i, x) \<in> X \<Longrightarrow> x < length (submitted s i)"
    and C': "C' = C(i := (C i)(k := pending (nodes s i)))"
    and ack: "acked (contribute i n' t s) i k"
    and t: "train_ok c C' (acked (contribute i n' t s)) t"
  shows "soup_inv c C' (contribute i n' t s)" (is "soup_inv c C' ?s")
proof -
  note I = node_invD [OF inv]
  have acked: "acked ?s j x" if "acked s j x" for j x
    using that mono le_trans by (fastforce simp: acked_def split: if_splits)
  have log: "log_of c C' (done_keys (delivery (nodes s j))) = dlog s j" if "j < RING_SIZE c" for j
    using new I(6) [OF that _ i] I(7) [OF that] unfolding C' by (metis log_of_update)
  have "own_ok C' ?s i"
    unfolding C' by (rule own_ok_contribute [OF I(9) [OF i] _ _ same(4,3) ids]) simp_all
  moreover have "C' i x \<noteq> [] \<longrightarrow> acked ?s i x" for x
    using ack acked I(8) [OF i] by (simp add: C')
  ultimately have "node_inv c C' ?s i"
    using wf same I [OF i] log [OF i] acked by (auto simp: node_inv_def)
  moreover have "node_inv c C' ?s j" if j: "j < RING_SIZE c" "j \<noteq> i" for j
  proof -
    have "own_ok C' ?s j = own_ok C s j"
      using j(2) by (simp add: own_ok_def held_def origin_def counter_ok_def C')
    then show ?thesis using j I [OF j(1)] log [OF j(1)] acked by (auto simp: node_inv_def C')
  qed
  moreover have "train_ok c C' (acked ?s) u" if "u \<in> sent s" for u
    unfolding C' using sent_ok [OF inv that] acked new by (rule train_ok_update)
  ultimately show ?thesis using t by (auto simp: soup_inv_def)
qed

lemma bit_load_train:
  "node_id n < 32 \<Longrightarrow> bit (ack_bits (load_train n t)) i \<longleftrightarrow> i = node_id n \<or> bit (ack_bits t) i"
  by (simp add: load_train_def bit_or_shl_one flip: push_bit_of_1)

lemma load_train_simps [simp]:
  "issuer (load_train n t) = issuer t" "clock (load_train n t) = clock t"
  "payloads (load_train n t) = payloads t @ pending n" "key_of (load_train n t) = key_of t"
  by (simp_all add: load_train_def key_of_def)

lemma train_ok_load:
  assumes t: "train_ok c C A t" and A: "\<And>j k. A j k \<Longrightarrow> A' j k" "A' i (key_of t)"
    and new: "\<not> A i (key_of t)" and n: "node_id n = i" "i < RING_SIZE c" "i < 32"
  shows "train_ok c (C(i := (C i)(key_of t := pending n))) A' (load_train n t)"
proof -
  let ?C = "C(i := (C i)(key_of t := pending n))"
  let ?B = "{j. j < RING_SIZE c \<and> bit (ack_bits t) j}"
  have bits: "bit (ack_bits (load_train n t)) j \<longleftrightarrow> j = i \<or> bit (ack_bits t) j" for j
    using bit_load_train n by blast
  have "i \<notin> ?B" using t new by (auto simp: train_ok_def)
  moreover have "(\<Sum>j\<in>?B. mset (?C j (key_of t))) = (\<Sum>j\<in>?B. mset (C j (key_of t)))"
    using \<open>i \<notin> ?B\<close> by (intro sum.cong) auto
  moreover have "{j. j < RING_SIZE c \<and> bit (ack_bits (load_train n t)) j} = insert i ?B"
    using n(2) by (auto simp: bits)
  ultimately have "mset (payloads (load_train n t)) =
      (\<Sum>j | j < RING_SIZE c \<and> bit (ack_bits (load_train n t)) j. mset (?C j (key_of t)))"
    using t by (simp add: train_ok_def)
  then show ?thesis using t A n by (auto simp: train_ok_def bits)
qed

lemma seen_raise_mono:
  "q \<noteq> i \<Longrightarrow> seen (clocks (raise_seen i cl n)) ! q = seen (clocks n) ! q"
  "i < length (seen (clocks n)) \<Longrightarrow> seen (clocks (raise_seen i cl n)) ! i = max (seen (clocks n) ! i) cl"
  by (simp_all add: clocks_raise_seen)

text \<open>First lap at node \<open>i\<close>.\<close>

lemma soup_inv_load:
  assumes c: "valid_config c" and inv: "soup_inv c C s" and i: "i < RING_SIZE c"
    and t: "t \<in> sent s" "issuer t \<noteq> i" and new: "seen (clocks (nodes s i)) ! issuer t < clock t"
  shows "soup_inv c (C(i := (C i)(key_of t := pending (nodes s i))))
    (contribute i (load_node t (nodes s i)) (load_train (nodes s i) t) s)"
proof -
  let ?n = "nodes s i" and ?s = "contribute i (load_node t (nodes s i)) (load_train (nodes s i) t) s"
  note I = node_invD [OF inv i]
  have tok: "train_ok c C (acked s) t" using inv t(1) by (rule sent_ok)
  have iss: "issuer t < RING_SIZE c" using tok valid_configD(5) [OF c] by (auto simp: train_ok_def)
  have len: "issuer t < length (seen (clocks ?n))"
    using iss node_wfD(2) [OF I(1)] by (simp add: clock_ok_def)
  have "clock t < next_issue_clock (nodes s (issuer t))"
    using tok by (auto simp: train_ok_def acked_def key_of_def)
  then have cl: "clock t \<le> u64_max" using node_wfD(8) [OF node_invD(1) [OF inv iss]] by simp
  have not_acked: "\<not> acked s i (key_of t)" using new t(2) by (simp add: acked_def key_of_def)
  have ack: "acked ?s i (key_of t)"
    using t(2) len by (simp add: acked_def key_of_def seen_raise_mono)
  have mono: "seen (clocks ?n) ! q \<le> seen (clocks (load_node t ?n)) ! q" for q
    using len by (cases "q = issuer t") (simp_all add: seen_raise_mono)
  have acked: "acked ?s j x" if "acked s j x" for j x
    using that mono le_trans by (fastforce simp: acked_def split: if_splits)
  have ids: "x < length (submitted s i)" if x: "(i, x) \<in> payload_id ` set (payloads t @ pending ?n)" for x
  proof -
    obtain p where p: "p \<in> set (payloads t) \<or> p \<in> set (pending ?n)" "sender p = i" "seq p = x"
      using x by (auto simp: payload_id_def)
    then show ?thesis
      using sent_payload(2) [OF inv t(1), of p] pending_origin [OF I(9), of p] by (auto simp: origin_def)
  qed
  have small: "i < 32" using i valid_configD(2) [OF c] by simp
  have "train_ok c (C(i := (C i)(key_of t := pending ?n))) (acked ?s) (load_train ?n t)"
    using I(2) i small ack not_acked acked by (intro train_ok_load [OF tok]) auto
  then show ?thesis
    using mono
    by (intro soup_inv_contribute [OF inv i not_acked load_node_wf [OF I(1) iss cl] _ _ _ _ _ _ _ _ ids refl ack])
      (simp_all add: I(2))
qed

text \<open>An issue at node \<open>i\<close>.\<close>

lemma soup_inv_issue:
  assumes c: "valid_config c" and inv: "soup_inv c C s" and i: "i < NUM_TRAINS c"
    and left: "next_issue_clock (nodes s i) < u64_max" and ok: "node_ok c (nodes s i)"
  shows "\<exists>C'. soup_inv c C' (contribute i (issue_node (nodes s i)) (fresh_train (nodes s i)) s) \<and>
    extends c C s C' (contribute i (issue_node (nodes s i)) (fresh_train (nodes s i)) s)"
proof -
  let ?n = "nodes s i" and ?s = "contribute i (issue_node (nodes s i)) (fresh_train (nodes s i)) s"
  let ?k = "ClockKey (next_issue_clock (nodes s i)) i"
  have iN: "i < RING_SIZE c" "i < 32" using i valid_configD [OF c] by auto
  note I = node_invD [OF inv iN(1)]
  have key: "key_of (fresh_train ?n) = ?k" by (simp add: fresh_train_def key_of_def I(2))
  have bits: "bit (ack_bits (fresh_train ?n)) j \<longleftrightarrow> j = i" for j
    using bit_shl_one [OF iN(2)] by (simp add: fresh_train_def I(2))
  have sing: "{j. j < RING_SIZE c \<and> j = i} = {i}" using iN(1) by auto
  have ack: "acked ?s i ?k" using left by (simp add: acked_def sat_add64_def)
  have "train_ok c (C(i := (C i)(?k := pending ?n))) (acked ?s) (fresh_train ?n)"
    using i iN(1) ack node_wfD(9) [OF I(1)]
    by (simp add: train_ok_def bits key sing) (simp add: fresh_train_def I(2))
  moreover have "x < length (submitted s i)" if "(i, x) \<in> payload_id ` set (pending ?n)" for x
    using that pending_origin [OF I(9)] by (auto simp: payload_id_def origin_def)
  moreover have new: "\<not> acked s i ?k" by (simp add: acked_def)
  ultimately have "soup_inv c (C(i := (C i)(?k := pending ?n))) ?s"
    using I(2) node_okD(1) [OF issue_node_ok [OF ok]] ack left
    by (intro soup_inv_contribute [OF inv iN(1), of ?k _ "payload_id ` set (pending ?n)"])
      (simp_all add: sat_add64_def)
  moreover have "extends c C s (C(i := (C i)(?k := pending ?n))) ?s"
    using I(8) [of ?k] left i node_wfD(9) [OF I(1)]
    by (intro extends_contribute [OF _ _ _ new, where n' = "issue_node ?n"])
      (simp_all add: contribute_def sat_add64_def proper_def)
  ultimately show ?thesis by blast
qed

end
