(* ===== verification/Soup_Safety.thy ===== *)
theory Soup_Safety
  imports Soup
begin

text \<open>
  The steps of the network keep its invariant, and what follows for every reachable state:
  no step panics, the logs of any two nodes agree, every delivered payload was submitted
  by its sender and is delivered once, and a delivered key has been acknowledged by every
  node. The content results assume \<open>clocks_left\<close>: no issuer has used up its 64-bit clock,
  after which \<^verbatim>\<open>saturating_add\<close> would stamp two trains alike.
\<close>

definition clocks_left :: "config \<Rightarrow> net \<Rightarrow> bool" where
  "clocks_left c s \<longleftrightarrow> (\<forall>i<RING_SIZE c. next_issue_clock (nodes s i) < u64_max)"

definition trains_bounded :: "config \<Rightarrow> net \<Rightarrow> bool" where
  "trains_bounded c s \<longleftrightarrow> (\<forall>t\<in>sent s. issuer t < NUM_TRAINS c \<and> clock t \<le> u64_max)"

definition net_ok :: "config \<Rightarrow> net \<Rightarrow> bool" where
  "net_ok c s \<longleftrightarrow> trains_bounded c s \<and>
     (\<forall>i<RING_SIZE c. node_ok c (nodes s i) \<and> node_id (nodes s i) = i)"

definition net_inv :: "config \<Rightarrow> net \<Rightarrow> bool" where
  "net_inv c s \<longleftrightarrow> valid_config c \<and> net_ok c s \<and> (clocks_left c s \<longrightarrow> (\<exists>C. soup_inv c C s))"

section \<open>The structural part\<close>

text \<open>What a received train can change besides deliveries.\<close>

lemma step_train_frame:
  assumes c: "valid_config c" and ok: "node_ok c n" and t: "issuer t < NUM_TRAINS c" "clock t \<le> u64_max"
    and st: "step c (TrainReceived t) n = Some (n', outs)"
  shows "node_ok c n'" "node_id n' = node_id n" "next_issue_clock n \<le> next_issue_clock n'"
    "\<And>u. u \<in> set (sends outs) \<Longrightarrow> issuer u = issuer t \<and> clock u \<le> u64_max"
proof -
  have iss: "issuer t < RING_SIZE c" using t(1) valid_configD(5) [OF c] by simp
  have "node_ok c n' \<and> node_id n' = node_id n \<and> next_issue_clock n \<le> next_issue_clock n' \<and>
      (\<forall>u\<in>set (sends outs). issuer u = issuer t \<and> clock u \<le> u64_max)"
    using c ok iss t(2)
  proof (cases rule: step_cases)
    case fenced
    then show ?thesis using ok st by simp
  next
    case (replay m ts us)
    then show ?thesis
      using st t by (auto simp: delivery_run_def maybe_park_def delivers_frame)
  next
    case (first m ts)
    then show ?thesis using st t by (auto simp: delivers_frame)
  next
    case recycle
    then show ?thesis
      using st issue_node_ok [OF ok] node_wfD(8) [OF node_okD(1) [OF ok]]
      by (auto simp: sat_add64_ge fresh_train_def)
  next
    case (return m ts us)
    then show ?thesis
      using st t by (auto simp: delivery_run_def maybe_park_def delivers_frame)
  qed
  then show "node_ok c n'" "node_id n' = node_id n" "next_issue_clock n \<le> next_issue_clock n'"
    "\<And>u. u \<in> set (sends outs) \<Longrightarrow> issuer u = issuer t \<and> clock u \<le> u64_max" by auto
qed

lemma step_other_frame:
  assumes ok: "node_ok c n" and st: "step c inp n = Some (n', outs)" and "\<And>t. inp \<noteq> TrainReceived t"
  shows "node_ok c n' \<and> node_id n' = node_id n \<and> next_issue_clock n' = next_issue_clock n \<and>
    sends outs = [] \<and> batches outs = []"
  using assms(3) st handle_broadcast_ok [OF ok] ok
  by (cases inp) (auto simp: handle_tick_def handle_broadcast_def Let_def split: if_splits)

lemma issue_frame:
  assumes "valid_config c" "node_ok c n" "issue_initial_train c n = Some (n', t)"
  shows "n' = issue_node n" "t = fresh_train n"
  using assms issue_new_train_pure [OF assms(1) node_okD(1) [OF assms(2)]]
  by (auto simp: issue_initial_train_def)

lemma net_apply_simps [simp]:
  "nodes (net_apply i r s) = (nodes s)(i := fst r)"
  "sent (net_apply i r s) = sent s \<union> set (sends (snd r))"
  "dlog (net_apply i r s) = (dlog s)(i := dlog s i @ batches (snd r))"
  "submitted (net_apply i r s) = submitted s"
  by (simp_all add: net_apply_def)

lemma net_okD:
  assumes "net_ok c s" and "i < RING_SIZE c"
  shows "node_ok c (nodes s i)" "node_id (nodes s i) = i"
  using assms by (auto simp: net_ok_def)

lemma net_ok_train:
  "net_ok c s \<Longrightarrow> t \<in> sent s \<Longrightarrow> issuer t < NUM_TRAINS c \<and> clock t \<le> u64_max"
  by (auto simp: net_ok_def trains_bounded_def)

lemma node_new_fields:
  assumes "node_new c i m = Some n"
  shows "node_id n = i" "delivery n = delivery_new m" "next_issue_clock n = 1" "next_seq n = 0"
    "pending n = []" "parked n = []" "broadcast_seen n = {}" "frozen n = False"
  using assms by (auto simp: node_new_def split: if_splits)

lemma net_ok_init: "soup_init c m s \<Longrightarrow> net_ok c s"
  using node_new_ok node_new_fields(1) unfolding soup_init_def net_ok_def trains_bounded_def by blast

lemma net_ok_apply:
  assumes "net_ok c s" and "node_ok c n'" "node_id n' = i"
    and "\<And>u. u \<in> set (sends outs) \<Longrightarrow> issuer u < NUM_TRAINS c \<and> clock u \<le> u64_max"
  shows "net_ok c (net_apply i (n', outs) s)"
  using assms by (auto simp: net_ok_def trains_bounded_def)

lemma clocks_left_apply:
  assumes "next_issue_clock (nodes s i) \<le> next_issue_clock n'" "clocks_left c s'"
    "nodes s' = (nodes s)(i := n')"
  shows "clocks_left c s"
  unfolding clocks_left_def
proof (intro allI impI)
  fix j assume "j < RING_SIZE c"
  then show "next_issue_clock (nodes s j) < u64_max"
    using assms unfolding clocks_left_def by (cases "j = i") auto
qed

lemma net_ok_step:
  assumes c: "valid_config c" and ok: "net_ok c s" and st: "soup_step c s s'"
  shows "net_ok c s' \<and> (clocks_left c s' \<longrightarrow> clocks_left c s)"
  using st
proof (cases rule: soup_step.cases)
  case (soup_bcast i bs r)
  obtain n' outs where r: "r = (n', outs)" by fastforce
  have f: "node_ok c n' \<and> node_id n' = node_id (nodes s i) \<and>
      next_issue_clock n' = next_issue_clock (nodes s i) \<and> sends outs = [] \<and> batches outs = []"
    by (rule step_other_frame [OF net_okD(1) [OF ok soup_bcast(2)] soup_bcast(3) [unfolded r]]) simp
  then have "net_ok c (net_apply i r s)"
    unfolding r using net_okD(2) [OF ok soup_bcast(2)] by (intro net_ok_apply [OF ok]) auto
  then have "net_ok c s'" unfolding soup_bcast(1) by (simp add: net_ok_def trains_bounded_def)
  moreover have "clocks_left c s" if "clocks_left c s'"
    using f r soup_bcast(1) by (intro clocks_left_apply [OF _ that]) auto
  ultimately show ?thesis by blast
next
  case (soup_tick i r)
  then have "r = (nodes s i, [])" by (simp add: handle_tick_def)
  then show ?thesis using soup_tick ok by (simp add: net_apply_def)
next
  case (soup_recv i t r)
  obtain n' outs where r: "r = (n', outs)" by fastforce
  note f = step_train_frame [OF c net_okD(1) [OF ok soup_recv(2)], of t n' outs]
  have "net_ok c s'"
    unfolding soup_recv(1) r
    using f net_ok_train [OF ok soup_recv(3)] soup_recv(4) r net_okD(2) [OF ok soup_recv(2)]
    by (intro net_ok_apply [OF ok]) auto
  moreover have "next_issue_clock (nodes s i) \<le> next_issue_clock n'"
    using f net_ok_train [OF ok soup_recv(3)] soup_recv(4) r by simp
  moreover from this have "clocks_left c s" if "clocks_left c s'"
    using r soup_recv(1) by (intro clocks_left_apply [OF _ that]) auto
  ultimately show ?thesis by blast
next
  case (soup_issue i n' t)
  have i: "i < RING_SIZE c" using soup_issue(2) valid_configD(5) [OF c] by simp
  note n = net_okD [OF ok i]
  note f = issue_frame [OF c n(1) soup_issue(3)]
  have "net_ok c s'"
    unfolding soup_issue(1) f
    using issue_node_ok [OF n(1)] n soup_issue(2) node_wfD(8) [OF node_okD(1) [OF n(1)]]
    by (intro net_ok_apply [OF ok]) (auto simp: fresh_train_def)
  moreover have "next_issue_clock (nodes s i) \<le> next_issue_clock n'"
    unfolding f using node_wfD(8) [OF node_okD(1) [OF n(1)]] by (simp add: sat_add64_ge)
  moreover from this have "clocks_left c s" if "clocks_left c s'"
    using soup_issue(1) by (intro clocks_left_apply [OF _ that]) auto
  ultimately show ?thesis by blast
qed

section \<open>The content part\<close>

text \<open>A delivery run after a local move that contributes nothing.\<close>

lemma soup_inv_run:
  assumes c: "valid_config c" and inv: "soup_inv c C s" and i: "i < RING_SIZE c" and t: "t \<in> sent s"
    and wf: "node_wf c n0" and known: "known c n0 (key_of t)"
    and same: "node_id n0 = i" "delivery n0 = delivery (nodes s i)" "parked n0 = parked (nodes s i)"
      "next_issue_clock n0 = next_issue_clock (nodes s i)"
      "next_seq n0 = next_seq (nodes s i)" "pending n0 = pending (nodes s i)"
      "\<And>q. q \<noteq> i \<Longrightarrow> seen (clocks n0) ! q = seen (clocks (nodes s i)) ! q"
    and ids: "broadcast_seen n0 = broadcast_seen (nodes s i) \<union> X"
      "X \<subseteq> (\<Union>t\<in>sent s. payload_id ` set (payloads t))"
    and run: "delivery_run c t n0 ts n'"
  shows "soup_inv c C (deliver_net i n' (concat (map batch_of ts)) s)"
proof -
  note I = node_invD [OF inv i]
  obtain n1 where n1: "maybe_park c t n0 n1" "delivers c n1 ts n'"
    using run by (auto simp: delivery_run_def)
  have "ready c t n0 \<Longrightarrow> all_acks c t" using ready_all_acks [OF c, of n0 t] I(3) same(2) by simp
  then have full: "u \<in> sent s \<and> all_acks c u"
    if "u \<in> snd ` set (parked n0) \<or> (u = t \<and> ready c t n0)" for u
    using that t I(4) [of u] same(3) by auto
  have "soup_inv c C (set_node i n1 s)"
  proof (rule soup_inv_local [OF inv i maybe_park_wf [OF wf known n1(1)] _ _ _ _ _ _ _ _ _ ids(2)])
    show "\<And>u. u \<in> snd ` set (parked n1) \<Longrightarrow> u \<in> sent s \<and> all_acks c u"
      using set_maybe_park [OF n1(1)] full by blast
  qed (use n1(1) same ids(1) I(3) in \<open>auto simp: maybe_park_def\<close>)
  then have "soup_inv c C (deliver_net i n' (concat (map batch_of ts)) (set_node i n1 s))"
    using run full by (intro soup_inv_delivers [OF n1(2) c i]) (auto simp: delivery_run_def)
  then show ?thesis by (simp add: deliver_net_def set_node_def)
qed

lemma known_sent:
  assumes c: "valid_config c" and inv: "soup_inv c C s" and t: "t \<in> sent s"
  shows "issuer t < RING_SIZE c" "1 \<le> clock t"
  using sent_ok [OF inv t] valid_configD(5) [OF c] by (auto simp: train_ok_def)

lemma net_apply_deliver:
  assumes "batches outs = ps" and "set (sends outs) \<subseteq> sent s"
  shows "net_apply i (n', outs) s = deliver_net i n' ps s"
  using assms by (auto simp: net_apply_def deliver_net_def Un_absorb2)

lemma net_apply_contribute:
  assumes "sends outs = [t]" "batches outs = ps"
  shows "net_apply i (n', outs) s = deliver_net i n' ps (contribute i n1 t s)"
  using assms by (simp add: net_apply_def deliver_net_def contribute_def)

lemma soup_inv_recv:
  assumes c: "valid_config c" and inv: "soup_inv c C s" and i: "i < RING_SIZE c"
    and ok: "node_ok c (nodes s i)" and t: "t \<in> sent s" "clock t \<le> u64_max"
    and st: "step c (TrainReceived t) (nodes s i) = Some (n', outs)"
    and left: "next_issue_clock (nodes s i) < u64_max"
  shows "\<exists>C'. soup_inv c C' (net_apply i (n', outs) s) \<and> extends c C s C' (net_apply i (n', outs) s)"
proof -
  let ?n = "nodes s i"
  note I = node_invD [OF inv i] and kt = known_sent [OF c inv t(1)]
  show ?thesis
    using c ok kt(1) t(2)
  proof (cases rule: step_cases)
    case fenced
    then have "n' = ?n" "outs = []" using st by auto
    then have "net_apply i (n', outs) s = s" by (simp add: net_apply_def)
    then show ?thesis using inv extends_refl by metis
  next
    case (replay m ts us)
    have "known c (note_payloads (payloads t) ?n) (key_of t)"
      using kt replay(3) by (simp add: known_key_of)
    then have "soup_inv c C (deliver_net i m (concat (map batch_of (ts @ us))) s)"
      using I(2) t(1)
      by (intro soup_inv_run [OF c inv i t(1) node_okD(1) [OF note_payloads_ok [OF ok]] _ _ _ _ _ _ _ _ _ _ replay(5),
            where X = "payload_id ` set (payloads t)"]) auto
    moreover have "net_apply i (n', outs) s = deliver_net i m (concat (map batch_of (ts @ us))) s"
      using replay(4) st t(1) by (auto intro: net_apply_deliver)
    moreover have "extends c C s C (net_apply i (n', outs) s)"
      using st replay(4) delivery_run_frame [OF replay(5)] by (intro extends_node) auto
    ultimately show ?thesis by auto
  next
    case (first m ts)
    let ?C = "C(i := (C i)(key_of t := pending ?n))"
    let ?s = "contribute i (load_node t ?n) (load_train ?n t) s"
    have "soup_inv c ?C ?s"
      using first(1,3) I(2) by (intro soup_inv_load [OF c inv i t(1)]) auto
    then have "soup_inv c ?C (deliver_net i m (concat (map batch_of ts)) ?s)"
      using first(6) I(4) by (intro soup_inv_delivers [OF first(5) c i]) auto
    moreover have "net_apply i (n', outs) s = deliver_net i m (concat (map batch_of ts)) ?s"
      using first(4) st by (auto intro: net_apply_contribute)
    moreover have "extends c C s ?C (net_apply i (n', outs) s)"
    proof (rule extends_contribute [where n' = m])
      show "nodes (net_apply i (n', outs) s) = (nodes s)(i := m)" using st first(4) by simp
      show "\<not> acked s i (key_of t)" using first(1,3) I(2) by (simp add: acked_def key_of_def)
      show "next_issue_clock (nodes s i) \<le> next_issue_clock m" using delivers_frame [OF first(5)] by simp
      show "seen (clocks (nodes s i)) ! q \<le> seen (clocks m) ! q" for q
        using delivers_frame [OF first(5)] kt(1) node_wfD(2) [OF I(1)]
        by (cases "q = issuer t") (simp_all add: seen_raise_mono clock_ok_def)
      show "C i (key_of t) \<noteq> [] \<longrightarrow> acked s i (key_of t)" using I(8) by blast
      show "proper c (key_of t)" using sent_ok [OF inv t(1)] by (simp add: train_ok_def proper_def key_of_def)
    qed
    ultimately show ?thesis by auto
  next
    case recycle
    have "i < NUM_TRAINS c"
      using recycle(1) I(2) sent_ok [OF inv t(1)] by (simp add: train_ok_def)
    then have "\<exists>C'. soup_inv c C' (contribute i (issue_node ?n) (fresh_train ?n) s) \<and>
        extends c C s C' (contribute i (issue_node ?n) (fresh_train ?n) s)"
      using soup_inv_issue [OF c inv _ left ok] by blast
    moreover have "net_apply i (n', outs) s = contribute i (issue_node ?n) (fresh_train ?n) s"
      using recycle(4) st by (auto simp: net_apply_def contribute_def)
    ultimately show ?thesis by simp
  next
    case (return m ts us)
    have "soup_inv c C (deliver_net i m (concat (map batch_of (ts @ us))) s)"
      by (rule soup_inv_run [OF c inv i t(1) _ _ _ _ _ _ _ _ _ _ _ return(5), where X = "{}"])
        (use I(2) kt return(1) t(2) node_wf_raise_seen [OF I(1) t(2) i]
          known_raise_seen(2) [OF node_wfD(2) [OF I(1)] i kt(2)]
         in \<open>auto simp: key_of_def seen_raise_mono\<close>)
    moreover have "net_apply i (n', outs) s = deliver_net i m (concat (map batch_of (ts @ us))) s"
      using return(4) st t(1) by (auto intro: net_apply_deliver)
    moreover have "extends c C s C (net_apply i (n', outs) s)"
      using st return(4) delivery_run_frame [OF return(5)] I(2)
      by (intro extends_node) (auto simp: seen_raise_mono)
    ultimately show ?thesis by auto
  qed
qed

lemma soup_inv_init:
  assumes "soup_init c m s"
  shows "soup_inv c (\<lambda>_ _. []) s"
proof -
  have "node_inv c (\<lambda>_ _. []) s i" if i: "i < RING_SIZE c" for i
  proof -
    have new: "node_new c i m = Some (nodes s i)" using assms i by (simp add: soup_init_def)
    then have "node_wf c (nodes s i)" by (rule node_okD(1) [OF node_new_ok])
    moreover have "dlog s i = []" "submitted s i = []" using assms by (auto simp: soup_init_def)
    ultimately show ?thesis
      using node_new_fields [OF new]
      by (simp add: node_inv_def delivery_new_def initial_segment_def log_of_def own_ok_def held_def
          apart_def counter_ok_def)
  qed
  then show ?thesis using assms by (simp add: soup_inv_def soup_init_def)
qed

lemma soup_inv_step:
  assumes c: "valid_config c" and ok: "net_ok c s" and inv: "soup_inv c C s"
    and left: "clocks_left c s'" "clocks_left c s" and st: "soup_step c s s'"
  shows "\<exists>C'. soup_inv c C' s' \<and> extends c C s C' s'"
  using st
proof (cases rule: soup_step.cases)
  case (soup_bcast i bs r)
  have "net_apply i r s = set_node i (fst (handle_broadcast bs (nodes s i))) s"
    using soup_bcast(3) step_other_frame [OF net_okD(1) [OF ok soup_bcast(2)], of "LocalBroadcast bs" "fst r" "snd r"]
    by (simp add: net_apply_def set_node_def)
  moreover have "extends c C s C s'"
    using soup_bcast(1,3) by (intro extends_node [where n' = "fst (handle_broadcast bs (nodes s i))" and i = i])
      (auto simp: handle_broadcast_def Let_def)
  ultimately show ?thesis
    using soup_bcast(1) soup_inv_submit [OF inv soup_bcast(2) net_okD(1) [OF ok soup_bcast(2)]] by auto
next
  case (soup_tick i r)
  then have "r = (nodes s i, [])" by (simp add: handle_tick_def)
  then have "s' = s" using soup_tick by (simp add: net_apply_def)
  then show ?thesis using inv extends_refl by metis
next
  case (soup_recv i t r)
  obtain n' outs where r: "r = (n', outs)" by fastforce
  have "next_issue_clock (nodes s i) < u64_max" using left(2) soup_recv(2) by (simp add: clocks_left_def)
  then show ?thesis
    using soup_inv_recv [OF c inv soup_recv(2) net_okD(1) [OF ok soup_recv(2)] soup_recv(3)]
      net_ok_train [OF ok soup_recv(3)] soup_recv(1,4) r by simp
next
  case (soup_issue i n' t)
  have i: "i < RING_SIZE c" using soup_issue(2) valid_configD(5) [OF c] by simp
  have "next_issue_clock (nodes s i) < u64_max" using left(2) i by (simp add: clocks_left_def)
  then have "\<exists>C'. soup_inv c C' (contribute i (issue_node (nodes s i)) (fresh_train (nodes s i)) s) \<and>
      extends c C s C' (contribute i (issue_node (nodes s i)) (fresh_train (nodes s i)) s)"
    using soup_inv_issue [OF c inv soup_issue(2)] net_okD(1) [OF ok i] by simp
  moreover have "s' = contribute i (issue_node (nodes s i)) (fresh_train (nodes s i)) s"
    using soup_issue(1) issue_frame [OF c net_okD(1) [OF ok i] soup_issue(3)]
    by (simp add: net_apply_def contribute_def)
  ultimately show ?thesis by simp
qed

interpretation soup: invariant_system "soup_init c m" "soup_step c" "net_inv c" for c m
proof
  fix s assume "soup_init c m s"
  then show "net_inv c s"
    using net_ok_init soup_inv_init soup_init_def unfolding net_inv_def by blast
next
  fix s s' assume "net_inv c s" "soup_step c s s'"
  then show "net_inv c s'"
    using net_ok_step [of c s s'] soup_inv_step [of c s _ s'] by (auto simp: net_inv_def)
qed

section \<open>Consequences\<close>

abbreviation soup_reach :: "config \<Rightarrow> delivery_mode \<Rightarrow> net \<Rightarrow> bool" where
  "soup_reach c m \<equiv> reach (soup_init c m) (soup_step c)"

lemma soup_reachE:
  assumes "soup_reach c m s" and "clocks_left c s"
  obtains C where "soup_inv c C s" "valid_config c"
  using soup.reach_inv [OF assms(1)] assms(2) by (auto simp: net_inv_def)

text \<open>Two initial segments of the keys are nested.\<close>

lemma segments_nested:
  assumes "initial_segment c A" and "initial_segment c B"
  shows "A \<subseteq> B \<or> B \<subseteq> A"
proof (rule ccontr)
  assume "\<not> ?thesis"
  then obtain a b where "a \<in> A" "a \<notin> B" "b \<in> B" "b \<notin> A" by blast
  then show False
    using assms unfolding initial_segment_def by (metis linorder_less_linear)
qed

lemma segment_prefix:
  assumes A: "initial_segment c A" and B: "initial_segment c B" and sub: "A \<subseteq> B"
  shows "prefix (log_of c C A) (log_of c C B)"
proof -
  have "a < b" if "a \<in> A" "b \<in> B - A" for a b
  proof (rule ccontr)
    assume "\<not> a < b"
    then have "b < a" using that by (metis DiffD2 linorder_neqE)
    then show False using that A B unfolding initial_segment_def by blast
  qed
  then show ?thesis
    unfolding log_of_def using B sub
    by (intro prefix_concat_map sorted_list_of_set_prefix) (auto simp: initial_segment_def)
qed

lemma soup_inv_consistent:
  assumes inv: "soup_inv c C s" and i: "i < RING_SIZE c" "j < RING_SIZE c"
  shows "prefix (dlog s i) (dlog s j) \<or> prefix (dlog s j) (dlog s i)"
  using segments_nested [OF node_invD(5) [OF inv i(1)] node_invD(5) [OF inv i(2)]]
    segment_prefix node_invD(5,7) [OF inv i(1)] node_invD(5,7) [OF inv i(2)] by metis

lemma log_payload:
  assumes "finite A" and "p \<in> set (concat (log_of c C A))"
  obtains k i where "k \<in> A" "i < RING_SIZE c" "p \<in> set (C i k)"
proof -
  obtain k where "k \<in> A" "p \<in> set (merged c C k)"
    using assms by (auto simp: log_of_def content_def sort_payloads_def split: if_splits)
  then show ?thesis using that by (auto simp: set_merged)
qed

lemma mset_log_of:
  "mset (concat (concat (map (content c C) ks))) = mset (concat (map (merged c C) ks))"
  by (induction ks) (simp_all add: content_def sort_payloads_def)

lemma distinct_contributions:
  assumes "\<And>i. i < m \<Longrightarrow> own_ok C s i"
  shows "distinct (map payload_id (concat (map (\<lambda>i. C i k) [0..<m])))"
  using assms
proof (induction m)
  case (Suc m)
  have "payload_id p \<noteq> payload_id q" if pq: "i < m" "p \<in> set (C i k)" "q \<in> set (C m k)" for i p q
    using origin_sender [OF own_okD(1) [OF Suc.prems pq(2)]]
      origin_sender [OF own_okD(1) [OF Suc.prems pq(3)]] pq(1) by (simp add: payload_id_def)
  then show ?case
    using Suc own_okD(2) [OF Suc.prems, of m k] by fastforce
qed simp

lemma distinct_merged:
  assumes own: "\<And>i. i < RING_SIZE c \<Longrightarrow> own_ok C s i" and "distinct ks"
  shows "distinct (map payload_id (concat (map (merged c C) ks)))"
  using assms(2)
proof (induction ks)
  case (Cons k ks)
  have "payload_id p \<noteq> payload_id q"
    if pq: "p \<in> set (merged c C k)" "q \<in> set (merged c C j)" "j \<in> set ks" for p q j
  proof
    assume eq: "payload_id p = payload_id q"
    obtain i i' where i: "i < RING_SIZE c" "p \<in> set (C i k)" and i': "i' < RING_SIZE c" "q \<in> set (C i' j)"
      using pq by (auto simp: set_merged)
    have "i = i'"
      using origin_sender [OF own_okD(1) [OF own i(2)]] origin_sender [OF own_okD(1) [OF own i'(2)]] i i' eq
      by (metis payload_id_def prod.inject)
    moreover have "k \<noteq> j" using Cons.prems pq(3) by auto
    ultimately show False using own_okD(3) [OF own [OF i(1)], of k j] i i' eq by blast
  qed
  moreover have "distinct (map payload_id (merged c C k))"
    unfolding merged_def using own by (rule distinct_contributions)
  ultimately show ?case using Cons by fastforce
qed simp

lemma soup_inv_no_duplicates:
  assumes inv: "soup_inv c C s" and i: "i < RING_SIZE c"
  shows "distinct (map payload_id (concat (dlog s i)))"
proof -
  let ?ks = "sorted_list_of_set (done_keys (delivery (nodes s i)))"
  have "mset (map payload_id (concat (dlog s i))) = mset (map payload_id (concat (map (merged c C) ?ks)))"
    using node_invD(7) [OF inv i] mset_log_of [of c C ?ks] by (simp add: log_of_def)
  then show ?thesis
    using distinct_merged [of c C s ?ks] node_invD(9) [OF inv] by (metis distinct_sorted_list_of_set mset_eq_imp_distinct_iff)
qed

lemma soup_inv_integrity:
  assumes inv: "soup_inv c C s" and i: "i < RING_SIZE c" and p: "p \<in> set (concat (dlog s i))"
  shows "sender p < RING_SIZE c \<and> seq p < length (submitted s (sender p)) \<and>
    data p = submitted s (sender p) ! seq p"
proof -
  have "finite (done_keys (delivery (nodes s i)))"
    using node_invD(5) [OF inv i] by (simp add: initial_segment_def)
  then obtain k j where j: "j < RING_SIZE c" "p \<in> set (C j k)"
    using log_payload p unfolding node_invD(7) [OF inv i] by metis
  then show ?thesis using own_okD(1) [OF node_invD(9) [OF inv j(1)] j(2)] by (auto simp: origin_def)
qed

lemma soup_reach_ok:
  assumes "soup_reach c m s"
  shows "valid_config c" "net_ok c s"
  using soup.reach_inv [OF assms] by (auto simp: net_inv_def)

section \<open>Executing schedules\<close>

text \<open>A schedule is a list of moves; running it from the start state reaches the states the
  witnesses evaluate.\<close>

datatype soup_move = Move_Bcast proc_id "byte list" | Move_Recv proc_id train | Move_Issue proc_id

fun soup_exec :: "config \<Rightarrow> soup_move \<Rightarrow> net \<Rightarrow> net option" where
  "soup_exec c (Move_Bcast i bs) s =
     (if i < RING_SIZE c then
        map_option (\<lambda>r. submit i bs (net_apply i r s)) (step c (LocalBroadcast bs) (nodes s i))
      else None)"
| "soup_exec c (Move_Recv i t) s =
     (if i < RING_SIZE c \<and> t \<in> sent s then
        map_option (\<lambda>r. net_apply i r s) (step c (TrainReceived t) (nodes s i))
      else None)"
| "soup_exec c (Move_Issue i) s =
     (if i < NUM_TRAINS c then
        map_option (\<lambda>r. net_apply i (fst r, [ForwardTrain (snd r)]) s)
          (issue_initial_train c (nodes s i))
      else None)"

definition soup_start :: "config \<Rightarrow> delivery_mode \<Rightarrow> net" where
  "soup_start c m = \<lparr>nodes = (\<lambda>i. the (node_new c i m)), sent = {}, dlog = (\<lambda>_. []),
     submitted = (\<lambda>_. [])\<rparr>"

lemma soup_exec_step: "soup_exec c mv s = Some s' \<Longrightarrow> soup_step c s s'"
  by (cases mv) (auto split: if_splits intro: soup_step.intros)

lemma soup_run_reach:
  assumes "valid_config c" and "fold_opt (soup_exec c) mvs (soup_start c m) = Some s"
  shows "soup_reach c m s"
proof -
  have "soup_init c m (soup_start c m)"
    using assms(1) by (auto simp: soup_init_def soup_start_def node_new_def)
  then have "soup_reach c m (soup_start c m)" by (rule reach_init)
  then show ?thesis using assms(2) by (rule fold_opt_reach [rotated]) (rule soup_exec_step)
qed

text \<open>Two nodes, one issuer: node 0 submits a byte, its train makes two laps, both deliver.\<close>

definition demo_run :: "soup_move list" where
  "demo_run = [Move_Bcast 0 [7], Move_Issue 0, Move_Recv 1 (demo_train 1),
     Move_Recv 0 (demo_train 3), Move_Recv 1 (demo_train 3)]"

definition demo_net :: net where
  "demo_net = the (fold_opt (soup_exec cfg2) demo_run (soup_start cfg2 UniformTotalOrder))"

lemma demo_net_facts:
  "fold_opt (soup_exec cfg2) demo_run (soup_start cfg2 UniformTotalOrder) \<noteq> None \<and>
   dlog demo_net 0 = [[demo_payload]] \<and> dlog demo_net 1 = [[demo_payload]] \<and>
   next_issue_clock (nodes demo_net 0) = 2 \<and> next_issue_clock (nodes demo_net 1) = 1 \<and>
   ClockKey 1 0 \<in> done_keys (delivery (nodes demo_net 1)) \<and> demo_train 3 \<in> sent demo_net \<and>
   node_id (nodes demo_net 0) = 0 \<and> \<not> frozen (nodes demo_net 0)"
  by code_simp

lemma demo_net_reach: "soup_reach cfg2 UniformTotalOrder demo_net"
  using demo_net_facts soup_run_reach [OF cfg2_valid, of demo_run] by (auto simp: demo_net_def)

lemma demo_net_left: "clocks_left cfg2 demo_net"
  using demo_net_facts by (auto simp: clocks_left_def cfg2_def less_Suc_eq u64_max_def numeral_2_eq_2)

section \<open>Properties of the network\<close>

text \<open>C1. Consistent delivery (the TLA+ \<^verbatim>\<open>ConsistentDelivery\<close>): on a network that loses,
  delays, duplicates and reorders trains, in every delivery mode, the logs of any two
  nodes are prefixes of one another, as long as no issuer has used up its clock.\<close>

theorem consistent_delivery:
  assumes "soup_reach c m s" and "clocks_left c s" and "i < RING_SIZE c" and "j < RING_SIZE c"
  shows "prefix (dlog s i) (dlog s j) \<or> prefix (dlog s j) (dlog s i)"
  using soup_reachE [OF assms(1,2)] soup_inv_consistent assms(3,4) by metis

theorem consistent_delivery_witness:
  "dlog demo_net 0 = [[demo_payload]] \<and>
   (prefix (dlog demo_net 0) (dlog demo_net 1) \<or> prefix (dlog demo_net 1) (dlog demo_net 0))"
  using consistent_delivery [OF demo_net_reach demo_net_left, of 0 1] demo_net_facts
  by (simp add: cfg2_def)

text \<open>C8. No spurious delivery: every delivered payload was submitted, with these very bytes,
  at the node it names as its sender, as submission number \<^verbatim>\<open>seq\<close>.\<close>

theorem no_spurious_delivery:
  assumes "soup_reach c m s" and "clocks_left c s" and "i < RING_SIZE c"
    and "p \<in> set (concat (dlog s i))"
  shows "sender p < RING_SIZE c \<and> seq p < length (submitted s (sender p)) \<and>
    data p = submitted s (sender p) ! seq p"
  using soup_reachE [OF assms(1,2)] soup_inv_integrity assms(3,4) by metis

theorem no_spurious_delivery_witness:
  "sender demo_payload < 2 \<and> data demo_payload = submitted demo_net 0 ! 0"
  using no_spurious_delivery [OF demo_net_reach demo_net_left, of 1 demo_payload] demo_net_facts
  by (simp add: cfg2_def demo_payload_def)

text \<open>C9. No duplication: no payload identity occurs twice in the log of a node.\<close>

theorem no_duplicate_delivery:
  assumes "soup_reach c m s" and "clocks_left c s" and "i < RING_SIZE c"
  shows "distinct (map payload_id (concat (dlog s i)))"
  using soup_reachE [OF assms(1,2)] soup_inv_no_duplicates assms(3) by metis

theorem no_duplicate_delivery_witness:
  "distinct (map payload_id (concat (dlog demo_net 0))) \<and> dlog demo_net 0 = [[demo_payload]]"
  using no_duplicate_delivery [OF demo_net_reach demo_net_left, of 0] demo_net_facts
  by (simp add: cfg2_def)

text \<open>C10. Uniformity: when any node has delivered a key, the issuer has issued it and every
  other node has already taken the train through its first lap, so every node has put
  its payloads on it and no later contribution can change it.\<close>

theorem uniform_acknowledgement:
  assumes "soup_reach c m s" and "clocks_left c s" and "i < RING_SIZE c" and "j < RING_SIZE c"
    and "ClockKey cl q \<in> done_keys (delivery (nodes s i))"
  shows "if j = q then cl < next_issue_clock (nodes s j) else cl \<le> seen (clocks (nodes s j)) ! q"
proof -
  obtain C where inv: "soup_inv c C s" using soup_reachE [OF assms(1,2)] by blast
  show ?thesis using node_invD(6) [OF inv assms(3,5,4)] by (simp add: acked_def split: if_splits)
qed

theorem uniform_acknowledgement_witness:
  "1 < next_issue_clock (nodes demo_net 0)"
  using uniform_acknowledgement [OF demo_net_reach demo_net_left, of 1 0 1 0] demo_net_facts
  by (simp add: cfg2_def)

text \<open>The protocol does not panic on its own traffic: in every reachable state, clock
  exhaustion included, no node panics on any train ever forwarded, on a submission or on
  a tick, with the overflow checks and debug assertions of either build profile.\<close>

theorem network_never_panics:
  assumes "soup_reach c m s" and "i < RING_SIZE c" and "t \<in> sent s"
  shows "step c (TrainReceived t) (nodes s i) \<noteq> None \<and>
    step c (LocalBroadcast bs) (nodes s i) \<noteq> None \<and> step c Tick (nodes s i) \<noteq> None"
proof -
  note R = soup_reach_ok [OF assms(1)]
  have "input_ok c (TrainReceived t)"
    using net_ok_train [OF R(2) assms(3)] valid_configD(5) [OF R(1)] by auto
  then show ?thesis using step_ok [OF R(1) net_okD(1) [OF R(2) assms(2)]] by fastforce
qed

theorem network_never_panics_witness:
  "step cfg2 (TrainReceived (demo_train 3)) (nodes demo_net 0) \<noteq> None"
  using network_never_panics [OF demo_net_reach, of 0 "demo_train 3" "[]"] demo_net_facts
  by (simp add: cfg2_def)

end
