(* ===== verification/Ring.thy ===== *)
theory Ring
  imports Soup_Safety
begin

text \<open>
  The in-process ring of \<^verbatim>\<open>crates/trains-cli/src/ring.rs\<close>: \<open>RING_SIZE\<close> node tasks, each with
  an inbox its predecessor feeds, a delivered log and the \<^verbatim>\<open>dispatch\<close> of its outputs; and
  the consistency check that \<^verbatim>\<open>run\<close> performs on the collected logs. A link is a first-in
  first-out queue of trains that may lose messages (a dropped connection). Node tasks
  start at any time and may be descheduled or stopped at any point. The system is
  simulated by the network of \<open>Soup\<close>, and that network by the abstract total-order
  broadcast at the end of the theory.
\<close>

section \<open>Dispatch\<close>

record ring_state =
  cores :: "proc_id \<Rightarrow> trains_node"
  inbox :: "proc_id \<Rightarrow> train list"
  up :: "proc_id set"
  rlog :: "proc_id \<Rightarrow> payload list"

definition successor :: "config \<Rightarrow> proc_id \<Rightarrow> proc_id" where
  "successor c i = (i + 1) mod RING_SIZE c"

text \<open>\<^verbatim>\<open>transport.outbox.send(t)\<close>: the train is queued at the successor.\<close>

definition outbox_send :: "config \<Rightarrow> proc_id \<Rightarrow> train \<Rightarrow> ring_state \<Rightarrow> ring_state" where
  "outbox_send c i t s = s\<lparr>inbox := (inbox s)(successor c i := inbox s (successor c i) @ [t])\<rparr>"

fun dispatch_one :: "config \<Rightarrow> proc_id \<Rightarrow> node_output \<Rightarrow> ring_state \<Rightarrow> ring_state" where
  "dispatch_one c i (ForwardTrain t) s = outbox_send c i t s"
| "dispatch_one c i (Deliver ps) s = s\<lparr>rlog := (rlog s)(i := rlog s i @ ps)\<rparr>"
| "dispatch_one c i (DeclareCrash v) s = s"

definition dispatch :: "config \<Rightarrow> proc_id \<Rightarrow> node_output list \<Rightarrow> ring_state \<Rightarrow> ring_state" where
  "dispatch c i outs s = fold (dispatch_one c i) outs s"

definition outs_contain_delivery_or_crash :: "node_output list \<Rightarrow> bool" where
  "outs_contain_delivery_or_crash outs =
     list_ex (\<lambda>out. case out of Deliver _ \<Rightarrow> True | DeclareCrash _ \<Rightarrow> True | _ \<Rightarrow> False) outs"

section \<open>The node tasks\<close>

definition ring_args_ok :: "config \<Rightarrow> nat \<Rightarrow> nat \<Rightarrow> bool" where
  "ring_args_ok c num num_trains \<longleftrightarrow> num = RING_SIZE c \<and> \<not> num_trains > num"

text \<open>The start of \<^verbatim>\<open>run_one_node\<close>: create the core and issue the initial train.\<close>

definition start_node ::
    "config \<Rightarrow> nat \<Rightarrow> delivery_mode \<Rightarrow> proc_id \<Rightarrow> ring_state \<Rightarrow> ring_state option" where
  "start_node c num_trains m i s = do {
     core \<leftarrow> node_new c i m;
     if i < num_trains then do {
       (core', t) \<leftarrow> issue_initial_train c core;
       Some (outbox_send c i t (s\<lparr>cores := (cores s)(i := core'), up := insert i (up s)\<rparr>))
     }
     else Some (s\<lparr>cores := (cores s)(i := core), up := insert i (up s)\<rparr>)
   }"

text \<open>One arm of its \<^verbatim>\<open>select!\<close>: step the core on the input, dispatch the outputs.\<close>

definition node_arm :: "config \<Rightarrow> proc_id \<Rightarrow> node_input \<Rightarrow> ring_state \<Rightarrow> ring_state option" where
  "node_arm c i inp s = do {
     (core, outs) \<leftarrow> step c inp (cores s i);
     Some (dispatch c i outs (s\<lparr>cores := (cores s)(i := core)\<rparr>))
   }"

definition pop_inbox :: "proc_id \<Rightarrow> ring_state \<Rightarrow> ring_state" where
  "pop_inbox i s = s\<lparr>inbox := (inbox s)(i := tl (inbox s i))\<rparr>"

definition ring_init :: "config \<Rightarrow> ring_state \<Rightarrow> bool" where
  "ring_init c s \<longleftrightarrow> valid_config c \<and> inbox s = (\<lambda>_. []) \<and> up s = {} \<and> rlog s = (\<lambda>_. [])"

inductive ring_step ::
    "config \<Rightarrow> nat \<Rightarrow> delivery_mode \<Rightarrow> ring_state \<Rightarrow> ring_state \<Rightarrow> bool" for c k m where
  ring_start: "i < RING_SIZE c \<Longrightarrow> i \<notin> up s \<Longrightarrow> start_node c k m i s = Some s' \<Longrightarrow>
    ring_step c k m s s'"
| ring_bcast: "i \<in> up s \<Longrightarrow> node_arm c i (LocalBroadcast bs) s = Some s' \<Longrightarrow> ring_step c k m s s'"
| ring_recv: "i \<in> up s \<Longrightarrow> inbox s i = t # ts \<Longrightarrow>
    node_arm c i (TrainReceived t) (pop_inbox i s) = Some s' \<Longrightarrow> ring_step c k m s s'"
| ring_tick: "i \<in> up s \<Longrightarrow> node_arm c i Tick s = Some s' \<Longrightarrow> ring_step c k m s s'"
| ring_lose: "inbox s i = xs @ ys @ zs \<Longrightarrow>
    ring_step c k m s (s\<lparr>inbox := (inbox s)(i := xs @ zs)\<rparr>)"

abbreviation ring_reach :: "config \<Rightarrow> nat \<Rightarrow> delivery_mode \<Rightarrow> ring_state \<Rightarrow> bool" where
  "ring_reach c k m \<equiv> reach (ring_init c) (ring_step c k m)"

section \<open>The consistency check of \<^verbatim>\<open>run\<close>\<close>

definition zip_prefix :: "'a list \<Rightarrow> 'a list \<Rightarrow> bool" where
  "zip_prefix a b \<longleftrightarrow> length a \<le> length b \<and> list_all (\<lambda>(x, y). x = y) (zip a b)"

definition consistency_check :: "'a list list \<Rightarrow> bool" where
  "consistency_check logs =
     list_all (\<lambda>i. list_all (\<lambda>j. let a = logs ! i; b = logs ! j in
         if \<not> zip_prefix a b then zip_prefix b a else True)
       [0..<length logs]) [0..<length logs]"

lemma zip_prefix_iff: "zip_prefix a b \<longleftrightarrow> prefix a b"
proof
  assume z: "zip_prefix a b"
  then have "a = take (length a) b"
    by (intro nth_equalityI) (auto simp: zip_prefix_def list_all_length)
  then show "prefix a b" by (metis take_is_prefix)
qed (auto simp: zip_prefix_def prefix_def list_all_iff set_zip nth_append)

lemma consistency_check_iff:
  "consistency_check logs \<longleftrightarrow> (\<forall>a\<in>set logs. \<forall>b\<in>set logs. prefix a b \<or> prefix b a)"
proof -
  have "(if \<not> P then Q else True) \<longleftrightarrow> P \<or> Q" for P Q by simp
  then have "consistency_check logs \<longleftrightarrow> (\<forall>i<length logs. \<forall>j<length logs.
      prefix (logs ! i) (logs ! j) \<or> prefix (logs ! j) (logs ! i))"
    by (simp only: consistency_check_def list_all_iff zip_prefix_iff Let_def set_upt Ball_def
        atLeastLessThan_iff) simp
  then show ?thesis by (metis in_set_conv_nth)
qed

section \<open>Simulation by the network\<close>

lemma dispatch_effect:
  "cores (dispatch c i outs s) = cores s" "up (dispatch c i outs s) = up s"
  "rlog (dispatch c i outs s) = (rlog s)(i := rlog s i @ concat (batches outs))"
  "inbox (dispatch c i outs s) =
     (inbox s)(successor c i := inbox s (successor c i) @ sends outs)"
proof -
  have "cores (dispatch c i outs s) = cores s \<and> up (dispatch c i outs s) = up s \<and>
      rlog (dispatch c i outs s) = (rlog s)(i := rlog s i @ concat (batches outs)) \<and>
      inbox (dispatch c i outs s) = (inbox s)(successor c i := inbox s (successor c i) @ sends outs)"
  proof (induction outs arbitrary: s)
    case (Cons out outs)
    then show ?case by (cases out) (simp_all add: dispatch_def outbox_send_def fun_eq_iff)
  qed (simp add: dispatch_def)
  then show "cores (dispatch c i outs s) = cores s" "up (dispatch c i outs s) = up s"
    "rlog (dispatch c i outs s) = (rlog s)(i := rlog s i @ concat (batches outs))"
    "inbox (dispatch c i outs s) =
       (inbox s)(successor c i := inbox s (successor c i) @ sends outs)" by blast+
qed

definition ring_sim :: "config \<Rightarrow> nat \<Rightarrow> delivery_mode \<Rightarrow> ring_state \<Rightarrow> net \<Rightarrow> bool" where
  "ring_sim c k m s a \<longleftrightarrow> valid_config c \<and> k \<le> NUM_TRAINS c \<and> up s \<subseteq> {..<RING_SIZE c} \<and>
     (\<forall>i<RING_SIZE c. if i \<in> up s then nodes a i = cores s i
        else node_new c i m = Some (nodes a i)) \<and>
     (\<forall>i. set (inbox s i) \<subseteq> sent a) \<and> (\<forall>i. rlog s i = concat (dlog a i))"

lemma node_arm_sim:
  assumes sim: "ring_sim c k m s a" and i: "i \<in> up s"
    and st: "node_arm c i inp s = Some s'"
  obtains r where "step c inp (nodes a i) = Some r" "ring_sim c k m s' (net_apply i r a)"
    "i < RING_SIZE c"
proof -
  obtain n outs where r: "step c inp (cores s i) = Some (n, outs)"
      "s' = dispatch c i outs (s\<lparr>cores := (cores s)(i := n)\<rparr>)"
    using st by (auto simp: node_arm_def split: bind_splits)
  have iN: "i < RING_SIZE c" using sim i by (auto simp: ring_sim_def)
  then have "nodes a i = cores s i" using sim i by (auto simp: ring_sim_def)
  moreover have "ring_sim c k m s' (net_apply i (n, outs) a)"
    unfolding r(2) using sim i by (auto simp: ring_sim_def dispatch_effect)
  ultimately show ?thesis using that [of "(n, outs)"] r(1) iN by simp
qed

lemma ring_sim_inbox:
  assumes "ring_sim c k m s a" and "set xs \<subseteq> set (inbox s i)"
  shows "ring_sim c k m (s\<lparr>inbox := (inbox s)(i := xs)\<rparr>) a"
proof -
  have "set xs \<subseteq> sent a" using assms unfolding ring_sim_def by blast
  then show ?thesis using assms(1) by (simp add: ring_sim_def)
qed

lemma ring_sim_pop: "ring_sim c k m s a \<Longrightarrow> ring_sim c k m (pop_inbox i s) a"
  unfolding pop_inbox_def by (erule ring_sim_inbox) (cases "inbox s i"; auto)

lemma ring_sim_submit: "ring_sim c k m s a \<Longrightarrow> ring_sim c k m s (submit i bs a)"
  by (simp add: ring_sim_def)

lemma ring_sim_start:
  assumes sim: "ring_sim c k m s a" and i: "i < RING_SIZE c" "i \<notin> up s"
    and st: "start_node c k m i s = Some s'"
  shows "\<exists>a'. (soup_step c)\<^sup>*\<^sup>* a a' \<and> ring_sim c k m s' a' \<and> submitted a' = submitted a"
proof -
  have new: "node_new c i m = Some (nodes a i)" using sim i by (auto simp: ring_sim_def)
  show ?thesis
  proof (cases "i < k")
    case True
    then obtain n t where t: "issue_initial_train c (nodes a i) = Some (n, t)"
        "s' = outbox_send c i t (s\<lparr>cores := (cores s)(i := n), up := insert i (up s)\<rparr>)"
      using st new by (auto simp: start_node_def split: bind_splits)
    have "soup_step c a (net_apply i (n, [ForwardTrain t]) a)"
      using True sim t(1) by (intro soup_issue) (auto simp: ring_sim_def)
    moreover have "ring_sim c k m s' (net_apply i (n, [ForwardTrain t]) a)"
      using sim i unfolding t(2) by (auto simp: ring_sim_def outbox_send_def)
    ultimately show ?thesis by (intro exI [of _ "net_apply i (n, [ForwardTrain t]) a"]) simp
  next
    case False
    then have "s' = s\<lparr>cores := (cores s)(i := nodes a i), up := insert i (up s)\<rparr>"
      using st new by (simp add: start_node_def)
    then have "ring_sim c k m s' a" using sim i by (auto simp: ring_sim_def)
    then show ?thesis by blast
  qed
qed

lemma ring_sim_step:
  assumes sim: "ring_sim c k m s a" and st: "ring_step c k m s s'"
  shows "\<exists>a'. (soup_step c)\<^sup>*\<^sup>* a a' \<and> ring_sim c k m s' a'"
  using st
proof (cases rule: ring_step.cases)
  case (ring_start i)
  then show ?thesis using ring_sim_start [OF sim] by blast
next
  case (ring_bcast i bs)
  obtain r where r: "step c (LocalBroadcast bs) (nodes a i) = Some r"
      "ring_sim c k m s' (net_apply i r a)" "i < RING_SIZE c"
    using node_arm_sim [OF sim ring_bcast] by blast
  then show ?thesis using soup_bcast [OF r(3,1)] ring_sim_submit [OF r(2)] by blast
next
  case (ring_recv i t ts)
  have "i \<in> up (pop_inbox i s)" using ring_recv(1) by (simp add: pop_inbox_def)
  then obtain r where r: "step c (TrainReceived t) (nodes a i) = Some r"
      "ring_sim c k m s' (net_apply i r a)" "i < RING_SIZE c"
    using node_arm_sim [OF ring_sim_pop [OF sim] _ ring_recv(3)] by blast
  have "set (inbox s i) \<subseteq> sent a" using sim unfolding ring_sim_def by blast
  then have "t \<in> sent a" using ring_recv(2) by auto
  then show ?thesis using soup_recv [OF r(3) _ r(1)] r(2) by blast
next
  case (ring_tick i)
  obtain r where r: "step c Tick (nodes a i) = Some r"
      "ring_sim c k m s' (net_apply i r a)" "i < RING_SIZE c"
    using node_arm_sim [OF sim ring_tick] by blast
  then show ?thesis using soup_tick [OF r(3,1)] by blast
next
  case (ring_lose i xs ys zs)
  then have "ring_sim c k m s' a" using ring_sim_inbox [OF sim, of "xs @ zs" i] by auto
  then show ?thesis by blast
qed

definition ring_start_state :: "config \<Rightarrow> nat \<Rightarrow> ring_state \<Rightarrow> bool" where
  "ring_start_state c k s \<longleftrightarrow> ring_init c s \<and> k \<le> NUM_TRAINS c"

lemma ring_sim_init:
  assumes "ring_start_state c k s"
  shows "\<exists>a. soup_init c m a \<and> ring_sim c k m s a"
proof -
  let ?a = "\<lparr>nodes = (\<lambda>i. the (node_new c i m)), sent = {}, dlog = (\<lambda>_. []), submitted = (\<lambda>_. [])\<rparr>"
  have "\<exists>n. node_new c i m = Some n" if "i < RING_SIZE c" for i
    using that by (simp add: node_new_def)
  then have "soup_init c m ?a" "ring_sim c k m s ?a"
    using assms by (force simp: soup_init_def ring_start_state_def ring_init_def ring_sim_def)+
  then show ?thesis by blast
qed

interpretation ring: simulation_system "ring_start_state c k" "ring_step c k m"
  "soup_init c m" "soup_step c" "ring_sim c k m" for c k m
  by unfold_locales (simp_all add: ring_sim_init ring_sim_step)

text \<open>The clock budget carries over: a node that is up has the same state in the network,
  one that is not has issued nothing.\<close>

definition ring_clocks_left :: "config \<Rightarrow> ring_state \<Rightarrow> bool" where
  "ring_clocks_left c s \<longleftrightarrow> (\<forall>i\<in>up s. next_issue_clock (cores s i) < u64_max)"

lemma ring_sim_clocks:
  assumes sim: "ring_sim c k m s a" and left: "ring_clocks_left c s"
  shows "clocks_left c a"
  unfolding clocks_left_def
proof (intro allI impI)
  fix i assume i: "i < RING_SIZE c"
  show "next_issue_clock (nodes a i) < u64_max"
  proof (cases "i \<in> up s")
    case False
    then have "next_issue_clock (nodes a i) = 1"
      using sim i node_new_fields(3) by (auto simp: ring_sim_def)
    then show ?thesis by (simp add: u64_max_def)
  qed (use sim left i in \<open>auto simp: ring_sim_def ring_clocks_left_def\<close>)
qed

lemma ring_reachE:
  assumes "ring_reach c k m s" and "k \<le> NUM_TRAINS c" and "ring_clocks_left c s"
  obtains a C where "ring_sim c k m s a" "soup_inv c C a"
proof -
  have "reach (ring_start_state c k) (ring_step c k m) s"
    using assms(1,2)
    by (induction rule: reach.induct) (auto intro: reach.intros simp: ring_start_state_def)
  then obtain a where a: "soup_reach c m a" "ring_sim c k m s a" using ring.reach_sim by blast
  then show ?thesis using soup_reachE [OF a(1) ring_sim_clocks [OF a(2) assms(3)]] that by blast
qed

lemma ring_consistent:
  assumes "ring_reach c k m s" "k \<le> NUM_TRAINS c" "ring_clocks_left c s"
    and "i < RING_SIZE c" "j < RING_SIZE c"
  shows "prefix (rlog s i) (rlog s j) \<or> prefix (rlog s j) (rlog s i)"
proof -
  obtain a C where a: "ring_sim c k m s a" "soup_inv c C a" using ring_reachE assms(1-3) by blast
  then show ?thesis
    using soup_inv_consistent [OF a(2) assms(4,5)] prefix_concat by (auto simp: ring_sim_def)
qed

end
