(* ===== verification/Total_Order.thy ===== *)
theory Total_Order
  imports Ring
begin

text \<open>
  The abstract promise of the protocol, total-order broadcast: one global sequence of
  batches grows at its end, and every process copies the next batch of it to its own log.
  The network of \<open>Soup\<close> refines it as long as issue clocks are left.
\<close>

record tob_state =
  order :: "payload list list"
  logs :: "proc_id \<Rightarrow> payload list list"

definition tob_init :: "tob_state \<Rightarrow> bool" where
  "tob_init a \<longleftrightarrow> order a = [] \<and> logs a = (\<lambda>_. [])"

inductive tob_step :: "tob_state \<Rightarrow> tob_state \<Rightarrow> bool" where
  tob_order: "tob_step a (a\<lparr>order := order a @ [b]\<rparr>)"
| tob_deliver: "logs a i = take n (order a) \<Longrightarrow> n < length (order a) \<Longrightarrow>
    tob_step a (a\<lparr>logs := (logs a)(i := logs a i @ [order a ! n])\<rparr>)"

lemma tob_orders: "tob_step\<^sup>*\<^sup>* a (a\<lparr>order := order a @ bs\<rparr>)"
proof (induction bs rule: rev_induct)
  case (snoc b bs)
  then show ?case
    using tob_order [of "a\<lparr>order := order a @ bs\<rparr>" b] by (simp add: rtranclp.rtrancl_into_rtrancl)
qed simp

lemma tob_delivers:
  assumes "prefix (logs a i @ bs) (order a)"
  shows "tob_step\<^sup>*\<^sup>* a (a\<lparr>logs := (logs a)(i := logs a i @ bs)\<rparr>)"
  using assms
proof (induction bs rule: rev_induct)
  case (snoc b bs)
  let ?a = "a\<lparr>logs := (logs a)(i := logs a i @ bs)\<rparr>"
  obtain zs where zs: "order a = (logs a i @ bs @ [b]) @ zs"
    using snoc.prems by (auto simp: prefix_def)
  then have "prefix (logs a i @ bs) (order a)" by simp
  then have "tob_step\<^sup>*\<^sup>* a ?a" by (rule snoc.IH)
  moreover have "tob_step ?a (?a\<lparr>logs := (logs ?a)(i := logs ?a i @ [order ?a ! length (logs a i @ bs)])\<rparr>)"
    using zs by (intro tob_deliver) simp_all
  then have "tob_step ?a (a\<lparr>logs := (logs a)(i := logs a i @ bs @ [b])\<rparr>)"
    using zs by (simp add: nth_append)
  ultimately show ?case by (rule rtranclp.rtrancl_into_rtrancl)
qed simp

section \<open>The refinement\<close>

text \<open>The global sequence is the longest log.\<close>

definition tob_sim :: "config \<Rightarrow> net \<Rightarrow> tob_state \<Rightarrow> bool" where
  "tob_sim c s a \<longleftrightarrow> logs a = dlog s \<and> (\<forall>i<RING_SIZE c. prefix (dlog s i) (order a)) \<and>
     (\<exists>i<RING_SIZE c. order a = dlog s i)"

definition live_step :: "config \<Rightarrow> net \<Rightarrow> net \<Rightarrow> bool" where
  "live_step c s s' \<longleftrightarrow> soup_step c s s' \<and> clocks_left c s'"

lemma live_reach:
  assumes "reach (soup_init c m) (live_step c) s"
  shows "soup_reach c m s" "clocks_left c s"
proof -
  show "soup_reach c m s"
    using assms by (induction rule: reach.induct) (auto intro: reach.intros simp: live_step_def)
  have "clocks_left c s" if "soup_init c m s" for s
    using that node_new_fields(3)
    by (auto simp: soup_init_def clocks_left_def u64_max_def)
  with assms show "clocks_left c s"
    by (cases rule: reach.cases) (auto simp: live_step_def)
qed

text \<open>The clock counters only grow, so a state with clocks left was reached through such states.\<close>

lemma reach_live:
  assumes "soup_reach c m s" and "clocks_left c s"
  shows "reach (soup_init c m) (live_step c) s"
  using assms
proof (induction rule: reach.induct)
  case (reach_step s s')
  then have "clocks_left c s"
    using net_ok_step [OF soup_reach_ok [OF reach_step(1)] reach_step(2)] by blast
  with reach_step have "reach (soup_init c m) (live_step c) s" by blast
  moreover have "live_step c s s'" using reach_step by (simp add: live_step_def)
  ultimately show ?case by (rule reach.reach_step)
qed (rule reach_init)

lemma soup_step_log:
  assumes "soup_step c s s'"
  obtains i bs where "i < RING_SIZE c \<or> bs = []" "dlog s' = (dlog s)(i := dlog s i @ bs)"
  using assms
proof (cases rule: soup_step.cases)
  case (soup_bcast i bs r)
  then show ?thesis using that [of i "batches (snd r)"] by simp
next
  case (soup_tick i r)
  then show ?thesis using that [of i "batches (snd r)"] by simp
next
  case (soup_recv i t r)
  then show ?thesis using that [of i "batches (snd r)"] by simp
next
  case (soup_issue i n' t)
  then show ?thesis using that [of i "[]"] by simp
qed

lemma tob_sim_step:
  assumes r: "reach (soup_init c m) (live_step c) s" and sim: "tob_sim c s a"
    and st: "live_step c s s'"
  shows "\<exists>a'. tob_step\<^sup>*\<^sup>* a a' \<and> tob_sim c s' a'"
proof -
  have r': "reach (soup_init c m) (live_step c) s'" using r st by (rule reach_step)
  obtain C where inv: "soup_inv c C s'" using soup_reachE [OF live_reach [OF r']] by blast
  obtain i bs where step: "i < RING_SIZE c \<or> bs = []" "dlog s' = (dlog s)(i := dlog s i @ bs)"
    using st soup_step_log unfolding live_step_def by metis
  show ?thesis
  proof (cases "bs = []")
    case True
    then have "tob_sim c s' a" using sim step(2) by (simp add: tob_sim_def)
    then show ?thesis by blast
  next
    case False
    then have i: "i < RING_SIZE c" using step(1) by simp
    obtain l where l: "l < RING_SIZE c" "order a = dlog s l" using sim by (auto simp: tob_sim_def)
    have pre: "prefix (dlog s j) (order a)" if "j < RING_SIZE c" for j
      using that sim by (simp add: tob_sim_def)
    define a1 where "a1 = a\<lparr>order := order a @ drop (length (order a)) (dlog s' i)\<rparr>"
    have "prefix (dlog s' i) (order a) \<or> prefix (order a) (dlog s' i)"
    proof (cases "l = i")
      case True
      then show ?thesis using l(2) step(2) by simp
    next
      case False
      then show ?thesis
        using soup_inv_consistent [OF inv i l(1)] l(2) step(2) by auto
    qed
    then have ord: "order a1 = (if prefix (dlog s' i) (order a) then order a else dlog s' i)"
      unfolding a1_def by (auto simp: prefix_def)
    have grow: "prefix (order a) (order a1)" unfolding a1_def by simp
    have all: "prefix (dlog s' j) (order a1)" if "j < RING_SIZE c" for j
      using that pre [OF that] grow step(2) ord by (auto intro: prefix_order.trans)
    have "tob_step\<^sup>*\<^sup>* a a1" unfolding a1_def by (rule tob_orders)
    moreover have "logs a1 = dlog s" using sim unfolding a1_def tob_sim_def by simp
    moreover have "tob_step\<^sup>*\<^sup>* a1 (a1\<lparr>logs := (logs a1)(i := logs a1 i @ bs)\<rparr>)"
      using all [OF i] step(2) \<open>logs a1 = dlog s\<close> by (intro tob_delivers) simp
    moreover have "\<exists>j<RING_SIZE c. order a1 = dlog s' j"
    proof (cases "prefix (dlog s' i) (order a)")
      case True
      have "order a = dlog s' l"
      proof (cases "l = i")
        case li: True
        then show ?thesis using True False l(2) step(2) by (auto simp: prefix_def)
      qed (use l(2) step(2) in simp)
      then show ?thesis using True ord l(1) by auto
    qed (use ord i in auto)
    ultimately show ?thesis
      using all step(2)
      by (intro exI [of _ "a1\<lparr>logs := (logs a1)(i := logs a1 i @ bs)\<rparr>"])
        (auto simp: tob_sim_def)
  qed
qed

interpretation tob: simulation_system "soup_init c m" "live_step c" tob_init tob_step "tob_sim c"
  for c m
proof
  fix s assume "soup_init c m s"
  then have "tob_sim c s \<lparr>order = [], logs = (\<lambda>_. [])\<rparr>"
    using valid_configD(3) by (auto simp: tob_sim_def soup_init_def)
  moreover have "tob_init \<lparr>order = [], logs = (\<lambda>_. [])\<rparr>" by (simp add: tob_init_def)
  ultimately show "\<exists>a. tob_init a \<and> tob_sim c s a" by blast
qed (rule tob_sim_step)

end
