(* ===== verification/Soup_Cache.thy ===== *)
theory Soup_Cache
  imports Soup_Safety
begin

text \<open>
  What the delivered cache of a node holds on the network of \<open>Soup\<close>: every entry is the
  content of a delivered, fully acknowledged train, and every delivered non-empty train is
  in the cache unless \<^verbatim>\<open>DELIVERED_CACHE_CAP\<close> entries with larger keys have pushed it out. The
  recovery reports rest on it.
\<close>

section \<open>The bounded map\<close>

text \<open>A key is covered by a map of at most \<open>cap\<close> entries: it is there, or the map is full of
  larger keys.\<close>

definition covered :: "nat \<Rightarrow> (clock_key, 'v) btm \<Rightarrow> clock_key \<Rightarrow> bool" where
  "covered cap m k \<longleftrightarrow> k \<in> set (btm_keys m) \<or> (cap \<le> length m \<and> (\<forall>j\<in>set (btm_keys m). k < j))"

lemma evict_small: "length m \<le> cap \<Longrightarrow> evict cap m = m"
  by (cases m) auto

lemma evict_full:
  assumes "btm_ok ((k, v) # m)" and "length m = cap"
  shows "evict cap ((k, v) # m) = m"
proof -
  have "btm_remove k ((k, v) # m) = m"
    using assms(1) by (auto simp: btm_remove_def btm_ok_def filter_id_conv)
  then show ?thesis using assms(2) by (simp add: evict_small)
qed

lemma evict_subset: "set (evict cap m) \<subseteq> set m"
  by (induction cap m rule: evict.induct) (auto simp: btm_remove_def)

lemma set_btm_insert: "set (btm_insert k v m) \<subseteq> insert (k, v) (set m)"
  by (induction k v m rule: btm_insert.induct) auto

lemma btm_length: "btm_ok m \<Longrightarrow> length m = card (set (btm_keys m))"
  using btm.length_keys by fastforce

text \<open>The new key finds room.\<close>

lemma covered_insert:
  assumes ok: "btm_ok m" and len: "length (btm_insert k v m) \<le> cap" and j: "j = k \<or> covered cap m j"
  shows "covered cap (btm_insert k v m) j"
proof -
  let ?m = "btm_insert k v m"
  have keys: "set (btm_keys ?m) = insert k (set (btm_keys m))" by (rule set_keys_btm_insert)
  have "k \<in> set (btm_keys m)" if "cap \<le> length m"
  proof (rule ccontr)
    assume "k \<notin> set (btm_keys m)"
    then have "card (set (btm_keys ?m)) = Suc (card (set (btm_keys m)))" by (simp only: keys) simp
    then show False using btm_length [OF ok] btm_length [OF btm_ok_insert [OF ok]] len that by simp
  qed
  then have "set (btm_keys ?m) = set (btm_keys m)" if "cap \<le> length m"
    using that by (simp only: keys insert_absorb)
  moreover from this have "length ?m = length m" if "cap \<le> length m"
    using btm_length [OF ok] btm_length [OF btm_ok_insert [OF ok]] that by simp
  moreover have "covered cap ?m j" if "j \<in> set (btm_keys ?m)"
    using that unfolding covered_def by blast
  ultimately show ?thesis
    using j keys unfolding covered_def by (cases "cap \<le> length m") (simp_all, blast+)
qed

text \<open>The new key pushes out the smallest one.\<close>

lemma covered_push:
  assumes less: "\<And>x. x \<in> set (btm_keys m0) \<Longrightarrow> k0 < x"
    and ks: "insert k0 (set (btm_keys m0)) = insert k (set (btm_keys m))" and new: "k \<notin> set (btm_keys m)"
    and len: "length m0 = cap" and j: "j = k \<or> covered cap m j"
  shows "covered cap m0 j"
proof (cases "j \<in> insert k0 (set (btm_keys m0))")
  case True
  then show ?thesis using less len unfolding covered_def by blast
next
  case False
  then have jm: "j \<noteq> k" "\<forall>x\<in>set (btm_keys m). j < x" using ks j unfolding covered_def by auto
  have "\<forall>x\<in>set (btm_keys m0). j < x"
  proof (cases "j < k")
    case True
    then have "\<forall>x\<in>insert k0 (set (btm_keys m0)). j < x" unfolding ks using jm(2) by blast
    then show ?thesis by blast
  next
    case False
    then have "k < j" using jm(1) by simp
    then have "\<forall>x\<in>set (btm_keys m). k < x" using jm(2) by (meson less_trans)
    then have "k \<le> k0" using ks by (metis insertE insertI1 less_imp_le order_refl)
    moreover have "k0 \<le> k" using ks less by (metis insertE insertI1 less_imp_le order_refl)
    moreover have "k0 \<notin> set (btm_keys m0)" using less by blast
    ultimately have "set (btm_keys m0) = set (btm_keys m)" using ks new by (metis antisym insert_ident)
    then show ?thesis using jm(2) by simp
  qed
  then show ?thesis using len unfolding covered_def by simp
qed

lemma covered_evict:
  assumes ok: "btm_ok m" and len: "length m \<le> cap" and j: "j = k \<or> covered cap m j"
  shows "covered cap (evict cap (btm_insert k v m)) j"
proof (cases "length (btm_insert k v m) \<le> cap")
  case True
  then show ?thesis using covered_insert [OF ok True j] by (simp only: evict_small)
next
  case False
  let ?m = "btm_insert k v m"
  have ok': "btm_ok ?m" using ok by (rule btm_ok_insert)
  have full: "length ?m = Suc cap" "length m = cap"
    using False btm.length_keys_insert [OF ok, of k v] len by auto
  then obtain k0 v0 m0 where m0: "?m = (k0, v0) # m0" by (cases ?m) auto
  have "k0 < x" if "x \<in> set (btm_keys m0)" for x
    using ok' that unfolding m0 by (auto simp: btm_ok_def)
  moreover have ks: "insert k0 (set (btm_keys m0)) = insert k (set (btm_keys m))"
    using set_keys_btm_insert [of k v m] m0 by simp
  moreover have "k \<notin> set (btm_keys m)"
  proof
    assume "k \<in> set (btm_keys m)"
    then have "set (btm_keys ?m) = set (btm_keys m)"
      using set_keys_btm_insert [of k v m] by (simp only: insert_absorb)
    then show False using btm_length [OF ok] btm_length [OF ok'] full by simp
  qed
  moreover have len0: "length m0 = cap" using full(1) m0 by simp
  ultimately have "covered cap m0 j" using j by (rule covered_push)
  then show ?thesis using evict_full [of k0 v0 m0 cap] ok' len0 by (simp add: m0)
qed

section \<open>The invariant\<close>

definition full_train :: "config \<Rightarrow> train set \<Rightarrow> clock_key \<Rightarrow> payload list \<Rightarrow> bool" where
  "full_train c S k ps \<longleftrightarrow> (\<exists>t\<in>S. all_acks c t \<and> key_of t = k \<and> payloads t = ps)"

definition cache_inv :: "config \<Rightarrow> train set \<Rightarrow> trains_node \<Rightarrow> bool" where
  "cache_inv c S n \<longleftrightarrow>
     (\<forall>(k, ps)\<in>set (delivered_cache n). ps \<noteq> [] \<and> k \<in> done_keys (delivery n) \<and> full_train c S k ps) \<and>
     (\<forall>k\<in>done_keys (delivery n). full_train c S k [] \<or>
        covered DELIVERED_CACHE_CAP (delivered_cache n) k)"

lemma full_train_mono: "full_train c S k ps \<Longrightarrow> S \<subseteq> S' \<Longrightarrow> full_train c S' k ps"
  by (auto simp: full_train_def)

lemma cache_inv_mono:
  assumes "cache_inv c S n" and "S \<subseteq> S'" and "delivered_cache n' = delivered_cache n"
    and "done_keys (delivery n') = done_keys (delivery n)"
  shows "cache_inv c S' n'"
  using assms full_train_mono [OF _ assms(2)] unfolding cache_inv_def by fastforce

lemma delivered_cache_deliver_one:
  "delivered_cache (deliver_one t n) = (if payloads t = [] then delivered_cache n
     else evict DELIVERED_CACHE_CAP (btm_insert (key_of t) (payloads t) (delivered_cache n)))"
  by (simp add: deliver_one_def cache_delivered_def)

lemma cache_inv_deliver_one:
  assumes inv: "cache_inv c S n" and wf: "node_wf c n" and t: "t \<in> S" "all_acks c t"
  shows "cache_inv c S (deliver_one t n)"
proof (cases "payloads t = []")
  case True
  then have "full_train c S (key_of t) []" using t by (auto simp: full_train_def)
  then show ?thesis using inv True by (auto simp: cache_inv_def delivered_cache_deliver_one)
next
  case False
  have "full_train c S (key_of t) (payloads t)" using t by (auto simp: full_train_def)
  moreover have "set (delivered_cache (deliver_one t n)) \<subseteq>
      insert (key_of t, payloads t) (set (delivered_cache n))"
    using False evict_subset set_btm_insert by (fastforce simp: delivered_cache_deliver_one)
  ultimately have "\<forall>(k, ps)\<in>set (delivered_cache (deliver_one t n)).
      ps \<noteq> [] \<and> k \<in> done_keys (delivery (deliver_one t n)) \<and> full_train c S k ps"
    using inv False by (fastforce simp: cache_inv_def)
  moreover have "covered DELIVERED_CACHE_CAP (delivered_cache (deliver_one t n)) k"
    if "k = key_of t \<or> covered DELIVERED_CACHE_CAP (delivered_cache n) k" for k
    using covered_evict [OF node_wfD(4,5) [OF wf] that] False by (simp add: delivered_cache_deliver_one)
  ultimately show ?thesis using inv unfolding cache_inv_def by auto
qed

lemma cache_inv_delivers:
  assumes "delivers c n ts n'" and "cache_inv c S n" and "node_wf c n"
    and "\<And>t. t \<in> set ts \<Longrightarrow> t \<in> S \<and> all_acks c t"
  shows "cache_inv c S n'"
  using assms
proof (induction rule: delivers.induct)
  case (delivers_Cons n t ts n')
  have "cache_inv c S (deliver_one t n)"
    using delivers_Cons.prems by (intro cache_inv_deliver_one) auto
  moreover have "node_wf c (deliver_one t n)"
    using delivers_Cons by (intro node_wf_deliver_one) auto
  ultimately show ?case using delivers_Cons by auto
qed

lemma cache_inv_run:
  assumes inv: "cache_inv c S n" and wf: "node_wf c n" and known: "known c n (key_of t)"
    and park: "\<And>u. u \<in> snd ` set (parked n) \<or> (u = t \<and> ready c t n) \<Longrightarrow> u \<in> S \<and> all_acks c u"
    and run: "delivery_run c t n ts n'"
  shows "cache_inv c S n'"
proof -
  obtain n1 where n1: "maybe_park c t n n1" "delivers c n1 ts n'"
    using run by (auto simp: delivery_run_def)
  have "cache_inv c S n1"
    using n1(1) by (intro cache_inv_mono [OF inv]) (auto simp: maybe_park_def)
  then show ?thesis
    using run park maybe_park_wf [OF wf known n1(1)]
    by (intro cache_inv_delivers [OF n1(2)]) (auto simp: delivery_run_def)
qed

section \<open>The steps\<close>

lemma cache_inv_recv:
  assumes c: "valid_config c" and inv: "soup_inv c C s" and i: "i < RING_SIZE c"
    and ok: "node_ok c (nodes s i)" and t: "t \<in> sent s" "clock t \<le> u64_max"
    and st: "step c (TrainReceived t) (nodes s i) = Some (n', outs)"
    and cache: "cache_inv c (sent s) (nodes s i)"
  shows "cache_inv c (sent s) n'"
proof -
  let ?n = "nodes s i"
  note I = node_invD [OF inv i] and kt = known_sent [OF c inv t(1)]
  have full: "u \<in> sent s \<and> all_acks c u"
    if "u \<in> snd ` set (parked n0) \<or> (u = t \<and> ready c t n0)" "parked n0 = parked ?n"
      "delivery n0 = delivery ?n" for u n0
    using that I(3) I(4) [of u] ready_all_acks [OF c, of n0 t] t(1) by auto
  show ?thesis
    using c ok kt(1) t(2)
  proof (cases rule: step_cases)
    case (replay m ts us)
    let ?n0 = "note_payloads (payloads t) ?n"
    have "cache_inv c (sent s) ?n0" by (rule cache_inv_mono [OF cache]) auto
    moreover have "known c ?n0 (key_of t)" using kt replay(3) by (simp add: known_key_of)
    moreover have "u \<in> sent s \<and> all_acks c u"
      if "u \<in> snd ` set (parked ?n0) \<or> (u = t \<and> ready c t ?n0)" for u
      by (rule full [OF that]) simp_all
    ultimately have "cache_inv c (sent s) m"
      by (intro cache_inv_run [OF _ node_okD(1) [OF note_payloads_ok [OF ok]] _ _ replay(5)])
    then show ?thesis using st replay(4) by simp
  next
    case (first m ts)
    have "cache_inv c (sent s) (load_node t ?n)" by (rule cache_inv_mono [OF cache]) auto
    then have "cache_inv c (sent s) m"
      using load_node_wf [OF I(1) kt(1) t(2)] first(6) I(4)
      by (intro cache_inv_delivers [OF first(5)]) auto
    then show ?thesis using st first(4) by simp
  next
    case recycle
    then show ?thesis using st by (intro cache_inv_mono [OF cache]) auto
  next
    case (return m ts us)
    let ?n0 = "raise_seen (node_id ?n) (clock t) ?n"
    have "cache_inv c (sent s) ?n0" by (rule cache_inv_mono [OF cache]) auto
    moreover have "known c ?n0 (key_of t)"
      using known_raise_seen(2) [OF node_wfD(2) [OF I(1)] i kt(2)] return(1) I(2) by (simp add: key_of_def)
    moreover have "node_wf c ?n0" using node_wf_raise_seen [OF I(1) t(2) i] I(2) by simp
    moreover have "u \<in> sent s \<and> all_acks c u"
      if "u \<in> snd ` set (parked ?n0) \<or> (u = t \<and> ready c t ?n0)" for u
      by (rule full [OF that]) simp_all
    ultimately have "cache_inv c (sent s) m" by (intro cache_inv_run [OF _ _ _ _ return(5)])
    then show ?thesis using st return(4) by simp
  qed (use st cache in simp)
qed

lemma cache_inv_step:
  assumes c: "valid_config c" and ok: "net_ok c s" and inv: "soup_inv c C s"
    and st: "soup_step c s s'" and cache: "\<And>i. i < RING_SIZE c \<Longrightarrow> cache_inv c (sent s) (nodes s i)"
    and j: "j < RING_SIZE c"
  shows "cache_inv c (sent s') (nodes s' j)"
  using st
proof (cases rule: soup_step.cases)
  case (soup_bcast i bs r)
  then have "delivery (fst r) = delivery (nodes s i)" "sends (snd r) = []"
    "delivered_cache (fst r) = delivered_cache (nodes s i)"
    by (auto simp: handle_broadcast_def Let_def)
  then show ?thesis
    using soup_bcast(1) by (intro cache_inv_mono [OF cache [OF j]]) (cases "j = i"; simp)+
next
  case (soup_tick i r)
  then show ?thesis using cache [OF j] by (auto simp: handle_tick_def)
next
  case (soup_recv i t r)
  have "clock t \<le> u64_max" using net_ok_train [OF ok soup_recv(3)] by blast
  moreover have "step c (TrainReceived t) (nodes s i) = Some (fst r, snd r)" using soup_recv(4) by simp
  ultimately have "cache_inv c (sent s) (fst r)"
    using cache [OF soup_recv(2)]
    by (rule cache_inv_recv [OF c inv soup_recv(2) net_okD(1) [OF ok soup_recv(2)] soup_recv(3)])
  then have "cache_inv c (sent s) (((nodes s)(i := fst r)) j)" using cache [OF j] by simp
  then show ?thesis unfolding soup_recv(1) by (rule cache_inv_mono) simp_all
next
  case (soup_issue i n' t)
  have "i < RING_SIZE c" using soup_issue(2) valid_configD(5) [OF c] by simp
  then have "n' = issue_node (nodes s i)"
    using issue_frame [OF c net_okD(1) [OF ok] soup_issue(3)] by simp
  then have "cache_inv c (sent s) (((nodes s)(i := n')) j)"
    by (intro cache_inv_mono [OF cache [OF j]]) auto
  then show ?thesis unfolding soup_issue(1) by (rule cache_inv_mono) auto
qed

lemma cache_inv_new: "node_new c i m = Some n \<Longrightarrow> cache_inv c S n"
  by (auto simp: node_new_def cache_inv_def delivery_new_def split: if_splits)

end
