(* ===== verification/Node_Recovery.thy ===== *)
theory Node_Recovery
  imports Node_Steps
begin

text \<open>
  View-change recovery and state transfer of one node: what \<^verbatim>\<open>apply_recovery\<close> does with a plan,
  that the plan merged from the survivors' reports closes every key up to the boundary, that
  applying it again changes nothing, that a snapshot installs and exports unchanged, and what the
  uniform mode does without the acknowledgements of an excluded member.
\<close>

section \<open>Well-formed plans\<close>

definition plan_wf :: "config \<Rightarrow> recovery_plan \<Rightarrow> bool" where
  "plan_wf c p \<longleftrightarrow> btm_ok (actions p) \<and> length (boundary p) = RING_SIZE c \<and>
     (\<forall>x\<in>set (boundary p). x \<le> u64_max) \<and>
     (\<forall>k\<in>set (btm_keys (actions p)). ck_issuer k < RING_SIZE c \<and> 1 \<le> ck_clock k \<and>
        ck_clock k \<le> boundary p ! ck_issuer k)"

lemma plan_wf_compute:
  assumes "\<And>r. r \<in> set reports \<Longrightarrow> report_ok c r"
  shows "plan_wf c (compute_recovery_plan c reports)"
proof -
  let ?b = "merge_boundary c reports"
  have "?b ! q \<le> u64_max" if "q < RING_SIZE c" for q
    using that assms by (intro merge_boundary_le) (auto simp: report_ok_def)
  then have "\<forall>x\<in>set ?b. x \<le> u64_max" by (auto simp: in_set_conv_nth)
  moreover have "ck_issuer k < RING_SIZE c \<and> 1 \<le> ck_clock k \<and> ck_clock k \<le> ?b ! ck_issuer k"
    if "k \<in> set (btm_keys (actions (compute_recovery_plan c reports)))" for k
    using that btm.keys_get [OF plan_ok, of k c reports] plan_lookup [of c reports k]
    by (auto split: if_splits)
  ultimately show ?thesis by (simp add: plan_wf_def plan_ok)
qed

section \<open>The action loop\<close>

fun recover_out :: "clock_key set \<Rightarrow> clock_key \<times> recovery_action \<Rightarrow> node_output list" where
  "recover_out D (k, RA_Deliver ps) =
     (if k \<in> D \<or> ps = [] then [] else [Deliver (sort_payloads ps)])"
| "recover_out D (k, RA_Skip) = []"

lemma recover_out_insert: "fst x \<noteq> k \<Longrightarrow> recover_out (insert k D) x = recover_out D x"
  by (cases "(D, x)" rule: recover_out.cases) auto

definition recover_one :: "clock_key \<times> recovery_action \<Rightarrow> trains_node \<Rightarrow> trains_node" where
  "recover_one e n =
     (let k = fst e;
          n1 = (raise_seen (ck_issuer k) (ck_clock k) n)\<lparr>parked := btm_remove k (parked n)\<rparr>;
          n2 = n1\<lparr>delivery := (delivery n)\<lparr>done_keys := insert k (done_keys (delivery n))\<rparr>\<rparr>
      in if k \<in> done_keys (delivery n) then n1
         else case snd e of
           RA_Deliver ps \<Rightarrow> if ps = [] then n2 else cache_delivered k ps (note_payloads ps n2)
         | RA_Skip \<Rightarrow> n2)"

lemma recover_one_simps [simp]:
  "node_id (recover_one e n) = node_id n"
  "clocks (recover_one e n) = clocks (raise_seen (ck_issuer (fst e)) (ck_clock (fst e)) n)"
  "mode (delivery (recover_one e n)) = mode (delivery n)"
  "crashed_bits (delivery (recover_one e n)) = crashed_bits (delivery n)"
  "done_keys (delivery (recover_one e n)) = insert (fst e) (done_keys (delivery n))"
  "next_issue_clock (recover_one e n) = next_issue_clock n" "next_seq (recover_one e n) = next_seq n"
  "pending (recover_one e n) = pending n" "parked (recover_one e n) = btm_remove (fst e) (parked n)"
  "view_floor (recover_one e n) = view_floor n" "frozen (recover_one e n) = frozen n"
  by (auto simp: recover_one_def Let_def raise_seen_def insert_absorb split: recovery_action.splits)

lemma recover_one_cache:
  assumes "btm_ok (delivered_cache n)" "length (delivered_cache n) \<le> DELIVERED_CACHE_CAP"
  shows "btm_ok (delivered_cache (recover_one e n))"
    "length (delivered_cache (recover_one e n)) \<le> DELIVERED_CACHE_CAP"
  using assms
  by (auto simp: recover_one_def Let_def intro!: cache_delivered_ok split: recovery_action.splits)

lemma recover_one_wf:
  assumes wf: "node_wf c n" and k: "ck_issuer (fst e) < RING_SIZE c" "1 \<le> ck_clock (fst e)"
    "ck_clock (fst e) \<le> u64_max"
  shows "node_wf c (recover_one e n)"
proof -
  let ?m = "raise_seen (ck_issuer (fst e)) (ck_clock (fst e)) n"
  note wf' = node_wf_raise_seen [OF wf k(3,1)]
  have kn: "known c (recover_one e n) = known c ?m" by (rule known_cong) simp
  have "known c ?m (fst e)" using known_raise_seen(2) [OF node_wfD(2) [OF wf] k(1,2)] by simp
  moreover have "\<forall>(j, t)\<in>set (btm_remove (fst e) (parked n)). key_of t = j \<and> known c ?m j \<and>
      j \<notin> insert (fst e) (done_keys (delivery n))"
    using wf' by (auto simp: node_wf_def btm_remove_def)
  ultimately show ?thesis
    using wf' recover_one_cache [of n e] by (auto simp: node_wf_def kn btm.ok_remove)
qed

lemma apply_action_pure:
  assumes wf: "node_wf c n" and k: "ck_issuer (fst e) < RING_SIZE c" "ck_clock (fst e) \<le> u64_max"
  shows "apply_action c e (n, outs) =
    Some (recover_one e n, outs @ recover_out (done_keys (delivery n)) e)"
proof -
  obtain key a where e: "e = (key, a)" by fastforce
  have "check_and_update c (ck_issuer key) (ck_clock key) (clocks n) =
      Some (clocks (raise_seen (ck_issuer key) (ck_clock key) n),
        clock_verdict (seen (clocks n) ! ck_issuer key) (ck_clock key))"
    using k node_wfD(2) [OF wf] e by (simp add: panic_simps clocks_raise_seen)
  then show ?thesis
    by (auto simp: e apply_action_def recover_one_def already_delivered_def panic_simps raise_seen_def
        Let_def split: recovery_action.splits)
qed

definition recover_all :: "(clock_key, recovery_action) btm \<Rightarrow> trains_node \<Rightarrow> trains_node" where
  "recover_all acts n = fold recover_one acts n"

lemma recover_all_simps:
  "node_id (recover_all acts n) = node_id n"
  "done_keys (delivery (recover_all acts n)) = done_keys (delivery n) \<union> set (btm_keys acts)"
  "mode (delivery (recover_all acts n)) = mode (delivery n)"
  "next_issue_clock (recover_all acts n) = next_issue_clock n"
  "pending (recover_all acts n) = pending n" "next_seq (recover_all acts n) = next_seq n"
  "parked (recover_all acts n) = filter (\<lambda>e. fst e \<notin> set (btm_keys acts)) (parked n)"
  "view_floor (recover_all acts n) = view_floor n"
proof (induction acts arbitrary: n)
  case (Cons e acts)
  case 7
  show ?case using Cons.IH(7) [of "recover_one e n"]
    by (auto simp: recover_all_def btm_remove_def intro: filter_cong)
qed (auto simp: recover_all_def)

lemma action_loop:
  assumes wf: "node_wf c n" and dist: "distinct (btm_keys acts)"
    and ks: "\<And>k. k \<in> set (btm_keys acts) \<Longrightarrow>
      ck_issuer k < RING_SIZE c \<and> 1 \<le> ck_clock k \<and> ck_clock k \<le> u64_max"
  shows "fold_opt (apply_action c) acts (n, outs) =
      Some (recover_all acts n, outs @ concat (map (recover_out (done_keys (delivery n))) acts)) \<and>
    node_wf c (recover_all acts n)"
  using assms
proof (induction acts arbitrary: n outs)
  case (Cons e acts)
  have k: "ck_issuer (fst e) < RING_SIZE c" "1 \<le> ck_clock (fst e)" "ck_clock (fst e) \<le> u64_max"
    using Cons.prems(3) [of "fst e"] by auto
  have "recover_out (insert (fst e) (done_keys (delivery n))) x = recover_out (done_keys (delivery n)) x"
    if "x \<in> set acts" for x
  proof (rule recover_out_insert)
    have "fst x \<in> set (btm_keys acts)" "fst e \<notin> set (btm_keys acts)" using that Cons.prems(2) by simp_all
    then show "fst x \<noteq> fst e" by metis
  qed
  then have "concat (map (recover_out (insert (fst e) (done_keys (delivery n)))) acts) =
      concat (map (recover_out (done_keys (delivery n))) acts)"
    by (intro arg_cong [of _ _ concat] map_cong) auto
  then show ?case
    using Cons.IH [OF recover_one_wf [OF Cons.prems(1) k], of "outs @ recover_out (done_keys (delivery n)) e"]
      apply_action_pure [OF Cons.prems(1) k(1,3), of outs] Cons.prems(2,3)
    by (simp add: recover_all_def)
qed (simp add: recover_all_def)

section \<open>Installing the view\<close>

definition install_view :: "config \<Rightarrow> recovery_plan \<Rightarrow> trains_node \<Rightarrow> trains_node" where
  "install_view c p n = n\<lparr>view_floor := raise_floor c (boundary p) (view_floor n),
     next_issue_clock := max (next_issue_clock n) (sat_add64 (boundary p ! node_id n) 1),
     frozen := False\<rparr>"

lemma raise_floor_nth:
  "q < RING_SIZE c \<Longrightarrow> raise_floor c b fl ! q = max (fl ! q) (b ! q)"
  by (simp add: raise_floor_def)

lemma raise_floor_bounded:
  assumes "length b = RING_SIZE c" "length fl = RING_SIZE c" "\<forall>x\<in>set b. x \<le> m" "\<forall>x\<in>set fl. x \<le> m"
  shows "length (raise_floor c b fl) = RING_SIZE c" "\<forall>x\<in>set (raise_floor c b fl). x \<le> m"
  using assms by (auto simp: raise_floor_def)

lemma install_view_wf:
  assumes "node_wf c n" and "plan_wf c p"
  shows "node_wf c (install_view c p n)"
proof -
  have "known c (install_view c p n) = known c n" by (rule known_cong) (simp add: install_view_def)
  then show ?thesis
    using assms sat_add64_le raise_floor_bounded [of "boundary p" c "view_floor n" u64_max]
    by (auto simp: node_wf_def plan_wf_def install_view_def max_def)
qed

lemma apply_recovery_unfold:
  assumes wf: "node_wf c n" and p: "plan_wf c p"
  shows "apply_recovery c p n = drain_parked c (install_view c p (recover_all (actions p) n))
      (concat (map (recover_out (done_keys (delivery n))) (actions p)))"
    "node_wf c (install_view c p (recover_all (actions p) n))"
proof -
  let ?m = "recover_all (actions p) n"
  have dist: "distinct (btm_keys (actions p))" using p btm.distinct_keys by (auto simp: plan_wf_def)
  have ks: "ck_issuer k < RING_SIZE c \<and> 1 \<le> ck_clock k \<and> ck_clock k \<le> u64_max"
    if "k \<in> set (btm_keys (actions p))" for k
    using that p nth_mem [of "ck_issuer k" "boundary p"] unfolding plan_wf_def
    by (metis le_trans)
  have "fold_opt (apply_action c) (actions p) (n, []) =
      Some (?m, concat (map (recover_out (done_keys (delivery n))) (actions p))) \<and> node_wf c ?m"
    using action_loop [OF wf dist ks, of "[]"] by simp
  moreover from this have "node_id ?m < length (boundary p)"
    using p node_wfD(1) by (simp add: plan_wf_def)
  ultimately show "apply_recovery c p n = drain_parked c (install_view c p ?m)
      (concat (map (recover_out (done_keys (delivery n))) (actions p)))"
    by (auto simp: apply_recovery_def reissue_clock_def install_view_def max_def Let_def)
  show "node_wf c (install_view c p ?m)"
    using action_loop [OF wf dist ks, of "[]"] by (intro install_view_wf [OF _ p]) simp
qed

lemma batches_recover:
  "batches (concat (map (recover_out D) acts)) =
     concat (map (\<lambda>(k, a). case a of RA_Skip \<Rightarrow> []
       | RA_Deliver ps \<Rightarrow> if k \<in> D \<or> ps = [] then [] else [sort_payloads ps]) acts)"
proof (induction acts)
  case (Cons e acts)
  then show ?case by (cases e; cases "snd e") auto
qed simp

text \<open>What \<^verbatim>\<open>apply_recovery\<close> does, in one statement.\<close>

lemma apply_recovery_spec:
  assumes c: "valid_config c" and wf: "node_wf c n" and p: "plan_wf c p"
  obtains n' ts where
    "apply_recovery c p n = Some (n', concat (map (recover_out (done_keys (delivery n))) (actions p)) @
       deliver_outs ts)"
    "delivers c (install_view c p (recover_all (actions p) n)) ts n'" "node_ok c n'"
    "set ts \<subseteq> snd ` set (parked n)"
proof -
  let ?m = "install_view c p (recover_all (actions p) n)"
  note u = apply_recovery_unfold [OF wf p]
  obtain ts n' where d: "drain_parked c ?m (concat (map (recover_out (done_keys (delivery n))) (actions p))) =
        Some (n', concat (map (recover_out (done_keys (delivery n))) (actions p)) @ deliver_outs ts)"
      "delivers c ?m ts n'" "node_ok c n'" "set ts \<subseteq> snd ` set (parked ?m)"
    using drain_parked_spec [OF c u(2)] by metis
  have "parked ?m = filter (\<lambda>e. fst e \<notin> set (btm_keys (actions p))) (parked n)"
    by (simp add: install_view_def recover_all_simps)
  then have "set ts \<subseteq> snd ` set (parked n)" using d(4) by auto
  then show ?thesis using that d u(1) by metis
qed

lemma install_view_simps [simp]:
  "node_id (install_view c p n) = node_id n" "clocks (install_view c p n) = clocks n"
  "delivery (install_view c p n) = delivery n" "parked (install_view c p n) = parked n"
  "frozen (install_view c p n) = False"
  "view_floor (install_view c p n) = raise_floor c (boundary p) (view_floor n)"
  "next_issue_clock (install_view c p n) =
     max (next_issue_clock n) (sat_add64 (boundary p ! node_id n) 1)"
  by (simp_all add: install_view_def)

lemma apply_recovery_effect:
  assumes c: "valid_config c" and wf: "node_wf c n" and p: "plan_wf c p"
    and ap: "apply_recovery c p n = Some (n', outs)"
  shows "node_ok c n'" "frozen n' = False" "set (btm_keys (actions p)) \<subseteq> done_keys (delivery n')"
    "done_keys (delivery n) \<subseteq> done_keys (delivery n')"
    "\<And>q. q < RING_SIZE c \<Longrightarrow> view_floor n' ! q = max (view_floor n ! q) (boundary p ! q)"
    "next_issue_clock n' = max (next_issue_clock n) (sat_add64 (boundary p ! node_id n) 1)"
    "node_id n' = node_id n"
proof -
  obtain m ts where m: "apply_recovery c p n =
        Some (m, concat (map (recover_out (done_keys (delivery n))) (actions p)) @ deliver_outs ts)"
      "delivers c (install_view c p (recover_all (actions p) n)) ts m" "node_ok c m"
    by (rule apply_recovery_spec [OF c wf p])
  then have d: "delivers c (install_view c p (recover_all (actions p) n)) ts n'" "node_ok c n'"
    using ap by auto
  note fr = delivers_frame [OF d(1)] and dn = delivers_done [OF d(1)]
  show "node_ok c n'" by (rule d(2))
  show "frozen n' = False" "set (btm_keys (actions p)) \<subseteq> done_keys (delivery n')"
    "done_keys (delivery n) \<subseteq> done_keys (delivery n')"
    "next_issue_clock n' = max (next_issue_clock n) (sat_add64 (boundary p ! node_id n) 1)"
    "node_id n' = node_id n"
    using fr dn by (auto simp: recover_all_simps)
  show "view_floor n' ! q = max (view_floor n ! q) (boundary p ! q)" if "q < RING_SIZE c" for q
    using fr that by (simp add: recover_all_simps raise_floor_nth)
qed

section \<open>Reports and snapshots\<close>

lemma recovery_report_ok:
  assumes wf: "node_wf c n" and r: "Node.recovery_report c n = Some r"
  shows "report_ok c r" "rr_done r = done_keys (delivery n)" "rr_seen r = seen (clocks n)"
    "\<And>q. q < RING_SIZE c \<Longrightarrow> rr_issued r ! q = (if q = node_id n then next_issue_clock n - 1 else 0)"
proof -
  let ?f = "\<lambda>(k, ps) h. if ps \<noteq> [] then btm_insert k ps h else h"
  let ?g = "\<lambda>(k, t) h. if payloads t \<noteq> [] then btm_or_insert k (payloads t) h else h"
  have 1: "btm_ok (fold ?f xs h)" if "btm_ok h" for xs and h :: "(clock_key, payload list) btm"
    using that by (induction xs arbitrary: h) (simp_all add: btm_ok_insert split: prod.split)
  have 2: "btm_ok (fold ?g xs h)" if "btm_ok h" for xs and h :: "(clock_key, payload list) btm"
    using that by (induction xs arbitrary: h) (simp_all add: btm_or_insert_ok split: prod.split)
  have seen_ok: "\<forall>x\<in>set (seen (clocks n)). x \<le> u64_max" "length (seen (clocks n)) = RING_SIZE c"
    using node_wfD(2) [OF wf] by (auto simp: clock_ok_def)
  have "set ((replicate (RING_SIZE c) 0)[node_id n := x]) \<subseteq> insert x {0}" for x :: nat
    using set_update_subset_insert [of "replicate (RING_SIZE c) 0" "node_id n" x] by auto
  moreover have "next_issue_clock n - 1 \<le> u64_max" using node_wfD(8) [OF wf] by simp
  ultimately have issued_ok: "\<forall>x\<in>set ((replicate (RING_SIZE c) 0)[node_id n := next_issue_clock n - 1]). x \<le> u64_max"
    by fastforce
  have have_ok: "btm_ok (fold ?g (parked n) (fold ?f (delivered_cache n) []))" by (intro 2 1) simp
  have req: "r = \<lparr>rr_seen = seen (clocks n),
      rr_issued = (replicate (RING_SIZE c) 0)[node_id n := next_issue_clock n - 1],
      rr_done = done_keys (delivery n), rr_have = fold ?g (parked n) (fold ?f (delivered_cache n) [])\<rparr>"
    using r by (simp add: Node.recovery_report_def seen_clocks_pure [OF wf] Let_def)
  show "report_ok c r"
    unfolding req report_ok_def using seen_ok issued_ok have_ok by simp
  show "rr_done r = done_keys (delivery n)" "rr_seen r = seen (clocks n)" unfolding req by simp_all
  show "\<And>q. q < RING_SIZE c \<Longrightarrow> rr_issued r ! q = (if q = node_id n then next_issue_clock n - 1 else 0)"
    unfolding req using node_wfD(1) [OF wf] by (simp add: nth_list_update)
qed

text \<open>The merged plan covers what this survivor has seen and issued; after applying it, every key
  up to the boundary is closed.\<close>

lemma recovery_closes:
  assumes c: "valid_config c" and wf: "node_wf c n"
    and r: "Node.recovery_report c n = Some r" "r \<in> set reports"
    and ok: "\<And>x. x \<in> set reports \<Longrightarrow> report_ok c x"
    and ap: "apply_recovery c (compute_recovery_plan c reports) n = Some (n', outs)"
    and k: "ck_issuer k < RING_SIZE c" "1 \<le> ck_clock k" "ck_clock k \<le> merge_boundary c reports ! ck_issuer k"
  shows "k \<in> done_keys (delivery n')"
proof (cases "\<forall>x\<in>set reports. k \<in> rr_done x")
  case True
  then show ?thesis
    using r recovery_report_ok(2) [OF wf r(1)] apply_recovery_effect(4) [OF c wf plan_wf_compute [OF ok] ap] by blast
next
  case False
  then have "btm_get (actions (compute_recovery_plan c reports)) k \<noteq> None"
    using k by (simp add: plan_lookup)
  then have "k \<in> set (btm_keys (actions (compute_recovery_plan c reports)))"
    using btm.keys_get [OF plan_ok] by blast
  then show ?thesis using apply_recovery_effect(3) [OF c wf plan_wf_compute [OF ok] ap] by blast
qed

section \<open>Idempotence\<close>

lemma drain_quiescent:
  assumes c: "valid_config c" and ok: "node_ok c n" and fr: "\<not> frozen n"
  shows "drain_parked c n outs = Some (n, outs)"
proof (cases "iter_min (btm_keys (parked n))")
  case None
  then show ?thesis using fr by (simp add: drain_parked_def drain_loop.simps)
next
  case (Some k)
  then have "k \<in> set (btm_keys (parked n))" unfolding iter_min_Some by blast
  then have "\<not> deliverable c n k" using quiescentD node_okD(2) [OF ok fr] by blast
  then show ?thesis
    using fr Some is_deliverable_pure [OF c node_wfD(2) [OF node_okD(1) [OF ok]]]
    by (simp add: drain_parked_def drain_loop.simps)
qed

lemma recover_one_done:
  assumes wf: "node_wf c n" and k: "fst e \<in> done_keys (delivery n)"
  shows "recover_one e n = n"
proof -
  have "ck_clock (fst e) \<le> seen (clocks n) ! ck_issuer (fst e)"
    using node_wfD(10) [OF wf k] by (simp add: known_def)
  moreover have "btm_remove (fst e) (parked n) = parked n"
    using wf k by (force simp: btm_remove_def node_wf_def intro!: filter_True)
  ultimately show ?thesis using k by (simp add: recover_one_def raise_seen_same)
qed

lemma recover_all_done:
  assumes "node_wf c n" and "set (btm_keys acts) \<subseteq> done_keys (delivery n)"
  shows "recover_all acts n = n"
  using assms(2) by (induction acts) (simp_all add: recover_all_def recover_one_done [OF assms(1)])

lemma recover_out_done: "fst x \<in> D \<Longrightarrow> recover_out D x = []"
  by (cases "(D, x)" rule: recover_out.cases) auto

lemma install_view_same:
  assumes "node_wf c n" and "\<not> frozen n"
    and "\<And>q. q < RING_SIZE c \<Longrightarrow> boundary p ! q \<le> view_floor n ! q"
    and "sat_add64 (boundary p ! node_id n) 1 \<le> next_issue_clock n"
  shows "install_view c p n = n"
proof -
  have "raise_floor c (boundary p) (view_floor n) = view_floor n"
  proof (rule nth_equalityI)
    show len: "length (raise_floor c (boundary p) (view_floor n)) = length (view_floor n)"
      using node_wfD(7) [OF assms(1)] by (simp add: raise_floor_def)
    fix i assume "i < length (raise_floor c (boundary p) (view_floor n))"
    then have "i < RING_SIZE c" by (simp add: raise_floor_def)
    then show "raise_floor c (boundary p) (view_floor n) ! i = view_floor n ! i"
      using assms(3) [of i] by (simp add: raise_floor_nth)
  qed
  then show ?thesis using assms(2,4) by (simp add: install_view_def max_absorb1)
qed

lemma apply_recovery_again:
  assumes c: "valid_config c" and wf: "node_wf c n" and p: "plan_wf c p"
    and ap: "apply_recovery c p n = Some (n', outs)"
  shows "apply_recovery c p n' = Some (n', [])"
proof -
  note eff = apply_recovery_effect [OF c wf p ap]
  note wf' = node_okD(1) [OF eff(1)]
  have all: "recover_all (actions p) n' = n'" using wf' eff(3) by (rule recover_all_done)
  have "install_view c p n' = n'"
    using eff by (intro install_view_same [OF wf']) simp_all
  moreover have "concat (map (recover_out (done_keys (delivery n'))) (actions p)) = []"
    using eff(3) by (auto intro!: recover_out_done)
  ultimately show ?thesis
    using apply_recovery_unfold(1) [OF wf' p] all drain_quiescent [OF c eff(1)] eff(2) by simp
qed

section \<open>State transfer\<close>

lemma export_state_pure:
  assumes "node_wf c n"
  shows "export_state c n = Some \<lparr>ss_seen = seen (clocks n), ss_done_keys = done_keys (delivery n),
    ss_crashed_bits = crashed_bits (delivery n), ss_view_floor = view_floor n,
    ss_broadcast_seen = broadcast_seen n\<rparr>"
  by (simp add: export_state_def seen_clocks_pure [OF assms])

lemma import_exported:
  assumes n: "node_wf c n" and m: "node_wf c m" and ex: "export_state c n = Some snap"
  shows "\<exists>m'. import_state snap m = Some m' \<and> node_ok c m' \<and> export_state c m' = Some snap \<and>
    node_id m' = node_id m \<and> \<not> frozen m' \<and> parked m' = [] \<and> pending m' = [] \<and>
    next_issue_clock m' = sat_add64 (max (seen (clocks n) ! node_id m) (view_floor n ! node_id m)) 1"
proof -
  have snap: "snap = \<lparr>ss_seen = seen (clocks n), ss_done_keys = done_keys (delivery n),
      ss_crashed_bits = crashed_bits (delivery n), ss_view_floor = view_floor n,
      ss_broadcast_seen = broadcast_seen n\<rparr>"
    using ex export_state_pure [OF n] by simp
  have len: "node_id m < length (seen (clocks n))" "node_id m < length (view_floor n)"
    using node_wfD(1) [OF m] node_wfD(2,7) [OF n] by (auto simp: clock_ok_def)
  let ?m = "m\<lparr>clocks := clock_restore (clocks m) (seen (clocks n)),
      delivery := delivery_restore (done_keys (delivery n)) (crashed_bits (delivery n)) (delivery m),
      view_floor := view_floor n, broadcast_seen := broadcast_seen n,
      next_issue_clock := sat_add64 (max (seen (clocks n) ! node_id m) (view_floor n ! node_id m)) 1,
      frozen := False, pending := [], parked := [], delivered_cache := []\<rparr>"
  have imp: "import_state snap m = Some ?m" using len by (simp add: import_state_def snap Let_def)
  have "known c ?m = known c n" by (simp add: known_def clock_restore_def fun_eq_iff)
  then have wf: "node_wf c ?m"
    using n m sat_add64_le [of "max (seen (clocks n) ! node_id m) (view_floor n ! node_id m)" 1]
    by (auto simp: node_wf_def clock_ok_def clock_restore_def delivery_restore_def sat_add64_def u64_max_def)
  moreover from wf have "node_ok c ?m" by (simp add: node_ok_def quiescent_def)
  moreover have "export_state c ?m = Some snap"
    unfolding export_state_pure [OF wf] snap by (simp add: clock_restore_def delivery_restore_def)
  ultimately show ?thesis using imp by (intro exI [of _ ?m]) simp
qed

section \<open>The uniform mode after an exclusion\<close>

text \<open>In the uniform mode a train counts as acknowledged only with the bit of every ring position, the
  excluded member's included. A survivor with nothing parked that sees only trains without that bit
  delivers nothing, parks nothing and forwards only trains without it.\<close>

lemma step_without_ack:
  assumes c: "valid_config c" and ok: "node_ok c n" and m: "mode (delivery n) = UniformTotalOrder"
    and v: "v < RING_SIZE c" "v \<noteq> node_id n" and p: "parked n = []"
    and inp: "input_ok c inp" "\<And>t. inp = TrainReceived t \<Longrightarrow> \<not> bit (ack_bits t) v"
    and st: "step c inp n = Some (n', outs)"
  shows "batches outs = [] \<and> (\<forall>t\<in>set (sends outs). \<not> bit (ack_bits t) v) \<and> node_ok c n' \<and> parked n' = [] \<and>
    mode (delivery n') = UniformTotalOrder \<and> node_id n' = node_id n"
proof (cases inp)
  case (TrainReceived t)
  then have t: "issuer t < RING_SIZE c" "clock t \<le> u64_max" "\<not> bit (ack_bits t) v" using inp by auto
  have idn: "node_id n < 32" using id_small [OF c node_okD(1) [OF ok]] .
  have rdy: "\<not> ready c t n0" if "delivery n0 = delivery n" for n0
  proof -
    have "ack_bits t \<noteq> FULL_ACK c" using t(3) v(1) bit_FULL_ACK [OF c, of v] by metis
    then show ?thesis using that m by (simp add: ready_def ready_to_deliver_def)
  qed
  have run: "ts = [] \<and> n1 = n0" if "delivery_run c t n0 ts n1" "delivery n0 = delivery n" "parked n0 = []" for n0 ts n1
  proof -
    have "ts = []" using that(1,3) rdy [OF that(2)] by (cases ts) (auto simp: delivery_run_def)
    then show ?thesis using that(1) rdy [OF that(2)] by (simp add: delivery_run_def maybe_park_def)
  qed
  show ?thesis
    using c ok t(1,2)
  proof (cases rule: step_cases)
    case (replay n1 ts us)
    have "ts = [] \<and> us = [] \<and> n1 = note_payloads (payloads t) n" using run [OF replay(5)] p by simp
    then show ?thesis using st TrainReceived replay(4,6) t(3) m p by auto
  next
    case (first n1 ts)
    then have "ts = []" using p by simp
    then show ?thesis
      using first(4,5,8) st TrainReceived t(3) m p v(2) idn
      by (auto simp: load_train_def bit_or_shl_one simp flip: push_bit_of_1)
  next
    case recycle
    then show ?thesis
      using st TrainReceived m p v(2) bit_shl_one [OF idn, of v] issue_node_ok [OF ok] by (auto simp: fresh_train_def)
  next
    case (return n1 ts us)
    have "ts = [] \<and> us = [] \<and> n1 = raise_seen (node_id n) (clock t) n" using run [OF return(5)] p by simp
    then show ?thesis using st TrainReceived return(4,6) t(3) m p by auto
  qed (use st TrainReceived ok m p in simp)
next
  case (LocalBroadcast bs)
  then show ?thesis
    using st handle_broadcast_ok [OF ok, of bs] m p by (auto simp: handle_broadcast_def Let_def split: if_splits)
next
  case Tick
  then show ?thesis using st ok m p by (simp add: handle_tick_def)
qed

lemma uniform_mode_stalls:
  assumes c: "valid_config c" and v: "v < RING_SIZE c" and "node_ok c n" "v \<noteq> node_id n" "parked n = []"
    and "mode (delivery n) = UniformTotalOrder"
    and "\<And>inp. inp \<in> set inps \<Longrightarrow> input_ok c inp"
    and "\<And>t. TrainReceived t \<in> set inps \<Longrightarrow> \<not> bit (ack_bits t) v"
    and "run_node (step c) inps n = Some (n', outs)"
  shows "concat (map batches outs) = [] \<and> (\<forall>t\<in>set (concat (map sends outs)). \<not> bit (ack_bits t) v)"
  using assms(3-)
proof (induction inps arbitrary: n outs)
  case (Cons inp inps)
  obtain n1 out rest where s: "step c inp n = Some (n1, out)" "run_node (step c) inps n1 = Some (n', rest)"
      "outs = out # rest"
    using Cons.prems(7) by (auto split: bind_splits)
  have one: "batches out = [] \<and> (\<forall>t\<in>set (sends out). \<not> bit (ack_bits t) v) \<and> node_ok c n1 \<and> parked n1 = [] \<and>
      mode (delivery n1) = UniformTotalOrder \<and> node_id n1 = node_id n"
    using Cons.prems(1-6) by (intro step_without_ack [OF c _ _ v _ _ _ _ s(1)]) auto
  have "concat (map batches rest) = [] \<and> (\<forall>t\<in>set (concat (map sends rest)). \<not> bit (ack_bits t) v)"
    using one Cons.prems(2,5,6) by (intro Cons.IH [OF _ _ _ _ _ _ s(2)]) auto
  then show ?case using one s(3) by auto
qed simp

section \<open>Properties\<close>

text \<open>The agreed boundary of a merge is, for every issuer, the highest clock any survivor has
  seen from it or issued itself; so no token a survivor issued before the view change lies
  above it.\<close>

theorem boundary_is_highest_clock:
  assumes "q < RING_SIZE c"
  shows "boundary (compute_recovery_plan c reports) ! q =
    Max (insert 0 ((\<lambda>r. max (rr_seen r ! q) (rr_issued r ! q)) ` set reports))"
  using assms by (simp add: merge_boundary_nth)

theorem boundary_is_highest_clock_witness:
  "boundary (compute_recovery_plan cfg2
     [\<lparr>rr_seen = [3, 1], rr_issued = [4, 0], rr_done = {}, rr_have = []\<rparr>]) ! 0 = 4"
  using boundary_is_highest_clock [of 0 cfg2 "[\<lparr>rr_seen = [3, 1], rr_issued = [4, 0], rr_done = {}, rr_have = []\<rparr>]"]
  by (simp add: cfg2_def)

text \<open>C20. A survivor whose report took part in the merge applies the plan without a panic, frozen
  or not, and afterwards the view is installed: every key up to the boundary is closed, so
  no hole below it can block delivery; the fence of every issuer is at least the boundary;
  the issue clock is above the boundary of the node's own slot (or saturated); delivery is
  resumed and the node's invariant holds.\<close>

theorem recovery_installs_view:
  assumes "valid_config c" and "node_ok c n"
    and "Node.recovery_report c n = Some r" and "r \<in> set reports"
    and "\<And>x. x \<in> set reports \<Longrightarrow> report_ok c x"
  shows "\<exists>n' outs. apply_recovery c (compute_recovery_plan c reports) n = Some (n', outs) \<and>
    node_ok c n' \<and> \<not> frozen n' \<and>
    (\<forall>q cl. q < RING_SIZE c \<and> 1 \<le> cl \<and> cl \<le> merge_boundary c reports ! q \<longrightarrow>
       ClockKey cl q \<in> done_keys (delivery n')) \<and>
    (\<forall>q<RING_SIZE c. merge_boundary c reports ! q \<le> view_floor n' ! q) \<and>
    (merge_boundary c reports ! node_id n < next_issue_clock n' \<or> next_issue_clock n' = u64_max)"
proof -
  let ?p = "compute_recovery_plan c reports"
  note wf = node_okD(1) [OF assms(2)] and p = plan_wf_compute [OF assms(5)]
  obtain n' outs where ap: "apply_recovery c ?p n = Some (n', outs)"
    by (rule apply_recovery_spec [OF assms(1) wf p])
  note eff = apply_recovery_effect [OF assms(1) wf p ap]
  have "\<forall>q cl. q < RING_SIZE c \<and> 1 \<le> cl \<and> cl \<le> merge_boundary c reports ! q \<longrightarrow>
      ClockKey cl q \<in> done_keys (delivery n')"
    using recovery_closes [OF assms(1) wf assms(3-5) ap] by simp
  moreover have "merge_boundary c reports ! node_id n < next_issue_clock n' \<or> next_issue_clock n' = u64_max"
    using eff(6) node_wfD(8) [OF wf] by (auto simp: sat_add64_def max_def min_def split: if_splits)
  ultimately show ?thesis using ap eff by auto
qed

theorem recovery_installs_view_witness:
  "\<exists>n' outs. apply_recovery cfg2 (compute_recovery_plan cfg2
      [the (Node.recovery_report cfg2 (issue_node (demo_node 0)))]) (issue_node (demo_node 0)) = Some (n', outs) \<and>
    ClockKey 1 0 \<in> done_keys (delivery n')"
proof -
  let ?n = "issue_node (demo_node 0)" and ?r = "the (Node.recovery_report cfg2 (issue_node (demo_node 0)))"
  have ok: "node_ok cfg2 ?n" by (simp add: issue_node_ok demo_node_ok)
  have r: "Node.recovery_report cfg2 ?n = Some ?r"
    by (simp add: Node.recovery_report_def seen_clocks_pure [OF node_okD(1) [OF ok]] Let_def)
  note rep = recovery_report_ok [OF node_okD(1) [OF ok] r]
  have "report_ok cfg2 x" if "x \<in> set [?r]" for x using that rep(1) by simp
  moreover have "merge_boundary cfg2 [?r] ! 0 = 1"
    using rep(3) rep(4) [of 0] by (simp add: merge_boundary_nth cfg2_def demo_node_fields u64_max_def)
  ultimately show ?thesis
    using recovery_installs_view [OF cfg2_valid ok r, of "[?r]"] by (auto simp: cfg2_def)
qed

text \<open>State transfer: a snapshot exported by a node and imported by another exports unchanged
  from there; the importing node is well-formed, unfrozen, has empty buffers, and its next
  issue clock is above every clock the snapshot records for its slot (or saturated).\<close>

theorem snapshot_transfer_roundtrip:
  assumes "node_ok c n" and "node_ok c m" and "export_state c n = Some snap"
  shows "\<exists>m'. import_state snap m = Some m' \<and> export_state c m' = Some snap \<and> node_ok c m' \<and>
    \<not> frozen m' \<and> parked m' = [] \<and> pending m' = [] \<and>
    (\<forall>cl. ClockKey cl (node_id m) \<in> ss_done_keys snap \<longrightarrow>
       cl < next_issue_clock m' \<or> next_issue_clock m' = u64_max)"
proof -
  obtain m' where m': "import_state snap m = Some m'" "node_ok c m'" "export_state c m' = Some snap"
      "\<not> frozen m'" "parked m' = []" "pending m' = []"
      "next_issue_clock m' = sat_add64 (max (seen (clocks n) ! node_id m) (view_floor n ! node_id m)) 1"
    using import_exported [OF node_okD(1) [OF assms(1)] node_okD(1) [OF assms(2)] assms(3)] by blast
  have "ss_done_keys snap = done_keys (delivery n)"
    using assms(3) export_state_pure [OF node_okD(1) [OF assms(1)]] by auto
  then have "cl \<le> seen (clocks n) ! node_id m" if "ClockKey cl (node_id m) \<in> ss_done_keys snap" for cl
    using that node_wfD(10) [OF node_okD(1) [OF assms(1)], of "ClockKey cl (node_id m)"]
    by (simp add: known_def)
  then show ?thesis
    using m' by (intro exI [of _ m']) (auto simp: sat_add64_def min_def le_max_iff_disj le_less_trans less_Suc_eq_le)
qed

end
