(* ===== verification/View_Net.thy ===== *)
theory View_Net
  imports Soup_Cache Node_Recovery
begin

text \<open>
  The network of \<open>Soup\<close> with view changes in progress. Any node may at any time exclude a
  peer the way the driver does (freeze first, then confirm the crash), and a frozen node may
  report what it holds; trains keep moving meanwhile. A crashed node is one that takes no more
  steps. The invariant relates the network to the one without crash marks: a frozen node does
  not read them.
\<close>

record vnet =
  vn :: net
  vreports :: "proc_id \<Rightarrow> recovery_report option"

definition view_init :: "config \<Rightarrow> delivery_mode \<Rightarrow> vnet \<Rightarrow> bool" where
  "view_init c m x \<longleftrightarrow> soup_init c m (vn x) \<and> vreports x = (\<lambda>_. None)"

inductive view_step :: "config \<Rightarrow> vnet \<Rightarrow> vnet \<Rightarrow> bool" for c where
  view_protocol: "soup_step c (vn x) s \<Longrightarrow> view_step c x (x\<lparr>vn := s\<rparr>)"
| view_exclude: "i < RING_SIZE c \<Longrightarrow> v < RING_SIZE c \<Longrightarrow>
    confirm_crash c v (set_frozen True (nodes (vn x) i)) = Some r \<Longrightarrow>
    view_step c x (x\<lparr>vn := net_apply i r (vn x)\<rparr>)"
| view_report: "i < RING_SIZE c \<Longrightarrow> frozen (nodes (vn x) i) \<Longrightarrow>
    Node.recovery_report c (nodes (vn x) i) = Some r \<Longrightarrow>
    view_step c x (x\<lparr>vreports := (vreports x)(i := Some r)\<rparr>)"

abbreviation view_reach :: "config \<Rightarrow> delivery_mode \<Rightarrow> vnet \<Rightarrow> bool" where
  "view_reach c m \<equiv> reach (view_init c m) (view_step c)"

section \<open>Frozen nodes\<close>

lemma frozen_try_deliver: "frozen n \<Longrightarrow> try_deliver c t n outs = Some (n, outs)"
  by (simp add: try_deliver_def)

lemma frozen_drain: "frozen n \<Longrightarrow> drain_parked c n outs = Some (n, outs)"
  by (simp add: drain_parked_def)

lemmas frozen_simps = frozen_try_deliver frozen_drain

definition bare :: "trains_node \<Rightarrow> trains_node" where
  "bare n = n\<lparr>delivery := (delivery n)\<lparr>crashed_bits := 0\<rparr>\<rparr>"

definition bare_net :: "net \<Rightarrow> net" where
  "bare_net s = s\<lparr>nodes := \<lambda>i. bare (nodes s i)\<rparr>"

lemma bare_simps [simp]:
  "node_id (bare n) = node_id n" "clocks (bare n) = clocks n"
  "done_keys (delivery (bare n)) = done_keys (delivery n)" "mode (delivery (bare n)) = mode (delivery n)"
  "crashed_bits (delivery (bare n)) = 0"
  "next_issue_clock (bare n) = next_issue_clock n" "next_seq (bare n) = next_seq n"
  "pending (bare n) = pending n" "parked (bare n) = parked n"
  "broadcast_seen (bare n) = broadcast_seen n" "delivered_cache (bare n) = delivered_cache n"
  "view_floor (bare n) = view_floor n" "frozen (bare n) = frozen n"
  by (simp_all add: bare_def)

lemma bare_same: "crashed_bits (delivery n) = 0 \<Longrightarrow> bare n = n"
  by (simp add: bare_def)

lemma bare_net_simps [simp]:
  "nodes (bare_net s) i = bare (nodes s i)" "sent (bare_net s) = sent s" "dlog (bare_net s) = dlog s"
  "submitted (bare_net s) = submitted s" "clocks_left c (bare_net s) = clocks_left c s"
  by (simp_all add: bare_net_def clocks_left_def)

lemma bare_net_apply: "bare_net (net_apply i r s) = net_apply i (bare (fst r), snd r) (bare_net s)"
  by (auto simp: bare_net_def net_apply_def fun_eq_iff)

lemma bare_net_submit: "bare_net (submit i bs s) = submit i bs (bare_net s)"
  by (simp add: bare_net_def submit_def)

lemma node_wf_bare: "node_wf c (bare n) = node_wf c n"
  by (simp add: node_wf_def known_cong [of "bare n" n])

text \<open>A frozen node takes the same step whatever crashes it has recorded, and delivers,
  parks and caches nothing.\<close>

lemma bare_issue:
  "issue_new_train c (bare n) = map_option (\<lambda>(n', t). (bare n', t)) (issue_new_train c n)"
  by (auto simp: issue_new_train_def note_payloads_def bare_def Let_def split: bind_splits)

lemma frozen_foreign:
  assumes "frozen n"
  shows "handle_foreign_train c t (bare n) =
    map_option (\<lambda>(n', outs). (bare n', outs)) (handle_foreign_train c t n)"
  using assms
  by (auto simp: handle_foreign_train_def frozen_simps note_payloads_def Let_def bare_def
      split: bind_splits)

lemma frozen_returning:
  assumes "frozen n"
  shows "handle_returning_train c t (bare n) =
    map_option (\<lambda>(n', outs). (bare n', outs)) (handle_returning_train c t n)"
  using assms
  by (auto simp: handle_returning_train_def frozen_simps already_delivered_def Let_def issue_new_train_def
      note_payloads_def bare_def split: bind_splits)

lemma frozen_step_bare:
  assumes "frozen n"
  shows "step c inp (bare n) = map_option (\<lambda>(n', outs). (bare n', outs)) (step c inp n)"
proof (cases inp)
  case (TrainReceived t)
  then show ?thesis
    using frozen_foreign [OF assms] frozen_returning [OF assms] by (simp add: handle_train_def)
next
  case (LocalBroadcast bs)
  then show ?thesis by (auto simp: handle_broadcast_def Let_def bare_def)
qed (simp add: handle_tick_def)

lemma frozen_step_same:
  assumes "frozen n" and "step c inp n = Some (n', outs)"
  shows "frozen n'" "delivery n' = delivery n" "parked n' = parked n"
    "delivered_cache n' = delivered_cache n" "batches outs = []"
proof -
  have "frozen n' \<and> delivery n' = delivery n \<and> parked n' = parked n \<and>
      delivered_cache n' = delivered_cache n \<and> batches outs = []"
  proof (cases inp)
    case (TrainReceived t)
    then show ?thesis
      using assms
      by (auto simp: handle_train_def handle_foreign_train_def handle_returning_train_def frozen_simps
          note_payloads_def Let_def issue_new_train_def split: if_splits bind_splits clock_check.splits)
  next
    case (LocalBroadcast bs)
    then show ?thesis using assms by (auto simp: handle_broadcast_def Let_def split: if_splits)
  next
    case Tick
    then show ?thesis using assms by (simp add: handle_tick_def)
  qed
  then show "frozen n'" "delivery n' = delivery n" "parked n' = parked n"
    "delivered_cache n' = delivered_cache n" "batches outs = []" by auto
qed

section \<open>The invariant\<close>

text \<open>The report \<open>r\<close> was taken when the node held what it holds now.\<close>

definition reported :: "config \<Rightarrow> recovery_report \<Rightarrow> trains_node \<Rightarrow> bool" where
  "reported c r n \<longleftrightarrow> (\<exists>n0. node_wf c n0 \<and> Node.recovery_report c n0 = Some r \<and>
     done_keys (delivery n0) = done_keys (delivery n) \<and> parked n0 = parked n \<and>
     delivered_cache n0 = delivered_cache n)"

definition marks_ok :: "config \<Rightarrow> net \<Rightarrow> bool" where
  "marks_ok c s \<longleftrightarrow> (\<forall>i<RING_SIZE c. \<not> frozen (nodes s i) \<longrightarrow> crashed_bits (delivery (nodes s i)) = 0)"

definition caches_ok :: "config \<Rightarrow> net \<Rightarrow> bool" where
  "caches_ok c s \<longleftrightarrow> (\<forall>i<RING_SIZE c. cache_inv c (sent s) (nodes s i))"

definition reports_ok :: "config \<Rightarrow> vnet \<Rightarrow> bool" where
  "reports_ok c x \<longleftrightarrow> (\<forall>i<RING_SIZE c. \<forall>r. vreports x i = Some r \<longrightarrow>
     frozen (nodes (vn x) i) \<and> reported c r (nodes (vn x) i))"

definition view_inv :: "config \<Rightarrow> vnet \<Rightarrow> bool" where
  "view_inv c x \<longleftrightarrow> net_inv c (bare_net (vn x)) \<and> (clocks_left c (vn x) \<longrightarrow> caches_ok c (vn x)) \<and>
     marks_ok c (vn x) \<and> reports_ok c x"

lemma marks_okD: "marks_ok c s \<Longrightarrow> i < RING_SIZE c \<Longrightarrow> \<not> frozen (nodes s i) \<Longrightarrow> bare (nodes s i) = nodes s i"
  by (simp add: marks_ok_def bare_same)

lemma caches_ok_bare: "caches_ok c (bare_net s) = caches_ok c s"
  by (simp add: caches_ok_def cache_inv_def)

lemma step_marks:
  assumes c: "valid_config c" and ok: "node_ok c n" and inp: "input_ok c inp"
    and st: "step c inp n = Some (n', outs)"
  shows "frozen n' = frozen n \<and> crashed_bits (delivery n') = crashed_bits (delivery n)"
proof (cases inp)
  case (TrainReceived t)
  then have t: "issuer t < RING_SIZE c" "clock t \<le> u64_max" using inp by auto
  show ?thesis
    using c ok t
    by (cases rule: step_cases)
      (use TrainReceived st in \<open>auto simp: delivery_run_def maybe_park_def dest: delivers_frame\<close>)
next
  case (LocalBroadcast bs)
  then show ?thesis using st by (auto simp: handle_broadcast_def Let_def split: if_splits)
next
  case Tick
  then show ?thesis using st by (simp add: handle_tick_def)
qed

text \<open>A protocol step is the same step of the network without the marks; it keeps the freeze
  flag and the marks, and a frozen node keeps all its report reads of deliveries.\<close>

lemma bare_step:
  assumes c: "valid_config c" and ok: "net_ok c (bare_net s)" and m: "marks_ok c s"
    and i: "i < RING_SIZE c" and inp: "input_ok c inp" and st: "step c inp (nodes s i) = Some r"
  shows "step c inp (nodes (bare_net s) i) = Some (bare (fst r), snd r)"
    "frozen (fst r) = frozen (nodes s i)"
    "crashed_bits (delivery (fst r)) = crashed_bits (delivery (nodes s i))"
proof -
  have st': "step c inp (nodes s i) = Some (fst r, snd r)" using st by simp
  have "step c inp (nodes (bare_net s) i) = Some (bare (fst r), snd r) \<and>
      frozen (fst r) = frozen (nodes s i) \<and>
      crashed_bits (delivery (fst r)) = crashed_bits (delivery (nodes s i))"
  proof (cases "frozen (nodes s i)")
    case True
    then show ?thesis using frozen_step_bare [OF True] frozen_step_same [OF True st'] st by (simp add: case_prod_beta)
  next
    case False
    then have b: "bare (nodes s i) = nodes s i" and z: "crashed_bits (delivery (nodes s i)) = 0"
      using m i by (simp_all add: marks_okD marks_ok_def)
    have "node_ok c (nodes s i)" using net_okD(1) [OF ok i] b by (metis bare_net_simps(1))
    note k = step_marks [OF c this inp st']
    then have "bare (fst r) = fst r" using z by (simp add: bare_same)
    then show ?thesis using b st k by simp
  qed
  then show "step c inp (nodes (bare_net s) i) = Some (bare (fst r), snd r)"
    "frozen (fst r) = frozen (nodes s i)"
    "crashed_bits (delivery (fst r)) = crashed_bits (delivery (nodes s i))" by auto
qed

lemma soup_step_bare:
  assumes c: "valid_config c" and ok: "net_ok c (bare_net s)" and m: "marks_ok c s"
    and st: "soup_step c s s'"
  shows "soup_step c (bare_net s) (bare_net s')"
  using st
proof (cases rule: soup_step.cases)
  case (soup_bcast i bs r)
  then show ?thesis
    using bare_step(1) [OF c ok m soup_bcast(2) _ soup_bcast(3)]
    by (simp add: bare_net_submit bare_net_apply soup_step.soup_bcast)
next
  case (soup_tick i r)
  then show ?thesis
    using bare_step(1) [OF c ok m soup_tick(2) _ soup_tick(3)]
    by (simp add: bare_net_apply soup_step.soup_tick)
next
  case (soup_recv i t r)
  have "input_ok c (TrainReceived t)"
    using net_ok_train [OF ok] soup_recv(3) valid_configD(5) [OF c] by force
  then show ?thesis
    using soup_recv bare_step(1) [OF c ok m soup_recv(2) _ soup_recv(4)]
    by (simp add: bare_net_apply soup_step.soup_recv)
next
  case (soup_issue i n' t)
  then have "issue_initial_train c (nodes (bare_net s) i) = Some (bare n', t)"
    using bare_issue [of c "nodes s i"] by (simp add: issue_initial_train_def)
  then show ?thesis using soup_issue by (simp add: bare_net_apply soup_step.soup_issue)
qed

definition kept :: "trains_node \<Rightarrow> trains_node \<Rightarrow> bool" where
  "kept n n' \<longleftrightarrow> frozen n' = frozen n \<and> crashed_bits (delivery n') = crashed_bits (delivery n) \<and>
     (frozen n \<longrightarrow> done_keys (delivery n') = done_keys (delivery n) \<and> parked n' = parked n \<and>
        delivered_cache n' = delivered_cache n)"

lemma kept_refl: "kept n n"
  by (simp add: kept_def)

lemma kept_reported: "kept n n' \<Longrightarrow> frozen n \<Longrightarrow> reported c r n \<Longrightarrow> reported c r n'"
  by (simp add: kept_def reported_def)

lemma kept_step:
  assumes c: "valid_config c" and ok: "net_ok c (bare_net s)" and m: "marks_ok c s"
    and i: "i < RING_SIZE c" and inp: "input_ok c inp" and st: "step c inp (nodes s i) = Some r"
  shows "kept (nodes s j) (((nodes s)(i := fst r)) j)"
proof -
  have "step c inp (nodes s i) = Some (fst r, snd r)" using st by simp
  then have "kept (nodes s i) (fst r)"
    using bare_step(2,3) [OF assms] frozen_step_same [of "nodes s i" c inp "fst r" "snd r"]
    by (simp add: kept_def)
  then show ?thesis by (simp add: kept_refl)
qed

lemma soup_step_kept:
  assumes c: "valid_config c" and ok: "net_ok c (bare_net s)" and m: "marks_ok c s"
    and st: "soup_step c s s'"
  shows "kept (nodes s j) (nodes s' j)"
  using st
proof (cases rule: soup_step.cases)
  case (soup_bcast i bs r)
  then show ?thesis using kept_step [OF c ok m soup_bcast(2) _ soup_bcast(3)] by simp
next
  case (soup_tick i r)
  then show ?thesis using kept_step [OF c ok m soup_tick(2) _ soup_tick(3)] by simp
next
  case (soup_recv i t r)
  have "input_ok c (TrainReceived t)"
    using net_ok_train [OF ok] soup_recv(3) valid_configD(5) [OF c] by force
  then show ?thesis using soup_recv(1) kept_step [OF c ok m soup_recv(2) _ soup_recv(4)] by simp
next
  case (soup_issue i n' t)
  then have "kept (nodes s i) n'"
    by (auto simp: issue_initial_train_def issue_new_train_def note_payloads_def Let_def kept_def
        split: bind_splits)
  then show ?thesis using soup_issue(1) by (simp add: kept_refl)
qed

section \<open>The steps keep the invariant\<close>

lemma view_invD:
  assumes "view_inv c x"
  shows "valid_config c" "net_ok c (bare_net (vn x))" "marks_ok c (vn x)" "reports_ok c x"
    "clocks_left c (vn x) \<Longrightarrow> caches_ok c (vn x)"
    "clocks_left c (vn x) \<Longrightarrow> \<exists>C. soup_inv c C (bare_net (vn x))"
  using assms by (auto simp: view_inv_def net_inv_def)

lemma view_inv_protocol:
  assumes inv: "view_inv c x" and st: "soup_step c (vn x) s"
  shows "view_inv c (x\<lparr>vn := s\<rparr>)"
proof -
  note I = view_invD [OF inv]
  have b: "soup_step c (bare_net (vn x)) (bare_net s)" by (rule soup_step_bare [OF I(1-3) st])
  have net: "net_inv c (bare_net (vn x))" using inv by (simp add: view_inv_def)
  have "net_inv c (bare_net s)" using net b by (rule soup.inv_step)
  moreover have "caches_ok c s" if left: "clocks_left c s"
  proof -
    have "clocks_left c (vn x)" using net_ok_step [OF I(1,2) b] left by simp
    then obtain C where "soup_inv c C (bare_net (vn x))" "caches_ok c (bare_net (vn x))"
      using I(5,6) caches_ok_bare by blast
    then have "caches_ok c (bare_net s)"
      using cache_inv_step [OF I(1,2) _ b] unfolding caches_ok_def by blast
    then show ?thesis by (simp add: caches_ok_bare)
  qed
  moreover have k: "kept (nodes (vn x) j) (nodes s j)" for j by (rule soup_step_kept [OF I(1-3) st])
  then have "marks_ok c s" using I(3) by (simp add: marks_ok_def kept_def)
  moreover have "reports_ok c (x\<lparr>vn := s\<rparr>)"
    using I(4) k kept_reported unfolding reports_ok_def by (simp add: kept_def)
  ultimately show ?thesis by (simp add: view_inv_def)
qed

lemma exclude_effect:
  assumes "confirm_crash c v (set_frozen True n) = Some r"
  shows "snd r = []" "bare (fst r) = set_frozen True (bare n)" "frozen (fst r)"
    "done_keys (delivery (fst r)) = done_keys (delivery n)" "parked (fst r) = parked n"
    "delivered_cache (fst r) = delivered_cache n"
  using assms
  by (auto simp: confirm_crash_def delivery_mark_crashed_def frozen_drain set_frozen_def bare_def
      split: bind_splits)

lemma net_inv_freeze:
  assumes inv: "net_inv c s" and i: "i < RING_SIZE c"
  shows "net_inv c (set_node i (set_frozen True (nodes s i)) s)" (is "net_inv c ?s")
proof -
  let ?n = "set_frozen True (nodes s i)"
  have ok: "net_ok c s" and c: "valid_config c" using inv by (auto simp: net_inv_def)
  have "known c ?n = known c (nodes s i)" by (rule known_cong) (simp add: set_frozen_def)
  then have wf: "node_wf c ?n"
    using node_okD(1) [OF net_okD(1) [OF ok i]] by (simp add: node_wf_def set_frozen_def)
  then have "node_ok c ?n" by (simp add: node_ok_def set_frozen_def)
  moreover have "node_id ?n = i" using net_okD(2) [OF ok i] by (simp add: set_frozen_def)
  ultimately have "net_ok c ?s" using ok by (simp add: net_ok_def trains_bounded_def)
  moreover have "\<exists>C. soup_inv c C ?s" if "clocks_left c ?s"
  proof -
    have "clocks_left c s" using that by (rule clocks_left_apply [rotated, of _ _ _ i ?n]) (simp_all add: set_frozen_def)
    then obtain C where C: "soup_inv c C s" using inv by (auto simp: net_inv_def)
    have "soup_inv c C ?s"
      by (rule soup_inv_local [OF C i wf, where X = "{}"])
        (use node_invD [OF C i] in \<open>auto simp: set_frozen_def\<close>)
    then show ?thesis by blast
  qed
  ultimately show ?thesis using c by (simp add: net_inv_def)
qed

lemma view_inv_exclude:
  assumes inv: "view_inv c x" and i: "i < RING_SIZE c"
    and r: "confirm_crash c v (set_frozen True (nodes (vn x) i)) = Some r"
  shows "view_inv c (x\<lparr>vn := net_apply i r (vn x)\<rparr>)"
proof -
  note I = view_invD [OF inv] and e = exclude_effect [OF r]
  let ?s = "net_apply i r (vn x)"
  have b: "bare_net ?s = set_node i (set_frozen True (nodes (bare_net (vn x)) i)) (bare_net (vn x))"
    using e(1,2) unfolding bare_net_apply by (simp add: net_apply_def set_node_def)
  have "net_inv c (bare_net ?s)" unfolding b using inv i by (intro net_inv_freeze) (simp_all add: view_inv_def)
  moreover have "caches_ok c ?s" if "clocks_left c ?s"
  proof -
    have "next_issue_clock (fst r) = next_issue_clock (nodes (vn x) i)"
      using arg_cong [OF e(2), of next_issue_clock] by (simp add: set_frozen_def)
    then have "clocks_left c (vn x)" using that by (intro clocks_left_apply [OF _ that]) simp_all
    then show ?thesis using I(5) e(1,4,6) by (simp add: caches_ok_def cache_inv_def)
  qed
  moreover have "marks_ok c ?s" using I(3) e(3) by (simp add: marks_ok_def)
  moreover have "reported c q (fst r)" if "reported c q (nodes (vn x) i)" for q
    using that e(4-6) by (simp add: reported_def)
  then have "reports_ok c (x\<lparr>vn := ?s\<rparr>)" using I(4) e(3) by (simp add: reports_ok_def)
  ultimately show ?thesis by (simp add: view_inv_def)
qed

lemma view_inv_report:
  assumes inv: "view_inv c x" and i: "i < RING_SIZE c" and fr: "frozen (nodes (vn x) i)"
    and r: "Node.recovery_report c (nodes (vn x) i) = Some r"
  shows "view_inv c (x\<lparr>vreports := (vreports x)(i := Some r)\<rparr>)"
proof -
  have "node_wf c (bare (nodes (vn x) i))"
    using node_okD(1) [OF net_okD(1) [OF view_invD(2) [OF inv] i]] by simp
  then have "reported c r (nodes (vn x) i)" using r by (auto simp: reported_def node_wf_bare)
  then show ?thesis using inv fr by (simp add: view_inv_def reports_ok_def)
qed

interpretation view: invariant_system "view_init c m" "view_step c" "view_inv c" for c m
proof
  fix x assume x: "view_init c m x"
  then have init: "soup_init c m (vn x)" by (simp add: view_init_def)
  have new: "node_new c i m = Some (nodes (vn x) i)" if "i < RING_SIZE c" for i
    using init that by (simp add: soup_init_def)
  have b: "bare (nodes (vn x) i) = nodes (vn x) i" if "i < RING_SIZE c" for i
    using node_new_fields(2) [OF new [OF that]] by (intro bare_same) (simp add: delivery_new_def)
  have "soup_init c m (bare_net (vn x))" using init b by (simp add: soup_init_def)
  then have "net_inv c (bare_net (vn x))" by (rule soup.inv_init)
  moreover have "caches_ok c (vn x)" using cache_inv_new [OF new] by (simp add: caches_ok_def)
  moreover have "marks_ok c (vn x)"
    using node_new_fields(2) [OF new] by (simp add: marks_ok_def delivery_new_def)
  ultimately show "view_inv c x" using x by (simp add: view_inv_def reports_ok_def view_init_def)
next
  fix x y assume inv: "view_inv c x" and st: "view_step c x y"
  from st show "view_inv c y"
  proof (cases rule: view_step.cases)
    case (view_protocol s)
    then show ?thesis using view_inv_protocol [OF inv] by simp
  next
    case (view_exclude i v r)
    then show ?thesis using view_inv_exclude [OF inv] by simp
  next
    case (view_report i r)
    then show ?thesis using view_inv_report [OF inv] by simp
  qed
qed

end
