(* ===== verification/View_Sync.thy ===== *)
theory View_Sync
  imports View_Net
begin

text \<open>
  Virtual synchrony of the view change: survivors that froze and reported at whatever moments,
  then apply the plan merged from their reports, end with the same log and the same delivered
  keys, provided none is more than \<^verbatim>\<open>DELIVERED_CACHE_CAP\<close> keys behind another. Deliveries of the
  excluded node are not part of the promise: a key it alone delivered may be skipped.
\<close>

section \<open>What a report holds\<close>

lemma have_cache_get:
  "btm_get (fold (\<lambda>(k, ps) h. if ps \<noteq> [] then btm_insert k ps h else h) xs h) k = Some ps \<Longrightarrow>
     (k, ps) \<in> set xs \<or> btm_get h k = Some ps"
proof (induction xs arbitrary: h)
  case (Cons x xs)
  obtain a v where x: "x = (a, v)" by fastforce
  have "(k, ps) \<in> set xs \<or> btm_get (if v \<noteq> [] then btm_insert a v h else h) k = Some ps"
    using Cons.prems unfolding x by (intro Cons.IH) simp
  then show ?case by (auto simp: x get_btm_insert split: if_splits)
qed simp

lemma have_cache_other:
  "k \<notin> fst ` set xs \<Longrightarrow>
     btm_get (fold (\<lambda>(k, ps) h. if ps \<noteq> [] then btm_insert k ps h else h) xs h) k = btm_get h k"
  by (induction xs arbitrary: h) (auto simp: get_btm_insert)

lemma have_cache_mem:
  assumes "distinct (btm_keys xs)" and "(k, ps) \<in> set xs" and "ps \<noteq> []"
  shows "btm_get (fold (\<lambda>(k, ps) h. if ps \<noteq> [] then btm_insert k ps h else h) xs h) k = Some ps"
  using assms
proof (induction xs arbitrary: h)
  case (Cons x xs)
  then show ?case
    using have_cache_other [of k xs] by (cases "x = (k, ps)") (auto simp: get_btm_insert)
qed simp

lemma have_parked_get:
  "btm_get (fold (\<lambda>(k, t) h. if payloads t \<noteq> [] then btm_or_insert k (payloads t) h else h) xs h) k = Some ps \<Longrightarrow>
     (\<exists>t. (k, t) \<in> set xs \<and> payloads t = ps) \<or> btm_get h k = Some ps"
proof (induction xs arbitrary: h)
  case (Cons x xs)
  then show ?case
    by (cases x) (fastforce simp: get_btm_or_insert split: if_splits option.splits)
qed simp

lemma have_parked_keep:
  "btm_get h k = Some ps \<Longrightarrow>
     btm_get (fold (\<lambda>(k, t) h. if payloads t \<noteq> [] then btm_or_insert k (payloads t) h else h) xs h) k = Some ps"
proof (induction xs arbitrary: h)
  case (Cons x xs)
  have "btm_get (btm_or_insert (fst x) v h) k = Some ps" for v
    using Cons.prems by (auto simp: get_btm_or_insert)
  then show ?case using Cons by (simp add: case_prod_beta)
qed simp

lemma report_have:
  assumes wf: "node_wf c n" and r: "Node.recovery_report c n = Some r"
  shows "\<And>ps. (k, ps) \<in> set (delivered_cache n) \<Longrightarrow> ps \<noteq> [] \<Longrightarrow> have_of k r = ps"
    "have_of k r \<noteq> [] \<Longrightarrow> (k, have_of k r) \<in> set (delivered_cache n) \<or>
       (\<exists>t. (k, t) \<in> set (parked n) \<and> payloads t = have_of k r)"
proof -
  let ?f = "\<lambda>(k, ps) h. if ps \<noteq> [] then btm_insert k ps h else h"
  let ?g = "\<lambda>(k, t) h. if payloads t \<noteq> [] then btm_or_insert k (payloads t) h else h"
  have rr: "rr_have r = fold ?g (parked n) (fold ?f (delivered_cache n) [])"
    using r by (auto simp: Node.recovery_report_def seen_clocks_pure [OF wf] Let_def)
  have dist: "distinct (btm_keys (delivered_cache n))" using node_wfD(4) [OF wf] by (rule btm.distinct_keys)
  show "have_of k r = ps" if "(k, ps) \<in> set (delivered_cache n)" "ps \<noteq> []" for ps
  proof -
    have "btm_get (rr_have r) k = Some ps"
      unfolding rr by (rule have_parked_keep [OF have_cache_mem [OF dist that]])
    then show ?thesis by (simp add: have_of_def)
  qed
  show "(k, have_of k r) \<in> set (delivered_cache n) \<or> (\<exists>t. (k, t) \<in> set (parked n) \<and> payloads t = have_of k r)"
    if "have_of k r \<noteq> []"
  proof -
    have get: "btm_get (rr_have r) k = Some (have_of k r)"
      using that by (auto simp: have_of_def split: option.splits)
    then show ?thesis
      using have_parked_get [OF get [unfolded rr]] have_cache_get [of "delivered_cache n" "[]" k "have_of k r"] by auto
  qed
qed

section \<open>Contents\<close>

lemma full_train_merged:
  assumes inv: "soup_inv c C s" and t: "full_train c (sent s) k ps"
  shows "mset ps = mset (merged c C k)" "proper c k"
proof -
  obtain t where t: "t \<in> sent s" "all_acks c t" "key_of t = k" "payloads t = ps"
    using t by (auto simp: full_train_def)
  note tok = sent_ok [OF inv t(1)]
  have "{i. i < RING_SIZE c \<and> bit (ack_bits t) i} = {..<RING_SIZE c}"
    using t(2) by (auto simp: all_acks_def)
  then show "mset ps = mset (merged c C k)" using tok t by (simp add: train_ok_def mset_merged)
  show "proper c k" using tok t by (auto simp: train_ok_def proper_def key_of_def)
qed

lemma union_sorted:
  assumes dist: "distinct (map payload_id m)"
    and have_m: "\<And>r. r \<in> set rs \<Longrightarrow> have_of k r \<noteq> [] \<Longrightarrow> mset (have_of k r) = mset m"
    and r: "r \<in> set rs" "have_of k r \<noteq> []"
  shows "sort_payloads (union_payloads k rs) = sort_payloads m"
proof -
  let ?H = "\<Union>r\<in>set rs. set (have_of k r)"
  have "set (have_of k q) \<subseteq> set m" if "q \<in> set rs" for q
    using mset_eq_setD [OF have_m [OF that]] by (cases "have_of k q = []") auto
  moreover have "set (have_of k r) = set m" using mset_eq_setD [OF have_m [OF r]] .
  ultimately have H: "?H = set m" using r(1) by blast
  note u = union_payloads_set [of k rs, unfolded H]
  have inj: "inj_on payload_id (set m)" using dist by (simp add: distinct_map)
  have "set (union_payloads k rs) = set m"
    using u(2,3) inj by (metis inj_on_image_eq_iff subset_refl)
  moreover have "distinct (union_payloads k rs)" "distinct m"
    using u(1) dist by (auto simp: distinct_map)
  ultimately have "mset (union_payloads k rs) = mset m" by (metis set_eq_iff_mset_eq_distinct)
  then show ?thesis
    unfolding sort_payloads_def
    by (rule sort_key_mset_eq) (use inj \<open>set (union_payloads k rs) = set m\<close> in simp)
qed

section \<open>What applying a plan emits\<close>

definition plan_out :: "recovery_action \<Rightarrow> payload list list" where
  "plan_out a = (case a of RA_Skip \<Rightarrow> [] | RA_Deliver ps \<Rightarrow> if ps = [] then [] else [sort_payloads ps])"

lemma batches_plan:
  "batches (concat (map (recover_out D) acts)) =
     concat (map (\<lambda>(k, a). if k \<in> D then [] else plan_out a) acts)"
  unfolding batches_recover
  by (intro arg_cong [of _ _ concat] map_cong) (auto simp: plan_out_def split: recovery_action.splits)

lemma concat_filter_split:
  assumes "sorted_wrt R xs" and "\<And>x y. x \<in> set xs \<Longrightarrow> y \<in> set xs \<Longrightarrow> R x y \<Longrightarrow> \<not> P x \<Longrightarrow> P y \<Longrightarrow> f x = []"
  shows "concat (map f xs) = concat (map f (filter P xs)) @ concat (map f (filter (\<lambda>x. \<not> P x) xs))"
  using assms
proof (induction xs)
  case (Cons x xs)
  have "sorted_wrt R xs" using Cons.prems(1) by simp
  then have IH: "concat (map f xs) = concat (map f (filter P xs)) @ concat (map f (filter (\<lambda>x. \<not> P x) xs))"
    by (rule Cons.IH) (rule Cons.prems(2); simp)
  show ?case
  proof (cases "P x \<or> f x = []")
    case False
    have "\<not> P y" if "y \<in> set xs" for y
      using that False Cons.prems(1) Cons.prems(2) [of x y] by auto
    then have "filter P xs = []" by (simp add: filter_empty_conv)
    then show ?thesis using IH False by simp
  qed (use IH in auto)
qed simp

lemma segment_split:
  assumes A: "initial_segment c A" and B: "initial_segment c B" and sub: "A \<subseteq> B"
  shows "log_of c C B = log_of c C A @ concat (map (content c C) (sorted_list_of_set (B - A)))"
proof -
  have fin: "finite A" "finite B" using A B by (auto simp: initial_segment_def)
  have "a < b" if "a \<in> A" "b \<in> B - A" for a b
  proof (rule ccontr)
    assume "\<not> a < b"
    then have "b < a" using that by (metis DiffD2 linorder_neqE)
    then show False using that A B unfolding initial_segment_def by blast
  qed
  then have "sorted (sorted_list_of_set A @ sorted_list_of_set (B - A))"
    using fin by (auto simp: sorted_append intro: less_imp_le)
  moreover have "distinct (sorted_list_of_set A @ sorted_list_of_set (B - A))"
    "set (sorted_list_of_set A @ sorted_list_of_set (B - A)) = B" using fin sub by auto
  ultimately have "sorted_list_of_set B = sorted_list_of_set A @ sorted_list_of_set (B - A)"
    by (metis sorted_list_of_set.idem_if_sorted_distinct)
  then show ?thesis by (simp add: log_of_def)
qed

text \<open>A survivor that has delivered \<open>D\<close> gets from the plan what the others delivered beyond \<open>D\<close>,
  then what is common to all.\<close>

lemma plan_emits:
  assumes acts: "btm_ok acts" and U: "initial_segment c U"
    and keys: "U - D \<subseteq> fst ` set acts"
    and old: "\<And>k a. (k, a) \<in> set acts \<Longrightarrow> k \<in> U - D \<Longrightarrow> plan_out a = content c C k"
    and new: "\<And>k a. (k, a) \<in> set acts \<Longrightarrow> plan_out a \<noteq> [] \<Longrightarrow> proper c k" and sub: "D \<subseteq> U"
  shows "concat (map (\<lambda>(k, a). if k \<in> D then [] else plan_out a) acts) =
    concat (map (content c C) (sorted_list_of_set (U - D))) @
    concat (map (plan_out \<circ> snd) (filter (\<lambda>e. fst e \<notin> U) acts))"
proof -
  let ?f = "\<lambda>(k, a). if k \<in> D then [] else plan_out a"
  let ?u = "filter (\<lambda>e. fst e \<in> U) acts" and ?d = "filter (\<lambda>e. fst e \<in> U - D) acts"
  have sorted: "sorted_wrt (\<lambda>x y. fst x < fst y) acts" using acts by (simp add: btm_ok_def sorted_wrt_map)
  have "concat (map ?f acts) = concat (map ?f ?u) @ concat (map ?f (filter (\<lambda>e. fst e \<notin> U) acts))"
  proof (rule concat_filter_split [OF sorted])
    fix x y assume xy: "x \<in> set acts" "y \<in> set acts" "fst x < fst y" "fst x \<notin> U" "fst y \<in> U"
    then have "\<not> proper c (fst x)" using U unfolding initial_segment_def by blast
    then show "?f x = []" using new [of "fst x" "snd x"] xy(1) by (auto simp: case_prod_beta)
  qed
  moreover have "concat (map ?f (filter (\<lambda>e. fst e \<notin> U) acts)) =
      concat (map (plan_out \<circ> snd) (filter (\<lambda>e. fst e \<notin> U) acts))"
    using sub by (intro arg_cong [of _ _ concat] map_cong) auto
  moreover have "concat (map ?f ?u) = concat (map (\<lambda>e. content c C (fst e)) ?d)"
    using old by (induction acts) (auto simp: case_prod_beta)
  moreover have "map fst ?d = sorted_list_of_set (U - D)"
  proof -
    have "sorted_wrt (<) (map fst ?d)" using sorted by (simp add: sorted_wrt_map sorted_wrt_filter)
    moreover have "set (map fst ?d) = U - D" using keys by force
    ultimately show ?thesis
      by (metis sorted_list_of_set.idem_if_sorted_distinct strict_sorted_iff)
  qed
  then have "concat (map (\<lambda>e. content c C (fst e)) ?d) = concat (map (content c C) (sorted_list_of_set (U - D)))"
    by (metis (no_types, lifting) map_eq_conv map_map comp_apply)
  ultimately show ?thesis by simp
qed

section \<open>A round\<close>

text \<open>What a view-change round starts from: the network without crash marks satisfies its
  invariant, the caches are sound, and \<open>rep\<close> gives the reports of the survivors \<open>S\<close>.\<close>

definition vs_round :: "config \<Rightarrow> contrib \<Rightarrow> vnet \<Rightarrow> proc_id list \<Rightarrow> (proc_id \<Rightarrow> recovery_report) \<Rightarrow> bool" where
  "vs_round c C x S rep \<longleftrightarrow> view_inv c x \<and> soup_inv c C (bare_net (vn x)) \<and> caches_ok c (vn x) \<and>
     (\<forall>i\<in>set S. i < RING_SIZE c \<and> vreports x i = Some (rep i))"

definition done_at :: "vnet \<Rightarrow> proc_id \<Rightarrow> clock_key set" where
  "done_at x i = done_keys (delivery (nodes (vn x) i))"

lemma roundD:
  assumes "vs_round c C x S rep"
  shows "valid_config c" "soup_inv c C (bare_net (vn x))"
    "\<And>i. i \<in> set S \<Longrightarrow> i < RING_SIZE c"
    "\<And>i. i \<in> set S \<Longrightarrow> frozen (nodes (vn x) i)"
    "\<And>i. i \<in> set S \<Longrightarrow> reported c (rep i) (nodes (vn x) i)"
    "\<And>i. i \<in> set S \<Longrightarrow> cache_inv c (sent (vn x)) (nodes (vn x) i)"
    "\<And>i. i \<in> set S \<Longrightarrow> initial_segment c (done_at x i)"
    "\<And>i. i \<in> set S \<Longrightarrow> dlog (vn x) i = log_of c C (done_at x i)"
proof -
  note V = assms [unfolded vs_round_def]
  show "valid_config c" "soup_inv c C (bare_net (vn x))" using V view_invD(1) by auto
  fix i assume i: "i \<in> set S"
  then show lt: "i < RING_SIZE c" using V by blast
  have "vreports x i = Some (rep i)" "reports_ok c x" using V i view_invD(4) by blast+
  then show "frozen (nodes (vn x) i)" "reported c (rep i) (nodes (vn x) i)"
    using lt by (auto simp: reports_ok_def)
  show "cache_inv c (sent (vn x)) (nodes (vn x) i)" using V lt by (simp add: caches_ok_def)
  show "initial_segment c (done_at x i)" "dlog (vn x) i = log_of c C (done_at x i)"
    using node_invD(5,7) [OF _ lt, of C "bare_net (vn x)"] V by (simp_all add: done_at_def)
qed

text \<open>A report is well-formed, names the keys delivered, and its payloads for a key are those of
  a fully acknowledged train.\<close>

lemma round_report:
  assumes R: "vs_round c C x S rep" and i: "i \<in> set S"
  shows "report_ok c (rep i)" "rr_done (rep i) = done_at x i"
    "\<And>k. k \<in> done_at x i \<or> k \<in> fst ` set (parked (nodes (vn x) i)) \<Longrightarrow>
       ck_issuer k < RING_SIZE c \<and> 1 \<le> ck_clock k \<and> ck_clock k \<le> rr_seen (rep i) ! ck_issuer k"
    "\<And>k ps. (k, ps) \<in> set (delivered_cache (nodes (vn x) i)) \<Longrightarrow> ps \<noteq> [] \<Longrightarrow> have_of k (rep i) = ps"
    "\<And>k. have_of k (rep i) \<noteq> [] \<Longrightarrow> mset (have_of k (rep i)) = mset (merged c C k) \<and> proper c k"
proof -
  obtain n0 where n0: "node_wf c n0" "Node.recovery_report c n0 = Some (rep i)"
      "done_keys (delivery n0) = done_at x i" "parked n0 = parked (nodes (vn x) i)"
      "delivered_cache n0 = delivered_cache (nodes (vn x) i)"
    using roundD(5) [OF R i] by (auto simp: reported_def done_at_def)
  note rep = recovery_report_ok [OF n0(1,2)] and have_r = report_have [OF n0(1,2)]
  show "report_ok c (rep i)" "rr_done (rep i) = done_at x i" using rep n0(3) by simp_all
  show "ck_issuer k < RING_SIZE c \<and> 1 \<le> ck_clock k \<and> ck_clock k \<le> rr_seen (rep i) ! ck_issuer k"
    if "k \<in> done_at x i \<or> k \<in> fst ` set (parked (nodes (vn x) i))" for k
  proof -
    have "known c n0 k" using that n0 by (auto simp: node_wf_def)
    then show ?thesis using rep(3) by (simp add: known_def)
  qed
  show "have_of k (rep i) = ps" if "(k, ps) \<in> set (delivered_cache (nodes (vn x) i))" "ps \<noteq> []" for k ps
    using have_r(1) that n0(5) by simp
  show "mset (have_of k (rep i)) = mset (merged c C k) \<and> proper c k" if h: "have_of k (rep i) \<noteq> []" for k
  proof -
    have "full_train c (sent (vn x)) k (have_of k (rep i))"
      using have_r(2) [OF h]
    proof
      assume "(k, have_of k (rep i)) \<in> set (delivered_cache n0)"
      then show ?thesis using roundD(6) [OF R i] n0(5) by (auto simp: cache_inv_def)
    next
      assume "\<exists>t. (k, t) \<in> set (parked n0) \<and> payloads t = have_of k (rep i)"
      then obtain t where t: "(k, t) \<in> set (parked n0)" "payloads t = have_of k (rep i)" by blast
      have "t \<in> snd ` set (parked (nodes (bare_net (vn x)) i))" using t(1) n0(4) by force
      then have "t \<in> sent (vn x) \<and> all_acks c t"
        using node_invD(4) [OF roundD(2,3) [OF R]] i by simp
      moreover have "key_of t = k" using n0(1) t(1) by (auto simp: node_wf_def)
      ultimately show ?thesis using t(2) by (auto simp: full_train_def)
    qed
    then show ?thesis using full_train_merged [OF roundD(2) [OF R]] by simp
  qed
qed

lemma segment_down: "initial_segment c A \<Longrightarrow> l \<in> A \<Longrightarrow> proper c k \<Longrightarrow> k < l \<Longrightarrow> k \<in> A"
  unfolding initial_segment_def by blast

lemma segment_proper: "initial_segment c A \<Longrightarrow> k \<in> A \<Longrightarrow> proper c k"
  unfolding initial_segment_def by blast

text \<open>A key some survivor delivered with content and another is missing is still reported.\<close>

lemma round_held:
  assumes R: "vs_round c C x S rep" and i: "i \<in> set S" and j: "j \<in> set S"
    and cap: "card (done_at x j - done_at x i) \<le> DELIVERED_CACHE_CAP"
    and k: "k \<in> done_at x j - done_at x i" and ne: "merged c C k \<noteq> []"
  shows "have_of k (rep j) \<noteq> []"
proof -
  let ?m = "delivered_cache (nodes (vn x) j)"
  note ci = roundD(6) [OF R j] and seg = roundD(7) [OF R i] roundD(7) [OF R j]
  have "\<not> full_train c (sent (vn x)) k []"
    using full_train_merged(1) [of c C "bare_net (vn x)" k "[]"] roundD(2) [OF R] ne by auto
  then have "covered DELIVERED_CACHE_CAP ?m k" using ci k by (auto simp: cache_inv_def done_at_def)
  moreover have False if full: "DELIVERED_CACHE_CAP \<le> length ?m" "\<forall>l\<in>set (btm_keys ?m). k < l"
  proof -
    have "set (btm_keys ?m) \<subseteq> done_at x j" using ci by (auto simp: cache_inv_def done_at_def)
    moreover have "l \<notin> done_at x i" if l: "l \<in> set (btm_keys ?m)" for l
    proof
      assume "l \<in> done_at x i"
      moreover have "proper c k" using k by (intro segment_proper [OF seg(2)]) simp
      moreover have "k < l" using full(2) l by (rule bspec)
      ultimately have "k \<in> done_at x i" by (rule segment_down [OF seg(1)])
      then show False using k by simp
    qed
    ultimately have "set (btm_keys ?m) \<subseteq> done_at x j - done_at x i" by (intro subsetI DiffI) (erule subsetD)
    then have "insert k (set (btm_keys ?m)) \<subseteq> done_at x j - done_at x i" using k by simp
    moreover have "finite (done_at x j - done_at x i)" using seg(2) by (simp add: initial_segment_def)
    ultimately have "card (insert k (set (btm_keys ?m))) \<le> DELIVERED_CACHE_CAP"
      using cap by (meson card_mono order_trans)
    moreover have "k \<notin> set (btm_keys ?m)" using full(2) bspec by fastforce
    moreover have "btm_ok ?m"
      using node_wfD(4) [OF node_invD(1) [OF roundD(2,3) [OF R]]] j by simp
    ultimately show False using full(1) btm_length [of ?m] by simp
  qed
  ultimately have "k \<in> set (btm_keys ?m)" unfolding covered_def by metis
  then obtain ps where "(k, ps) \<in> set ?m" by auto
  moreover from this have "ps \<noteq> []" using ci by (auto simp: cache_inv_def)
  ultimately show ?thesis using round_report(4) [OF R j] by simp
qed

section \<open>The survivors after the plan\<close>

abbreviation vs_plan :: "config \<Rightarrow> proc_id list \<Rightarrow> (proc_id \<Rightarrow> recovery_report) \<Rightarrow> recovery_plan" where
  "vs_plan c S rep \<equiv> compute_recovery_plan c (map rep S)"

definition cache_covers :: "vnet \<Rightarrow> proc_id list \<Rightarrow> bool" where
  "cache_covers x S \<longleftrightarrow> (\<forall>i\<in>set S. \<forall>j\<in>set S. card (done_at x j - done_at x i) \<le> DELIVERED_CACHE_CAP)"

definition all_done :: "vnet \<Rightarrow> proc_id list \<Rightarrow> clock_key set" where
  "all_done x S = (\<Union>i\<in>set S. done_at x i)"

lemma segment_Union:
  assumes "\<And>i. i \<in> set S \<Longrightarrow> initial_segment c (A i)"
  shows "initial_segment c (\<Union>i\<in>set S. A i)"
  using assms unfolding initial_segment_def by blast

lemma round_plan_out:
  assumes R: "vs_round c C x S rep" and ka: "(k, a) \<in> set (actions (vs_plan c S rep))" and ne: "plan_out a \<noteq> []"
  shows "plan_out a = content c C k" "proper c k"
proof -
  have "btm_get (actions (vs_plan c S rep)) k = Some a" using ka btm_mem_get [OF plan_ok] by blast
  then have a: "a = RA_Deliver (union_payloads k (map rep S))" "\<not> (\<forall>r\<in>set (map rep S). have_of k r = [])"
    using ne unfolding plan_lookup by (auto simp: plan_out_def split: if_splits)
  then obtain i where i: "i \<in> set S" "have_of k (rep i) \<noteq> []" by auto
  note m = round_report(5) [OF R]
  have dist: "distinct (map payload_id (merged c C k))"
    unfolding merged_def using node_invD(9) [OF roundD(2) [OF R]] by (rule distinct_contributions)
  have "sort_payloads (union_payloads k (map rep S)) = sort_payloads (merged c C k)"
    by (rule union_sorted [OF dist, of _ _ "rep i"]) (use m i in auto)
  moreover have "merged c C k \<noteq> []" using m [OF i] i(2) by auto
  ultimately show "plan_out a = content c C k" using ne by (simp add: a(1) plan_out_def content_def split: if_splits)
  show "proper c k" using m [OF i] by simp
qed

lemma round_plan_old:
  assumes R: "vs_round c C x S rep" and cap: "cache_covers x S" and i: "i \<in> set S"
    and k: "k \<in> all_done x S - done_at x i"
  shows "\<exists>a. (k, a) \<in> set (actions (vs_plan c S rep)) \<and> plan_out a = content c C k"
proof -
  obtain j where j: "j \<in> set S" "k \<in> done_at x j" using k by (auto simp: all_done_def)
  have "ck_issuer k < RING_SIZE c \<and> 1 \<le> ck_clock k \<and> ck_clock k \<le> merge_boundary c (map rep S) ! ck_issuer k"
    using round_report(3) [OF R j(1), of k] j merge_boundary_ge(1) [of "ck_issuer k" c "rep j" "map rep S"]
    by fastforce
  moreover have "\<not> (\<forall>r\<in>set (map rep S). k \<in> rr_done r)" using round_report(2) [OF R i] i k by auto
  ultimately obtain a where a: "btm_get (actions (vs_plan c S rep)) k = Some a"
      "a = (if \<forall>r\<in>set (map rep S). have_of k r = [] then RA_Skip else RA_Deliver (union_payloads k (map rep S)))"
    by (simp add: plan_lookup)
  have ka: "(k, a) \<in> set (actions (vs_plan c S rep))" using a(1) btm_mem_get [OF plan_ok] by blast
  have "plan_out a \<noteq> []" if ne: "merged c C k \<noteq> []"
  proof -
    have "have_of k (rep j) \<noteq> []"
      using cap i j k ne by (intro round_held [OF R i j(1)]) (auto simp: cache_covers_def)
    then have "\<not> (\<forall>r\<in>set (map rep S). have_of k r = [])" using j(1) by auto
    moreover from this have "union_payloads k (map rep S) \<noteq> []" by (simp add: union_payloads_Nil)
    ultimately show ?thesis unfolding a(2) plan_out_def by simp
  qed
  then have "plan_out a = content c C k"
    using round_plan_out(1) [OF R ka] by (cases "plan_out a = []") (auto simp: content_def)
  then show ?thesis using ka by blast
qed

text \<open>Late input changes nothing the plan touches.\<close>

lemma frozen_run:
  assumes c: "valid_config c" and "frozen n" and "node_ok c n" and "\<And>inp. inp \<in> set inps \<Longrightarrow> input_ok c inp"
    and "run_node (step c) inps n = Some (n', outs)"
  shows "frozen n' \<and> delivery n' = delivery n \<and> parked n' = parked n \<and> node_ok c n' \<and>
    concat (map batches outs) = []"
  using assms(2-)
proof (induction inps arbitrary: n outs)
  case (Cons inp inps)
  obtain n1 out rest where s: "step c inp n = Some (n1, out)" "run_node (step c) inps n1 = Some (n', rest)"
      "outs = out # rest"
    using Cons.prems(4) by (auto split: bind_splits)
  note k = frozen_step_same [OF Cons.prems(1) s(1)]
  have "node_ok c n1" using step_ok [OF c Cons.prems(2), of inp] Cons.prems(3) s(1) by auto
  then have "frozen n' \<and> delivery n' = delivery n1 \<and> parked n' = parked n1 \<and> node_ok c n' \<and>
      concat (map batches rest) = []"
    using k(1) Cons.prems(3) s(2) by (intro Cons.IH) auto
  then show ?case using k s(3) by simp
qed simp

lemma drain_empty: "parked n = [] \<Longrightarrow> drain_parked c n outs = Some (n, outs)"
  by (simp add: drain_parked_def drain_loop.simps iter_min_def)

lemma round_apply:
  assumes R: "vs_round c C x S rep" and cap: "cache_covers x S" and i: "i \<in> set S"
    and wf: "node_wf c n" and same: "delivery n = delivery (nodes (vn x) i)" "parked n = parked (nodes (vn x) i)"
  shows "\<exists>n' outs. apply_recovery c (vs_plan c S rep) n = Some (n', outs) \<and> \<not> frozen n' \<and>
    dlog (vn x) i @ batches outs = log_of c C (all_done x S) @
      concat (map (plan_out \<circ> snd) (filter (\<lambda>e. fst e \<notin> all_done x S) (actions (vs_plan c S rep)))) \<and>
    done_keys (delivery n') = all_done x S \<union> fst ` set (actions (vs_plan c S rep))"
proof -
  let ?p = "vs_plan c S rep" and ?D = "done_at x i" and ?U = "all_done x S"
  have p: "plan_wf c ?p" using round_report(1) [OF R] by (intro plan_wf_compute) auto
  have D: "done_keys (delivery n) = ?D" by (simp add: same done_at_def)
  have sub: "?D \<subseteq> ?U" using i by (auto simp: all_done_def)
  have U: "initial_segment c ?U" unfolding all_done_def using roundD(7) [OF R] by (rule segment_Union)
  have old: "\<exists>a. (k, a) \<in> set (actions ?p) \<and> plan_out a = content c C k" if "k \<in> ?U - ?D" for k
    using that by (rule round_plan_old [OF R cap i])
  have uniq: "a = b" if "(k, a) \<in> set (actions ?p)" "(k, b) \<in> set (actions ?p)" for k a b
    using that btm_mem_get [OF plan_ok] by (metis option.inject)
  have keys: "?U - ?D \<subseteq> fst ` set (actions ?p)" using old by force
  have "btm_get (actions ?p) k \<noteq> None" if k: "k \<in> set (btm_keys (parked n))" for k
  proof -
    have "k \<notin> done_keys (delivery n)" using node_wfD(6) [OF wf] parked_keyE [OF k] by blast
    moreover have "ck_issuer k < RING_SIZE c \<and> 1 \<le> ck_clock k \<and> ck_clock k \<le> rr_seen (rep i) ! ck_issuer k"
      using round_report(3) [OF R i, of k] k same(2) by simp
    ultimately show ?thesis
      using merge_boundary_ge(1) [of "ck_issuer k" c "rep i" "map rep S"] round_report(2) [OF R i] i D
      by (auto simp: plan_lookup)
  qed
  then have "parked (recover_all (actions ?p) n) = []"
    using btm.keys_get [OF plan_ok] by (simp add: recover_all_simps filter_empty_conv)
  then have ap: "apply_recovery c ?p n = Some (install_view c ?p (recover_all (actions ?p) n),
      concat (map (recover_out ?D) (actions ?p)))"
    using apply_recovery_unfold(1) [OF wf p] D by (simp add: drain_empty)
  have "batches (concat (map (recover_out ?D) (actions ?p))) =
      concat (map (content c C) (sorted_list_of_set (?U - ?D))) @
      concat (map (plan_out \<circ> snd) (filter (\<lambda>e. fst e \<notin> ?U) (actions ?p)))"
    unfolding batches_plan
  proof (rule plan_emits [OF plan_ok U keys _ round_plan_out(2) [OF R] sub])
    show "plan_out a = content c C k" if "(k, a) \<in> set (actions ?p)" "k \<in> ?U - ?D" for k a
      using old [OF that(2)] uniq [OF that(1)] by blast
  qed
  then have "dlog (vn x) i @ batches (concat (map (recover_out ?D) (actions ?p))) = log_of c C ?U @
      concat (map (plan_out \<circ> snd) (filter (\<lambda>e. fst e \<notin> ?U) (actions ?p)))"
    using roundD(8) [OF R i] segment_split [OF roundD(7) [OF R i] U sub, of C] by simp
  moreover have "done_keys (delivery n) \<union> set (btm_keys (actions ?p)) = ?U \<union> fst ` set (actions ?p)"
    using D keys sub by auto
  ultimately show ?thesis using ap by (simp add: recover_all_simps)
qed

text \<open>The common log: contents of distinct keys.\<close>

lemma round_log:
  assumes R: "vs_round c C x S rep"
  obtains ks where "distinct ks" "log_of c C (all_done x S) @
      concat (map (plan_out \<circ> snd) (filter (\<lambda>e. fst e \<notin> all_done x S) (actions (vs_plan c S rep)))) =
    concat (map (content c C) ks)"
proof
  let ?A = "actions (vs_plan c S rep)" and ?U = "all_done x S"
  let ?new = "filter (\<lambda>e. fst e \<notin> ?U \<and> plan_out (snd e) \<noteq> []) ?A"
  have fin: "finite ?U"
    using roundD(7) [OF R] by (auto simp: all_done_def initial_segment_def)
  have "distinct (map fst ?new)"
    by (intro distinct_map_filter btm.distinct_keys [OF plan_ok])
  then show "distinct (sorted_list_of_set ?U @ map fst ?new)" using fin by auto
  have "concat (map (plan_out \<circ> snd) (filter (\<lambda>e. fst e \<notin> ?U) xs)) =
      concat (map (content c C) (map fst (filter (\<lambda>e. fst e \<notin> ?U \<and> plan_out (snd e) \<noteq> []) xs)))"
    if "set xs \<subseteq> set ?A" for xs
    using that round_plan_out(1) [OF R] by (induction xs) auto
  from this [of ?A] show "log_of c C ?U @ concat (map (plan_out \<circ> snd) (filter (\<lambda>e. fst e \<notin> ?U) ?A)) =
      concat (map (content c C) (sorted_list_of_set ?U @ map fst ?new))"
    by (simp add: log_of_def)
qed

lemma round_log_ok:
  assumes inv: "soup_inv c C s" and ks: "distinct ks"
  shows "distinct (map payload_id (concat (concat (map (content c C) ks))))"
    "\<And>p. p \<in> set (concat (concat (map (content c C) ks))) \<Longrightarrow> sender p < RING_SIZE c \<and>
       seq p < length (submitted s (sender p)) \<and> data p = submitted s (sender p) ! seq p"
proof -
  have m: "mset (concat (concat (map (content c C) ks))) = mset (concat (map (merged c C) ks))"
    by (rule mset_log_of)
  then have "mset (map payload_id (concat (concat (map (content c C) ks)))) =
      mset (map payload_id (concat (map (merged c C) ks)))" by simp
  then show "distinct (map payload_id (concat (concat (map (content c C) ks))))"
    using distinct_merged [OF node_invD(9) [OF inv] ks] by (metis mset_eq_imp_distinct_iff)
  fix p assume "p \<in> set (concat (concat (map (content c C) ks)))"
  then have "p \<in> set (concat (map (merged c C) ks))" unfolding mset_eq_setD [OF m] .
  then obtain k j where j: "j < RING_SIZE c" "p \<in> set (C j k)" by (auto simp: set_merged)
  then show "sender p < RING_SIZE c \<and> seq p < length (submitted s (sender p)) \<and>
      data p = submitted s (sender p) ! seq p"
    using own_okD(1) [OF node_invD(9) [OF inv j(1)] j(2)] by (auto simp: origin_def)
qed

lemma vs_round_reach:
  assumes "view_reach c m x" and "clocks_left c (vn x)"
    and "\<And>i. i \<in> set S \<Longrightarrow> i < RING_SIZE c \<and> vreports x i = Some (rep i)"
  obtains C where "vs_round c C x S rep"
proof -
  have inv: "view_inv c x" using assms(1) by (rule view.reach_inv)
  then show ?thesis using view_invD(5,6) [OF inv assms(2)] assms(3) that by (auto simp: vs_round_def)
qed

lemma survivors_agree:
  assumes "view_reach c m x" and "clocks_left c (vn x)"
    and "\<And>i. i \<in> set S \<Longrightarrow> i < RING_SIZE c \<and> vreports x i = Some (rep i)"
    and "\<And>i j. i \<in> set S \<Longrightarrow> j \<in> set S \<Longrightarrow>
      card (done_keys (delivery (nodes (vn x) j)) - done_keys (delivery (nodes (vn x) i))) \<le> DELIVERED_CACHE_CAP"
    and "\<And>i inp. i \<in> set S \<Longrightarrow> inp \<in> set (inps i) \<Longrightarrow> input_ok c inp"
    and "\<And>i. i \<in> set S \<Longrightarrow> run_node (step c) (inps i) (nodes (vn x) i) = Some (late i, outs i)"
  shows "\<exists>L K. (\<forall>i\<in>set S. \<exists>n' out.
        apply_recovery c (compute_recovery_plan c (map rep S)) (late i) = Some (n', out) \<and> \<not> frozen n' \<and>
        dlog (vn x) i @ concat (map batches (outs i)) @ batches out = L \<and> done_keys (delivery n') = K) \<and>
      distinct (map payload_id (concat L)) \<and>
      (\<forall>p\<in>set (concat L). sender p < RING_SIZE c \<and> seq p < length (submitted (vn x) (sender p)) \<and>
         data p = submitted (vn x) (sender p) ! seq p)"
proof -
  obtain C where R: "vs_round c C x S rep" using vs_round_reach [OF assms(1-3)] by blast
  have cap: "cache_covers x S" using assms(4) by (simp add: cache_covers_def done_at_def)
  obtain ks where ks: "distinct ks" "log_of c C (all_done x S) @
      concat (map (plan_out \<circ> snd) (filter (\<lambda>e. fst e \<notin> all_done x S) (actions (vs_plan c S rep)))) =
    concat (map (content c C) ks)"
    by (rule round_log [OF R])
  let ?K = "all_done x S \<union> fst ` set (actions (vs_plan c S rep))"
  have "\<exists>n' out. apply_recovery c (vs_plan c S rep) (late i) = Some (n', out) \<and> \<not> frozen n' \<and>
      dlog (vn x) i @ concat (map batches (outs i)) @ batches out = concat (map (content c C) ks) \<and>
      done_keys (delivery n') = ?K" if i: "i \<in> set S" for i
  proof -
    have "node_wf c (nodes (vn x) i)"
      using node_invD(1) [OF roundD(2,3) [OF R]] i by (simp add: node_wf_bare)
    then have "node_ok c (nodes (vn x) i)" using roundD(4) [OF R i] by (simp add: node_ok_def)
    then have late: "frozen (late i) \<and> delivery (late i) = delivery (nodes (vn x) i) \<and>
        parked (late i) = parked (nodes (vn x) i) \<and> node_ok c (late i) \<and> concat (map batches (outs i)) = []"
      using roundD(1) [OF R] roundD(4) [OF R i] assms(5) [OF i] assms(6) [OF i] by (intro frozen_run) auto
    then have "concat (map batches (outs i)) = []" by blast
    moreover have "\<exists>n' out. apply_recovery c (vs_plan c S rep) (late i) = Some (n', out) \<and> \<not> frozen n' \<and>
        dlog (vn x) i @ batches out = concat (map (content c C) ks) \<and> done_keys (delivery n') = ?K"
      using round_apply [OF R cap i node_okD(1), of "late i"] late unfolding ks(2) by blast
    ultimately show ?thesis by (simp only: append_Nil)
  qed
  then show ?thesis
    using round_log_ok [OF roundD(2) [OF R] ks(1)]
    by (intro exI [of _ "concat (map (content c C) ks)"] exI [of _ ?K]) simp
qed

section \<open>Executing schedules\<close>

datatype view_move = VM_Soup soup_move | VM_Exclude proc_id proc_id | VM_Report proc_id

fun view_exec :: "config \<Rightarrow> view_move \<Rightarrow> vnet \<Rightarrow> vnet option" where
  "view_exec c (VM_Soup mv) x = map_option (\<lambda>s. x\<lparr>vn := s\<rparr>) (soup_exec c mv (vn x))"
| "view_exec c (VM_Exclude i v) x =
     (if i < RING_SIZE c \<and> v < RING_SIZE c then
        map_option (\<lambda>r. x\<lparr>vn := net_apply i r (vn x)\<rparr>) (confirm_crash c v (set_frozen True (nodes (vn x) i)))
      else None)"
| "view_exec c (VM_Report i) x =
     (if i < RING_SIZE c \<and> frozen (nodes (vn x) i) then
        map_option (\<lambda>r. x\<lparr>vreports := (vreports x)(i := Some r)\<rparr>) (Node.recovery_report c (nodes (vn x) i))
      else None)"

lemma view_exec_step: "view_exec c mv x = Some y \<Longrightarrow> view_step c x y"
  by (cases mv) (auto split: if_splits intro: view_step.intros soup_exec_step)

definition view_start :: "config \<Rightarrow> delivery_mode \<Rightarrow> vnet" where
  "view_start c m = \<lparr>vn = soup_start c m, vreports = (\<lambda>_. None)\<rparr>"

lemma view_run_reach:
  assumes "valid_config c" and "fold_opt (view_exec c) mvs (view_start c m) = Some x"
  shows "view_reach c m x"
proof -
  have "view_init c m (view_start c m)"
    using assms(1) by (auto simp: view_init_def view_start_def soup_init_def soup_start_def node_new_def)
  then have "view_reach c m (view_start c m)" by (rule reach_init)
  then show ?thesis using assms(2) by (rule fold_opt_reach [rotated]) (rule view_exec_step)
qed

text \<open>Three nodes, one issuer. The issuer's train returns to it with every acknowledgement and
  is delivered there; then the issuer crashes. In the second run node 1 has taken the train
  through its second lap before.\<close>

definition vs_ring :: config where
  "vs_ring = \<lparr>RING_SIZE = 3, NUM_TRAINS = 1, checks = True\<rparr>"

lemma vs_ring_valid: "valid_config vs_ring"
  by (simp add: vs_ring_def valid_config_def)

definition lap_run :: "view_move list" where
  "lap_run = map VM_Soup [Move_Bcast 0 [7], Move_Issue 0, Move_Recv 1 (demo_train 1),
     Move_Recv 2 (demo_train 3), Move_Recv 0 (demo_train 7)]"

definition round_run :: "view_move list" where
  "round_run = [VM_Exclude 1 0, VM_Exclude 2 0, VM_Report 1, VM_Report 2]"

definition lost_run :: "vnet option" where
  "lost_run = fold_opt (view_exec vs_ring) (lap_run @ round_run) (view_start vs_ring UniformTotalOrder)"

definition kept_run :: "vnet option" where
  "kept_run = fold_opt (view_exec vs_ring) (lap_run @ [VM_Soup (Move_Recv 1 (demo_train 7))] @ round_run)
     (view_start vs_ring UniformTotalOrder)"

definition lost_net :: vnet where
  "lost_net = the lost_run"

definition kept_net :: vnet where
  "kept_net = the kept_run"

text \<open>What the survivors of the first run do with their plan.\<close>

definition skipped :: "vnet \<Rightarrow> bool" where
  "skipped x \<longleftrightarrow>
     (let plan = compute_recovery_plan vs_ring [the (vreports x 1), the (vreports x 2)];
          r1 = the (apply_recovery vs_ring plan (nodes (vn x) 1));
          r2 = the (apply_recovery vs_ring plan (nodes (vn x) 2))
      in btm_get (actions plan) (ClockKey 1 0) = Some RA_Skip \<and>
         dlog (vn x) 1 @ batches (snd r1) = [] \<and> ClockKey 1 0 \<in> done_keys (delivery (fst r1)) \<and>
         dlog (vn x) 2 @ batches (snd r2) = [] \<and> ClockKey 1 0 \<in> done_keys (delivery (fst r2)))"

lemma lost_run_eval:
  "case lost_run of None \<Rightarrow> False | Some x \<Rightarrow> dlog (vn x) 0 = [[demo_payload]] \<and> skipped x"
  by code_simp

lemma kept_run_eval:
  "case kept_run of None \<Rightarrow> False | Some x \<Rightarrow>
     dlog (vn x) 1 = [[demo_payload]] \<and> dlog (vn x) 2 = [] \<and>
     done_keys (delivery (nodes (vn x) 1)) = {ClockKey 1 0} \<and> done_keys (delivery (nodes (vn x) 2)) = {} \<and>
     next_issue_clock (nodes (vn x) 0) = 2 \<and> next_issue_clock (nodes (vn x) 1) = 1 \<and>
     next_issue_clock (nodes (vn x) 2) = 1 \<and> vreports x 1 \<noteq> None \<and> vreports x 2 \<noteq> None \<and>
     run_node (step vs_ring) [TrainReceived (demo_train 7)] (nodes (vn x) 2) \<noteq> None"
  by code_simp

lemma lost_net_facts: "lost_run = Some lost_net" "dlog (vn lost_net) 0 = [[demo_payload]]" "skipped lost_net"
  using case_option_the [OF lost_run_eval, folded lost_net_def] by (simp_all only: simp_thms)

lemma kept_net_facts:
  "kept_run = Some kept_net" "dlog (vn kept_net) 1 = [[demo_payload]]" "dlog (vn kept_net) 2 = []"
  "done_keys (delivery (nodes (vn kept_net) 1)) = {ClockKey 1 0}"
  "done_keys (delivery (nodes (vn kept_net) 2)) = {}"
  "next_issue_clock (nodes (vn kept_net) 0) = 2" "next_issue_clock (nodes (vn kept_net) 1) = 1"
  "next_issue_clock (nodes (vn kept_net) 2) = 1" "vreports kept_net 1 \<noteq> None" "vreports kept_net 2 \<noteq> None"
  "run_node (step vs_ring) [TrainReceived (demo_train 7)] (nodes (vn kept_net) 2) \<noteq> None"
  using case_option_the [OF kept_run_eval, folded kept_net_def] by (simp_all only: simp_thms)

lemma vs_ring_reach:
  "view_reach vs_ring UniformTotalOrder lost_net" "view_reach vs_ring UniformTotalOrder kept_net"
  using view_run_reach [OF vs_ring_valid lost_net_facts(1) [unfolded lost_run_def]]
    view_run_reach [OF vs_ring_valid kept_net_facts(1) [unfolded kept_run_def]] by blast+

section \<open>Properties\<close>

text \<open>C13. Virtual synchrony: survivors freeze, report and receive further trains at whatever
  moments, on a network that loses, delays and duplicates trains; when they apply the plan merged
  from their reports, all end with the same log and the same delivered keys and resume delivery, and
  in that log every payload was submitted by its sender and occurs once. It needs that no survivor
  is more than \<^verbatim>\<open>DELIVERED_CACHE_CAP\<close> keys behind another.\<close>

theorem survivors_agree_after_recovery:
  assumes "view_reach c m x" and "clocks_left c (vn x)"
    and "\<And>i. i \<in> set S \<Longrightarrow> i < RING_SIZE c \<and> vreports x i = Some (rep i)"
    and "\<And>i j. i \<in> set S \<Longrightarrow> j \<in> set S \<Longrightarrow>
      card (done_keys (delivery (nodes (vn x) j)) - done_keys (delivery (nodes (vn x) i))) \<le> DELIVERED_CACHE_CAP"
    and "\<And>i inp. i \<in> set S \<Longrightarrow> inp \<in> set (inps i) \<Longrightarrow> input_ok c inp"
    and "\<And>i. i \<in> set S \<Longrightarrow> run_node (step c) (inps i) (nodes (vn x) i) = Some (late i, outs i)"
  shows "\<exists>L K. (\<forall>i\<in>set S. \<exists>n' out.
        apply_recovery c (compute_recovery_plan c (map rep S)) (late i) = Some (n', out) \<and> \<not> frozen n' \<and>
        dlog (vn x) i @ concat (map batches (outs i)) @ batches out = L \<and> done_keys (delivery n') = K) \<and>
      distinct (map payload_id (concat L)) \<and>
      (\<forall>p\<in>set (concat L). sender p < RING_SIZE c \<and> seq p < length (submitted (vn x) (sender p)) \<and>
         data p = submitted (vn x) (sender p) ! seq p)"
  using assms by (rule survivors_agree)

theorem survivors_agree_after_recovery_witness:
  "\<exists>n1 out1 n2 out2.
     apply_recovery vs_ring (compute_recovery_plan vs_ring [the (vreports kept_net 1), the (vreports kept_net 2)])
       (nodes (vn kept_net) 1) = Some (n1, out1) \<and>
     apply_recovery vs_ring (compute_recovery_plan vs_ring [the (vreports kept_net 1), the (vreports kept_net 2)])
       (fst (the (run_node (step vs_ring) [TrainReceived (demo_train 7)] (nodes (vn kept_net) 2)))) = Some (n2, out2) \<and>
     [[demo_payload]] @ batches out1 =
       concat (map batches (snd (the (run_node (step vs_ring) [TrainReceived (demo_train 7)] (nodes (vn kept_net) 2))))) @
       batches out2 \<and> done_keys (delivery n1) = done_keys (delivery n2)"
proof -
  let ?rep = "\<lambda>i. the (vreports kept_net i)"
  let ?inps = "\<lambda>i. if i = 2 then [TrainReceived (demo_train 7)] else []"
  let ?run = "\<lambda>i. the (run_node (step vs_ring) (?inps i) (nodes (vn kept_net) i))"
  have left: "clocks_left vs_ring (vn kept_net)"
    using kept_net_facts by (auto simp: clocks_left_def vs_ring_def less_Suc_eq u64_max_def numeral_3_eq_3 numeral_2_eq_2)
  have "\<exists>L K. (\<forall>i\<in>set [1, 2]. \<exists>n' out.
        apply_recovery vs_ring (compute_recovery_plan vs_ring (map ?rep [1, 2])) (fst (?run i)) = Some (n', out) \<and>
        \<not> frozen n' \<and> dlog (vn kept_net) i @ concat (map batches (snd (?run i))) @ batches out = L \<and>
        done_keys (delivery n') = K) \<and>
      distinct (map payload_id (concat L)) \<and>
      (\<forall>p\<in>set (concat L). sender p < RING_SIZE vs_ring \<and> seq p < length (submitted (vn kept_net) (sender p)) \<and>
         data p = submitted (vn kept_net) (sender p) ! seq p)"
  proof (rule survivors_agree_after_recovery [OF vs_ring_reach(2) left])
    show "i < RING_SIZE vs_ring \<and> vreports kept_net i = Some (?rep i)" if "i \<in> set [1, 2]" for i
      using that kept_net_facts by (auto simp: vs_ring_def)
    show "card (done_keys (delivery (nodes (vn kept_net) j)) - done_keys (delivery (nodes (vn kept_net) i)))
        \<le> DELIVERED_CACHE_CAP" if "i \<in> set [1, 2]" "j \<in> set [1, 2]" for i j
      using that kept_net_facts by (auto simp: DELIVERED_CACHE_CAP_def)
    show "input_ok vs_ring inp" if "i \<in> set [1, 2]" "inp \<in> set (?inps i)" for i inp
      using that by (auto simp: vs_ring_def demo_train_def u64_max_def split: if_splits)
    show "run_node (step vs_ring) (?inps i) (nodes (vn kept_net) i) = Some (fst (?run i), snd (?run i))"
      if "i \<in> set [1, 2]" for i
      using that kept_net_facts by auto
  qed
  then show ?thesis using kept_net_facts by auto
qed

text \<open>C17. The promise covers the survivors only, in the uniform mode too: an issuer that delivers
  its train when it comes back fully acknowledged and then crashes has delivered a payload no
  survivor holds; the survivors' reports are merged into a skip of its key, so both close
  the key without delivering it, although the excluded node has.\<close>

theorem crashed_delivery_is_skipped:
  "view_reach vs_ring UniformTotalOrder lost_net \<and> dlog (vn lost_net) 0 = [[demo_payload]] \<and>
   (let plan = compute_recovery_plan vs_ring [the (vreports lost_net 1), the (vreports lost_net 2)];
        r1 = the (apply_recovery vs_ring plan (nodes (vn lost_net) 1));
        r2 = the (apply_recovery vs_ring plan (nodes (vn lost_net) 2))
    in btm_get (actions plan) (ClockKey 1 0) = Some RA_Skip \<and>
       dlog (vn lost_net) 1 @ batches (snd r1) = [] \<and> ClockKey 1 0 \<in> done_keys (delivery (fst r1)) \<and>
       dlog (vn lost_net) 2 @ batches (snd r2) = [] \<and> ClockKey 1 0 \<in> done_keys (delivery (fst r2)))"
  using vs_ring_reach(1) lost_net_facts(2,3) by (simp only: skipped_def simp_thms)

end
