(* ===== verification/View_Change.thy ===== *)
theory View_Change
  imports Recovery
begin

text \<open>
  \<^verbatim>\<open>crates/trains-net/src/wire.rs\<close> (the tokens) and
  \<^verbatim>\<open>crates/trains-recovery/src/view_change.rs\<close> (one node's part in a view change). A \<^verbatim>\<open>let .. else\<close>
  on another token answers with no action, as in the source. \<^verbatim>\<open>installed_view + 1\<close> is the
  checked or wrapping addition, so a handler that computes it may panic.
\<close>

section \<open>Tokens\<close>

datatype view_change_msg =
    Gather (vc_view_id: nat) (vc_coordinator: proc_id) (vc_victim: proc_id)
      (vc_reports: "(proc_id \<times> recovery_report) list")
  | Install (vc_view_id: nat) (vc_coordinator: proc_id) (vc_victim: proc_id) (vc_plan: recovery_plan)
  | ReAdmitGather (vc_view_id: nat) (vc_coordinator: proc_id) (vc_rejoiner: proc_id)
      (vc_reports: "(proc_id \<times> recovery_report) list")
  | ReAdmitInstall (vc_view_id: nat) (vc_coordinator: proc_id) (vc_rejoiner: proc_id)
      (vc_plan: recovery_plan) (vc_snapshot_src: proc_id)

fun msg_view_id :: "view_change_msg \<Rightarrow> nat" where
  "msg_view_id (Gather v _ _ _) = v"
| "msg_view_id (Install v _ _ _) = v"
| "msg_view_id (ReAdmitGather v _ _ _) = v"
| "msg_view_id (ReAdmitInstall v _ _ _ _) = v"

fun msg_victim :: "view_change_msg \<Rightarrow> proc_id option" where
  "msg_victim (Gather _ _ v _) = Some v"
| "msg_victim (Install _ _ v _) = Some v"
| "msg_victim (ReAdmitGather _ _ _ _) = None"
| "msg_victim (ReAdmitInstall _ _ _ _ _) = None"

fun msg_rejoiner :: "view_change_msg \<Rightarrow> proc_id option" where
  "msg_rejoiner (Gather _ _ _ _) = None"
| "msg_rejoiner (Install _ _ _ _) = None"
| "msg_rejoiner (ReAdmitGather _ _ r _) = Some r"
| "msg_rejoiner (ReAdmitInstall _ _ r _ _) = Some r"

datatype wire_msg = Train_Msg train | View_Change_Msg view_change_msg

section \<open>State\<close>

datatype vc_action = Send view_change_msg | Apply recovery_plan

record view_change =
  me :: proc_id
  ring_n :: nat
  installed_view :: nat
  dead :: "proc_id set"

definition vc_new :: "proc_id \<Rightarrow> nat \<Rightarrow> view_change" where
  "vc_new i n = \<lparr>me = i, ring_n = n, installed_view = 0, dead = {}\<rparr>"

definition is_dead :: "view_change \<Rightarrow> proc_id \<Rightarrow> bool" where
  "is_dead vc p \<longleftrightarrow> p \<in> dead vc"

text \<open>The set of live members, as the ascending list a \<^verbatim>\<open>BTreeSet\<close> iterates; the bound is cast
  to \<^verbatim>\<open>u8\<close>.\<close>

definition alive :: "view_change \<Rightarrow> proc_id list" where
  "alive vc = filter (\<lambda>p. p \<notin> dead vc) [0..<ring_n vc mod 256]"

definition coordinator :: "view_change \<Rightarrow> proc_id" where
  "coordinator vc = (case alive vc of [] \<Rightarrow> me vc | p # _ \<Rightarrow> p)"

definition is_coordinator :: "view_change \<Rightarrow> bool" where
  "is_coordinator vc \<longleftrightarrow> me vc = coordinator vc"

section \<open>Exclusion\<close>

definition on_confirm ::
    "config \<Rightarrow> proc_id \<Rightarrow> recovery_report \<Rightarrow> view_change \<Rightarrow> (view_change \<times> vc_action list) option" where
  "on_confirm c victim rep vc =
     (if victim \<in> dead vc then Some (vc, [])
      else do {
        let vc1 = vc\<lparr>dead := insert victim (dead vc)\<rparr>;
        view_id \<leftarrow> add64 (checks c) (installed_view vc1) 1;
        Some (vc1, [Send (Gather view_id (coordinator vc1) victim [(me vc1, rep)])])
      })"

definition append_report ::
    "proc_id \<Rightarrow> recovery_report \<Rightarrow> (proc_id \<times> recovery_report) list \<Rightarrow> (proc_id \<times> recovery_report) list" where
  "append_report i rep reports =
     (if \<not> list_ex (\<lambda>(j, _). j = i) reports then reports @ [(i, rep)] else reports)"

fun on_gather ::
    "config \<Rightarrow> view_change_msg \<Rightarrow> recovery_report \<Rightarrow> view_change \<Rightarrow> view_change \<times> vc_action list" where
  "on_gather c (Gather view_id coord victim reports) rep vc =
     (if view_id \<le> installed_view vc then (vc, [])
      else let vc1 = vc\<lparr>dead := insert victim (dead vc)\<rparr>;
               reports1 = append_report (me vc1) rep reports
           in if me vc1 = coord then
                (if list_all (\<lambda>p. p \<in> fst ` set reports1) (alive vc1) then
                   let plan = compute_recovery_plan c (map snd reports1)
                   in (vc1\<lparr>installed_view := view_id\<rparr>,
                       [Apply plan, Send (Install view_id coord victim plan)])
                 else (vc1, [Send (Gather view_id coord victim reports1)]))
              else (vc1, [Send (Gather view_id coord victim reports1)]))"
| "on_gather c msg rep vc = (vc, [])"

fun on_install :: "view_change_msg \<Rightarrow> view_change \<Rightarrow> view_change \<times> vc_action list" where
  "on_install (Install view_id coord victim plan) vc =
     (if view_id \<le> installed_view vc then (vc, [])
      else (vc\<lparr>dead := insert victim (dead vc), installed_view := view_id\<rparr>,
            [Apply plan, Send (Install view_id coord victim plan)]))"
| "on_install msg vc = (vc, [])"

section \<open>Re-admission\<close>

definition adopt_view :: "nat \<Rightarrow> proc_id list \<Rightarrow> view_change \<Rightarrow> view_change" where
  "adopt_view v ds vc = vc\<lparr>installed_view := v, dead := set ds\<rparr>"

definition on_request_readmit ::
    "config \<Rightarrow> recovery_report \<Rightarrow> view_change \<Rightarrow> (view_change \<times> vc_action list) option" where
  "on_request_readmit c rep vc = do {
     view_id \<leftarrow> add64 (checks c) (installed_view vc) 1;
     Some (vc, [Send (ReAdmitGather view_id (coordinator vc) (me vc) [(me vc, rep)])])
   }"

fun on_readmit_gather ::
    "config \<Rightarrow> view_change_msg \<Rightarrow> recovery_report \<Rightarrow> view_change \<Rightarrow> view_change \<times> vc_action list" where
  "on_readmit_gather c (ReAdmitGather view_id coord rejoiner reports) rep vc =
     (if view_id \<le> installed_view vc then (vc, [])
      else let reports1 = append_report (me vc) rep reports
           in if me vc = coord then
                (if list_all (\<lambda>p. p \<in> fst ` set reports1) (alive vc) \<and> rejoiner \<in> fst ` set reports1 then
                   let plan = compute_recovery_plan c (map snd reports1)
                   in (vc\<lparr>installed_view := view_id, dead := dead vc - {rejoiner}\<rparr>,
                       [Apply plan, Send (ReAdmitInstall view_id coord rejoiner plan coord)])
                 else (vc, [Send (ReAdmitGather view_id coord rejoiner reports1)]))
              else (vc, [Send (ReAdmitGather view_id coord rejoiner reports1)]))"
| "on_readmit_gather c msg rep vc = (vc, [])"

fun on_readmit_install :: "view_change_msg \<Rightarrow> view_change \<Rightarrow> view_change \<times> vc_action list" where
  "on_readmit_install (ReAdmitInstall view_id coord rejoiner plan src) vc =
     (if view_id \<le> installed_view vc then (vc, [])
      else (vc\<lparr>dead := dead vc - {rejoiner}, installed_view := view_id\<rparr>,
            [Apply plan, Send (ReAdmitInstall view_id coord rejoiner plan src)]))"
| "on_readmit_install msg vc = (vc, [])"

section \<open>Lemmas\<close>

lemma set_alive: "p \<in> set (alive vc) \<longleftrightarrow> p < ring_n vc mod 256 \<and> p \<notin> dead vc"
  by (auto simp: alive_def)

lemma coordinator_least:
  assumes "p \<in> set (alive vc)"
  shows "coordinator vc \<in> set (alive vc)" "coordinator vc \<le> p"
proof -
  have s: "sorted (alive vc)" by (simp add: alive_def sorted_wrt_filter)
  obtain q qs where q: "alive vc = q # qs" using assms by (cases "alive vc") auto
  show "coordinator vc \<in> set (alive vc)" using q by (simp add: coordinator_def)
  show "coordinator vc \<le> p" using assms s q by (auto simp: coordinator_def)
qed

lemma ids_append_report: "fst ` set (append_report i rep reports) = insert i (fst ` set reports)"
  by (force simp: append_report_def list_ex_iff)

lemma distinct_append_report:
  "distinct (map fst reports) \<Longrightarrow> distinct (map fst (append_report i rep reports))"
  by (force simp: append_report_def list_ex_iff)

text \<open>The token handlers as one function of the token.\<close>

definition vc_handle ::
    "config \<Rightarrow> view_change_msg \<Rightarrow> recovery_report \<Rightarrow> view_change \<Rightarrow> view_change \<times> vc_action list" where
  "vc_handle c msg rep vc = (case msg of
       Gather _ _ _ _ \<Rightarrow> on_gather c msg rep vc
     | Install _ _ _ _ \<Rightarrow> on_install msg vc
     | ReAdmitGather _ _ _ _ \<Rightarrow> on_readmit_gather c msg rep vc
     | ReAdmitInstall _ _ _ _ _ \<Rightarrow> on_readmit_install msg vc)"

section \<open>Properties\<close>

text \<open>C21. Stale-view fencing: every handler drops a token whose view is not above the installed
  one; any other token leaves the installed view unchanged or raises it to the token's view,
  and a plan is applied exactly in the latter case, so each view is applied at most once.\<close>

theorem view_change_fencing:
  assumes "vc_handle c msg rep vc = (vc', acts)"
  shows "if msg_view_id msg \<le> installed_view vc then vc' = vc \<and> acts = []
    else acts \<noteq> [] \<and>
      installed_view vc' = (if (\<exists>plan. Apply plan \<in> set acts) then msg_view_id msg else installed_view vc)"
  using assms by (cases msg) (auto simp: vc_handle_def Let_def split: if_splits)

theorem view_change_fencing_witness:
  "installed_view (fst (vc_handle \<lparr>RING_SIZE = 3, NUM_TRAINS = 2, checks = True\<rparr>
      (Install 4 0 2 \<lparr>actions = [], boundary = [0, 0, 0]\<rparr>)
      \<lparr>rr_seen = [], rr_issued = [], rr_done = {}, rr_have = []\<rparr> (vc_new 1 3))) = 4"
  using view_change_fencing [of "\<lparr>RING_SIZE = 3, NUM_TRAINS = 2, checks = True\<rparr>"
      "Install 4 0 2 \<lparr>actions = [], boundary = [0, 0, 0]\<rparr>"
      "\<lparr>rr_seen = [], rr_issued = [], rr_done = {}, rr_have = []\<rparr>" "vc_new 1 3"]
  by (simp add: vc_handle_def vc_new_def)

text \<open>A plan is computed only from a complete gather: when a Gather makes a node apply a plan,
  that node is the token's coordinator, every member it believes alive has a report in the
  token, and the plan is the merge of those reports (its own included).\<close>

theorem gather_applies_complete_merge:
  assumes "on_gather c msg rep vc = (vc', acts)" and "Apply plan \<in> set acts"
  shows "\<exists>v victim reports. msg = Gather v (me vc) victim reports \<and>
    plan = compute_recovery_plan c (map snd (append_report (me vc) rep reports)) \<and>
    (\<forall>p\<in>set (alive vc'). p \<in> fst ` set (append_report (me vc) rep reports)) \<and>
    acts = [Apply plan, Send (Install v (me vc) victim plan)] \<and> victim \<in> dead vc'"
  using assms
  by (cases msg) (auto simp: Let_def list_all_iff alive_def split: if_splits)

theorem gather_applies_complete_merge_witness:
  "\<exists>v victim reports. Gather 1 0 1 [] = Gather v 0 victim reports \<and> victim = 1"
  using gather_applies_complete_merge [of "\<lparr>RING_SIZE = 2, NUM_TRAINS = 1, checks = True\<rparr>"
      "Gather 1 0 1 []" "\<lparr>rr_seen = [0, 0], rr_issued = [0, 0], rr_done = {}, rr_have = []\<rparr>" "vc_new 0 2"
      "fst (on_gather \<lparr>RING_SIZE = 2, NUM_TRAINS = 1, checks = True\<rparr> (Gather 1 0 1 [])
         \<lparr>rr_seen = [0, 0], rr_issued = [0, 0], rr_done = {}, rr_have = []\<rparr> (vc_new 0 2))"
      "snd (on_gather \<lparr>RING_SIZE = 2, NUM_TRAINS = 1, checks = True\<rparr> (Gather 1 0 1 [])
         \<lparr>rr_seen = [0, 0], rr_issued = [0, 0], rr_done = {}, rr_have = []\<rparr> (vc_new 0 2))"]
  by (auto simp: vc_new_def alive_def Let_def append_report_def)

end
