(* ===== verification/View_Round.thy ===== *)
theory View_Round
  imports View_Change
begin

text \<open>
  A whole round of a view change. A token visits the members in ring order; each runs
  its handler on its (frozen) report and passes on what it sends. The locale \<open>token_round\<close> has what a
  gather and an install must do at one node for a round to end; exclusion and re-admission are its
  two interpretations. In both, a round started by any member ends with one plan applied by every member,
  the same one, merged from one report of each, and the token is then dropped.
\<close>

definition applied :: "vc_action list \<Rightarrow> recovery_plan list" where
  "applied acts = concat (map (\<lambda>a. case a of Apply p \<Rightarrow> [p] | Send _ \<Rightarrow> []) acts)"

definition sent_tokens :: "vc_action list \<Rightarrow> view_change_msg list" where
  "sent_tokens acts = concat (map (\<lambda>a. case a of Send m \<Rightarrow> [m] | Apply _ \<Rightarrow> []) acts)"

lemma action_simps [simp]:
  "applied [] = []" "applied (Apply p # acts) = p # applied acts" "applied (Send m # acts) = applied acts"
  "sent_tokens [] = []" "sent_tokens (Apply p # acts) = sent_tokens acts"
  "sent_tokens (Send m # acts) = m # sent_tokens acts"
  by (simp_all add: applied_def sent_tokens_def)

record round_state =
  vcs :: "proc_id \<Rightarrow> view_change"
  plans :: "proc_id \<Rightarrow> recovery_plan list"

text \<open>The token visits the listed nodes until one of them sends nothing.\<close>

fun visit ::
    "config \<Rightarrow> (proc_id \<Rightarrow> recovery_report) \<Rightarrow> proc_id list \<Rightarrow> view_change_msg \<Rightarrow> round_state \<Rightarrow>
     round_state \<times> view_change_msg option" where
  "visit c rep [] msg s = (s, Some msg)"
| "visit c rep (i # path) msg s =
     (let (vc, acts) = vc_handle c msg (rep i) (vcs s i);
          s1 = s\<lparr>vcs := (vcs s)(i := vc), plans := (plans s)(i := plans s i @ applied acts)\<rparr>
      in case sent_tokens acts of [] \<Rightarrow> (s1, None) | m # _ \<Rightarrow> visit c rep path m s1)"

declare visit.simps(2) [simp del]

definition collect ::
    "(proc_id \<Rightarrow> recovery_report) \<Rightarrow> proc_id list \<Rightarrow> (proc_id \<times> recovery_report) list \<Rightarrow>
     (proc_id \<times> recovery_report) list" where
  "collect rep path R = fold (\<lambda>i. append_report i (rep i)) path R"

definition from_members ::
    "(proc_id \<Rightarrow> recovery_report) \<Rightarrow> proc_id set \<Rightarrow> (proc_id \<times> recovery_report) list \<Rightarrow> bool" where
  "from_members rep S R \<longleftrightarrow> distinct (map fst R) \<and> (\<forall>(i, r)\<in>set R. i \<in> S \<and> r = rep i)"

lemma ids_collect: "fst ` set (collect rep path R) = set path \<union> fst ` set R"
  by (induction path arbitrary: R) (auto simp: collect_def ids_append_report)

lemma from_members_append:
  assumes "from_members rep S R" and "i \<in> S"
  shows "from_members rep S (append_report i (rep i) R)"
  using assms distinct_append_report [of R i "rep i"]
  by (auto simp: from_members_def append_report_def split: if_splits)

lemma from_members_collect:
  "from_members rep S R \<Longrightarrow> set path \<subseteq> S \<Longrightarrow> from_members rep S (collect rep path R)"
  by (induction path arbitrary: R) (auto simp: collect_def from_members_append)

lemma complete_reports:
  assumes "from_members rep (set lap) R" "distinct lap" "set lap \<subseteq> fst ` set R"
  shows "mset (map fst R) = mset lap \<and> (\<forall>(i, r)\<in>set R. r = rep i)"
proof -
  have "set (map fst R) = set lap" using assms(1,3) by (auto simp: from_members_def)
  then have "mset (map fst R) = mset lap"
    using assms(1,2) set_eq_iff_mset_eq_distinct [of "map fst R" lap] by (simp add: from_members_def)
  then show ?thesis using assms(1) by (auto simp: from_members_def)
qed

text \<open>The end of a round: every member has applied one plan, merged from one report of each.\<close>

definition round_done ::
    "config \<Rightarrow> (view_change \<Rightarrow> bool) \<Rightarrow> (proc_id \<Rightarrow> recovery_report) \<Rightarrow> proc_id list \<Rightarrow> round_state \<Rightarrow> bool" where
  "round_done c settled rep lap s \<longleftrightarrow> (\<exists>R. mset (map fst R) = mset lap \<and> (\<forall>(i, r)\<in>set R. r = rep i) \<and>
     (\<forall>i\<in>set lap. plans s i = [compute_recovery_plan c (map snd R)] \<and> settled (vcs s i)))"

section \<open>The contract of a round\<close>

text \<open>\<open>fresh i\<close>: node \<open>i\<close> takes part and has not installed the view; \<open>settled\<close>: a node has installed it. The
  coordinator \<open>k\<close> waits until the token has a report of every one of \<open>members\<close>.\<close>

locale token_round =
  fixes c :: config
    and gth :: "(proc_id \<times> recovery_report) list \<Rightarrow> view_change_msg"
    and ins :: "recovery_plan \<Rightarrow> view_change_msg"
    and k :: proc_id
    and members :: "proc_id set"
    and fresh :: "proc_id \<Rightarrow> view_change \<Rightarrow> bool"
    and settled :: "view_change \<Rightarrow> bool"
  assumes gather_passes: "fresh i vc \<Longrightarrow> i \<noteq> k \<or> \<not> members \<subseteq> fst ` set (append_report i r R) \<Longrightarrow>
      \<exists>vc'. vc_handle c (gth R) r vc = (vc', [Send (gth (append_report i r R))]) \<and> fresh i vc'"
    and gather_completes: "fresh k vc \<Longrightarrow> members \<subseteq> fst ` set (append_report k r R) \<Longrightarrow>
      plan = compute_recovery_plan c (map snd (append_report k r R)) \<Longrightarrow>
      \<exists>vc'. vc_handle c (gth R) r vc = (vc', [Apply plan, Send (ins plan)]) \<and> settled vc'"
    and install_passes: "fresh i vc \<Longrightarrow> \<exists>vc'. vc_handle c (ins plan) r vc = (vc', [Apply plan, Send (ins plan)]) \<and> settled vc'"
    and install_ends: "settled vc \<Longrightarrow> vc_handle c (ins plan) r vc = (vc, [])"
begin

lemma visit_gather:
  assumes "\<And>i. i \<in> set path \<union> T \<Longrightarrow> fresh i (vcs s i)" and "k \<notin> set path"
  shows "\<exists>s'. visit c rep (path @ rest) (gth R) s = visit c rep rest (gth (collect rep path R)) s' \<and>
    plans s' = plans s \<and> (\<forall>i\<in>set path \<union> T. fresh i (vcs s' i))"
  using assms
proof (induction path arbitrary: s R T)
  case Nil
  then show ?case by (auto simp: collect_def)
next
  case (Cons i path)
  have i: "fresh i (vcs s i)" "i \<noteq> k" using Cons.prems by auto
  obtain vc where vc: "vc_handle c (gth R) (rep i) (vcs s i) = (vc, [Send (gth (append_report i (rep i) R))])" "fresh i vc"
    using gather_passes [OF i(1), of "rep i" R] i(2) by blast
  let ?s = "s\<lparr>vcs := (vcs s)(i := vc), plans := (plans s)(i := plans s i @ [])\<rparr>"
  have step: "visit c rep ((i # path) @ rest) (gth R) s = visit c rep (path @ rest) (gth (append_report i (rep i) R)) ?s"
    using vc(1) by (simp add: visit.simps)
  have "fresh j (vcs ?s j)" if "j \<in> insert i (set path \<union> T)" for j using that Cons.prems(1) [of j] vc(2) by auto
  then have "\<exists>s'. visit c rep (path @ rest) (gth (append_report i (rep i) R)) ?s =
      visit c rep rest (gth (collect rep path (append_report i (rep i) R))) s' \<and>
    plans s' = plans ?s \<and> (\<forall>j\<in>set path \<union> insert i T. fresh j (vcs s' j))"
    using Cons.prems(2) by (intro Cons.IH) auto
  with step show ?case by (auto simp: collect_def)
qed

lemma visit_install:
  assumes "\<And>i. i \<in> set path \<Longrightarrow> fresh i (vcs s i)" and "distinct path"
  shows "\<exists>s'. visit c rep (path @ rest) (ins plan) s = visit c rep rest (ins plan) s' \<and>
    (\<forall>i. plans s' i = (if i \<in> set path then plans s i @ [plan] else plans s i)) \<and>
    (\<forall>i. if i \<in> set path then settled (vcs s' i) else vcs s' i = vcs s i)"
  using assms
proof (induction path arbitrary: s)
  case Nil
  then show ?case by auto
next
  case (Cons i path)
  obtain vc where vc: "vc_handle c (ins plan) (rep i) (vcs s i) = (vc, [Apply plan, Send (ins plan)])" "settled vc"
    using install_passes Cons.prems(1) by fastforce
  let ?s = "s\<lparr>vcs := (vcs s)(i := vc), plans := (plans s)(i := plans s i @ [plan])\<rparr>"
  have step: "visit c rep ((i # path) @ rest) (ins plan) s = visit c rep (path @ rest) (ins plan) ?s"
    using vc(1) by (simp add: visit.simps)
  have "fresh j (vcs ?s j)" if "j \<in> set path" for j using that Cons.prems by auto
  then obtain s' where s': "visit c rep (path @ rest) (ins plan) ?s = visit c rep rest (ins plan) s'"
      "\<forall>j. plans s' j = (if j \<in> set path then plans ?s j @ [plan] else plans ?s j)"
      "\<forall>j. if j \<in> set path then settled (vcs s' j) else vcs s' j = vcs ?s j"
    using Cons.IH [of ?s] Cons.prems(2) by auto
  have "if j \<in> set (i # path) then settled (vcs s' j) else vcs s' j = vcs s j" for j
    using s'(3) [rule_format, of j] vc(2) by (auto split: if_splits)
  moreover have "plans s' j = (if j \<in> set (i # path) then plans s j @ [plan] else plans s j)" for j
    using s'(2) [rule_format, of j] Cons.prems(2) by auto
  ultimately show ?case using step s'(1) by auto
qed

text \<open>From a complete token at the coordinator: it installs, the others follow in ring order,
  and the install dies when it is back.\<close>

lemma round_completes:
  assumes lap: "mset lap = mset (k # others)" "distinct lap" "set lap = members"
    and fr: "\<And>i. i \<in> set lap \<Longrightarrow> fresh i (vcs s i)" and none: "\<And>i. plans s i = []"
    and R: "from_members rep (set lap) R" and full: "members \<subseteq> fst ` set (append_report k (rep k) R)"
  shows "\<exists>s'. visit c rep (k # others @ k # rest) (gth R) s = (s', None) \<and> round_done c settled rep lap s'"
proof -
  have sl: "set lap = insert k (set others)" using mset_eq_setD [OF lap(1)] by simp
  have dist: "distinct (k # others)" using lap(1,2) mset_eq_imp_distinct_iff by blast
  let ?R = "append_report k (rep k) R"
  define plan where "plan = compute_recovery_plan c (map snd ?R)"
  obtain vc where vc: "vc_handle c (gth R) (rep k) (vcs s k) = (vc, [Apply plan, Send (ins plan)])" "settled vc"
    using gather_completes [OF fr [of k] full plan_def] sl by auto
  let ?s = "s\<lparr>vcs := (vcs s)(k := vc), plans := (plans s)(k := plans s k @ [plan])\<rparr>"
  have s1: "visit c rep (k # others @ k # rest) (gth R) s = visit c rep (others @ k # rest) (ins plan) ?s"
    using vc(1) by (simp add: visit.simps)
  have "fresh i (vcs ?s i)" if "i \<in> set others" for i using that fr sl dist by auto
  then obtain s2 where s2: "visit c rep (others @ k # rest) (ins plan) ?s = visit c rep (k # rest) (ins plan) s2"
      "\<And>i. plans s2 i = (if i \<in> set others then plans ?s i @ [plan] else plans ?s i)"
      "\<And>i. if i \<in> set others then settled (vcs s2 i) else vcs s2 i = vcs ?s i"
    using visit_install [of others ?s rep "k # rest" plan] dist by auto
  have st: "settled (vcs s2 i)" if "i \<in> set lap" for i using s2(3) [of i] that vc(2) sl by (auto split: if_splits)
  have "visit c rep (k # rest) (ins plan) s2 = (s2, None)"
    using install_ends [OF st [of k]] sl by (simp add: visit.simps)
  moreover have "from_members rep (set lap) ?R" using from_members_append [OF R] sl by simp
  then have "mset (map fst ?R) = mset lap \<and> (\<forall>(i, r)\<in>set ?R. r = rep i)"
    using complete_reports [OF _ lap(2)] full lap(3) by blast
  moreover have "plans s2 i = [plan]" if "i \<in> set lap" for i using s2(2) [of i] that none dist sl by auto
  ultimately show ?thesis
    using s1 s2(1) st unfolding round_done_def plan_def by auto
qed

lemma round_from_coordinator:
  assumes lap: "mset lap = mset (k # others)" "distinct lap" "set lap = members"
    and fr: "\<And>i. i \<in> set lap \<Longrightarrow> fresh i (vcs s i)" and none: "\<And>i. plans s i = []"
    and R: "from_members rep (set lap) R"
  shows "\<exists>s'. visit c rep (k # others @ k # others @ k # rest) (gth R) s = (s', None) \<and> round_done c settled rep lap s'"
proof (cases "members \<subseteq> fst ` set (append_report k (rep k) R)")
  case True
  then show ?thesis using round_completes [OF lap fr none R True] by simp
next
  case False
  have sl: "set lap = insert k (set others)" using mset_eq_setD [OF lap(1)] by simp
  have dist: "distinct (k # others)" using lap(1,2) mset_eq_imp_distinct_iff by blast
  let ?R = "append_report k (rep k) R"
  obtain vc where vc: "vc_handle c (gth R) (rep k) (vcs s k) = (vc, [Send (gth ?R)])" "fresh k vc"
    using gather_passes [of k "vcs s k" "rep k" R] False fr sl by blast
  let ?s = "s\<lparr>vcs := (vcs s)(k := vc), plans := (plans s)(k := plans s k @ [])\<rparr>"
  have s1: "visit c rep (k # others @ k # others @ k # rest) (gth R) s = visit c rep (others @ k # others @ k # rest) (gth ?R) ?s"
    using vc(1) by (simp add: visit.simps)
  let ?Q = "collect rep others ?R"
  have "\<exists>s'. visit c rep (others @ k # others @ k # rest) (gth ?R) ?s = visit c rep (k # others @ k # rest) (gth ?Q) s' \<and>
      plans s' = plans ?s \<and> (\<forall>i\<in>set others \<union> {k}. fresh i (vcs s' i))"
    by (rule visit_gather) (use fr sl dist vc(2) in auto)
  then obtain s2 where s2: "visit c rep (others @ k # others @ k # rest) (gth ?R) ?s = visit c rep (k # others @ k # rest) (gth ?Q) s2"
      "plans s2 = plans ?s" "\<And>i. i \<in> set lap \<Longrightarrow> fresh i (vcs s2 i)" using sl by blast
  have "from_members rep (set lap) ?Q"
    using from_members_append [OF R] sl by (intro from_members_collect) auto
  moreover have "members \<subseteq> fst ` set (append_report k (rep k) ?Q)"
    using lap(3) sl by (auto simp: ids_append_report ids_collect)
  ultimately show ?thesis
    using round_completes [OF lap s2(3), of rep ?Q rest] s1 s2(1,2) none by simp
qed

text \<open>Three laps from anywhere are enough.\<close>

lemma round_ends:
  assumes lap: "k \<in> set lap" "distinct lap" "set lap = members"
    and fr: "\<And>i. i \<in> set lap \<Longrightarrow> fresh i (vcs s i)" and none: "\<And>i. plans s i = []"
    and R: "from_members rep (set lap) R"
  shows "\<exists>s'. visit c rep (lap @ lap @ lap) (gth R) s = (s', None) \<and> round_done c settled rep lap s'"
proof -
  obtain pre post where pp: "lap = pre @ k # post" using lap(1) by (meson split_list)
  have path: "lap @ lap @ lap = pre @ k # (post @ pre) @ k # (post @ pre) @ k # post" using pp by simp
  have "\<exists>s1. visit c rep (lap @ lap @ lap) (gth R) s =
        visit c rep (k # (post @ pre) @ k # (post @ pre) @ k # post) (gth (collect rep pre R)) s1 \<and>
      plans s1 = plans s \<and> (\<forall>i\<in>set pre \<union> set lap. fresh i (vcs s1 i))"
    unfolding path using fr lap(2) pp by (intro visit_gather) auto
  then obtain s1 where s1: "visit c rep (lap @ lap @ lap) (gth R) s =
        visit c rep (k # (post @ pre) @ k # (post @ pre) @ k # post) (gth (collect rep pre R)) s1"
      "plans s1 = plans s" "\<And>i. i \<in> set lap \<Longrightarrow> fresh i (vcs s1 i)" by blast
  have "mset lap = mset (k # post @ pre)" using pp by simp
  moreover have "from_members rep (set lap) (collect rep pre R)"
    using R pp by (intro from_members_collect) auto
  ultimately have "\<exists>s'. visit c rep (k # (post @ pre) @ k # (post @ pre) @ k # post) (gth (collect rep pre R)) s1 = (s', None) \<and>
      round_done c settled rep lap s'"
    using round_from_coordinator [OF _ lap(2,3) s1(3), of "post @ pre" rep] none s1(2) by simp
  then show ?thesis using s1(1) by simp
qed

end

section \<open>Exclusion and re-admission\<close>

definition excluding :: "nat \<Rightarrow> nat \<Rightarrow> proc_id set \<Rightarrow> proc_id \<Rightarrow> proc_id \<Rightarrow> view_change \<Rightarrow> bool" where
  "excluding n v D victim i vc \<longleftrightarrow> me vc = i \<and> ring_n vc = n \<and> installed_view vc < v \<and> insert victim (dead vc) = D"

definition readmitting :: "nat \<Rightarrow> nat \<Rightarrow> proc_id set \<Rightarrow> proc_id \<Rightarrow> view_change \<Rightarrow> bool" where
  "readmitting n v D i vc \<longleftrightarrow> me vc = i \<and> ring_n vc = n \<and> installed_view vc < v \<and> dead vc = D"

definition settled_in :: "nat \<Rightarrow> proc_id set \<Rightarrow> view_change \<Rightarrow> bool" where
  "settled_in v D vc \<longleftrightarrow> installed_view vc = v \<and> dead vc = D"

definition ring_members :: "nat \<Rightarrow> proc_id set \<Rightarrow> proc_id set" where
  "ring_members n D = {p. p < n mod 256 \<and> p \<notin> D}"

lemma alive_members: "list_all P (alive vc) \<longleftrightarrow> (\<forall>p\<in>ring_members (ring_n vc) (dead vc). P p)"
  by (auto simp: list_all_iff set_alive ring_members_def)

interpretation exclusion: token_round c "Gather v k victim" "Install v k victim" k "ring_members n D"
  "excluding n v D victim" "settled_in v D" for c v k victim n D
proof unfold_locales
  fix i vc r R assume f: "excluding n v D victim i vc" and i: "i \<noteq> k \<or> \<not> ring_members n D \<subseteq> fst ` set (append_report i r R)"
  then show "\<exists>vc'. vc_handle c (Gather v k victim R) r vc = (vc', [Send (Gather v k victim (append_report i r R))]) \<and>
      excluding n v D victim i vc'"
    by (auto simp: vc_handle_def excluding_def alive_members Let_def)
next
  fix vc r R plan assume "excluding n v D victim k vc" "ring_members n D \<subseteq> fst ` set (append_report k r R)"
    "plan = compute_recovery_plan c (map snd (append_report k r R))"
  then show "\<exists>vc'. vc_handle c (Gather v k victim R) r vc = (vc', [Apply plan, Send (Install v k victim plan)]) \<and> settled_in v D vc'"
    by (auto simp: vc_handle_def excluding_def settled_in_def alive_members Let_def)
qed (auto simp: vc_handle_def excluding_def settled_in_def Let_def)

interpretation readmission: token_round c "ReAdmitGather v k q" "\<lambda>plan. ReAdmitInstall v k q plan k" k
  "insert q (ring_members n D)" "readmitting n v D" "settled_in v (D - {q})" for c v k q n D
proof unfold_locales
  fix i vc r R assume "readmitting n v D i vc" "i \<noteq> k \<or> \<not> insert q (ring_members n D) \<subseteq> fst ` set (append_report i r R)"
  then show "\<exists>vc'. vc_handle c (ReAdmitGather v k q R) r vc = (vc', [Send (ReAdmitGather v k q (append_report i r R))]) \<and>
      readmitting n v D i vc'"
    by (auto simp: vc_handle_def readmitting_def alive_members Let_def)
next
  fix vc r R plan assume "readmitting n v D k vc" "insert q (ring_members n D) \<subseteq> fst ` set (append_report k r R)"
    "plan = compute_recovery_plan c (map snd (append_report k r R))"
  then show "\<exists>vc'. vc_handle c (ReAdmitGather v k q R) r vc = (vc', [Apply plan, Send (ReAdmitInstall v k q plan k)]) \<and>
      settled_in v (D - {q}) vc'"
    by (auto simp: vc_handle_def readmitting_def settled_in_def alive_members Let_def)
qed (auto simp: vc_handle_def readmitting_def settled_in_def Let_def)

section \<open>Properties\<close>

definition in_view :: "nat \<Rightarrow> nat \<Rightarrow> proc_id set \<Rightarrow> round_state \<Rightarrow> proc_id \<Rightarrow> bool" where
  "in_view n v D s i \<longleftrightarrow> vcs s i = \<lparr>me = i, ring_n = n, installed_view = v, dead = D\<rparr>"

lemma coordinator_in_ring:
  assumes "set lap = ring_members (ring_n vc) (dead vc)" and "d \<in> set lap"
  shows "coordinator vc \<in> set lap"
proof -
  have "set (alive vc) = set lap" unfolding assms(1) by (intro set_eqI) (simp add: set_alive ring_members_def)
  then show ?thesis using coordinator_least(1) [of d vc] assms(2) by simp
qed

lemma exclusion_converges:
  assumes "\<And>i. i \<in> set lap \<Longrightarrow> in_view n v D s i" and "\<And>i. plans s i = []" and "v < u64_max"
    and "distinct lap" and "set lap = {p. p < n mod 256 \<and> p \<notin> insert victim D}"
    and "d \<in> set lap" and "victim \<notin> D"
  shows "\<exists>vc token s' R. on_confirm c victim (rep d) (vcs s d) = Some (vc, [Send token]) \<and>
    visit c rep (lap @ lap @ lap) token (s\<lparr>vcs := (vcs s)(d := vc)\<rparr>) = (s', None) \<and>
    mset (map fst R) = mset lap \<and> (\<forall>(i, r)\<in>set R. r = rep i) \<and>
    (\<forall>i\<in>set lap. plans s' i = [compute_recovery_plan c (map snd R)] \<and> installed_view (vcs s' i) = Suc v)"
proof -
  define vc where "vc = (vcs s d)\<lparr>dead := insert victim D\<rparr>"
  let ?s = "s\<lparr>vcs := (vcs s)(d := vc)\<rparr>"
  have vd: "vcs s d = \<lparr>me = d, ring_n = n, installed_view = v, dead = D\<rparr>"
    using assms(1,6) by (simp add: in_view_def)
  have conf: "on_confirm c victim (rep d) (vcs s d) =
      Some (vc, [Send (Gather (Suc v) (coordinator vc) victim [(d, rep d)])])"
    using assms(3,7) by (simp add: on_confirm_def vd vc_def add64_exact Let_def)
  have lap: "set lap = ring_members n (insert victim D)" using assms(5) by (simp add: ring_members_def)
  then have k: "coordinator vc \<in> set lap" using coordinator_in_ring [of lap vc d] assms(6) by (simp add: vc_def vd)
  have "excluding n (Suc v) (insert victim D) victim i (vcs ?s i)" if "i \<in> set lap" for i
    using assms(1) [OF that] vd by (cases "i = d") (simp_all add: excluding_def in_view_def vc_def)
  then have "\<exists>s'. visit c rep (lap @ lap @ lap) (Gather (Suc v) (coordinator vc) victim [(d, rep d)]) ?s = (s', None) \<and>
      round_done c (settled_in (Suc v) (insert victim D)) rep lap s'"
    using assms(2,6) by (intro exclusion.round_ends [OF k assms(4) lap]) (auto simp: from_members_def)
  then show ?thesis using conf unfolding round_done_def settled_in_def by blast
qed

text \<open>C18. An exclusion round converges: when the nodes of a view confirm the crash of a member,
  the token started by any detector, circulating among the survivors in ring order, is
  dropped within three laps, after every survivor has applied exactly one plan and
  installed the next view; the plan is the merge of exactly one report of each survivor.\<close>

theorem view_change_converges:
  assumes "\<And>i. i \<in> set lap \<Longrightarrow> in_view n v D s i" and "\<And>i. plans s i = []" and "v < u64_max"
    and "distinct lap" and "set lap = {p. p < n mod 256 \<and> p \<notin> insert victim D}"
    and "d \<in> set lap" and "victim \<notin> D"
  shows "\<exists>vc token s' R. on_confirm c victim (rep d) (vcs s d) = Some (vc, [Send token]) \<and>
    visit c rep (lap @ lap @ lap) token (s\<lparr>vcs := (vcs s)(d := vc)\<rparr>) = (s', None) \<and>
    mset (map fst R) = mset lap \<and> (\<forall>(i, r)\<in>set R. r = rep i) \<and>
    (\<forall>i\<in>set lap. plans s' i = [compute_recovery_plan c (map snd R)] \<and> installed_view (vcs s' i) = Suc v)"
  using assms by (rule exclusion_converges)

text \<open>C19. A re-admission round converges: when an excluded node that has caught up with the view asks to be
  re-admitted, the token it starts, circulating among the survivors and itself in ring order, is dropped within
  three laps, after each of them has applied exactly one plan, merged from exactly one report of each,
  installed the next view and taken the node back among the living.\<close>

theorem readmission_converges:
  assumes "\<And>i. i \<in> set lap \<Longrightarrow> in_view n v D s i" and "\<And>i. plans s i = []" and "v < u64_max"
    and "distinct lap" and "set lap = insert q {p. p < n mod 256 \<and> p \<notin> D}"
  shows "\<exists>vc token s' R. on_request_readmit c (rep q) (vcs s q) = Some (vc, [Send token]) \<and>
    visit c rep (lap @ lap @ lap) token (s\<lparr>vcs := (vcs s)(q := vc)\<rparr>) = (s', None) \<and>
    mset (map fst R) = mset lap \<and> (\<forall>(i, r)\<in>set R. r = rep i) \<and>
    (\<forall>i\<in>set lap. plans s' i = [compute_recovery_plan c (map snd R)] \<and> installed_view (vcs s' i) = Suc v \<and>
       dead (vcs s' i) = D - {q})"
proof -
  have vq: "vcs s q = \<lparr>me = q, ring_n = n, installed_view = v, dead = D\<rparr>" using assms(1,5) by (simp add: in_view_def)
  let ?k = "coordinator (vcs s q)"
  have lap: "set lap = insert q (ring_members n D)" using assms(5) by (simp add: ring_members_def)
  have "?k \<in> set lap"
  proof (cases "alive (vcs s q)")
    case Nil
    then show ?thesis using lap vq by (simp add: coordinator_def)
  next
    case (Cons p ps)
    then have "p \<in> set (alive (vcs s q))" by simp
    then show ?thesis using lap Cons vq by (simp add: coordinator_def set_alive ring_members_def)
  qed
  moreover have "readmitting n (Suc v) D i (vcs s i)" if "i \<in> set lap" for i
    using assms(1) [OF that] by (simp add: readmitting_def in_view_def)
  ultimately have "\<exists>s'. visit c rep (lap @ lap @ lap) (ReAdmitGather (Suc v) ?k q [(q, rep q)]) s = (s', None) \<and>
      round_done c (settled_in (Suc v) (D - {q})) rep lap s'"
    using assms(2) lap by (intro readmission.round_ends [OF _ assms(4) lap]) (auto simp: from_members_def)
  moreover have "on_request_readmit c (rep q) (vcs s q) = Some (vcs s q, [Send (ReAdmitGather (Suc v) ?k q [(q, rep q)])])"
    using assms(3) by (simp add: on_request_readmit_def vq add64_exact)
  ultimately show ?thesis unfolding round_done_def settled_in_def by auto
qed

definition demo_report :: "proc_id \<Rightarrow> recovery_report" where
  "demo_report i = \<lparr>rr_seen = [0, 0, 0], rr_issued = [0, 0, 0], rr_done = {}, rr_have = []\<rparr>"

definition demo_round :: round_state where
  "demo_round = \<lparr>vcs = (\<lambda>i. vc_new i 3), plans = (\<lambda>_. [])\<rparr>"

theorem view_change_converges_witness:
  "\<exists>vc token s'. on_confirm \<lparr>RING_SIZE = 3, NUM_TRAINS = 2, checks = True\<rparr> 2 (demo_report 1) (vc_new 1 3) =
      Some (vc, [Send token]) \<and>
    visit \<lparr>RING_SIZE = 3, NUM_TRAINS = 2, checks = True\<rparr> demo_report [0, 1, 0, 1, 0, 1] token
      (demo_round\<lparr>vcs := (vcs demo_round)(1 := vc)\<rparr>) = (s', None)"
proof -
  have "set [0, 1] = {p. p < 3 mod 256 \<and> p \<notin> insert 2 ({} :: nat set)}" by auto
  then show ?thesis
    using view_change_converges [of "[0, 1]" 3 0 "{}" demo_round 2 1 "\<lparr>RING_SIZE = 3, NUM_TRAINS = 2, checks = True\<rparr>" demo_report]
    by (auto simp: in_view_def demo_round_def vc_new_def u64_max_def)
qed

text \<open>Node 2 of a ring of three was excluded in view 1 and is taken back.\<close>

definition excluded_round :: round_state where
  "excluded_round = \<lparr>vcs = (\<lambda>i. adopt_view 1 [2] (vc_new i 3)), plans = (\<lambda>_. [])\<rparr>"

theorem readmission_converges_witness:
  "\<exists>vc token s'. on_request_readmit \<lparr>RING_SIZE = 3, NUM_TRAINS = 2, checks = True\<rparr> (demo_report 2)
      (adopt_view 1 [2] (vc_new 2 3)) = Some (vc, [Send token]) \<and>
    visit \<lparr>RING_SIZE = 3, NUM_TRAINS = 2, checks = True\<rparr> demo_report [0, 1, 2, 0, 1, 2, 0, 1, 2] token
      (excluded_round\<lparr>vcs := (vcs excluded_round)(2 := vc)\<rparr>) = (s', None) \<and>
    (\<forall>i<3. installed_view (vcs s' i) = 2 \<and> dead (vcs s' i) = {})"
proof -
  have "set [0, 1, 2] = insert 2 {p. p < 3 mod 256 \<and> p \<notin> {2 :: nat}}" by auto
  moreover have "in_view 3 1 {2} excluded_round i" for i
    by (simp add: in_view_def excluded_round_def vc_new_def adopt_view_def)
  moreover have "i \<in> set [0, 1, 2]" if "i < 3" for i :: nat using that by auto
  ultimately show ?thesis
    using readmission_converges [of "[0, 1, 2]" 3 1 "{2}" excluded_round 2 "\<lparr>RING_SIZE = 3, NUM_TRAINS = 2, checks = True\<rparr>" demo_report]
    by (fastforce simp: excluded_round_def u64_max_def)
qed

end
