(* ===== verification/Failure_Detector.thy ===== *)
theory Failure_Detector
  imports BTree_Map
begin

text \<open>
  \<^verbatim>\<open>crates/trains-recovery/src/failure_detector.rs\<close>: strikes accrue per process, a sign of
  life clears them, the threshold confirms a crash for good. The theory relates the
  incremental detector to a definition over the whole history of events.
\<close>

record failure_detector =
  strikes :: "(proc_id, nat) btm"
  threshold :: nat
  disconnect_weight :: nat
  confirmed :: "proc_id set"

definition fd_new :: "nat \<Rightarrow> nat \<Rightarrow> failure_detector option" where
  "fd_new th dw =
     (if th \<ge> 1 then Some \<lparr>strikes = [], threshold = th, disconnect_weight = dw, confirmed = {}\<rparr>
      else None)"

definition add_strikes ::
    "proc_id \<Rightarrow> nat \<Rightarrow> failure_detector \<Rightarrow> failure_detector \<times> proc_id option" where
  "add_strikes v n fd =
     (if v \<in> confirmed fd then (fd, None)
      else let s = btm_or_insert v 0 (strikes fd);
               c = sat_add32 (the (btm_get s v)) n;
               fd1 = fd\<lparr>strikes := btm_insert v c s\<rparr>
           in if c \<ge> threshold fd
              then (fd1\<lparr>strikes := btm_remove v (strikes fd1), confirmed := insert v (confirmed fd)\<rparr>,
                    Some v)
              else (fd1, None))"

definition record_gap_hint ::
    "proc_id \<Rightarrow> failure_detector \<Rightarrow> failure_detector \<times> proc_id option" where
  "record_gap_hint v fd = add_strikes v 1 fd"

definition record_disconnect ::
    "proc_id \<Rightarrow> failure_detector \<Rightarrow> failure_detector \<times> proc_id option" where
  "record_disconnect v fd = add_strikes v (disconnect_weight fd) fd"

definition note_alive :: "proc_id \<Rightarrow> failure_detector \<Rightarrow> failure_detector" where
  "note_alive p fd =
     (if p \<notin> confirmed fd then fd\<lparr>strikes := btm_remove p (strikes fd)\<rparr> else fd)"

definition is_confirmed :: "failure_detector \<Rightarrow> proc_id \<Rightarrow> bool" where
  "is_confirmed fd p \<longleftrightarrow> p \<in> confirmed fd"

definition suspicion :: "failure_detector \<Rightarrow> proc_id \<Rightarrow> nat" where
  "suspicion fd p = (case btm_get (strikes fd) p of None \<Rightarrow> 0 | Some n \<Rightarrow> n)"

section \<open>Histories\<close>

datatype fd_event = Gap_Hint proc_id | Disconnect proc_id | Alive proc_id

fun fd_apply :: "fd_event \<Rightarrow> failure_detector \<Rightarrow> failure_detector" where
  "fd_apply (Gap_Hint p) fd = fst (record_gap_hint p fd)"
| "fd_apply (Disconnect p) fd = fst (record_disconnect p fd)"
| "fd_apply (Alive p) fd = note_alive p fd"

text \<open>The strikes against \<open>v\<close> since its last sign of life, over the whole history.\<close>

definition fd_score :: "nat \<Rightarrow> proc_id \<Rightarrow> fd_event list \<Rightarrow> nat" where
  "fd_score dw v evs = fold (\<lambda>e a. case e of
       Gap_Hint p \<Rightarrow> if p = v then a + 1 else a
     | Disconnect p \<Rightarrow> if p = v then a + dw else a
     | Alive p \<Rightarrow> if p = v then 0 else a) evs 0"

definition crash_evident :: "nat \<Rightarrow> nat \<Rightarrow> proc_id \<Rightarrow> fd_event list \<Rightarrow> bool" where
  "crash_evident th dw v evs \<longleftrightarrow> (\<exists>n\<le>length evs. th \<le> fd_score dw v (take n evs))"

lemma fd_score_snoc:
  "fd_score dw v (evs @ [e]) = (case e of
       Gap_Hint p \<Rightarrow> if p = v then fd_score dw v evs + 1 else fd_score dw v evs
     | Disconnect p \<Rightarrow> if p = v then fd_score dw v evs + dw else fd_score dw v evs
     | Alive p \<Rightarrow> if p = v then 0 else fd_score dw v evs)"
  by (cases e) (simp_all add: fd_score_def)

lemma crash_evident_snoc:
  "crash_evident th dw v (evs @ [e]) \<longleftrightarrow>
     crash_evident th dw v evs \<or> th \<le> fd_score dw v (evs @ [e])"
proof
  assume "crash_evident th dw v (evs @ [e])"
  then obtain n where "n \<le> Suc (length evs)" "th \<le> fd_score dw v (take n (evs @ [e]))"
    by (auto simp: crash_evident_def)
  then show "crash_evident th dw v evs \<or> th \<le> fd_score dw v (evs @ [e])"
    by (cases "n \<le> length evs") (auto simp: crash_evident_def)
next
  assume "crash_evident th dw v evs \<or> th \<le> fd_score dw v (evs @ [e])"
  then show "crash_evident th dw v (evs @ [e])"
  proof
    assume "crash_evident th dw v evs"
    then obtain n where "n \<le> length evs" "th \<le> fd_score dw v (take n evs)"
      by (auto simp: crash_evident_def)
    then show ?thesis by (auto simp: crash_evident_def intro!: exI [of _ n])
  qed (auto simp: crash_evident_def intro!: exI [of _ "Suc (length evs)"])
qed

lemma crash_evident_full: "th \<le> fd_score dw v evs \<Longrightarrow> crash_evident th dw v evs"
  by (auto simp: crash_evident_def intro!: exI [of _ "length evs"])

section \<open>The detector computes it\<close>

text \<open>The relation between the detector's state and the history.\<close>

definition fd_rel :: "nat \<Rightarrow> nat \<Rightarrow> fd_event list \<Rightarrow> failure_detector \<Rightarrow> bool" where
  "fd_rel th dw evs fd \<longleftrightarrow> btm_ok (strikes fd) \<and> threshold fd = th \<and> disconnect_weight fd = dw \<and>
     (\<forall>v. v \<in> confirmed fd \<longleftrightarrow> crash_evident th dw v evs) \<and>
     (\<forall>v. v \<notin> confirmed fd \<longrightarrow> suspicion fd v = fd_score dw v evs \<and> fd_score dw v evs < th)"

lemma add_strikes_effect:
  assumes "btm_ok (strikes fd)" and "v \<notin> confirmed fd" and "threshold fd \<le> u32_max"
  shows "confirmed (fst (add_strikes v n fd)) =
      (if threshold fd \<le> suspicion fd v + n then insert v (confirmed fd) else confirmed fd)"
    "btm_ok (strikes (fst (add_strikes v n fd)))"
    "threshold (fst (add_strikes v n fd)) = threshold fd"
    "disconnect_weight (fst (add_strikes v n fd)) = disconnect_weight fd"
    "suspicion (fst (add_strikes v n fd)) p =
      (if p = v then if threshold fd \<le> suspicion fd v + n then 0 else suspicion fd v + n
       else suspicion fd p)"
proof -
  have c: "the (btm_get (btm_or_insert v 0 (strikes fd)) v) = suspicion fd v"
    by (auto simp: suspicion_def get_btm_or_insert split: option.split)
  have cap: "threshold fd \<le> sat_add32 (suspicion fd v) n \<longleftrightarrow> threshold fd \<le> suspicion fd v + n"
    using assms(3) by (auto simp: sat_add32_def)
  have exact: "sat_add32 (suspicion fd v) n = suspicion fd v + n"
    if "\<not> threshold fd \<le> suspicion fd v + n"
    using that assms(3) by (auto simp: sat_add32_def)
  show "confirmed (fst (add_strikes v n fd)) =
      (if threshold fd \<le> suspicion fd v + n then insert v (confirmed fd) else confirmed fd)"
    "btm_ok (strikes (fst (add_strikes v n fd)))"
    "threshold (fst (add_strikes v n fd)) = threshold fd"
    "disconnect_weight (fst (add_strikes v n fd)) = disconnect_weight fd"
    using assms c cap
    by (auto simp: add_strikes_def Let_def btm.ok_insert btm.ok_remove btm_or_insert_ok)
  show "suspicion (fst (add_strikes v n fd)) p =
      (if p = v then if threshold fd \<le> suspicion fd v + n then 0 else suspicion fd v + n
       else suspicion fd p)"
    using assms c cap exact
    by (auto simp: add_strikes_def Let_def suspicion_def get_btm_remove get_btm_insert
        get_btm_or_insert split: option.split)
qed

lemma add_strikes_confirmed: "v \<in> confirmed fd \<Longrightarrow> add_strikes v n fd = (fd, None)"
  by (simp add: add_strikes_def)

text \<open>One strike event, of either weight.\<close>

lemma fd_rel_strike:
  assumes rel: "fd_rel th dw evs fd" and th: "th \<le> u32_max"
    and sc: "\<And>p. fd_score dw p (evs @ [e]) = (if p = v then fd_score dw v evs + n else fd_score dw p evs)"
  shows "fd_rel th dw (evs @ [e]) (fst (add_strikes v n fd))"
proof (cases "v \<in> confirmed fd")
  case True
  then have "crash_evident th dw v evs" using rel by (simp add: fd_rel_def)
  then show ?thesis
    using rel True sc unfolding fd_rel_def
    by (auto simp: add_strikes_confirmed crash_evident_snoc split: if_splits)
next
  case False
  note eff = add_strikes_effect [OF _ False]
  have "btm_ok (strikes fd)" "threshold fd = th" "suspicion fd v = fd_score dw v evs"
    using rel False by (auto simp: fd_rel_def)
  then show ?thesis
    using rel False th sc eff unfolding fd_rel_def
    by (auto simp: crash_evident_snoc split: if_splits)
qed

lemma fd_rel_alive:
  assumes "fd_rel th dw evs fd" and "1 \<le> th"
  shows "fd_rel th dw (evs @ [Alive p]) (note_alive p fd)"
proof -
  have "suspicion (note_alive p fd) v = (if v = p \<and> p \<notin> confirmed fd then 0 else suspicion fd v)" for v
    by (simp add: note_alive_def suspicion_def get_btm_remove)
  moreover have "confirmed (note_alive p fd) = confirmed fd" "threshold (note_alive p fd) = threshold fd"
    "disconnect_weight (note_alive p fd) = disconnect_weight fd"
    "btm_ok (strikes fd) \<Longrightarrow> btm_ok (strikes (note_alive p fd))"
    by (simp_all add: note_alive_def btm.ok_remove)
  moreover have "crash_evident th dw v (evs @ [Alive p]) \<longleftrightarrow> crash_evident th dw v evs" for v
    using assms(2) crash_evident_full [of th dw v evs] by (auto simp: crash_evident_snoc fd_score_snoc)
  ultimately show ?thesis using assms by (auto simp: fd_rel_def fd_score_snoc)
qed

lemma fd_rel_step:
  assumes "fd_rel th dw evs fd" and "1 \<le> th" "th \<le> u32_max"
  shows "fd_rel th dw (evs @ [e]) (fd_apply e fd)"
proof (cases e)
  case (Gap_Hint p)
  then show ?thesis
    using fd_rel_strike [OF assms(1,3), of e p 1] by (simp add: record_gap_hint_def fd_score_snoc)
next
  case (Disconnect p)
  moreover have "disconnect_weight fd = dw" using assms(1) by (simp add: fd_rel_def)
  ultimately show ?thesis
    using fd_rel_strike [OF assms(1,3), of e p dw] by (simp add: record_disconnect_def fd_score_snoc)
next
  case (Alive p)
  then show ?thesis using fd_rel_alive [OF assms(1,2)] by simp
qed

lemma fd_rel_run:
  assumes "fd_new th dw = Some fd0" and "th \<le> u32_max"
  shows "fd_rel th dw evs (fold fd_apply evs fd0)"
proof (induction evs rule: rev_induct)
  case Nil
  then show ?case
    using assms
    by (auto simp: fd_new_def fd_rel_def crash_evident_def fd_score_def suspicion_def split: if_splits)
next
  case (snoc e evs)
  have "1 \<le> th" using assms(1) by (simp add: fd_new_def split: if_splits)
  then show ?case using fd_rel_step [OF snoc] assms(2) by simp
qed

lemma add_strikes_answer:
  "snd (add_strikes v n fd) =
     (if v \<notin> confirmed fd \<and> v \<in> confirmed (fst (add_strikes v n fd)) then Some v else None)"
  by (auto simp: add_strikes_def Let_def)

lemma confirmed_step: "v \<in> confirmed fd \<Longrightarrow> v \<in> confirmed (fd_apply e fd)"
  by (cases e)
    (auto simp: record_gap_hint_def record_disconnect_def add_strikes_def note_alive_def Let_def)

lemma confirmed_run: "v \<in> confirmed fd \<Longrightarrow> v \<in> confirmed (fold fd_apply evs fd)"
  by (induction evs arbitrary: fd) (simp_all add: confirmed_step)

section \<open>Properties\<close>

text \<open>C22. The detector confirms a process exactly when, at some point of its history, the strikes
  against it since its last sign of life reached the threshold: a gap or a disconnect that
  is followed by a sign of life in time never confirms, and a confirmation is never undone.\<close>

theorem detector_confirms_iff_evident:
  assumes "fd_new th dw = Some fd0" and "th \<le> u32_max"
  shows "is_confirmed (fold fd_apply evs fd0) v \<longleftrightarrow> crash_evident th dw v evs"
  using fd_rel_run [OF assms] by (simp add: fd_rel_def is_confirmed_def)

theorem detector_confirms_iff_evident_witness:
  "is_confirmed (fold fd_apply [Gap_Hint 1, Gap_Hint 1, Alive 1, Gap_Hint 1]
      \<lparr>strikes = [], threshold = 3, disconnect_weight = 3, confirmed = {}\<rparr>) 1 \<longleftrightarrow>
     crash_evident 3 3 1 [Gap_Hint 1, Gap_Hint 1, Alive 1, Gap_Hint 1]"
  by (rule detector_confirms_iff_evident) (simp_all add: fd_new_def u32_max_def)

text \<open>The answer of a strike: the victim exactly when this strike confirms it. After that
  answer no later strike against the victim answers again, whatever happened in between, so
  the caller starts one view change per crash.\<close>

theorem strike_answers_once:
  "snd (add_strikes v n fd) = (if v \<notin> confirmed fd \<and> v \<in> confirmed (fst (add_strikes v n fd))
     then Some v else None) \<and>
   (snd (add_strikes v n fd) = None \<or>
      (\<forall>evs m. snd (add_strikes v m (fold fd_apply evs (fst (add_strikes v n fd)))) = None))"
proof -
  have "snd (add_strikes v m (fold fd_apply evs (fst (add_strikes v n fd)))) = None"
    if "snd (add_strikes v n fd) \<noteq> None" for evs m
    using that confirmed_run [of v "fst (add_strikes v n fd)" evs] add_strikes_answer [of v n fd]
    by (auto simp: add_strikes_def Let_def split: if_splits)
  then show ?thesis using add_strikes_answer [of v n fd] by blast
qed

end
