(* ===== verification/Cli_Node.thy ===== *)
theory Cli_Node
  imports Node_Recovery View_Round Failure_Detector
begin

text \<open>
  \<^verbatim>\<open>crates/trains-cli/src/node.rs\<close>: the event loop of a deployed node. It owns the core, the
  failure detector and the view-change state machine and runs one arm per event. What the
  arms hand to the transport and to the terminal is appended to lists of the state: trains
  to \<open>outbox\<close>, view-change tokens to \<open>vc_outbox\<close>, new successor addresses to \<open>retargets\<close>,
  delivered payloads to \<open>shown\<close>. Addresses are of any type.
\<close>

definition STRIKE_THRESHOLD :: nat where
  "STRIKE_THRESHOLD = 3"

definition DISCONNECT_WEIGHT :: nat where
  "DISCONNECT_WEIGHT = STRIKE_THRESHOLD"

record 'a driver =
  d_id :: proc_id
  d_n :: nat
  reconfig :: bool
  addrs :: "'a list"
  core :: trains_node
  detector :: failure_detector
  vchange :: view_change
  d_dead :: "nat set"
  succ :: nat
  outbox :: "train list"
  vc_outbox :: "view_change_msg list"
  retargets :: "'a list"
  shown :: "payload list"

section \<open>Start-up\<close>

text \<open>The set-up of \<^verbatim>\<open>run\<close>: the topology check (an error, \<open>Inl\<close>), the components, the initial train.\<close>

definition driver_new ::
    "config \<Rightarrow> proc_id \<Rightarrow> delivery_mode \<Rightarrow> 'a list \<Rightarrow> bool \<Rightarrow> (unit + 'a driver) option" where
  "driver_new c i m ring_addrs issue_initial =
     (let reconf = (ring_addrs \<noteq> [])
      in if reconf \<and> length ring_addrs \<noteq> RING_SIZE c then Some (Inl ())
         else do {
           let n = (if reconf then length ring_addrs else RING_SIZE c);
           co \<leftarrow> node_new c i m;
           fd \<leftarrow> fd_new STRIKE_THRESHOLD DISCONNECT_WEIGHT;
           let d = \<lparr>d_id = i, d_n = n, reconfig = reconf, addrs = ring_addrs, core = co,
                    detector = fd, vchange = vc_new i n, d_dead = {}, succ = (i + 1) mod n,
                    outbox = [], vc_outbox = [], retargets = [], shown = []\<rparr>;
           if issue_initial then do {
             (co1, t) \<leftarrow> issue_initial_train c co;
             Some (Inr (d\<lparr>core := co1, outbox := [t]\<rparr>))
           }
           else Some (Inr d)
         })"

section \<open>Exclusion\<close>

partial_function (option) next_alive_loop :: "nat \<Rightarrow> nat \<Rightarrow> nat set \<Rightarrow> nat \<Rightarrow> nat option" where
  "next_alive_loop i n ds j =
     (if j \<in> ds \<and> j \<noteq> i then next_alive_loop i n ds ((j + 1) mod n) else Some j)"

definition next_alive :: "nat \<Rightarrow> nat \<Rightarrow> nat set \<Rightarrow> nat option" where
  "next_alive i n ds = next_alive_loop i n ds ((i + 1) mod n)"

definition exclude :: "config \<Rightarrow> nat \<Rightarrow> 'a driver \<Rightarrow> 'a driver option" where
  "exclude c victim d =
     (if victim \<in> d_dead d then Some d
      else do {
        let d1 = d\<lparr>d_dead := insert victim (d_dead d), core := set_frozen True (core d)\<rparr>;
        (co, _) \<leftarrow> confirm_crash c (victim mod 256) (core d1);
        let d2 = d1\<lparr>core := co\<rparr>;
        ns \<leftarrow> next_alive (d_id d2) (d_n d2) (d_dead d2);
        if ns \<noteq> succ d2 then
          (if ns < length (addrs d2) then
             Some (d2\<lparr>succ := ns, retargets := retargets d2 @ [addrs d2 ! ns]\<rparr>)
           else None)
        else Some d2
      })"

section \<open>Actions of the view change\<close>

definition show_recovery :: "node_output list \<Rightarrow> 'a driver \<Rightarrow> 'a driver" where
  "show_recovery outs d = d\<lparr>shown := shown d @ concat (batches outs)\<rparr>"

fun execute_one :: "config \<Rightarrow> vc_action \<Rightarrow> 'a driver \<Rightarrow> 'a driver option" where
  "execute_one c (Send msg) d = Some (d\<lparr>vc_outbox := vc_outbox d @ [msg]\<rparr>)"
| "execute_one c (Apply plan) d = do {
     (co, outs) \<leftarrow> apply_recovery c plan (core d);
     let d1 = show_recovery outs (d\<lparr>core := co\<rparr>);
     if d_id d1 < NUM_TRAINS c then do {
       (co2, t) \<leftarrow> reissue_train c (core d1);
       Some (d1\<lparr>core := co2, outbox := outbox d1 @ [t]\<rparr>)
     }
     else Some d1
   }"

definition execute :: "config \<Rightarrow> vc_action list \<Rightarrow> 'a driver \<Rightarrow> 'a driver option" where
  "execute c acts d = fold_opt (execute_one c) acts d"

text \<open>Exclude, take a fresh report, let the state machine act: the common part of the crash
  signals.\<close>

definition start_view_change :: "config \<Rightarrow> nat \<Rightarrow> proc_id \<Rightarrow> 'a driver \<Rightarrow> 'a driver option" where
  "start_view_change c victim cnf d = do {
     d1 \<leftarrow> exclude c victim d;
     report \<leftarrow> Node.recovery_report c (core d1);
     (vc, acts) \<leftarrow> on_confirm c cnf report (vchange d1);
     execute c acts (d1\<lparr>vchange := vc\<rparr>)
   }"

definition handle_vc :: "config \<Rightarrow> view_change_msg \<Rightarrow> 'a driver \<Rightarrow> 'a driver option" where
  "handle_vc c msg d = (case msg_victim msg of
       None \<Rightarrow> Some d
     | Some victim \<Rightarrow> do {
         d1 \<leftarrow> exclude c victim d;
         report \<leftarrow> Node.recovery_report c (core d1);
         let (vc, acts) = (case msg of
               Gather _ _ _ _ \<Rightarrow> on_gather c msg report (vchange d1)
             | Install _ _ _ _ \<Rightarrow> on_install msg (vchange d1)
             | _ \<Rightarrow> (vchange d1, []));
         execute c acts (d1\<lparr>vchange := vc\<rparr>)
       })"

section \<open>Outputs of the core\<close>

fun process_out :: "config \<Rightarrow> node_output \<Rightarrow> 'a driver \<Rightarrow> 'a driver option" where
  "process_out c (ForwardTrain t) d = Some (d\<lparr>outbox := outbox d @ [t]\<rparr>)"
| "process_out c (Deliver ps) d = Some (d\<lparr>shown := shown d @ ps\<rparr>)"
| "process_out c (DeclareCrash victim) d =
     (if is_confirmed (detector d) victim then Some d
      else case record_gap_hint victim (detector d) of
          (fd, None) \<Rightarrow> Some (d\<lparr>detector := fd\<rparr>)
        | (fd, Some cnf) \<Rightarrow>
            (let d1 = d\<lparr>detector := fd\<rparr>
             in if reconfig d1 then start_view_change c cnf cnf d1
                else do {
                  (co, outs) \<leftarrow> confirm_crash c cnf (core d1);
                  Some (show_recovery outs (d1\<lparr>core := co\<rparr>))
                }))"

definition process_outs :: "config \<Rightarrow> node_output list \<Rightarrow> 'a driver \<Rightarrow> 'a driver option" where
  "process_outs c outs d = fold_opt (process_out c) outs d"

section \<open>The event loop\<close>

datatype 'a driver_event =
  Stdin_Line "byte list" | Inbox_Train train | Vc_Token view_change_msg | Unreachable 'a | Timer

definition step_core :: "config \<Rightarrow> node_input \<Rightarrow> 'a driver \<Rightarrow> 'a driver option" where
  "step_core c inp d = do {
     (co, outs) \<leftarrow> step c inp (core d);
     process_outs c outs (d\<lparr>core := co\<rparr>)
   }"

text \<open>\<^verbatim>\<open>addrs.iter().position(|a| *a == addr)\<close>.\<close>

definition position :: "'a \<Rightarrow> 'a list \<Rightarrow> nat option" where
  "position a xs = (if a \<in> set xs then Some (length (takeWhile (\<lambda>x. x \<noteq> a) xs)) else None)"

fun driver_step :: "config \<Rightarrow> 'a driver_event \<Rightarrow> 'a driver \<Rightarrow> 'a driver option" where
  "driver_step c (Stdin_Line s) d = step_core c (LocalBroadcast s) d"
| "driver_step c (Inbox_Train t) d =
     step_core c (TrainReceived t) (d\<lparr>detector := note_alive (issuer t) (detector d)\<rparr>)"
| "driver_step c (Vc_Token msg) d = (if reconfig d then handle_vc c msg d else Some d)"
| "driver_step c (Unreachable a) d =
     (if \<not> reconfig d then Some d
      else case position a (addrs d) of
          None \<Rightarrow> Some d
        | Some victim \<Rightarrow>
            if victim \<in> d_dead d then Some d
            else (case record_disconnect (victim mod 256) (detector d) of
                (fd, None) \<Rightarrow> Some (d\<lparr>detector := fd\<rparr>)
              | (fd, Some cnf) \<Rightarrow> start_view_change c victim cnf (d\<lparr>detector := fd\<rparr>)))"
| "driver_step c Timer d = step_core c Tick d"

section \<open>The next alive node\<close>

lemma next_alive_loop_from:
  assumes "1 \<le> m" "m \<le> n" and "i < n" and "\<forall>k. 1 \<le> k \<and> k < m \<longrightarrow> (i + k) mod n \<in> ds"
  shows "\<exists>m'. m \<le> m' \<and> m' \<le> n \<and> next_alive_loop i n ds ((i + m) mod n) = Some ((i + m') mod n) \<and>
    (\<forall>k. 1 \<le> k \<and> k < m' \<longrightarrow> (i + k) mod n \<in> ds) \<and> ((i + m') mod n \<notin> ds \<or> m' = n)"
  using assms
proof (induction "n - m" arbitrary: m rule: less_induct)
  case less
  show ?case
  proof (cases "(i + m) mod n \<in> ds \<and> m < n")
    case True
    have ne: "(i + m) mod n \<noteq> i"
    proof (cases "i + m < n")
      case False
      have "(i + m) mod n = (i + m - n) mod n" using False by (simp add: le_mod_geq)
      also have "\<dots> = i + m - n" using less.prems(3) True by (intro mod_less) linarith
      finally have "(i + m) mod n = i + m - n" .
      then show ?thesis using True False by linarith
    qed (use less.prems in simp)
    have "((i + m) mod n + 1) mod n = (i + Suc m) mod n" by (simp add: mod_simps)
    then have step: "next_alive_loop i n ds ((i + m) mod n) = next_alive_loop i n ds ((i + Suc m) mod n)"
      using True ne by (subst next_alive_loop.simps) simp
    have "\<forall>k. 1 \<le> k \<and> k < Suc m \<longrightarrow> (i + k) mod n \<in> ds"
      using less.prems(4) True by (auto simp: less_Suc_eq)
    then obtain m' where "Suc m \<le> m'" "m' \<le> n"
        "next_alive_loop i n ds ((i + Suc m) mod n) = Some ((i + m') mod n)"
        "\<forall>k. 1 \<le> k \<and> k < m' \<longrightarrow> (i + k) mod n \<in> ds" "(i + m') mod n \<notin> ds \<or> m' = n"
      using less.hyps [of "Suc m"] less.prems(3) True by fastforce
    then show ?thesis using step Suc_leD [of m m'] by metis
  next
    case False
    then have "next_alive_loop i n ds ((i + m) mod n) = Some ((i + m) mod n)"
      using less.prems by (subst next_alive_loop.simps) auto
    then show ?thesis using False less.prems by (intro exI [of _ m]) auto
  qed
qed

lemma next_alive_spec:
  assumes "i < n"
  obtains m where "1 \<le> m" "m \<le> n" "next_alive i n ds = Some ((i + m) mod n)"
    "\<forall>k. 1 \<le> k \<and> k < m \<longrightarrow> (i + k) mod n \<in> ds" "(i + m) mod n \<notin> ds \<or> m = n"
  using next_alive_loop_from [of 1 n i ds] assms unfolding next_alive_def by auto

section \<open>The invariant of the driver\<close>

definition driver_ok :: "config \<Rightarrow> 'a driver \<Rightarrow> bool" where
  "driver_ok c d \<longleftrightarrow> valid_config c \<and> node_ok c (core d) \<and> node_id (core d) = d_id d \<and>
     d_n d = RING_SIZE c \<and> (reconfig d \<longrightarrow> length (addrs d) = RING_SIZE c) \<and>
     installed_view (vchange d) \<le> u64_max"

lemma driver_okD:
  assumes "driver_ok c d"
  shows "valid_config c" "node_ok c (core d)" "node_id (core d) = d_id d" "d_n d = RING_SIZE c"
    "d_id d < RING_SIZE c" "reconfig d \<Longrightarrow> length (addrs d) = RING_SIZE c"
  using assms node_wfD(1) [OF node_okD(1), of c "core d"] by (auto simp: driver_ok_def)

lemma crash_frozen_ok:
  assumes "valid_config c" "node_ok c n" "p < RING_SIZE c"
  shows "confirm_crash c p (set_frozen True n) =
      Some ((set_frozen True n)\<lparr>delivery := (delivery n)\<lparr>crashed_bits := crashed_bits (delivery n) OR push_bit p 1\<rparr>\<rparr>, [])"
    "node_ok c ((set_frozen True n)\<lparr>delivery := (delivery n)\<lparr>crashed_bits := crashed_bits (delivery n) OR push_bit p 1\<rparr>\<rparr>)"
proof -
  have "p < 32" using assms(3) valid_configD(2) [OF assms(1)] by simp
  then show "confirm_crash c p (set_frozen True n) =
      Some ((set_frozen True n)\<lparr>delivery := (delivery n)\<lparr>crashed_bits := crashed_bits (delivery n) OR push_bit p 1\<rparr>\<rparr>, [])"
    by (simp add: confirm_crash_def panic_simps drain_parked_def set_frozen_def)
  let ?n = "(set_frozen True n)\<lparr>delivery := (delivery n)\<lparr>crashed_bits := crashed_bits (delivery n) OR push_bit p 1\<rparr>\<rparr>"
  have "known c ?n = known c n" by (rule known_cong) (simp add: set_frozen_def)
  then show "node_ok c ?n"
    using node_okD(1) [OF assms(2)] by (simp add: node_ok_def node_wf_def set_frozen_def)
qed

lemma exclude_spec:
  assumes ok: "driver_ok c d" and rc: "reconfig d" and v: "v < RING_SIZE c" "v \<notin> d_dead d"
  obtains d' where "exclude c v d = Some d'" "driver_ok c d'" "d_dead d' = insert v (d_dead d)"
    "frozen (core d')" "done_keys (delivery (core d')) = done_keys (delivery (core d))"
    "shown d' = shown d" "outbox d' = outbox d" "vc_outbox d' = vc_outbox d" "vchange d' = vchange d"
    "reconfig d'" "d_id d' = d_id d" "Some (succ d') = next_alive (d_id d) (d_n d) (d_dead d')"
proof -
  note D = driver_okD [OF ok]
  have v256: "v mod 256 = v" using v(1) valid_configD(2) [OF D(1)] by simp
  note cr = crash_frozen_ok [OF D(1,2) v(1)]
  let ?co = "(set_frozen True (core d))\<lparr>delivery := (delivery (core d))\<lparr>crashed_bits := crashed_bits (delivery (core d)) OR push_bit v 1\<rparr>\<rparr>"
  let ?d2 = "d\<lparr>d_dead := insert v (d_dead d), core := ?co\<rparr>"
  obtain ns where ns: "next_alive (d_id d) (d_n d) (insert v (d_dead d)) = Some ns" "ns < RING_SIZE c"
  proof -
    obtain m where "next_alive (d_id d) (d_n d) (insert v (d_dead d)) = Some ((d_id d + m) mod d_n d)"
      using next_alive_spec [of "d_id d" "d_n d" "insert v (d_dead d)"] D(4,5) by metis
    moreover have "(d_id d + m) mod d_n d < RING_SIZE c" using D(4) valid_configD(3) [OF D(1)] by simp
    ultimately show ?thesis using that by blast
  qed
  let ?d' = "if ns \<noteq> succ d then ?d2\<lparr>succ := ns, retargets := retargets d @ [addrs d ! ns]\<rparr> else ?d2"
  have "exclude c v d = Some ?d'"
    using v(2) cr(1) ns D(6) [OF rc] by (simp add: exclude_def v256 Let_def)
  moreover have "driver_ok c ?d'"
    using ok cr(2) by (simp add: driver_ok_def set_frozen_def)
  ultimately show ?thesis
    using ns(1) rc by (intro that [of ?d']) (auto simp: set_frozen_def)
qed

lemma report_total: "node_ok c n \<Longrightarrow> \<exists>r. Node.recovery_report c n = Some r"
  by (simp add: Node.recovery_report_def seen_clocks_pure [OF node_okD(1)] Let_def)

section \<open>Properties\<close>

text \<open>Excluding a ring member on a running driver does not panic, freezes delivery and delivers
  nothing, records the member as dead and moves the successor to the next survivor;
  excluding it again changes nothing.\<close>

theorem exclude_freezes_and_retargets:
  assumes "driver_ok c d" and "reconfig d" and "v < RING_SIZE c" and "v \<notin> d_dead d"
  shows "\<exists>d'. exclude c v d = Some d' \<and> driver_ok c d' \<and> frozen (core d') \<and> shown d' = shown d \<and>
    done_keys (delivery (core d')) = done_keys (delivery (core d)) \<and>
    Some (succ d') = next_alive (d_id d) (d_n d) (insert v (d_dead d)) \<and>
    exclude c v d' = Some d'"
proof -
  obtain d' where d': "exclude c v d = Some d'" "driver_ok c d'" "d_dead d' = insert v (d_dead d)"
      "frozen (core d')" "done_keys (delivery (core d')) = done_keys (delivery (core d))"
      "shown d' = shown d" "Some (succ d') = next_alive (d_id d) (d_n d) (d_dead d')"
    by (rule exclude_spec [OF assms])
  then have "exclude c v d' = Some d'" by (simp add: exclude_def)
  with d' show ?thesis by auto
qed

definition demo_driver :: "nat driver" where
  "demo_driver = (case driver_new cfg2 0 TotalOrder [70, 71] True of
     Some (Inr d) \<Rightarrow> d | _ \<Rightarrow> undefined)"

lemma demo_driver_eq:
  "demo_driver = \<lparr>d_id = 0, d_n = 2, reconfig = True, addrs = [70, 71],
     core = issue_node (the (node_new cfg2 0 TotalOrder)), detector = the (fd_new 3 3),
     vchange = vc_new 0 2, d_dead = {}, succ = 1,
     outbox = [fresh_train (the (node_new cfg2 0 TotalOrder))], vc_outbox = [], retargets = [], shown = []\<rparr>"
proof -
  have "node_new cfg2 0 TotalOrder = Some (the (node_new cfg2 0 TotalOrder))"
    by (simp add: node_new_def cfg2_def)
  then have "issue_initial_train cfg2 (the (node_new cfg2 0 TotalOrder)) =
      Some (issue_node (the (node_new cfg2 0 TotalOrder)), fresh_train (the (node_new cfg2 0 TotalOrder)))"
    unfolding issue_initial_train_def
    by (intro issue_new_train_pure [OF cfg2_valid] node_okD(1) [OF node_new_ok])
  moreover have "node_new cfg2 0 TotalOrder \<noteq> None" by (simp add: node_new_def cfg2_def)
  ultimately show ?thesis
    by (auto simp: demo_driver_def driver_new_def cfg2_def fd_new_def STRIKE_THRESHOLD_def DISCONNECT_WEIGHT_def
        Let_def numeral_2_eq_2 split: option.splits)
qed

lemma demo_driver_ok: "driver_ok cfg2 demo_driver"
proof -
  have new: "node_new cfg2 0 TotalOrder = Some (the (node_new cfg2 0 TotalOrder))"
    by (simp add: node_new_def cfg2_def)
  have "node_id (the (node_new cfg2 0 TotalOrder)) = 0" by (simp add: node_new_def cfg2_def)
  then show ?thesis
    using issue_node_ok [OF node_new_ok [OF new]]
    by (simp add: driver_ok_def demo_driver_eq cfg2_valid vc_new_def) (simp add: cfg2_def)
qed

text \<open>C23. A token of a view that is already installed still excludes its victim before the state
  machine drops it: the node freezes delivery, sends no token, and keeps its view, so no
  plan of that round reaches it; and since it now counts the victim as dead, the transport's
  unreachable signal for that victim is ignored as well. This happens when two members
  crash in one view: both Gathers carry the same view number.\<close>

theorem stale_token_freezes_delivery:
  assumes "driver_ok c d" and "reconfig d" and "v < RING_SIZE c" and "v \<notin> d_dead d"
    and "view_id \<le> installed_view (vchange d)" and "position a (addrs d) = Some v"
  shows "\<exists>d'. driver_step c (Vc_Token (Gather view_id k v reports)) d = Some d' \<and> frozen (core d') \<and>
    vc_outbox d' = vc_outbox d \<and> vchange d' = vchange d \<and>
    driver_step c (Unreachable a) d' = Some d'"
proof -
  obtain d' where d': "exclude c v d = Some d'" "driver_ok c d'" "d_dead d' = insert v (d_dead d)"
      "frozen (core d')" "vc_outbox d' = vc_outbox d" "vchange d' = vchange d" "reconfig d'"
    by (rule exclude_spec [OF assms(1-4)])
  have "addrs d' = addrs d"
    using d'(1) by (auto simp: exclude_def Let_def split: if_splits bind_splits)
  moreover obtain r where "Node.recovery_report c (core d') = Some r"
    using report_total driver_okD(2) [OF d'(2)] by blast
  ultimately show ?thesis
    using d' assms(2,5,6) by (auto simp: handle_vc_def execute_def)
qed

theorem stale_token_freezes_delivery_witness:
  "\<exists>d'. driver_step cfg2 (Vc_Token (Gather 0 0 1 [])) demo_driver = Some d' \<and> frozen (core d')"
  using stale_token_freezes_delivery [OF demo_driver_ok, of 1 0 71 0 "[]"]
  by (auto simp: demo_driver_eq cfg2_def vc_new_def position_def)

text \<open>The token's victim is not validated: with overflow checks on, a token naming a process
  number of 32 or more panics the node in the crash-mask shift.\<close>

theorem bad_victim_token_panics:
  assumes "reconfig d" and "checks c" and "32 \<le> v" and "v < 256" and "v \<notin> d_dead d"
  shows "driver_step c (Vc_Token (Gather view_id k v reports)) d = None"
  using assms
  by (simp add: handle_vc_def exclude_def confirm_crash_def delivery_mark_crashed_def shl32_def Let_def)

theorem bad_victim_token_panics_witness:
  "driver_step cfg2 (Vc_Token (Gather 1 0 200 [])) demo_driver = None"
  by (rule bad_victim_token_panics) (simp_all add: demo_driver_eq cfg2_def)

end
