(* ===== verification/Fleet.thy ===== *)
theory Fleet
  imports Cli_Node Soup_Safety
begin

text \<open>
  A deployed ring: one driver per member (\<open>Cli_Node\<close>), connected by links that keep their order.
  What a driver sends goes to the successor it has; trains and view-change tokens are handed to
  the receiver through separate channels, as the listener does. A member that has crashed takes
  no more steps; what it had written before may still arrive. The links neither lose nor repeat, and what
  was sent before a retarget stays on the old link.
\<close>

declare next_alive_loop.simps [code]

record fleet =
  member :: "proc_id \<Rightarrow> nat driver"
  train_link :: "proc_id \<Rightarrow> proc_id \<Rightarrow> train list"
  token_link :: "proc_id \<Rightarrow> proc_id \<Rightarrow> view_change_msg list"

text \<open>Member \<open>i\<close> has become \<open>d\<close>; what it has newly sent is appended to its link.\<close>

definition member_acts :: "proc_id \<Rightarrow> nat driver \<Rightarrow> fleet \<Rightarrow> fleet" where
  "member_acts i d f =
     f\<lparr>member := (member f)(i := d),
       train_link := (train_link f)(i := (train_link f i)(succ d :=
         train_link f i (succ d) @ drop (length (outbox (member f i))) (outbox d))),
       token_link := (token_link f)(i := (token_link f i)(succ d :=
         token_link f i (succ d) @ drop (length (vc_outbox (member f i))) (vc_outbox d)))\<rparr>"

definition take_train :: "proc_id \<Rightarrow> proc_id \<Rightarrow> fleet \<Rightarrow> fleet" where
  "take_train j i f = f\<lparr>train_link := (train_link f)(j := (train_link f j)(i := tl (train_link f j i)))\<rparr>"

definition take_token :: "proc_id \<Rightarrow> proc_id \<Rightarrow> fleet \<Rightarrow> fleet" where
  "take_token j i f = f\<lparr>token_link := (token_link f)(j := (token_link f j)(i := tl (token_link f j i)))\<rparr>"

text \<open>The address of member \<open>i\<close> is \<open>i\<close> itself.\<close>

definition fleet_init :: "config \<Rightarrow> delivery_mode \<Rightarrow> fleet \<Rightarrow> bool" where
  "fleet_init c m f \<longleftrightarrow> valid_config c \<and>
     (\<forall>i<RING_SIZE c. driver_new c i m [0..<RING_SIZE c] (i < NUM_TRAINS c) = Some (Inr (member f i))) \<and>
     train_link f = (\<lambda>i j. if i < RING_SIZE c \<and> j = succ (member f i) then outbox (member f i) else []) \<and>
     token_link f = (\<lambda>i j. [])"

inductive fleet_step :: "config \<Rightarrow> fleet \<Rightarrow> fleet \<Rightarrow> bool" for c where
  fleet_stdin: "i < RING_SIZE c \<Longrightarrow> driver_step c (Stdin_Line s) (member f i) = Some d \<Longrightarrow>
    fleet_step c f (member_acts i d f)"
| fleet_timer: "i < RING_SIZE c \<Longrightarrow> driver_step c Timer (member f i) = Some d \<Longrightarrow>
    fleet_step c f (member_acts i d f)"
| fleet_unreachable: "i < RING_SIZE c \<Longrightarrow> driver_step c (Unreachable (succ (member f i))) (member f i) = Some d \<Longrightarrow>
    fleet_step c f (member_acts i d f)"
| fleet_train: "i < RING_SIZE c \<Longrightarrow> train_link f j i = t # ts \<Longrightarrow>
    driver_step c (Inbox_Train t) (member f i) = Some d \<Longrightarrow>
    fleet_step c f (member_acts i d (take_train j i f))"
| fleet_token: "i < RING_SIZE c \<Longrightarrow> token_link f j i = msg # msgs \<Longrightarrow>
    driver_step c (Vc_Token msg) (member f i) = Some d \<Longrightarrow>
    fleet_step c f (member_acts i d (take_token j i f))"

abbreviation fleet_reach :: "config \<Rightarrow> delivery_mode \<Rightarrow> fleet \<Rightarrow> bool" where
  "fleet_reach c m \<equiv> reach (fleet_init c m) (fleet_step c)"

section \<open>One event at one member\<close>

text \<open>View numbers cannot run out: each member confirms each victim at most once, and a view number
  is at most the number of confirmations so far. \<open>B\<close> is their number at the other members.\<close>

definition views :: "nat \<Rightarrow> nat driver \<Rightarrow> nat" where
  "views B d = B + card (dead (vchange d))"

definition train_fit :: "config \<Rightarrow> train \<Rightarrow> bool" where
  "train_fit c t \<longleftrightarrow> issuer t < NUM_TRAINS c \<and> clock t \<le> u64_max"

fun token_ok :: "config \<Rightarrow> nat \<Rightarrow> view_change_msg \<Rightarrow> bool" where
  "token_ok c V (Gather v k p rs) \<longleftrightarrow> v \<le> V \<and> p < RING_SIZE c \<and> (\<forall>r\<in>set rs. report_ok c (snd r))"
| "token_ok c V (Install v k p plan) \<longleftrightarrow> v \<le> V \<and> p < RING_SIZE c \<and> plan_wf c plan"
| "token_ok c V msg \<longleftrightarrow> False"

definition member_ok :: "config \<Rightarrow> nat \<Rightarrow> nat driver \<Rightarrow> bool" where
  "member_ok c B d \<longleftrightarrow> driver_ok c d \<and> reconfig d \<and> addrs d = [0..<RING_SIZE c] \<and> succ d < RING_SIZE c \<and>
     dead (vchange d) \<subseteq> {..<RING_SIZE c} \<and> installed_view (vchange d) \<le> views B d \<and>
     B + RING_SIZE c < u64_max"

definition grown :: "config \<Rightarrow> nat \<Rightarrow> nat driver \<Rightarrow> nat driver \<Rightarrow> bool" where
  "grown c B d d' \<longleftrightarrow> member_ok c B d' \<and> d_id d' = d_id d \<and> dead (vchange d) \<subseteq> dead (vchange d') \<and>
     (\<exists>ts. outbox d' = outbox d @ ts \<and> (\<forall>t\<in>set ts. train_fit c t)) \<and>
     (\<exists>ms. vc_outbox d' = vc_outbox d @ ms \<and> (\<forall>msg\<in>set ms. token_ok c (views B d') msg))"

lemma token_ok_mono: "token_ok c V msg \<Longrightarrow> V \<le> V' \<Longrightarrow> token_ok c V' msg"
  by (cases msg) auto

lemma member_okD:
  assumes "member_ok c B d"
  shows "driver_ok c d" "valid_config c" "node_ok c (core d)" "node_id (core d) = d_id d" "reconfig d"
    "succ d < RING_SIZE c" "finite (dead (vchange d))" "card (dead (vchange d)) \<le> RING_SIZE c"
    "views B d < u64_max"
proof -
  have sub: "dead (vchange d) \<subseteq> {..<RING_SIZE c}" using assms by (simp add: member_ok_def)
  then show fin: "finite (dead (vchange d))" by (rule finite_subset) simp
  show card: "card (dead (vchange d)) \<le> RING_SIZE c" using card_mono [OF _ sub] by simp
  then show "views B d < u64_max" using assms by (simp add: member_ok_def views_def)
qed (use assms in \<open>auto simp: member_ok_def driver_ok_def\<close>)

lemma views_mono:
  assumes "member_ok c B d'" and "dead (vchange d) \<subseteq> dead (vchange d')"
  shows "views B d \<le> views B d'"
  using card_mono [OF member_okD(7) [OF assms(1)] assms(2)] by (simp add: views_def)

lemma grown_refl: "member_ok c B d \<Longrightarrow> grown c B d d"
  by (simp add: grown_def)

lemma grown_trans:
  assumes "grown c B d d1" and "grown c B d1 d2"
  shows "grown c B d d2"
proof -
  obtain ts ms where 1: "outbox d1 = outbox d @ ts" "\<forall>t\<in>set ts. train_fit c t"
      "vc_outbox d1 = vc_outbox d @ ms" "\<forall>msg\<in>set ms. token_ok c (views B d1) msg"
    using assms(1) by (auto simp: grown_def)
  obtain ts' ms' where 2: "outbox d2 = outbox d1 @ ts'" "\<forall>t\<in>set ts'. train_fit c t"
      "vc_outbox d2 = vc_outbox d1 @ ms'" "\<forall>msg\<in>set ms'. token_ok c (views B d2) msg"
    using assms(2) by (auto simp: grown_def)
  have "views B d1 \<le> views B d2" using assms(2) by (intro views_mono) (auto simp: grown_def)
  then have "\<forall>msg\<in>set (ms @ ms'). token_ok c (views B d2) msg" using 1(4) 2(4) token_ok_mono by auto
  then show ?thesis using assms 1 2 unfolding grown_def by auto
qed

text \<open>An operation returns and keeps all this.\<close>

definition runs :: "config \<Rightarrow> nat \<Rightarrow> nat driver \<Rightarrow> nat driver option \<Rightarrow> bool" where
  "runs c B d r \<longleftrightarrow> (\<exists>d'. r = Some d' \<and> grown c B d d')"

lemma runsI: "r = Some d' \<Longrightarrow> grown c B d d' \<Longrightarrow> runs c B d r"
  by (simp add: runs_def)

lemma runs_from: "grown c B d d1 \<Longrightarrow> runs c B d1 r \<Longrightarrow> runs c B d r"
  unfolding runs_def by (blast intro: grown_trans)

lemma runs_fold:
  assumes "member_ok c B d" and "\<And>x d. x \<in> set xs \<Longrightarrow> member_ok c B d \<Longrightarrow> P x d \<Longrightarrow> runs c B d (f x d)"
    and "\<And>y d d'. P y d \<Longrightarrow> grown c B d d' \<Longrightarrow> P y d'" and "\<And>x. x \<in> set xs \<Longrightarrow> P x d"
  shows "runs c B d (fold_opt f xs d)"
  using assms(1,2,4)
proof (induction xs arbitrary: d)
  case Nil
  then show ?case by (simp add: runs_def grown_refl)
next
  case (Cons x xs)
  have "runs c B d (f x d)" using Cons.prems by simp
  then obtain d1 where d1: "f x d = Some d1" "grown c B d d1" by (auto simp: runs_def)
  have "runs c B d1 (fold_opt f xs d1)"
  proof (rule Cons.IH)
    show "member_ok c B d1" using d1(2) by (simp add: grown_def)
    show "P y d1" if "y \<in> set xs" for y using Cons.prems(3) [of y] that assms(3) [OF _ d1(2)] by simp
  qed (use Cons.prems(2) in simp)
  then show ?case using d1 runs_from by simp
qed

text \<open>The view change.\<close>

lemma exclude_runs:
  assumes ok: "member_ok c B d" and v: "v < RING_SIZE c"
  shows "\<exists>d'. exclude c v d = Some d' \<and> grown c B d d' \<and> vchange d' = vchange d"
proof (cases "v \<in> d_dead d")
  case True
  then show ?thesis using ok grown_refl by (simp add: exclude_def)
next
  case False
  note D = member_okD [OF ok]
  obtain d' where d': "exclude c v d = Some d'" "driver_ok c d'" "outbox d' = outbox d"
      "vc_outbox d' = vc_outbox d" "vchange d' = vchange d" "reconfig d'" "d_id d' = d_id d"
      "Some (succ d') = next_alive (d_id d) (d_n d) (d_dead d')"
    by (rule exclude_spec [OF D(1,5) v False])
  have "addrs d' = addrs d" using d'(1) by (auto simp: exclude_def Let_def split: if_splits bind_splits)
  moreover have "succ d' < RING_SIZE c"
  proof -
    obtain m where "next_alive (d_id d) (d_n d) (d_dead d') = Some ((d_id d + m) mod d_n d)"
      using next_alive_spec [of "d_id d" "d_n d" "d_dead d'"] driver_okD(4,5) [OF D(1)] by metis
    then show ?thesis using d'(8) driver_okD(4) [OF D(1)] valid_configD(3) [OF D(2)] by simp
  qed
  ultimately show ?thesis using d' ok by (auto simp: grown_def member_ok_def views_def)
qed

lemma send_runs:
  assumes "member_ok c B d" and "token_ok c (views B d) msg"
  shows "runs c B d (execute_one c (Send msg) d)"
  using assms by (intro runsI) (auto simp: grown_def member_ok_def driver_ok_def views_def)

lemma apply_runs:
  assumes ok: "member_ok c B d" and p: "plan_wf c plan"
  shows "runs c B d (execute_one c (Apply plan) d)"
proof -
  note D = member_okD [OF ok]
  obtain co outs where ap: "apply_recovery c plan (core d) = Some (co, outs)"
    by (rule apply_recovery_spec [OF D(2) node_okD(1) [OF D(3)] p])
  note eff = apply_recovery_effect [OF D(2) node_okD(1) [OF D(3)] p ap]
  have re: "reissue_train c co = Some (issue_node co, fresh_train co)"
    unfolding reissue_train_def by (rule issue_new_train_pure [OF D(2) node_okD(1) [OF eff(1)]])
  have fit: "train_fit c (fresh_train co)" if "d_id d < NUM_TRAINS c"
    using that eff(7) D(4) node_wfD(8) [OF node_okD(1) [OF eff(1)]] by (simp add: train_fit_def fresh_train_def)
  show ?thesis
    using ok ap re fit eff(1,7) issue_node_ok [OF eff(1)] D(4)
    by (intro runsI [where d' = "if d_id d < NUM_TRAINS c
          then (show_recovery outs (d\<lparr>core := co\<rparr>))\<lparr>core := issue_node co, outbox := outbox d @ [fresh_train co]\<rparr>
          else show_recovery outs (d\<lparr>core := co\<rparr>)"])
      (auto simp: grown_def member_ok_def driver_ok_def views_def show_recovery_def)
qed

fun action_ok :: "config \<Rightarrow> nat \<Rightarrow> vc_action \<Rightarrow> nat driver \<Rightarrow> bool" where
  "action_ok c B (Send msg) d \<longleftrightarrow> token_ok c (views B d) msg"
| "action_ok c B (Apply plan) d \<longleftrightarrow> plan_wf c plan"

lemma execute_runs:
  assumes "member_ok c B d" and "\<And>a. a \<in> set acts \<Longrightarrow> action_ok c B a d"
  shows "runs c B d (execute c acts d)"
  unfolding execute_def
proof (rule runs_fold [where P = "action_ok c B"])
  show "runs c B d (execute_one c a d)" if "member_ok c B d" "action_ok c B a d" for a d
    using that send_runs [of c B d] apply_runs [of c B d] by (cases a) simp_all
  show "action_ok c B a d'" if a: "action_ok c B a d" and g: "grown c B d d'" for a d d'
  proof -
    have "views B d \<le> views B d'" using g views_mono [of c B d' d] by (simp add: grown_def)
    then show ?thesis using a token_ok_mono [of c "views B d"] by (cases a) simp_all
  qed
qed (use assms in auto)

lemma report_fit:
  assumes "node_ok c n" and "Node.recovery_report c n = Some r"
  shows "report_ok c r"
  using recovery_report_ok(1) [OF node_okD(1)] assms by blast

text \<open>Taking over a view-change state that has not lost a dead member.\<close>

lemma adopt_runs:
  assumes ok: "member_ok c B d" and vc: "dead (vchange d) \<subseteq> dead vc" "dead vc \<subseteq> {..<RING_SIZE c}"
    and view: "installed_view vc \<le> B + card (dead vc)"
    and acts: "\<And>a. a \<in> set acts \<Longrightarrow> action_ok c B a (d\<lparr>vchange := vc\<rparr>)"
  shows "runs c B d (execute c acts (d\<lparr>vchange := vc\<rparr>))"
proof -
  have "card (dead vc) \<le> RING_SIZE c" using card_mono [OF _ vc(2)] by simp
  then have g: "grown c B d (d\<lparr>vchange := vc\<rparr>)"
    using ok vc view by (simp add: grown_def member_ok_def driver_ok_def views_def)
  then have "member_ok c B (d\<lparr>vchange := vc\<rparr>)" by (simp add: grown_def)
  then show ?thesis using acts by (intro runs_from [OF g] execute_runs)
qed

lemma dead_insert:
  assumes "member_ok c B d" and "v < RING_SIZE c"
  shows "insert v (dead (vchange d)) \<subseteq> {..<RING_SIZE c}"
    "views B d \<le> B + card (insert v (dead (vchange d)))"
    "v \<notin> dead (vchange d) \<Longrightarrow> Suc (views B d) = B + card (insert v (dead (vchange d)))"
  using assms member_okD(7) [OF assms(1)]
  by (auto simp: member_ok_def views_def card_insert_if)

lemma start_view_change_runs:
  assumes ok: "member_ok c B d" and v: "v < RING_SIZE c"
  shows "runs c B d (start_view_change c v v d)"
proof -
  obtain d1 where d1: "exclude c v d = Some d1" "grown c B d d1" "vchange d1 = vchange d"
    using exclude_runs [OF ok v] by blast
  have ok1: "member_ok c B d1" using d1(2) by (simp add: grown_def)
  obtain r where r: "Node.recovery_report c (core d1) = Some r" using report_total member_okD(3) [OF ok1] by blast
  have rok: "report_ok c r" using report_fit [OF member_okD(3) [OF ok1] r] .
  let ?vc = "(vchange d1)\<lparr>dead := insert v (dead (vchange d1))\<rparr>"
  have "runs c B d1 (do { (vc, acts) \<leftarrow> on_confirm c v r (vchange d1); execute c acts (d1\<lparr>vchange := vc\<rparr>) })"
  proof (cases "v \<in> dead (vchange d1)")
    case True
    then show ?thesis using ok1 by (simp add: on_confirm_def execute_def runs_def grown_refl)
  next
    case False
    have inst: "installed_view (vchange d1) \<le> views B d1" using ok1 by (simp add: member_ok_def)
    then have "on_confirm c v r (vchange d1) = Some (?vc,
        [Send (Gather (Suc (installed_view (vchange d1))) (coordinator ?vc) v [(me (vchange d1), r)])])"
      using False member_okD(9) [OF ok1] by (simp add: on_confirm_def add64_exact Let_def)
    moreover have "runs c B d1 (execute c
        [Send (Gather (Suc (installed_view (vchange d1))) (coordinator ?vc) v [(me (vchange d1), r)])]
        (d1\<lparr>vchange := ?vc\<rparr>))"
      using dead_insert [OF ok1 v] inst False v rok
      by (intro adopt_runs [OF ok1]) (auto simp: views_def)
    ultimately show ?thesis by simp
  qed
  then show ?thesis using d1(1) r runs_from [OF d1(2)] by (simp add: start_view_change_def)
qed

lemma append_report_ok:
  "\<forall>r\<in>set rs. report_ok c (snd r) \<Longrightarrow> report_ok c rep \<Longrightarrow> \<forall>r\<in>set (append_report i rep rs). report_ok c (snd r)"
  by (auto simp: append_report_def)

lemma on_gather_runs:
  assumes ok: "member_ok c B d" and msg: "token_ok c (views B d) (Gather v k p rs)" and rok: "report_ok c rep"
    and vc: "on_gather c (Gather v k p rs) rep (vchange d) = (vc, acts)"
  shows "runs c B d (execute c acts (d\<lparr>vchange := vc\<rparr>))"
proof (cases "v \<le> installed_view (vchange d)")
  case True
  then show ?thesis using vc ok by (auto simp: execute_def runs_def grown_refl)
next
  case False
  let ?vc = "(vchange d)\<lparr>dead := insert p (dead (vchange d))\<rparr>" and ?rs = "append_report (me (vchange d)) rep rs"
  have p: "p < RING_SIZE c" and v: "v \<le> views B d" using msg by auto
  note di = dead_insert [OF ok p]
  have rs: "\<forall>r\<in>set ?rs. report_ok c (snd r)" using msg rok by (intro append_report_ok) auto
  then have plan: "plan_wf c (compute_recovery_plan c (map snd ?rs))" by (intro plan_wf_compute) auto
  have inst: "installed_view (vchange d) \<le> views B d" using ok by (simp add: member_ok_def)
  have cases: "(vc = ?vc \<and> acts = [Send (Gather v k p ?rs)]) \<or>
      (vc = ?vc\<lparr>installed_view := v\<rparr> \<and>
       acts = [Apply (compute_recovery_plan c (map snd ?rs)), Send (Install v k p (compute_recovery_plan c (map snd ?rs)))])"
    using vc False by (auto simp: Let_def split: if_splits)
  show ?thesis
  proof (rule adopt_runs [OF ok])
    show "dead (vchange d) \<subseteq> dead vc" "dead vc \<subseteq> {..<RING_SIZE c}" using cases di(1) by auto
    show "installed_view vc \<le> B + card (dead vc)" using cases di(2) v inst by auto
    have "v \<le> views B (d\<lparr>vchange := vc\<rparr>)" using cases v di(2) by (auto simp: views_def)
    then show "action_ok c B a (d\<lparr>vchange := vc\<rparr>)" if "a \<in> set acts" for a
      using cases that rs plan p by auto
  qed
qed

lemma on_install_runs:
  assumes ok: "member_ok c B d" and msg: "token_ok c (views B d) (Install v k p plan)"
    and vc: "on_install (Install v k p plan) (vchange d) = (vc, acts)"
  shows "runs c B d (execute c acts (d\<lparr>vchange := vc\<rparr>))"
proof (cases "v \<le> installed_view (vchange d)")
  case True
  then show ?thesis using vc ok by (auto simp: execute_def runs_def grown_refl)
next
  case False
  have p: "p < RING_SIZE c" and v: "v \<le> views B d" and plan: "plan_wf c plan" using msg by auto
  note di = dead_insert [OF ok p]
  have vc': "vc = (vchange d)\<lparr>dead := insert p (dead (vchange d)), installed_view := v\<rparr>"
      "acts = [Apply plan, Send (Install v k p plan)]"
    using vc False by auto
  show ?thesis
    using di v p plan by (intro adopt_runs [OF ok]) (auto simp: vc' views_def)
qed

lemma handle_vc_runs:
  assumes ok: "member_ok c B d" and msg: "token_ok c (views B d) msg"
  shows "runs c B d (handle_vc c msg d)"
proof -
  obtain v where v: "msg_victim msg = Some v" "v < RING_SIZE c" using msg by (cases msg) auto
  obtain d1 where d1: "exclude c v d = Some d1" "grown c B d d1" "vchange d1 = vchange d"
    using exclude_runs [OF ok v(2)] by blast
  have ok1: "member_ok c B d1" using d1(2) by (simp add: grown_def)
  obtain r where r: "Node.recovery_report c (core d1) = Some r" using report_total member_okD(3) [OF ok1] by blast
  have rok: "report_ok c r" using report_fit [OF member_okD(3) [OF ok1] r] .
  have msg1: "token_ok c (views B d1) msg" using msg d1(3) by (simp add: views_def)
  have "runs c B d1 (let (vc, acts) = (case msg of
        Gather _ _ _ _ \<Rightarrow> on_gather c msg r (vchange d1)
      | Install _ _ _ _ \<Rightarrow> on_install msg (vchange d1)
      | _ \<Rightarrow> (vchange d1, [])) in execute c acts (d1\<lparr>vchange := vc\<rparr>))"
  proof (cases msg)
    case (Gather w k p rs)
    then show ?thesis
      using on_gather_runs [OF ok1 msg1 [unfolded Gather] rok] by (auto split: prod.splits)
  next
    case (Install w k p plan)
    then show ?thesis using on_install_runs [OF ok1 msg1 [unfolded Install]] by (auto split: prod.splits)
  qed (use msg in auto)
  then show ?thesis using d1(1) r v(1) runs_from [OF d1(2)] by (simp add: handle_vc_def)
qed

text \<open>Core steps.\<close>

fun out_ok :: "config \<Rightarrow> node_output \<Rightarrow> bool" where
  "out_ok c (ForwardTrain t) \<longleftrightarrow> train_fit c t"
| "out_ok c (Deliver ps) \<longleftrightarrow> True"
| "out_ok c (DeclareCrash v) \<longleftrightarrow> v < RING_SIZE c"

lemma detector_runs:
  assumes "member_ok c B d"
  shows "grown c B d (d\<lparr>detector := fd\<rparr>)"
  using assms by (simp add: grown_def member_ok_def driver_ok_def views_def)

lemma add_strikes_confirms: "add_strikes v n fd = (fd', Some w) \<Longrightarrow> w = v"
  by (auto simp: add_strikes_def Let_def split: if_splits)

lemma process_out_runs:
  assumes ok: "member_ok c B d" and out: "out_ok c out"
  shows "runs c B d (process_out c out d)"
proof (cases out)
  case (ForwardTrain t)
  then show ?thesis
    using ok out by (intro runsI) (auto simp: grown_def member_ok_def driver_ok_def views_def)
next
  case (Deliver ps)
  then show ?thesis
    using ok by (intro runsI) (auto simp: grown_def member_ok_def driver_ok_def views_def)
next
  case (DeclareCrash v)
  show ?thesis
  proof (cases "is_confirmed (detector d) v")
    case True
    then show ?thesis using DeclareCrash ok by (simp add: runs_def grown_refl)
  next
    case False
    obtain fd w where fw: "record_gap_hint v (detector d) = (fd, w)" by fastforce
    note g = detector_runs [OF ok, of fd]
    have ok1: "member_ok c B (d\<lparr>detector := fd\<rparr>)" using g by (simp add: grown_def)
    show ?thesis
    proof (cases w)
      case None
      then show ?thesis using False fw g DeclareCrash by (simp add: runs_def)
    next
      case (Some cnf)
      then have "cnf = v" using fw add_strikes_confirms by (simp add: record_gap_hint_def)
      then have "runs c B (d\<lparr>detector := fd\<rparr>) (start_view_change c cnf cnf (d\<lparr>detector := fd\<rparr>))"
        using out DeclareCrash by (intro start_view_change_runs [OF ok1]) simp
      then show ?thesis
        using False fw Some DeclareCrash runs_from [OF g] member_okD(5) [OF ok] by (simp add: Let_def)
    qed
  qed
qed

lemma gap_declares_issuer: "v \<in> set (declared (gap_outs t n)) \<Longrightarrow> v = issuer t"
  by (simp add: gap_outs_def split: if_splits)

lemma step_outs_ok:
  assumes c: "valid_config c" and ok: "node_ok c n" and inp: "\<And>t. inp = TrainReceived t \<Longrightarrow> train_fit c t"
    and st: "step c inp n = Some (n', outs)" and out: "out \<in> set outs"
  shows "out_ok c out"
proof -
  have mem: "t \<in> set (sends outs)" if "out = ForwardTrain t" for t
    using that out by (force simp: sends_def)
  have dec: "v \<in> set (declared outs)" if "out = DeclareCrash v" for v
    using that out by (force simp: declared_def)
  have "(\<forall>u\<in>set (sends outs). train_fit c u) \<and> (\<forall>v\<in>set (declared outs). v < RING_SIZE c)"
  proof (cases inp)
    case (TrainReceived t)
    then have t: "issuer t < NUM_TRAINS c" "clock t \<le> u64_max" using inp by (auto simp: train_fit_def)
    then have iss: "issuer t < RING_SIZE c" using valid_configD(5) [OF c] by simp
    have "train_fit c u" if "u \<in> set (sends outs)" for u
      using step_train_frame(4) [OF c ok t, of n' outs u] st TrainReceived that t by (simp add: train_fit_def)
    moreover have "set (declared outs) \<subseteq> {issuer t}"
      using c ok iss t(2)
      by (cases rule: step_cases) (use st TrainReceived gap_declares_issuer in \<open>auto\<close>)
    ultimately show ?thesis using iss by blast
  qed (use st in \<open>auto simp: handle_broadcast_def handle_tick_def Let_def split: if_splits\<close>)
  then show ?thesis using mem dec by (cases out) auto
qed

lemma step_core_grown:
  assumes ok: "member_ok c B d" and inp: "\<And>t. inp = TrainReceived t \<Longrightarrow> train_fit c t"
    and st: "step c inp (core d) = Some (co, outs)"
  shows "grown c B d (d\<lparr>core := co\<rparr>)"
proof -
  note D = member_okD [OF ok]
  have "input_ok c inp"
    using inp valid_configD(5) [OF D(2)] by (cases inp) (auto simp: train_fit_def intro: less_le_trans)
  then have "node_ok c co" using step_ok [OF D(2,3)] st by fastforce
  moreover have "node_id co = node_id (core d)"
  proof (cases inp)
    case (TrainReceived t)
    then show ?thesis using step_train_frame(2) [OF D(2,3), of t co outs] inp st by (simp add: train_fit_def)
  qed (use step_other_frame [OF D(3) st] in auto)
  ultimately show ?thesis
    using ok D(4) by (simp add: grown_def member_ok_def driver_ok_def views_def)
qed

lemma step_core_runs:
  assumes ok: "member_ok c B d" and inp: "\<And>t. inp = TrainReceived t \<Longrightarrow> train_fit c t"
  shows "runs c B d (step_core c inp d)"
proof -
  note D = member_okD [OF ok]
  have "input_ok c inp"
    using inp valid_configD(5) [OF D(2)] by (cases inp) (auto simp: train_fit_def intro: less_le_trans)
  then obtain co outs where st: "step c inp (core d) = Some (co, outs)"
    using step_ok [OF D(2,3)] by blast
  note g = step_core_grown [OF ok inp st]
  have "runs c B (d\<lparr>core := co\<rparr>) (process_outs c outs (d\<lparr>core := co\<rparr>))"
    unfolding process_outs_def
    using g process_out_runs step_outs_ok [OF D(2,3) inp st]
    by (intro runs_fold [where P = "\<lambda>_ _. True"]) (auto simp: grown_def)
  then show ?thesis using st runs_from [OF g] by (simp add: step_core_def)
qed

fun event_ok :: "config \<Rightarrow> nat \<Rightarrow> nat driver_event \<Rightarrow> bool" where
  "event_ok c V (Inbox_Train t) \<longleftrightarrow> train_fit c t"
| "event_ok c V (Vc_Token msg) \<longleftrightarrow> token_ok c V msg"
| "event_ok c V ev \<longleftrightarrow> True"

lemma position_less: "position a xs = Some v \<Longrightarrow> v < length xs"
  by (induction xs arbitrary: v) (auto simp: position_def split: if_splits)

lemma driver_step_runs:
  assumes ok: "member_ok c B d" and ev: "event_ok c (views B d) ev"
  shows "runs c B d (driver_step c ev d)"
proof (cases ev)
  case (Stdin_Line s)
  then show ?thesis using step_core_runs [OF ok, of "LocalBroadcast s"] by simp
next
  case (Inbox_Train t)
  note g = detector_runs [OF ok, of "note_alive (issuer t) (detector d)"]
  then have "runs c B (d\<lparr>detector := note_alive (issuer t) (detector d)\<rparr>)
      (step_core c (TrainReceived t) (d\<lparr>detector := note_alive (issuer t) (detector d)\<rparr>))"
    using ev Inbox_Train by (intro step_core_runs) (auto simp: grown_def)
  then show ?thesis using Inbox_Train runs_from [OF g] by simp
next
  case (Vc_Token msg)
  then show ?thesis using handle_vc_runs [OF ok, of msg] ev member_okD(5) [OF ok] by simp
next
  case (Unreachable a)
  show ?thesis
  proof (cases "position a (addrs d)")
    case None
    then show ?thesis using Unreachable ok by (simp add: runs_def grown_refl)
  next
    case (Some v)
    have "v < length (addrs d)" using Some by (rule position_less)
    then have v: "v < RING_SIZE c" using ok by (simp add: member_ok_def)
    then have v256: "v mod 256 = v" using valid_configD(2) [OF member_okD(2) [OF ok]] by simp
    obtain fd w where fw: "record_disconnect v (detector d) = (fd, w)" by fastforce
    note g = detector_runs [OF ok, of fd]
    then have ok1: "member_ok c B (d\<lparr>detector := fd\<rparr>)" by (simp add: grown_def)
    have "cnf = v" if "w = Some cnf" for cnf
      using that fw add_strikes_confirms by (simp add: record_disconnect_def)
    then show ?thesis
      using Unreachable Some ok g fw v256 member_okD(5) [OF ok] runs_from [OF g start_view_change_runs [OF ok1 v]]
      by (cases w) (auto simp: runs_def grown_refl)
  qed
next
  case Timer
  then show ?thesis using step_core_runs [OF ok, of Tick] by simp
qed

section \<open>The invariant of the fleet\<close>

definition confirmed_by :: "fleet \<Rightarrow> proc_id \<Rightarrow> nat" where
  "confirmed_by f i = card (dead (vchange (member f i)))"

definition others :: "config \<Rightarrow> fleet \<Rightarrow> proc_id \<Rightarrow> nat" where
  "others c f i = (\<Sum>j\<in>{..<RING_SIZE c} - {i}. confirmed_by f j)"

definition all_views :: "config \<Rightarrow> fleet \<Rightarrow> nat" where
  "all_views c f = (\<Sum>j<RING_SIZE c. confirmed_by f j)"

definition fleet_inv :: "config \<Rightarrow> fleet \<Rightarrow> bool" where
  "fleet_inv c f \<longleftrightarrow> valid_config c \<and>
     (\<forall>i<RING_SIZE c. member_ok c (others c f i) (member f i) \<and> d_id (member f i) = i) \<and>
     (\<forall>i j. \<forall>t\<in>set (train_link f i j). train_fit c t) \<and>
     (\<forall>i j. \<forall>msg\<in>set (token_link f i j). token_ok c (all_views c f) msg)"

lemma views_others: "i < RING_SIZE c \<Longrightarrow> views (others c f i) (member f i) = all_views c f"
  by (simp add: views_def others_def all_views_def confirmed_by_def sum.remove [of "{..<RING_SIZE c}" i])

lemma fleet_invD:
  assumes "fleet_inv c f"
  shows "valid_config c" "\<And>i. i < RING_SIZE c \<Longrightarrow> member_ok c (others c f i) (member f i)"
    "\<And>i. i < RING_SIZE c \<Longrightarrow> d_id (member f i) = i"
    "\<And>i j t. t \<in> set (train_link f i j) \<Longrightarrow> train_fit c t"
    "\<And>i j msg. msg \<in> set (token_link f i j) \<Longrightarrow> token_ok c (all_views c f) msg"
  using assms by (auto simp: fleet_inv_def)

lemma member_ok_more:
  assumes "member_ok c B d" and "B \<le> B'" and "B' + RING_SIZE c < u64_max"
  shows "member_ok c B' d"
  using assms by (simp add: member_ok_def views_def)

lemma others_small:
  assumes c: "valid_config c" and "\<And>j. j < RING_SIZE c \<Longrightarrow> confirmed_by f j \<le> RING_SIZE c"
  shows "others c f i + RING_SIZE c < u64_max"
proof -
  have N: "RING_SIZE c \<le> 32" using valid_configD(2) [OF c] by simp
  have "others c f i \<le> (\<Sum>j\<in>{..<RING_SIZE c} - {i}. RING_SIZE c)"
    unfolding others_def using assms(2) by (intro sum_mono) simp
  also have "\<dots> \<le> (\<Sum>j<RING_SIZE c. RING_SIZE c)" by (intro sum_mono2) auto
  also have "\<dots> \<le> 32 * 32" using mult_le_mono [OF N N] by simp
  finally show ?thesis using N by (simp add: u64_max_def)
qed

lemma fleet_inv_acts:
  assumes inv: "fleet_inv c f" and i: "i < RING_SIZE c" and g: "grown c (others c f i) (member f i) d"
  shows "fleet_inv c (member_acts i d f)" (is "fleet_inv c ?f")
proof -
  note I = fleet_invD [OF inv]
  obtain ts ms where out: "outbox d = outbox (member f i) @ ts" "\<forall>t\<in>set ts. train_fit c t"
      "vc_outbox d = vc_outbox (member f i) @ ms" "\<forall>msg\<in>set ms. token_ok c (views (others c f i) d) msg"
    using g by (auto simp: grown_def)
  have mem: "member ?f = (member f)(i := d)" by (simp add: member_acts_def)
  have ok: "member_ok c (others c f i) d" "d_id d = i" using g I(3) [OF i] by (auto simp: grown_def)
  have "dead (vchange (member f i)) \<subseteq> dead (vchange d)" using g by (simp add: grown_def)
  then have more: "confirmed_by f i \<le> confirmed_by ?f i"
    using card_mono [OF member_okD(7) [OF ok(1)]] by (simp add: confirmed_by_def mem)
  have same: "confirmed_by ?f j = confirmed_by f j" if "j \<noteq> i" for j using that by (simp add: confirmed_by_def mem)
  have le: "others c f j \<le> others c ?f j" for j
    unfolding others_def using more same by (intro sum_mono) (metis order_refl)
  have oi: "others c ?f i = others c f i" unfolding others_def using same by (intro sum.cong) auto
  have all: "all_views c ?f = views (others c f i) d"
    using views_others [OF i, of ?f] oi by (simp add: mem)
  have "all_views c f \<le> all_views c ?f"
    unfolding all_views_def using more same by (intro sum_mono) (metis order_refl)
  then have tok: "token_ok c (all_views c ?f) msg" if "token_ok c (all_views c f) msg" for msg
    using that token_ok_mono by blast
  have "confirmed_by ?f j \<le> RING_SIZE c" if "j < RING_SIZE c" for j
    using member_okD(8) [OF ok(1)] member_okD(8) [OF I(2) [OF that]] by (cases "j = i") (auto simp: confirmed_by_def mem)
  then have small: "others c ?f j + RING_SIZE c < u64_max" for j by (rule others_small [OF I(1)])
  have "member_ok c (others c ?f j) (member ?f j) \<and> d_id (member ?f j) = j" if "j < RING_SIZE c" for j
    using ok oi I(2,3) [OF that] member_ok_more [OF _ le small] by (cases "j = i") (auto simp: mem)
  moreover have "train_fit c t" if "t \<in> set (train_link ?f k j)" for t k j
    using that out(1,2) I(4) by (auto simp: member_acts_def split: if_splits)
  moreover have "token_ok c (all_views c ?f) msg" if "msg \<in> set (token_link ?f k j)" for msg k j
    using that out(3,4) I(5) tok unfolding all by (auto simp: member_acts_def split: if_splits)
  ultimately show ?thesis using I(1) by (simp add: fleet_inv_def)
qed

lemma fleet_inv_take:
  assumes "fleet_inv c f"
  shows "fleet_inv c (take_train j i f)" "fleet_inv c (take_token j i f)"
proof -
  note I = fleet_invD [OF assms]
  have "others c (take_train j i f) = others c f" "others c (take_token j i f) = others c f"
    "all_views c (take_train j i f) = all_views c f" "all_views c (take_token j i f) = all_views c f"
    by (simp_all add: fun_eq_iff others_def all_views_def confirmed_by_def take_train_def take_token_def)
  moreover have "train_fit c t" if "t \<in> set (tl (train_link f j i))" for t
    using that I(4) [of t j i] by (cases "train_link f j i") auto
  moreover have "token_ok c (all_views c f) msg" if "msg \<in> set (tl (token_link f j i))" for msg
    using that I(5) [of msg j i] by (cases "token_link f j i") auto
  ultimately show "fleet_inv c (take_train j i f)" "fleet_inv c (take_token j i f)"
    using I by (auto simp: fleet_inv_def take_train_def take_token_def)
qed

lemma new_member:
  assumes c: "valid_config c" and d: "driver_new c i m [0..<RING_SIZE c] b = Some (Inr d)"
  obtains co fd where "node_new c i m = Some co"
    "d = \<lparr>d_id = i, d_n = RING_SIZE c, reconfig = True, addrs = [0..<RING_SIZE c],
      core = (if b then issue_node co else co), detector = fd, vchange = vc_new i (RING_SIZE c), d_dead = {},
      succ = (i + 1) mod RING_SIZE c, outbox = (if b then [fresh_train co] else []), vc_outbox = [],
      retargets = [], shown = []\<rparr>"
    "issue_initial_train c co = Some (issue_node co, fresh_train co)"
proof -
  have N: "0 < RING_SIZE c" using valid_configD(3) [OF c] .
  obtain co fd where new: "node_new c i m = Some co" "fd_new STRIKE_THRESHOLD DISCONNECT_WEIGHT = Some fd"
    using d N by (auto simp: driver_new_def Let_def split: bind_splits if_splits)
  have iss: "issue_initial_train c co = Some (issue_node co, fresh_train co)"
    unfolding issue_initial_train_def by (rule issue_new_train_pure [OF c node_okD(1) [OF node_new_ok [OF new(1)]]])
  show thesis
    by (rule that [OF new(1) _ iss]) (use d new iss N in \<open>cases b; auto simp: driver_new_def Let_def\<close>)
qed

lemma new_member_ok:
  assumes c: "valid_config c" and d: "driver_new c i m [0..<RING_SIZE c] b = Some (Inr d)"
    and b: "b \<Longrightarrow> i < NUM_TRAINS c"
  shows "member_ok c 0 d" "d_id d = i" "dead (vchange d) = {}" "\<And>t. t \<in> set (outbox d) \<Longrightarrow> train_fit c t"
proof -
  obtain co fd where new: "node_new c i m = Some co"
      "d = \<lparr>d_id = i, d_n = RING_SIZE c, reconfig = True, addrs = [0..<RING_SIZE c],
        core = (if b then issue_node co else co), detector = fd, vchange = vc_new i (RING_SIZE c), d_dead = {},
        succ = (i + 1) mod RING_SIZE c, outbox = (if b then [fresh_train co] else []), vc_outbox = [],
        retargets = [], shown = []\<rparr>"
    by (rule new_member [OF c d])
  moreover have "0 < RING_SIZE c" "RING_SIZE c \<le> 30" using valid_configD(2,3) [OF c] by auto
  moreover have "node_id co = i" "next_issue_clock co = 1" using node_new_fields [OF new(1)] by simp_all
  moreover note node_new_ok [OF new(1)] issue_node_ok [OF node_new_ok [OF new(1)]]
  ultimately show "member_ok c 0 d" "d_id d = i" "dead (vchange d) = {}"
    "\<And>t. t \<in> set (outbox d) \<Longrightarrow> train_fit c t"
    using c b
    by (auto simp: member_ok_def driver_ok_def views_def vc_new_def train_fit_def fresh_train_def u64_max_def
        split: if_splits)
qed

interpretation fleet: invariant_system "fleet_init c m" "fleet_step c" "fleet_inv c" for c m
proof
  fix f assume f: "fleet_init c m f"
  then have c: "valid_config c" by (simp add: fleet_init_def)
  have new: "driver_new c i m [0..<RING_SIZE c] (i < NUM_TRAINS c) = Some (Inr (member f i))"
    if "i < RING_SIZE c" for i using f that by (simp add: fleet_init_def)
  note M = new_member_ok [OF c new]
  have "confirmed_by f j = 0" if "j < RING_SIZE c" for j using M(3) [OF that] by (simp add: confirmed_by_def)
  then have "others c f i = 0" for i by (simp add: others_def)
  moreover have "train_fit c t" if "t \<in> set (train_link f i j)" for t i j
    using f that M(4) [of i t] by (auto simp: fleet_init_def split: if_splits)
  moreover have "token_link f i j = []" for i j using f by (simp add: fleet_init_def)
  ultimately show "fleet_inv c f" using c M(1,2) by (simp add: fleet_inv_def)
next
  fix f f' assume inv: "fleet_inv c f" and st: "fleet_step c f f'"
  have go: "fleet_inv c (member_acts i d g)"
    if "fleet_inv c g" "i < RING_SIZE c" "event_ok c (all_views c g) ev" "driver_step c ev (member g i) = Some d"
    for g i ev d
  proof -
    have "runs c (others c g i) (member g i) (driver_step c ev (member g i))"
      using that(3) by (intro driver_step_runs fleet_invD(2) [OF that(1,2)]) (simp only: views_others [OF that(2)])
    then have "grown c (others c g i) (member g i) d" using that(4) by (simp add: runs_def)
    then show ?thesis by (rule fleet_inv_acts [OF that(1,2)])
  qed
  from st show "fleet_inv c f'"
  proof (cases rule: fleet_step.cases)
    case (fleet_stdin i s d)
    then show ?thesis using go [OF inv, of i "Stdin_Line s"] by simp
  next
    case (fleet_timer i d)
    then show ?thesis using go [OF inv, of i Timer] by simp
  next
    case (fleet_unreachable i d)
    then show ?thesis using go [OF inv, of i "Unreachable (succ (member f i))"] by simp
  next
    case (fleet_train i j t ts d)
    have "train_fit c t" using fleet_invD(4) [OF inv, of t j i] fleet_train(3) by simp
    then show ?thesis
      using go [OF fleet_inv_take(1) [OF inv, of j i], of i "Inbox_Train t" d] fleet_train by (simp add: take_train_def)
  next
    case (fleet_token i j msg msgs d)
    have "token_ok c (all_views c f) msg" using fleet_invD(5) [OF inv, of msg j i] fleet_token(3) by simp
    then have "token_ok c (all_views c (take_token j i f)) msg"
      by (simp add: all_views_def confirmed_by_def take_token_def)
    then show ?thesis
      using go [OF fleet_inv_take(2) [OF inv, of j i], of i "Vc_Token msg" d] fleet_token by (simp add: take_token_def)
  qed
qed

section \<open>Executing schedules\<close>

datatype fleet_move = FM_Stdin proc_id "byte list" | FM_Unreachable proc_id | FM_Train proc_id proc_id
  | FM_Token proc_id proc_id

fun fleet_exec :: "config \<Rightarrow> fleet_move \<Rightarrow> fleet \<Rightarrow> fleet option" where
  "fleet_exec c (FM_Stdin i s) f =
     (if i < RING_SIZE c then
        map_option (\<lambda>d. member_acts i d f) (driver_step c (Stdin_Line s) (member f i))
      else None)"
| "fleet_exec c (FM_Unreachable i) f =
     (if i < RING_SIZE c then
        map_option (\<lambda>d. member_acts i d f) (driver_step c (Unreachable (succ (member f i))) (member f i))
      else None)"
| "fleet_exec c (FM_Train j i) f =
     (case train_link f j i of [] \<Rightarrow> None
      | t # ts \<Rightarrow> if i < RING_SIZE c then
          map_option (\<lambda>d. member_acts i d (take_train j i f)) (driver_step c (Inbox_Train t) (member f i))
        else None)"
| "fleet_exec c (FM_Token j i) f =
     (case token_link f j i of [] \<Rightarrow> None
      | msg # msgs \<Rightarrow> if i < RING_SIZE c then
          map_option (\<lambda>d. member_acts i d (take_token j i f)) (driver_step c (Vc_Token msg) (member f i))
        else None)"

lemma fleet_exec_step: "fleet_exec c mv f = Some f' \<Longrightarrow> fleet_step c f f'"
  by (cases mv) (auto split: if_splits list.splits intro: fleet_step.intros)

definition fleet_start :: "config \<Rightarrow> delivery_mode \<Rightarrow> fleet" where
  "fleet_start c m =
     (let ds = (\<lambda>i. case driver_new c i m [0..<RING_SIZE c] (i < NUM_TRAINS c) of
                      Some (Inr d) \<Rightarrow> d | _ \<Rightarrow> undefined)
      in \<lparr>member = ds,
          train_link = (\<lambda>i j. if i < RING_SIZE c \<and> j = succ (ds i) then outbox (ds i) else []),
          token_link = (\<lambda>i j. [])\<rparr>)"

definition late_ring :: config where
  "late_ring = \<lparr>RING_SIZE = 3, NUM_TRAINS = 2, checks = True\<rparr>"

definition late_schedule :: "fleet_move list" where
  "late_schedule = [FM_Stdin 0 [67], FM_Unreachable 0, FM_Token 0 2, FM_Token 2 0, FM_Token 0 2,
     FM_Train 0 2, FM_Stdin 2 [65], FM_Train 1 2, FM_Train 2 0, FM_Train 2 0, FM_Train 0 2, FM_Train 0 2,
     FM_Train 2 0, FM_Train 2 0]"

definition late_run :: "fleet option" where
  "late_run = fold_opt (fleet_exec late_ring) late_schedule (fleet_start late_ring TotalOrder)"

definition late_fleet :: fleet where
  "late_fleet = the late_run"

text \<open>The two payloads: 67 is submitted at member 0, 65 at member 2.\<close>

lemma late_run_eval:
  "case late_run of None \<Rightarrow> False | Some f \<Rightarrow>
     shown (member f 0) = [\<lparr>sender = 0, seq = 0, data = [67]\<rparr>, \<lparr>sender = 2, seq = 0, data = [65]\<rparr>] \<and>
     shown (member f 2) = [\<lparr>sender = 2, seq = 0, data = [65]\<rparr>, \<lparr>sender = 0, seq = 0, data = [67]\<rparr>] \<and>
     installed_view (vchange (member f 0)) = 1 \<and> installed_view (vchange (member f 2)) = 1 \<and>
     \<not> frozen (core (member f 0)) \<and> \<not> frozen (core (member f 2)) \<and>
     d_dead (member f 0) = {1} \<and> d_dead (member f 2) = {1} \<and> installed_view (vchange (member f 1)) = 0 \<and>
     length (outbox (member f 1)) = 1 \<and> train_link f 0 2 \<noteq> []"
  by code_simp

lemma fleet_run_reach:
  assumes c: "valid_config c" and "fold_opt (fleet_exec c) mvs (fleet_start c m) = Some f"
  shows "fleet_reach c m f"
proof -
  have N: "0 < RING_SIZE c" using valid_configD(3) [OF c] .
  have new: "\<exists>d. driver_new c i m [0..<RING_SIZE c] b = Some (Inr d)" if "i < RING_SIZE c" for i b
  proof -
    have "node_new c i m \<noteq> None" using that by (simp add: node_new_def)
    then obtain co where co: "node_new c i m = Some co" by blast
    then show ?thesis
      using N issue_new_train_pure [OF c node_okD(1) [OF node_new_ok [OF co]]]
      by (simp add: driver_new_def issue_initial_train_def fd_new_def STRIKE_THRESHOLD_def DISCONNECT_WEIGHT_def Let_def)
  qed
  have "driver_new c i m [0..<RING_SIZE c] (i < NUM_TRAINS c) = Some (Inr (member (fleet_start c m) i))"
    if i: "i < RING_SIZE c" for i
  proof -
    obtain d where "driver_new c i m [0..<RING_SIZE c] (i < NUM_TRAINS c) = Some (Inr d)" using new [OF i] by blast
    then show ?thesis by (simp add: fleet_start_def)
  qed
  moreover have "train_link (fleet_start c m) =
      (\<lambda>i j. if i < RING_SIZE c \<and> j = succ (member (fleet_start c m) i) then outbox (member (fleet_start c m) i) else [])"
    "token_link (fleet_start c m) = (\<lambda>i j. [])"
    unfolding fleet_start_def Let_def by (simp_all cong: if_cong)
  ultimately have "fleet_init c m (fleet_start c m)" using c by (simp add: fleet_init_def)
  then have "fleet_reach c m (fleet_start c m)" by (rule reach_init)
  then show ?thesis using assms(2) by (rule fold_opt_reach [rotated]) (rule fleet_exec_step)
qed

lemma late_fleet_facts:
  "late_run = Some late_fleet"
  "shown (member late_fleet 0) = [\<lparr>sender = 0, seq = 0, data = [67]\<rparr>, \<lparr>sender = 2, seq = 0, data = [65]\<rparr>]"
  "shown (member late_fleet 2) = [\<lparr>sender = 2, seq = 0, data = [65]\<rparr>, \<lparr>sender = 0, seq = 0, data = [67]\<rparr>]"
  "installed_view (vchange (member late_fleet 0)) = 1" "installed_view (vchange (member late_fleet 2)) = 1"
  "\<not> frozen (core (member late_fleet 0))" "\<not> frozen (core (member late_fleet 2))"
  "d_dead (member late_fleet 0) = {1}" "d_dead (member late_fleet 2) = {1}" "train_link late_fleet 0 2 \<noteq> []"
  using case_option_the [OF late_run_eval, folded late_fleet_def] by (simp_all only: simp_thms)

lemma late_fleet_reach: "fleet_reach late_ring TotalOrder late_fleet"
proof -
  have "valid_config late_ring" by (simp add: late_ring_def valid_config_def)
  then show ?thesis using late_fleet_facts(1) unfolding late_run_def by (rule fleet_run_reach)
qed

section \<open>Properties\<close>

text \<open>C16. A deployed ring never panics on its own traffic: whatever members crash or are suspected and
  however slow the links are, in every state the fleet can reach each member handles a line of input, a
  tick, the signal that an address is unreachable, the next train of any link and the next
  view-change token of any link, exclusions and installed plans included.\<close>

theorem fleet_never_panics:
  assumes "fleet_reach c m f" and "i < RING_SIZE c"
  shows "driver_step c (Stdin_Line s) (member f i) \<noteq> None \<and> driver_step c Timer (member f i) \<noteq> None \<and>
    driver_step c (Unreachable a) (member f i) \<noteq> None \<and>
    (\<forall>j t ts. train_link f j i = t # ts \<longrightarrow> driver_step c (Inbox_Train t) (member f i) \<noteq> None) \<and>
    (\<forall>j msg msgs. token_link f j i = msg # msgs \<longrightarrow> driver_step c (Vc_Token msg) (member f i) \<noteq> None)"
proof -
  have inv: "fleet_inv c f" using assms(1) by (rule fleet.reach_inv)
  have go: "driver_step c ev (member f i) \<noteq> None" if "event_ok c (all_views c f) ev" for ev
    using driver_step_runs [OF fleet_invD(2) [OF inv assms(2)], of ev] that views_others [OF assms(2), of f]
    by (auto simp: runs_def)
  have "train_fit c t" if "train_link f j i = t # ts" for j t ts
    using fleet_invD(4) [OF inv, of t j i] that by simp
  moreover have "token_ok c (all_views c f) msg" if "token_link f j i = msg # msgs" for j msg msgs
    using fleet_invD(5) [OF inv, of msg j i] that by simp
  ultimately show ?thesis by (intro conjI allI impI go) simp_all
qed

theorem fleet_never_panics_witness:
  "\<exists>t. t \<in> set (train_link late_fleet 0 2) \<and> driver_step late_ring (Inbox_Train t) (member late_fleet 2) \<noteq> None"
proof -
  obtain t ts where t: "train_link late_fleet 0 2 = t # ts" using late_fleet_facts(10) by (cases "train_link late_fleet 0 2") auto
  have "2 < RING_SIZE late_ring" by (simp add: late_ring_def)
  then have "driver_step late_ring (Inbox_Train t) (member late_fleet 2) \<noteq> None"
    using fleet_never_panics [OF late_fleet_reach] t by blast
  then show ?thesis using t by (auto simp del: driver_step.simps)
qed

text \<open>C15. Total order does not survive an exclusion when a train of the excluded issuer arrives late. In
  the crash-masking mode, members 0 and 2 exclude member 1, install the same plan and view and resume;
  then the train member 1 had sent before it stopped, above the boundary of the plan, reaches
  member 2 over its old connection. The fence does not stop it, the survivors acknowledge it, and nobody
  waits for a crashed issuer: member 0 delivers the next train of its own first, member 2 delivers
  the late one first. Links keep their order, nothing is lost.\<close>

theorem late_train_breaks_total_order:
  "fleet_reach late_ring TotalOrder late_fleet \<and>
   d_dead (member late_fleet 0) = {1} \<and> d_dead (member late_fleet 2) = {1} \<and>
   installed_view (vchange (member late_fleet 0)) = 1 \<and> installed_view (vchange (member late_fleet 2)) = 1 \<and>
   \<not> frozen (core (member late_fleet 0)) \<and> \<not> frozen (core (member late_fleet 2)) \<and>
   shown (member late_fleet 0) = [\<lparr>sender = 0, seq = 0, data = [67]\<rparr>, \<lparr>sender = 2, seq = 0, data = [65]\<rparr>] \<and>
   shown (member late_fleet 2) = [\<lparr>sender = 2, seq = 0, data = [65]\<rparr>, \<lparr>sender = 0, seq = 0, data = [67]\<rparr>]"
  by (intro conjI late_fleet_reach late_fleet_facts)

end
