(* ===== verification/Fleet_Order.thy ===== *)
theory Fleet_Order
  imports Fleet View_Sync
begin

text \<open>
  What the members of a deployed ring print, up to the first installed view: every run of the fleet
  in which no plan has been applied yet is a run of the network of \<open>View_Net\<close>, through any number of
  suspicions, exclusions and tokens under way.
\<close>

section \<open>The drivers' arms on the core\<close>

text \<open>The only thing an arm does to the core besides a step is to exclude peers.\<close>

inductive excludes :: "config \<Rightarrow> trains_node \<Rightarrow> trains_node \<Rightarrow> bool" for c where
  "v < RING_SIZE c \<Longrightarrow> confirm_crash c v (set_frozen True n) = Some (n', outs) \<Longrightarrow> excludes c n n'"

lemma exclude_core:
  assumes "member_ok c B d" and v: "v < RING_SIZE c" and ex: "exclude c v d = Some d'"
  shows "(excludes c)\<^sup>*\<^sup>* (core d) (core d')" "shown d' = shown d" "outbox d' = outbox d" "vchange d' = vchange d"
proof -
  have v256: "v mod 256 = v" using v valid_configD(2) [OF member_okD(2) [OF assms(1)]] by simp
  have "(core d' = core d \<or> (\<exists>outs. confirm_crash c v (set_frozen True (core d)) = Some (core d', outs))) \<and>
      shown d' = shown d \<and> outbox d' = outbox d \<and> vchange d' = vchange d"
    using ex by (auto simp: exclude_def v256 Let_def split: if_splits bind_splits)
  then show "(excludes c)\<^sup>*\<^sup>* (core d) (core d')" "shown d' = shown d" "outbox d' = outbox d" "vchange d' = vchange d"
    using excludes.intros [OF v] by auto
qed

lemma execute_sends:
  assumes "\<And>a. a \<in> set acts \<Longrightarrow> \<exists>msg. a = Send msg" and "execute c acts d = Some d'"
  shows "core d' = core d" "shown d' = shown d" "outbox d' = outbox d" "vchange d' = vchange d"
proof -
  have "core d' = core d \<and> shown d' = shown d \<and> outbox d' = outbox d \<and> vchange d' = vchange d"
    using assms unfolding execute_def
  proof (induction acts arbitrary: d)
    case (Cons a acts)
    obtain msg where a: "a = Send msg" using Cons.prems(1) by auto
    then have "fold_opt (execute_one c) acts (d\<lparr>vc_outbox := vc_outbox d @ [msg]\<rparr>) = Some d'"
      using Cons.prems(2) by simp
    then show ?case using Cons.IH [of "d\<lparr>vc_outbox := vc_outbox d @ [msg]\<rparr>"] Cons.prems(1) by simp
  qed simp
  then show "core d' = core d" "shown d' = shown d" "outbox d' = outbox d" "vchange d' = vchange d" by auto
qed

lemma on_confirm_sends:
  "on_confirm c v r vc = Some (vc', acts) \<Longrightarrow> a \<in> set acts \<Longrightarrow> \<exists>msg. a = Send msg"
  "on_confirm c v r vc = Some (vc', acts) \<Longrightarrow> installed_view vc' = installed_view vc"
  by (auto simp: on_confirm_def Let_def split: if_splits bind_splits)

lemma start_view_change_core:
  assumes ok: "member_ok c B d" and v: "v < RING_SIZE c" and st: "start_view_change c v w d = Some d'"
  shows "(excludes c)\<^sup>*\<^sup>* (core d) (core d')" "shown d' = shown d" "outbox d' = outbox d"
    "installed_view (vchange d') = installed_view (vchange d)"
proof -
  obtain d1 r vc acts where s: "exclude c v d = Some d1" "on_confirm c w r (vchange d1) = Some (vc, acts)"
      "execute c acts (d1\<lparr>vchange := vc\<rparr>) = Some d'"
    using st by (auto simp: start_view_change_def split: bind_splits)
  note e = exclude_core [OF ok v s(1)] and x = execute_sends [OF on_confirm_sends(1) [OF s(2)] s(3)]
  show "(excludes c)\<^sup>*\<^sup>* (core d) (core d')" "shown d' = shown d" "outbox d' = outbox d"
    "installed_view (vchange d') = installed_view (vchange d)"
    using e x on_confirm_sends(2) [OF s(2)] by simp_all
qed

lemma handle_vc_core:
  assumes ok: "member_ok c B d" and msg: "token_ok c V msg" and st: "handle_vc c msg d = Some d'"
    and quiet: "installed_view (vchange d') = 0"
  shows "(excludes c)\<^sup>*\<^sup>* (core d) (core d') \<and> shown d' = shown d \<and> outbox d' = outbox d \<and>
    installed_view (vchange d) = 0"
proof -
  obtain v where v: "msg_victim msg = Some v" "v < RING_SIZE c" using msg by (cases msg) auto
  obtain d1 r vc acts where s: "exclude c v d = Some d1" "execute c acts (d1\<lparr>vchange := vc\<rparr>) = Some d'"
      "(case msg of Gather _ _ _ _ \<Rightarrow> on_gather c msg r (vchange d1)
         | Install _ _ _ _ \<Rightarrow> on_install msg (vchange d1) | _ \<Rightarrow> (vchange d1, [])) = (vc, acts)"
    using st v(1) by (auto simp: handle_vc_def split: bind_splits prod.splits)
  note e = exclude_core [OF ok v(2) s(1)]
  have vc': "vchange d' = vc"
  proof -
    have "vchange d2 = vchange d0" if "execute c acts d0 = Some d2" for d0 d2
      using that unfolding execute_def
    proof (induction acts arbitrary: d0)
      case (Cons a acts)
      obtain d3 where "execute_one c a d0 = Some d3" "fold_opt (execute_one c) acts d3 = Some d2"
        using Cons.prems by (auto split: bind_splits)
      moreover from this(1) have "vchange d3 = vchange d0"
        by (cases a) (auto simp: show_recovery_def Let_def reissue_train_def split: if_splits bind_splits)
      ultimately show ?case using Cons.IH by simp
    qed simp
    then show ?thesis using s(2) by fastforce
  qed
  have "installed_view vc = 0" using quiet vc' by simp
  then have "installed_view (vchange d1) = 0 \<and> (\<forall>a\<in>set acts. \<exists>msg. a = Send msg)"
    using s(3) by (cases msg) (auto simp: Let_def split: if_splits)
  moreover from this have "core d' = core d1" "shown d' = shown d1" "outbox d' = outbox d1"
    using execute_sends [OF _ s(2)] by auto
  ultimately show ?thesis using e by simp
qed

lemma process_outs_core:
  assumes "member_ok c B d" and "\<And>out. out \<in> set outs \<Longrightarrow> out_ok c out" and "process_outs c outs d = Some d'"
  shows "(excludes c)\<^sup>*\<^sup>* (core d) (core d') \<and> shown d' = shown d @ concat (batches outs) \<and>
    outbox d' = outbox d @ sends outs \<and> installed_view (vchange d') = installed_view (vchange d)"
  using assms unfolding process_outs_def
proof (induction outs arbitrary: d)
  case (Cons out outs)
  obtain d1 where d1: "process_out c out d = Some d1" "fold_opt (process_out c) outs d1 = Some d'"
    using Cons.prems(3) by (auto split: bind_splits)
  have "runs c B d (process_out c out d)" using Cons.prems(1,2) by (intro process_out_runs) auto
  then have ok1: "member_ok c B d1" using d1(1) by (simp add: runs_def grown_def)
  have rest: "(excludes c)\<^sup>*\<^sup>* (core d1) (core d') \<and> shown d' = shown d1 @ concat (batches outs) \<and>
      outbox d' = outbox d1 @ sends outs \<and> installed_view (vchange d') = installed_view (vchange d1)"
    using Cons.prems(2) d1(2) by (intro Cons.IH [OF ok1]) auto
  show ?case
  proof (cases out)
    case (DeclareCrash v)
    have "(excludes c)\<^sup>*\<^sup>* (core d) (core d1) \<and> shown d1 = shown d \<and> outbox d1 = outbox d \<and>
        installed_view (vchange d1) = installed_view (vchange d)"
    proof (cases "is_confirmed (detector d) v")
      case False
      obtain fd w where fw: "record_gap_hint v (detector d) = (fd, w)" by fastforce
      have okf: "member_ok c B (d\<lparr>detector := fd\<rparr>)" using detector_runs [OF Cons.prems(1)] by (simp add: grown_def)
      show ?thesis
      proof (cases w)
        case (Some x)
        have "x = v" using Some fw add_strikes_confirms by (simp add: record_gap_hint_def)
        moreover have "v < RING_SIZE c" using Cons.prems(2) [of out] DeclareCrash by simp
        ultimately show ?thesis
          using start_view_change_core [OF okf, of v v d1] d1(1) False fw Some DeclareCrash member_okD(5) [OF Cons.prems(1)]
          by (simp add: Let_def)
      qed (use d1(1) False fw DeclareCrash in auto)
    qed (use d1(1) DeclareCrash in auto)
    then show ?thesis using rest DeclareCrash by auto
  qed (use d1(1) rest in auto)
qed simp

text \<open>The core input of an event.\<close>

fun event_input :: "nat driver_event \<Rightarrow> node_input option" where
  "event_input (Stdin_Line s) = Some (LocalBroadcast s)"
| "event_input (Inbox_Train t) = Some (TrainReceived t)"
| "event_input Timer = Some Tick"
| "event_input _ = None"

text \<open>An event up to the first installed view: at most one core step, whose outputs are sent and printed,
  then exclusions.\<close>

definition quiet_arm :: "config \<Rightarrow> node_input option \<Rightarrow> nat driver \<Rightarrow> nat driver \<Rightarrow> bool" where
  "quiet_arm c mi d d' \<longleftrightarrow> (\<exists>n outs. (case mi of None \<Rightarrow> n = core d \<and> outs = []
       | Some inp \<Rightarrow> step c inp (core d) = Some (n, outs)) \<and>
     shown d' = shown d @ concat (batches outs) \<and> outbox d' = outbox d @ sends outs \<and>
     (excludes c)\<^sup>*\<^sup>* n (core d') \<and> installed_view (vchange d) = 0)"

lemma step_core_quiet:
  assumes ok: "member_ok c B d" and inp: "\<And>t. inp = TrainReceived t \<Longrightarrow> train_fit c t"
    and st: "step_core c inp d = Some d'" and quiet: "installed_view (vchange d') = 0"
  shows "quiet_arm c (Some inp) d d'"
proof -
  note D = member_okD [OF ok]
  obtain co outs where s: "step c inp (core d) = Some (co, outs)" "process_outs c outs (d\<lparr>core := co\<rparr>) = Some d'"
    using st by (auto simp: step_core_def split: bind_splits)
  have "member_ok c B (d\<lparr>core := co\<rparr>)"
    using step_core_grown [OF ok inp s(1)] by (simp add: grown_def)
  then show ?thesis
    using process_outs_core [OF _ step_outs_ok [OF D(2,3) inp s(1)] s(2)] s(1) quiet by (auto simp: quiet_arm_def)
qed

lemma driver_step_quiet:
  assumes ok: "member_ok c B d" and ev: "event_ok c (views B d) ev" and st: "driver_step c ev d = Some d'"
    and quiet: "installed_view (vchange d') = 0"
  shows "quiet_arm c (event_input ev) d d'"
proof (cases ev)
  case (Stdin_Line s)
  then show ?thesis using step_core_quiet [OF ok _ _ quiet, of "LocalBroadcast s"] st by simp
next
  case (Inbox_Train t)
  let ?d = "d\<lparr>detector := note_alive (issuer t) (detector d)\<rparr>"
  have "member_ok c B ?d" using detector_runs [OF ok] by (simp add: grown_def)
  then have "quiet_arm c (Some (TrainReceived t)) ?d d'"
    using ev st Inbox_Train by (intro step_core_quiet [OF _ _ _ quiet]) auto
  then show ?thesis using Inbox_Train by (simp add: quiet_arm_def)
next
  case (Vc_Token msg)
  then show ?thesis
    using handle_vc_core [OF ok _ _ quiet, of "views B d" msg] ev st member_okD(5) [OF ok] by (simp add: quiet_arm_def)
next
  case (Unreachable a)
  show ?thesis
  proof (cases "position a (addrs d)")
    case None
    then show ?thesis using Unreachable st quiet by (auto simp: quiet_arm_def split: if_splits)
  next
    case (Some v)
    then have v: "v < RING_SIZE c" using position_less [OF Some] ok by (simp add: member_ok_def)
    then have v256: "v mod 256 = v" using valid_configD(2) [OF member_okD(2) [OF ok]] by simp
    obtain fd w where fw: "record_disconnect v (detector d) = (fd, w)" by fastforce
    have okf: "member_ok c B (d\<lparr>detector := fd\<rparr>)" using detector_runs [OF ok] by (simp add: grown_def)
    have "d' = d \<or> d' = d\<lparr>detector := fd\<rparr> \<or> (\<exists>x. start_view_change c v x (d\<lparr>detector := fd\<rparr>) = Some d')"
      using Unreachable st Some fw v256 member_okD(5) [OF ok] by (cases w) (auto split: if_splits)
    then show ?thesis
      using start_view_change_core [OF okf v] quiet Unreachable by (auto simp: quiet_arm_def)
  qed
next
  case Timer
  then show ?thesis using step_core_quiet [OF ok _ _ quiet, of Tick] st by simp
qed

section \<open>The simulation\<close>

definition fleet_sim :: "config \<Rightarrow> fleet \<Rightarrow> vnet \<Rightarrow> bool" where
  "fleet_sim c f x \<longleftrightarrow>
     (\<forall>i<RING_SIZE c. nodes (vn x) i = core (member f i) \<and> shown (member f i) = concat (dlog (vn x) i)) \<and>
     (\<forall>i j t. t \<in> set (train_link f i j) \<longrightarrow> t \<in> sent (vn x))"

text \<open>No member has applied a plan.\<close>

definition first_view :: "config \<Rightarrow> fleet \<Rightarrow> bool" where
  "first_view c f \<longleftrightarrow> (\<forall>i<RING_SIZE c. installed_view (vchange (member f i)) = 0)"

text \<open>\<open>y\<close> is \<open>x\<close> with member \<open>i\<close> at \<open>n\<close>, after some steps.\<close>

definition moved :: "config \<Rightarrow> proc_id \<Rightarrow> trains_node \<Rightarrow> node_output list \<Rightarrow> vnet \<Rightarrow> vnet \<Rightarrow> bool" where
  "moved c i n outs x y \<longleftrightarrow> (view_step c)\<^sup>*\<^sup>* x y \<and> nodes (vn y) = (nodes (vn x))(i := n) \<and>
     sent (vn y) = sent (vn x) \<union> set (sends outs) \<and> dlog (vn y) = (dlog (vn x))(i := dlog (vn x) i @ batches outs)"

lemma moved_step:
  assumes i: "i < RING_SIZE c" and st: "step c inp (nodes (vn x) i) = Some (n, outs)"
    and inp: "\<And>t. inp = TrainReceived t \<Longrightarrow> t \<in> sent (vn x)"
  shows "\<exists>y. moved c i n outs x y"
proof -
  have "\<exists>s. soup_step c (vn x) s \<and> nodes s = (nodes (vn x))(i := n) \<and> sent s = sent (vn x) \<union> set (sends outs) \<and>
      dlog s = (dlog (vn x))(i := dlog (vn x) i @ batches outs)"
  proof (cases inp)
    case (TrainReceived t)
    then have "soup_step c (vn x) (net_apply i (n, outs) (vn x))" using i st inp by (intro soup_recv) auto
    then show ?thesis by (intro exI conjI) (assumption, simp_all add: net_apply_def)
  next
    case (LocalBroadcast bs)
    then have "soup_step c (vn x) (submit i bs (net_apply i (n, outs) (vn x)))" using i st by (intro soup_bcast) auto
    then show ?thesis by (intro exI conjI) (assumption, simp_all add: net_apply_def submit_def)
  next
    case Tick
    then have "soup_step c (vn x) (net_apply i (n, outs) (vn x))" using i st by (intro soup_tick) auto
    then show ?thesis by (intro exI conjI) (assumption, simp_all add: net_apply_def)
  qed
  then obtain s where s: "soup_step c (vn x) s" "nodes s = (nodes (vn x))(i := n)"
      "sent s = sent (vn x) \<union> set (sends outs)" "dlog s = (dlog (vn x))(i := dlog (vn x) i @ batches outs)" by blast
  have "view_step c x (x\<lparr>vn := s\<rparr>)" using s(1) by (rule view_protocol)
  then have "moved c i n outs x (x\<lparr>vn := s\<rparr>)" using s by (simp add: moved_def)
  then show ?thesis ..
qed

lemma moved_excludes:
  assumes i: "i < RING_SIZE c" and ex: "(excludes c)\<^sup>*\<^sup>* n n'" and m: "moved c i n outs x y"
  shows "\<exists>z. moved c i n' outs x z"
  using ex
proof (induction rule: rtranclp_induct)
  case base
  then show ?case using m by blast
next
  case (step n1 n2)
  then obtain y where y: "moved c i n1 outs x y" by blast
  obtain v o2 where v: "v < RING_SIZE c" "confirm_crash c v (set_frozen True n1) = Some (n2, o2)"
    using step(2) by (auto simp: excludes.simps)
  let ?z = "y\<lparr>vn := net_apply i (n2, o2) (vn y)\<rparr>"
  note m = y [unfolded moved_def]
  have o2: "o2 = []" using exclude_effect(1) [OF v(2)] by simp
  have "nodes (vn y) i = n1" using m by simp
  then have "view_step c y ?z" using i v by (intro view_exclude [of i c v]) simp_all
  then have "(view_step c)\<^sup>*\<^sup>* x ?z" using m by (blast intro: rtranclp.rtrancl_into_rtrancl)
  moreover have "nodes (vn ?z) = (nodes (vn x))(i := n2)" "sent (vn ?z) = sent (vn x) \<union> set (sends outs)"
    "dlog (vn ?z) = (dlog (vn x))(i := dlog (vn x) i @ batches outs)"
    using m o2 by (simp_all add: net_apply_def)
  ultimately have "moved c i n2 outs x ?z" unfolding moved_def by blast
  then show ?case ..
qed

lemma quiet_arm_sim:
  assumes i: "i < RING_SIZE c" and sim: "fleet_sim c f x" and arm: "quiet_arm c mi (member f i) d"
    and inp: "\<And>t. mi = Some (TrainReceived t) \<Longrightarrow> t \<in> sent (vn x)"
  shows "\<exists>y. (view_step c)\<^sup>*\<^sup>* x y \<and> fleet_sim c (member_acts i d f) y"
proof -
  have node: "nodes (vn x) i = core (member f i)" using sim i by (simp add: fleet_sim_def)
  obtain n outs where a: "case mi of None \<Rightarrow> n = core (member f i) \<and> outs = []
      | Some inp \<Rightarrow> step c inp (core (member f i)) = Some (n, outs)"
      "shown d = shown (member f i) @ concat (batches outs)" "outbox d = outbox (member f i) @ sends outs"
      "(excludes c)\<^sup>*\<^sup>* n (core d)"
    using arm by (auto simp: quiet_arm_def)
  have "\<exists>y. moved c i n outs x y"
  proof (cases mi)
    case None
    then have "moved c i n outs x x" using a(1) node by (simp add: moved_def fun_upd_idem)
    then show ?thesis ..
  next
    case (Some inp)
    then show ?thesis using moved_step [OF i] a(1) node inp by simp
  qed
  then obtain y where y: "moved c i (core d) outs x y" using moved_excludes [OF i a(4)] by blast
  have "fleet_sim c (member_acts i d f) y"
    using sim y a(2,3) by (auto simp: fleet_sim_def moved_def member_acts_def split: if_splits)
  then show ?thesis using y by (auto simp: moved_def)
qed

lemma first_view_step:
  assumes inv: "fleet_inv c f" and st: "fleet_step c f f'" and quiet: "first_view c f'"
  shows "first_view c f"
    "fleet_sim c f x \<Longrightarrow> \<exists>y. (view_step c)\<^sup>*\<^sup>* x y \<and> fleet_sim c f' y"
proof -
  have go: "first_view c f \<and> (fleet_sim c f x \<longrightarrow> (\<exists>y. (view_step c)\<^sup>*\<^sup>* x y \<and> fleet_sim c f' y))"
    if i: "i < RING_SIZE c" and st: "driver_step c ev (member f i) = Some d" and f': "f' = member_acts i d g"
      and g: "member g = member f" "\<And>j k. set (train_link g j k) \<subseteq> set (train_link f j k)"
      and ev: "event_ok c (all_views c f) ev"
      and tr: "\<And>t. ev = Inbox_Train t \<Longrightarrow> \<exists>j k. t \<in> set (train_link f j k)" for i ev d g
  proof -
    have "event_ok c (views (others c f i) (member f i)) ev" using ev by (simp only: views_others [OF i])
    moreover have "installed_view (vchange d) = 0" using quiet [unfolded first_view_def, rule_format, OF i] f' by (simp add: member_acts_def)
    ultimately have arm: "quiet_arm c (event_input ev) (member f i) d"
      by (rule driver_step_quiet [OF fleet_invD(2) [OF inv i] _ st])
    have "first_view c f"
      using quiet arm f' g(1) by (auto simp: first_view_def quiet_arm_def member_acts_def split: if_splits)
    moreover have "\<exists>y. (view_step c)\<^sup>*\<^sup>* x y \<and> fleet_sim c f' y" if sim: "fleet_sim c f x"
    proof -
      have sg: "fleet_sim c g x" using sim g(1) subsetD [OF g(2)] unfolding fleet_sim_def by metis
      have "t \<in> sent (vn x)" if "event_input ev = Some (TrainReceived t)" for t
        using that tr sim by (cases ev) (auto simp: fleet_sim_def)
      then show ?thesis unfolding f' using arm g(1) by (intro quiet_arm_sim [OF i sg]) simp_all
    qed
    ultimately show ?thesis by blast
  qed
  have "first_view c f \<and> (fleet_sim c f x \<longrightarrow> (\<exists>y. (view_step c)\<^sup>*\<^sup>* x y \<and> fleet_sim c f' y))"
    using st
  proof (cases rule: fleet_step.cases)
    case (fleet_stdin i s d)
    then show ?thesis by (intro go [of i "Stdin_Line s" d f]) simp_all
  next
    case (fleet_timer i d)
    then show ?thesis by (intro go [of i Timer d f]) simp_all
  next
    case (fleet_unreachable i d)
    then show ?thesis by (intro go [of i "Unreachable (succ (member f i))" d f]) simp_all
  next
    case (fleet_train i j t ts d)
    have "event_ok c (all_views c f) (Inbox_Train t)" using fleet_invD(4) [OF inv, of t j i] fleet_train(3) by simp
    moreover have "\<exists>j k. t \<in> set (train_link f j k)" using fleet_train(3) by (metis list.set_intros(1))
    moreover have "set (train_link (take_train j i f) k l) \<subseteq> set (train_link f k l)" for k l
      using fleet_train(3) by (auto simp: take_train_def)
    ultimately show ?thesis
      using fleet_train by (intro go [of i "Inbox_Train t" d "take_train j i f"]) (simp_all add: take_train_def)
  next
    case (fleet_token i j msg msgs d)
    have "event_ok c (all_views c f) (Vc_Token msg)" using fleet_invD(5) [OF inv, of msg j i] fleet_token(3) by simp
    then show ?thesis
      using fleet_token by (intro go [of i "Vc_Token msg" d "take_token j i f"]) (auto simp: take_token_def)
  qed
  then show "first_view c f" "fleet_sim c f x \<Longrightarrow> \<exists>y. (view_step c)\<^sup>*\<^sup>* x y \<and> fleet_sim c f' y" by auto
qed

text \<open>The trains issued at the start.\<close>

lemma fleet_start_sim:
  assumes f: "fleet_init c m f"
  shows "\<exists>x. view_reach c m x \<and> fleet_sim c f x"
proof -
  have c: "valid_config c" using f by (simp add: fleet_init_def)
  define new where "new i = the (node_new c i m)" for i
  have new: "node_new c i m = Some (new i)" "shown (member f i) = []"
      "core (member f i) = (if i < NUM_TRAINS c then issue_node (new i) else new i)"
      "outbox (member f i) = (if i < NUM_TRAINS c then [fresh_train (new i)] else [])"
      "issue_initial_train c (new i) = Some (issue_node (new i), fresh_train (new i))" if i: "i < RING_SIZE c" for i
  proof -
    have "driver_new c i m [0..<RING_SIZE c] (i < NUM_TRAINS c) = Some (Inr (member f i))"
      using f i by (simp add: fleet_init_def)
    then show "node_new c i m = Some (new i)" "shown (member f i) = []"
      "core (member f i) = (if i < NUM_TRAINS c then issue_node (new i) else new i)"
      "outbox (member f i) = (if i < NUM_TRAINS c then [fresh_train (new i)] else [])"
      "issue_initial_train c (new i) = Some (issue_node (new i), fresh_train (new i))"
      by (rule new_member [OF c]; simp add: new_def)+
  qed
  have NT: "i < RING_SIZE c" if "i < NUM_TRAINS c" for i using that valid_configD(5) [OF c] by simp
  have "k \<le> NUM_TRAINS c \<Longrightarrow> \<exists>x. view_reach c m x \<and> dlog (vn x) = (\<lambda>_. []) \<and>
      (\<forall>i<RING_SIZE c. nodes (vn x) i = (if i < k then issue_node (new i) else new i)) \<and>
      (\<forall>i<k. fresh_train (new i) \<in> sent (vn x))" for k
  proof (induction k)
    case 0
    let ?x = "\<lparr>vn = \<lparr>nodes = new, sent = {}, dlog = (\<lambda>_. []), submitted = (\<lambda>_. [])\<rparr>, vreports = (\<lambda>_. None)\<rparr>"
    have "view_init c m ?x" using c new(1) by (simp add: view_init_def soup_init_def)
    then have "view_reach c m ?x" by (rule reach_init)
    then show ?case by (intro exI conjI) (assumption, simp_all)
  next
    case (Suc k)
    then obtain x where x: "view_reach c m x" "dlog (vn x) = (\<lambda>_. [])"
        "\<forall>i<RING_SIZE c. nodes (vn x) i = (if i < k then issue_node (new i) else new i)"
        "\<forall>i<k. fresh_train (new i) \<in> sent (vn x)" by auto
    have k: "k < NUM_TRAINS c" "k < RING_SIZE c" using Suc.prems NT by simp_all
    then have node: "nodes (vn x) k = new k" using x(3) by simp
    let ?s = "net_apply k (issue_node (new k), [ForwardTrain (fresh_train (new k))]) (vn x)"
    have "soup_step c (vn x) ?s" using k(1) new(5) [OF k(2)] node by (intro soup_issue) simp_all
    then have "view_step c x (x\<lparr>vn := ?s\<rparr>)" by (rule view_protocol)
    with x(1) have "view_reach c m (x\<lparr>vn := ?s\<rparr>)" by (rule reach_step)
    then show ?case using x(2-4) by (intro exI conjI) (assumption, auto simp: net_apply_def less_Suc_eq)
  qed
  then obtain x where x: "view_reach c m x" "dlog (vn x) = (\<lambda>_. [])"
      "\<forall>i<RING_SIZE c. nodes (vn x) i = (if i < NUM_TRAINS c then issue_node (new i) else new i)"
      "\<forall>i<NUM_TRAINS c. fresh_train (new i) \<in> sent (vn x)" by blast
  have "t \<in> sent (vn x)" if "t \<in> set (train_link f i j)" for i j t
    using that f new(4) [of i] x(4) by (auto simp: fleet_init_def split: if_splits)
  then have "fleet_sim c f x" using new(2,3) x(2,3) by (simp add: fleet_sim_def)
  then show ?thesis using x(1) by blast
qed

interpretation fleet_view: simulation_system "fleet_init c m" "fleet_step c" "view_reach c m" "view_step c"
  "\<lambda>f x. first_view c f \<longrightarrow> fleet_sim c f x" for c m
proof
  show "\<exists>x. view_reach c m x \<and> (first_view c f \<longrightarrow> fleet_sim c f x)" if "fleet_init c m f" for f
    using fleet_start_sim [OF that] by blast
  show "\<exists>y. (view_step c)\<^sup>*\<^sup>* x y \<and> (first_view c f' \<longrightarrow> fleet_sim c f' y)"
    if "fleet_reach c m f" "first_view c f \<longrightarrow> fleet_sim c f x" "fleet_step c f f'" for f f' x
    using first_view_step [OF fleet.reach_inv [OF that(1)] that(3)] that(2) by blast
qed

lemma fleet_first_view:
  assumes "fleet_reach c m f" and "first_view c f"
  obtains x where "view_reach c m x" "fleet_sim c f x"
  using fleet_view.reach_sim [OF assms(1)] assms(2) reach_reach that by metis

section \<open>A run with an exclusion under way\<close>

text \<open>Members 1 and 2 have printed, member 0 has not; then 0 excludes 1 and tells 2.\<close>

definition gather_schedule :: "fleet_move list" where
  "gather_schedule = [FM_Train 0 1, FM_Train 1 2, FM_Train 1 2, FM_Stdin 0 [67], FM_Train 2 0, FM_Train 2 0,
     FM_Train 0 1, FM_Train 0 1, FM_Train 1 2, FM_Train 1 2, FM_Unreachable 0, FM_Token 0 2]"

definition gather_run :: "fleet option" where
  "gather_run = fold_opt (fleet_exec late_ring) gather_schedule (fleet_start late_ring TotalOrder)"

definition gather_fleet :: fleet where
  "gather_fleet = the gather_run"

lemma gather_run_eval:
  "case gather_run of None \<Rightarrow> False | Some f \<Rightarrow>
     shown (member f 0) = [] \<and> shown (member f 2) = [\<lparr>sender = 0, seq = 0, data = [67]\<rparr>] \<and>
     d_dead (member f 0) = {1} \<and> d_dead (member f 2) = {1} \<and>
     list_all (\<lambda>i. installed_view (vchange (member f i)) = 0 \<and> next_issue_clock (core (member f i)) < u64_max) [0,1,2]"
  by code_simp

lemma gather_fleet_facts:
  "gather_run = Some gather_fleet" "shown (member gather_fleet 0) = []"
  "shown (member gather_fleet 2) = [\<lparr>sender = 0, seq = 0, data = [67]\<rparr>]"
  "d_dead (member gather_fleet 0) = {1}" "d_dead (member gather_fleet 2) = {1}"
  "list_all (\<lambda>i. installed_view (vchange (member gather_fleet i)) = 0 \<and>
     next_issue_clock (core (member gather_fleet i)) < u64_max) [0,1,2]"
  using case_option_the [OF gather_run_eval, folded gather_fleet_def] by (simp_all only: simp_thms)

section \<open>Properties\<close>

text \<open>C14. In a deployed ring, up to the first installed view, whatever was suspected, excluded or
  gathered meanwhile, and in whatever order lines, trains, tokens and timers are handled: what one
  member has printed is a prefix of what the other has printed, and nobody prints a message twice,
  as long as no clock has been used up.\<close>

theorem fleet_prints_one_order:
  assumes "fleet_reach c m f" and "first_view c f"
    and "\<forall>k<RING_SIZE c. next_issue_clock (core (member f k)) < u64_max"
    and "i < RING_SIZE c" and "j < RING_SIZE c"
  shows "(prefix (shown (member f i)) (shown (member f j)) \<or> prefix (shown (member f j)) (shown (member f i))) \<and>
    distinct (map payload_id (shown (member f i)))"
proof -
  obtain x where x: "view_reach c m x" "fleet_sim c f x" by (rule fleet_first_view [OF assms(1,2)])
  have "clocks_left c (vn x)" using x(2) assms(3) by (simp add: fleet_sim_def clocks_left_def)
  then obtain C where C: "soup_inv c C (bare_net (vn x))" using view_invD(6) [OF view.reach_inv [OF x(1)]] by blast
  then show ?thesis
    using soup_inv_consistent [OF C assms(4,5)] soup_inv_no_duplicates [OF C assms(4)] x(2) assms(4,5) prefix_concat
    by (auto simp: fleet_sim_def)
qed

theorem fleet_prints_one_order_witness:
  "d_dead (member gather_fleet 0) = {1} \<and> d_dead (member gather_fleet 2) = {1} \<and>
   shown (member gather_fleet 2) = [\<lparr>sender = 0, seq = 0, data = [67]\<rparr>] \<and>
   (prefix (shown (member gather_fleet 0)) (shown (member gather_fleet 2)) \<or>
    prefix (shown (member gather_fleet 2)) (shown (member gather_fleet 0)))"
proof -
  have N: "RING_SIZE late_ring = 3" by (simp add: late_ring_def)
  have "fleet_reach late_ring TotalOrder gather_fleet"
    by (rule fleet_run_reach [OF _ gather_fleet_facts(1) [unfolded gather_run_def]])
      (simp add: late_ring_def valid_config_def)
  moreover have "first_view late_ring gather_fleet"
    "\<forall>k<RING_SIZE late_ring. next_issue_clock (core (member gather_fleet k)) < u64_max"
    using gather_fleet_facts(6) by (simp_all add: N first_view_def numeral_3_eq_3 numeral_2_eq_2 less_Suc_eq all_conj_distrib)
  ultimately show ?thesis
    using fleet_prints_one_order [of late_ring TotalOrder gather_fleet 0 2] gather_fleet_facts(3-5) by (simp add: N)
qed

end
