(* ===== verification/Ring_Hop.thy ===== *)
theory Ring_Hop
  imports Ring
begin

text \<open>
  One hop of a train, exactly: what the node that receives it forwards, what it has taken in,
  and how its clocks, issue clock and pending list change. The cases are those of
  \<open>step_cases\<close>; a node is \<open>plain\<close> when no view change has touched it. These equations carry the
  liveness proof of the ring.
\<close>

section \<open>Plain nodes, taken keys\<close>

definition plain :: "config \<Rightarrow> delivery_mode \<Rightarrow> trains_node \<Rightarrow> bool" where
  "plain c m n \<longleftrightarrow> mode (delivery n) = m \<and> \<not> frozen n \<and> view_floor n = replicate (RING_SIZE c) 0 \<and>
     crashed_bits (delivery n) = 0"

text \<open>A key is taken at a node when it is delivered or waits, fully acknowledged, for its turn.\<close>

definition taken :: "trains_node \<Rightarrow> clock_key \<Rightarrow> bool" where
  "taken n k \<longleftrightarrow> k \<in> done_keys (delivery n) \<or> k \<in> set (btm_keys (parked n))"

definition recycles :: "trains_node \<Rightarrow> train \<Rightarrow> bool" where
  "recycles n t \<longleftrightarrow> issuer t = node_id n \<and> key_of t \<in> done_keys (delivery n)"

definition loads :: "trains_node \<Rightarrow> train \<Rightarrow> bool" where
  "loads n t \<longleftrightarrow> issuer t \<noteq> node_id n \<and> seen (clocks n) ! issuer t < clock t"

definition hop_train :: "trains_node \<Rightarrow> train \<Rightarrow> train" where
  "hop_train n t = (if recycles n t then fresh_train n else if loads n t then load_train n t else t)"

definition hop_ok :: "config \<Rightarrow> delivery_mode \<Rightarrow> train \<Rightarrow> trains_node \<Rightarrow> trains_node \<Rightarrow> node_output list \<Rightarrow> bool" where
  "hop_ok c m t n n' outs \<longleftrightarrow>
     sends outs = [hop_train n t] \<and> declared outs = (if loads n t \<and> Suc (seen (clocks n) ! issuer t) < clock t then [issuer t] else []) \<and>
     node_ok c n' \<and> plain c m n' \<and> node_id n' = node_id n \<and>
     (\<forall>k. taken n k \<longrightarrow> taken n' k) \<and> (\<forall>k. taken n' k \<longrightarrow> taken n k \<or> k = key_of t) \<and>
     done_keys (delivery n) \<subseteq> done_keys (delivery n') \<and>
     (\<forall>q<RING_SIZE c. seen (clocks n') ! q =
        (if q = issuer t then max (seen (clocks n) ! q) (clock t) else seen (clocks n) ! q)) \<and>
     next_issue_clock n' = (if recycles n t then sat_add64 (next_issue_clock n) 1 else next_issue_clock n) \<and>
     pending n' = (if recycles n t \<or> loads n t then [] else pending n)"

lemma taken_delivers:
  assumes "delivers c n ts n'" and "taken n k"
  shows "taken n' k"
  using assms(2) delivers_done [OF assms(1)] delivers_parked [OF assms(1)]
  by (auto simp: taken_def image_iff)

lemma keys_or_insert: "fst ` set (btm_or_insert k v m) = insert k (fst ` set m)"
proof (cases "btm_get m k")
  case None
  then show ?thesis using set_keys_btm_insert [of k v m] by (simp add: btm_or_insert_def)
next
  case (Some w)
  then have "k \<in> fst ` set m" by (metis domI dom_map_of_conv_image_fst)
  then show ?thesis using Some by (auto simp: btm_or_insert_def)
qed

lemma maybe_park_taken: "maybe_park c t n n1 \<Longrightarrow> taken n k \<Longrightarrow> taken n1 k"
  unfolding maybe_park_def taken_def by (elim disjE conjE) (simp_all add: keys_or_insert)

text \<open>Deliveries and parking add no key but that of the train at hand.\<close>

lemma taken_delivers_only:
  assumes "delivers c n ts n'" and "taken n' k"
  shows "taken n k \<or> k \<in> key_of ` set ts"
  using assms(2) delivers_done [OF assms(1)] delivers_parked [OF assms(1)] by (auto simp: taken_def)

lemma parked_taken: "node_wf c n \<Longrightarrow> u \<in> snd ` set (parked n) \<Longrightarrow> taken n (key_of u)"
  by (force simp: taken_def node_wf_def)

lemma delivery_run_only:
  assumes "delivery_run c t n ts n'" and "node_wf c n" and "taken n' k"
  shows "taken n k \<or> k = key_of t"
proof -
  obtain n1 where n1: "maybe_park c t n n1" "delivers c n1 ts n'"
    using assms(1) by (auto simp: delivery_run_def)
  have "taken n1 k \<or> k \<in> key_of ` set ts" by (rule taken_delivers_only [OF n1(2) assms(3)])
  then show ?thesis
  proof
    assume "taken n1 k"
    then show ?thesis using n1(1) unfolding maybe_park_def taken_def
      by (elim disjE conjE) (simp_all add: keys_or_insert, blast)
  next
    assume "k \<in> key_of ` set ts"
    then obtain u where "u \<in> set ts" "k = key_of u" by blast
    moreover from this have "u \<in> snd ` set (parked n) \<or> u = t" using assms(1) unfolding delivery_run_def by blast
    ultimately show ?thesis using parked_taken [OF assms(2)] by blast
  qed
qed

lemma delivery_run_taken:
  assumes "delivery_run c t n ts n'"
  shows "plain c m n \<Longrightarrow> plain c m n'" "\<And>k. taken n k \<Longrightarrow> taken n' k"
    "done_keys (delivery n) \<subseteq> done_keys (delivery n')"
proof -
  obtain n1 where n1: "maybe_park c t n n1" "delivers c n1 ts n'"
    using assms by (auto simp: delivery_run_def)
  note fr = delivers_frame [OF n1(2)]
  have same: "delivery n1 = delivery n" "frozen n1 = frozen n" "view_floor n1 = view_floor n"
    using n1(1) by (auto simp: maybe_park_def)
  show "plain c m n \<Longrightarrow> plain c m n'" using fr same by (simp add: plain_def)
  show "taken n k \<Longrightarrow> taken n' k" for k using taken_delivers [OF n1(2)] maybe_park_taken [OF n1(1)] by blast
  show "done_keys (delivery n) \<subseteq> done_keys (delivery n')" using delivers_done [OF n1(2)] same(1) by simp
qed

lemmas delivery_run_facts = delivery_run_frame delivery_run_taken

lemma declared_gap [simp]:
  "declared (gap_outs t n) = (if Suc (seen (clocks n) ! issuer t) < clock t then [issuer t] else [])"
  by (simp add: gap_outs_def)

lemma recv_hop:
  assumes c: "valid_config c" and ok: "node_ok c n" and pl: "plain c m n"
    and t: "issuer t < RING_SIZE c" "1 \<le> clock t" "clock t \<le> u64_max"
    and st: "step c (TrainReceived t) n = Some (n', outs)"
  shows "hop_ok c m t n n' outs"
  using c ok t(1) t(3)
proof (cases rule: step_cases)
  case fenced
  then show ?thesis using pl t by (simp add: plain_def)
next
  case (replay n1 ts us)
  note D = delivery_run_facts [OF replay(5)]
  have nm: "n' = n1" "outs = deliver_outs ts @ [ForwardTrain t] @ deliver_outs us" using st replay(4) by simp_all
  have not: "\<not> recycles n t" "\<not> loads n t" using replay(1,3) by (simp_all add: recycles_def loads_def)
  have "taken (note_payloads (payloads t) n) k = taken n k" for k by (simp add: taken_def)
  moreover have "plain c m (note_payloads (payloads t) n)" using pl by (simp add: plain_def)
  moreover have "taken n1 k \<Longrightarrow> taken (note_payloads (payloads t) n) k \<or> k = key_of t" for k
    using delivery_run_only [OF replay(5) node_okD(1) [OF note_payloads_ok [OF ok]]] by blast
  ultimately show ?thesis
    using D replay(3,6) not by (auto simp: hop_ok_def nm hop_train_def)
next
  case (first n1 ts)
  note D = delivers_frame [OF first(5)]
  have nm: "n' = n1" "outs = gap_outs t n @ [ForwardTrain (load_train n t)] @ deliver_outs ts" using st first(4) by simp_all
  have ld: "\<not> recycles n t" "loads n t" using first(1,3) by (simp_all add: recycles_def loads_def)
  have "taken (load_node t n) k = taken n k" for k by (simp add: taken_def)
  then have tk: "taken n k \<Longrightarrow> taken n1 k" "taken n1 k \<Longrightarrow> taken n k" for k
    using taken_delivers [OF first(5)] taken_delivers_only [OF first(5)] first(6)
      parked_taken [OF node_okD(1) [OF ok]] by blast+
  have pl': "plain c m n1" using D pl by (simp add: plain_def)
  have sn: "seen (clocks n1) ! q = (if q = issuer t then max (seen (clocks n) ! q) (clock t) else seen (clocks n) ! q)"
    if "q < RING_SIZE c" for q
    using D(2) seen_raise_seen [OF node_wfD(2) [OF node_okD(1) [OF ok]] that] by simp
  have dn: "done_keys (delivery n) \<subseteq> done_keys (delivery n1)" using delivers_done [OF first(5)] by simp
  show ?thesis
    using D(1,5,7) first(8) ld tk pl' sn dn by (auto simp: hop_ok_def nm hop_train_def)
next
  case recycle
  have rc: "recycles n t" "\<not> loads n t" using recycle by (simp_all add: recycles_def loads_def)
  have "known c n (key_of t)" using node_wfD(10) [OF node_okD(1) [OF ok] recycle(3)] .
  then have "clock t \<le> seen (clocks n) ! issuer t" by (simp add: known_key_of)
  then show ?thesis
    using st recycle(4) rc issue_node_ok [OF ok] pl
    by (auto simp: hop_ok_def hop_train_def taken_def plain_def)
next
  case (return n1 ts us)
  note D = delivery_run_facts [OF return(5)]
  have nm: "n' = n1" "outs = deliver_outs ts @ deliver_outs us @ [ForwardTrain t]" using st return(4) by simp_all
  have not: "\<not> recycles n t" "\<not> loads n t" using return(1,3) by (simp_all add: recycles_def loads_def)
  have "taken (raise_seen (node_id n) (clock t) n) k = taken n k" for k by (simp add: taken_def)
  moreover have "plain c m (raise_seen (node_id n) (clock t) n)" using pl by (simp add: plain_def)
  moreover have "seen (clocks n1) ! q = (if q = issuer t then max (seen (clocks n) ! q) (clock t) else seen (clocks n) ! q)"
    if "q < RING_SIZE c" for q
    using D(1) seen_raise_seen [OF node_wfD(2) [OF node_okD(1) [OF ok]] that] return(1) by simp
  moreover have "taken n1 k \<Longrightarrow> taken (raise_seen (node_id n) (clock t) n) k \<or> k = key_of t" for k
    using delivery_run_only [OF return(5) node_wf_raise_seen [OF node_okD(1) [OF ok] t(3)]]
      node_wfD(1) [OF node_okD(1) [OF ok]] by blast
  ultimately show ?thesis
    using D return(6) not by (auto simp: hop_ok_def nm hop_train_def)
qed

section \<open>A fully acknowledged train is taken\<close>

lemma try_deliver_taken:
  assumes "try_deliver c t n outs = Some (n2, outs2)" and "\<not> frozen n" and "ready c t n"
  shows "taken n2 (key_of t)"
  using assms
  by (auto simp: try_deliver_def ready_def taken_def already_delivered_def keys_or_insert emit_delivery_def
      record_delivered_def Let_def split: if_splits bind_splits)

lemma emit_delivery_taken:
  assumes "emit_delivery c key ps (n\<lparr>parked := btm_remove key (parked n)\<rparr>) outs = Some (n', outs')" and "taken n k"
  shows "taken n' k"
  using assms
  by (auto simp: emit_delivery_def record_delivered_def taken_def btm_remove_def Let_def image_iff split: if_splits)

lemma drain_loop_taken: "drain_loop c n outs = Some (n', outs') \<Longrightarrow> taken n k \<Longrightarrow> taken n' k"
proof (induction c n outs rule: drain_loop.induct)
  case (1 c n outs)
  show ?case
  proof (cases "iter_min (btm_keys (parked n))")
    case None
    then show ?thesis using 1 by (simp add: drain_loop.simps [of c n outs])
  next
    case (Some key)
    show ?thesis
    proof (cases "is_deliverable c n key = Some True")
      case True
      then obtain t r where tr: "btm_get (parked n) key = Some t"
          "emit_delivery c key (payloads t) (n\<lparr>parked := btm_remove key (parked n)\<rparr>) outs = Some r"
          "drain_loop c (fst r) (snd r) = Some (n', outs')"
        using 1(2) Some by (auto simp: drain_loop.simps [of c n outs] split: bind_splits)
      have "taken (fst r) k" using emit_delivery_taken [of c key "payloads t" n outs "fst r" "snd r" k] tr(2) 1(3) by simp
      then show ?thesis using 1(1) [OF Some True _ tr(1,2) tr(3)] by simp
    next
      case False
      then show ?thesis using 1 Some by (auto simp: drain_loop.simps [of c n outs] split: bind_splits if_splits)
    qed
  qed
qed

lemma drain_taken: "drain_parked c n outs = Some (n', outs') \<Longrightarrow> taken n k \<Longrightarrow> taken n' k"
  using drain_loop_taken by (auto simp: drain_parked_def split: if_splits)

lemma ready_iff:
  assumes "valid_config c" and "plain c m n" and "m \<noteq> CausalOrder"
    and "\<And>i. bit (ack_bits t) i \<Longrightarrow> i < RING_SIZE c"
  shows "ready c t n \<longleftrightarrow> all_acks c t"
  using assms fully_acked_iff [OF assms(1,4)] ready_TotalOrder_no_crash [OF assms(1), of "delivery n" "ack_bits t"]
  by (cases m) (auto simp: ready_def plain_def ready_to_deliver_def all_acks_def is_fully_acked_def)

lemma recv_taken:
  assumes c: "valid_config c" and ok: "node_ok c n" and pl: "plain c m n"
    and t: "issuer t < RING_SIZE c" "1 \<le> clock t" "clock t \<le> u64_max"
    and rd: "ready c t n" and nl: "\<not> loads n t"
    and st: "step c (TrainReceived t) n = Some (n', outs)"
  shows "taken n' (key_of t)"
proof (cases "recycles n t")
  case True
  then show ?thesis
    using recv_hop [OF c ok pl t st] by (auto simp: hop_ok_def recycles_def taken_def)
next
  case False
  have fl: "\<not> clock t \<le> view_floor n ! issuer t" using pl t by (simp add: plain_def)
  show ?thesis
  proof (cases "issuer t = node_id n")
    case True
    then have nd: "\<not> already_delivered (delivery n) (key_of t)" using False by (simp add: recycles_def already_delivered_def)
    obtain cs v n2 outs2 outs3 where *: "check_and_update c (node_id n) (clock t) (clocks n) = Some (cs, v)"
        "try_deliver c t (n\<lparr>clocks := cs\<rparr>) [] = Some (n2, outs2)" "drain_parked c n2 outs2 = Some (n', outs3)"
      using st True fl nd by (auto simp: handle_train_def handle_returning_train_def Let_def split: bind_splits if_splits)
    have "taken n2 (key_of t)"
      using try_deliver_taken [OF *(2)] pl rd by (simp add: plain_def ready_def)
    then show ?thesis using drain_taken [OF *(3)] by blast
  next
    case False
    then have cl: "clock t \<le> seen (clocks n) ! issuer t" using nl by (simp add: loads_def not_less)
    have ls: "last_seen (clocks n) (issuer t) = Some (seen (clocks n) ! issuer t)"
      using t(1) node_wfD(2) [OF node_okD(1) [OF ok]] by (simp add: panic_simps)
    obtain n2 outs2 where *: "try_deliver c t (note_payloads (payloads t) n) [] = Some (n2, outs2)"
        "drain_parked c n2 (outs2 @ [ForwardTrain t]) = Some (n', outs)"
      using st False fl cl t(1,2) ls by (auto simp: handle_train_def handle_foreign_train_def Let_def split: bind_splits if_splits)
    have "taken n2 (key_of t)"
      using try_deliver_taken [OF *(1)] pl rd by (simp add: plain_def ready_def)
    then show ?thesis using drain_taken [OF *(2)] by blast
  qed
qed

end
