(* ===== verification/Ring_Laps.thy ===== *)
theory Ring_Laps
  imports Ring_Hop
begin

text \<open>
  The laps of the trains on a ring that loses nothing: every issuer has exactly one train under
  way; until its key is taken at the issuer it collects acknowledgements, afterwards every
  node behind it has taken its key, and every earlier key of the issuer is taken everywhere.
  The invariant holds from the moment all node tasks have started; it rules out spurious
  crash declarations and is the basis of the liveness proof.
\<close>

section \<open>Positions\<close>

definition rdist :: "nat \<Rightarrow> nat \<Rightarrow> nat \<Rightarrow> nat" where
  "rdist N q j = (j + N - q) mod N"

text \<open>\<open>behind N q d j\<close>: on the way from \<open>q\<close> round the ring to \<open>d\<close>, node \<open>j\<close> has been passed.\<close>

definition behind :: "nat \<Rightarrow> nat \<Rightarrow> nat \<Rightarrow> nat \<Rightarrow> bool" where
  "behind N q d j \<longleftrightarrow> 0 < rdist N q j \<and> rdist N q j < (if d = q then N else rdist N q d)"

lemma rdist_eq: "q < N \<Longrightarrow> j < N \<Longrightarrow> rdist N q j = (if q \<le> j then j - q else j + N - q)"
  by (auto simp: rdist_def mod_if)

lemma succ_mod: "d < N \<Longrightarrow> Suc d mod N = (if Suc d = N then 0 else Suc d)"
  by (simp add: mod_if)

lemma behind_self: "q < N \<Longrightarrow> j < N \<Longrightarrow> behind N q q j \<longleftrightarrow> j \<noteq> q"
  by (auto simp: behind_def rdist_eq)

lemma behind_start: "q < N \<Longrightarrow> j < N \<Longrightarrow> 2 \<le> N \<Longrightarrow> \<not> behind N q (Suc q mod N) j"
  by (cases "Suc q = N") (auto simp: behind_def rdist_eq succ_mod split: if_splits)

lemma behind_next:
  assumes "q < N" "d < N" "j < N" "d \<noteq> q"
  shows "behind N q (Suc d mod N) j \<longleftrightarrow> behind N q d j \<or> j = d"
proof (cases "Suc d = N")
  case True
  then show ?thesis using assms by (cases "q = 0") (auto simp: behind_def rdist_eq succ_mod split: if_splits)
next
  case False
  then show ?thesis using assms by (cases "Suc d = q") (auto simp: behind_def rdist_eq succ_mod split: if_splits)
qed

section \<open>The train of an issuer\<close>

definition at :: "config \<Rightarrow> ring_state \<Rightarrow> proc_id \<Rightarrow> proc_id \<Rightarrow> train \<Rightarrow> bool" where
  "at c s q n x \<longleftrightarrow> n < RING_SIZE c \<and> filter (\<lambda>t. issuer t = q) (inbox s n) = [x] \<and>
     (\<forall>j<RING_SIZE c. j \<noteq> n \<longrightarrow> filter (\<lambda>t. issuer t = q) (inbox s j) = [])"

lemma atD:
  assumes "at c s q n x"
  shows "n < RING_SIZE c" "x \<in> set (inbox s n)" "issuer x = q"
proof -
  have "x \<in> set (filter (\<lambda>t. issuer t = q) (inbox s n))" using assms by (simp add: at_def)
  then show "x \<in> set (inbox s n)" "issuer x = q" by simp_all
  show "n < RING_SIZE c" using assms by (simp add: at_def)
qed

lemma at_unique:
  assumes "at c s q n x" and "at c s q n' x'"
  shows "n' = n \<and> x' = x"
  using assms unfolding at_def by (metis list.inject not_Cons_self2)

lemma at_member:
  assumes "at c s q n x" and "j < RING_SIZE c" and "t \<in> set (inbox s j)" and "issuer t = q"
  shows "j = n \<and> t = x"
proof -
  have "t \<in> set (filter (\<lambda>t. issuer t = q) (inbox s j))" using assms(3,4) by simp
  then show ?thesis using assms(1,2) unfolding at_def by (metis empty_iff list.set(1) list.simps(15) insert_iff)
qed

text \<open>The effect of a hop on the positions.\<close>

definition hop_inbox :: "config \<Rightarrow> proc_id \<Rightarrow> train \<Rightarrow> ring_state \<Rightarrow> ring_state \<Rightarrow> bool" where
  "hop_inbox c d x' s s' \<longleftrightarrow>
     inbox s' = (inbox s)(d := tl (inbox s d), successor c d := inbox s (successor c d) @ [x'])"

lemma successor_ne: "valid_config c \<Longrightarrow> d < RING_SIZE c \<Longrightarrow> successor c d \<noteq> d \<and> successor c d < RING_SIZE c"
  using valid_configD(1) [of c] by (auto simp: successor_def succ_mod)

lemma at_hop_same:
  assumes c: "valid_config c" and d: "d < RING_SIZE c" and hd: "inbox s d = x # ts" "at c s q d x"
    and h: "hop_inbox c d x' s s'" and iss: "issuer x' = q"
  shows "at c s' q (successor c d) x'"
proof -
  note sd = successor_ne [OF c d]
  have "filter (\<lambda>t. issuer t = q) ts = []"
    using hd atD(3) [OF hd(2)] by (simp add: at_def)
  then show ?thesis
    using hd sd h iss by (auto simp: at_def hop_inbox_def)
qed

lemma at_hop_other:
  assumes c: "valid_config c" and d: "d < RING_SIZE c" and hd: "inbox s d = x # ts"
    and h: "hop_inbox c d x' s s'" and iss: "issuer x' = issuer x" "issuer x \<noteq> q" and a: "at c s q n y"
  shows "at c s' q n y"
proof -
  have "filter (\<lambda>t. issuer t = q) (inbox s' j) = filter (\<lambda>t. issuer t = q) (inbox s j)" for j
    using h hd iss successor_ne [OF c d] by (auto simp: hop_inbox_def)
  then show ?thesis using a by (simp add: at_def)
qed

section \<open>The invariant\<close>

definition train_inv :: "config \<Rightarrow> ring_state \<Rightarrow> proc_id \<Rightarrow> proc_id \<Rightarrow> train \<Rightarrow> bool" where
  "train_inv c s q n x \<longleftrightarrow>
     next_issue_clock (cores s q) = Suc (clock x) \<and> 1 \<le> clock x \<and>
     (\<forall>j<RING_SIZE c. seen (clocks (cores s j)) ! q \<le> clock x) \<and>
     bit (ack_bits x) q \<and> (\<forall>i. bit (ack_bits x) i \<longrightarrow> i < RING_SIZE c) \<and>
     (\<forall>j<RING_SIZE c. j \<noteq> q \<longrightarrow> bit (ack_bits x) j = (clock x \<le> seen (clocks (cores s j)) ! q)) \<and>
     (taken (cores s q) (ClockKey (clock x) q) \<longrightarrow>
        (\<forall>j<RING_SIZE c. behind (RING_SIZE c) q n j \<longrightarrow> taken (cores s j) (ClockKey (clock x) q))) \<and>
     (\<forall>cl<clock x. 1 \<le> cl \<longrightarrow> (\<forall>j<RING_SIZE c. taken (cores s j) (ClockKey cl q))) \<and>
     (\<forall>cl<clock x. 1 \<le> cl \<longrightarrow> ClockKey cl q \<in> done_keys (delivery (cores s q)))"

text \<open>The issuer has not started.\<close>

definition silent :: "config \<Rightarrow> ring_state \<Rightarrow> proc_id \<Rightarrow> bool" where
  "silent c s q \<longleftrightarrow> next_issue_clock (cores s q) = 1 \<and> (\<forall>j<RING_SIZE c. seen (clocks (cores s j)) ! q = 0)"

definition lap_inv :: "config \<Rightarrow> delivery_mode \<Rightarrow> ring_state \<Rightarrow> bool" where
  "lap_inv c m s \<longleftrightarrow> valid_config c \<and>
     (\<forall>i<RING_SIZE c. node_ok c (cores s i) \<and> plain c m (cores s i) \<and> node_id (cores s i) = i \<and>
        (NUM_TRAINS c \<le> i \<longrightarrow> next_issue_clock (cores s i) = 1) \<and>
        (\<forall>q. NUM_TRAINS c \<le> q \<and> q < RING_SIZE c \<longrightarrow> seen (clocks (cores s i)) ! q = 0)) \<and>
     (\<forall>n<RING_SIZE c. \<forall>t\<in>set (inbox s n). issuer t < NUM_TRAINS c \<and> issuer t \<in> up s) \<and>
     (\<forall>q<NUM_TRAINS c. if q \<in> up s then \<exists>n x. at c s q n x \<and> train_inv c s q n x else silent c s q)"

text \<open>What the network invariant says of a taken key: every node has acknowledged it.\<close>

definition acked_all :: "config \<Rightarrow> ring_state \<Rightarrow> bool" where
  "acked_all c s \<longleftrightarrow> (\<forall>i<RING_SIZE c. \<forall>q cl. taken (cores s i) (ClockKey cl q) \<longrightarrow>
     1 \<le> cl \<and> q < NUM_TRAINS c \<and> cl < next_issue_clock (cores s q) \<and>
     (\<forall>j<RING_SIZE c. j \<noteq> q \<longrightarrow> cl \<le> seen (clocks (cores s j)) ! q))"

lemma lap_nodeD:
  assumes "lap_inv c m s" and "i < RING_SIZE c"
  shows "node_ok c (cores s i)" "plain c m (cores s i)" "node_id (cores s i) = i"
    "\<And>q. NUM_TRAINS c \<le> q \<Longrightarrow> q < RING_SIZE c \<Longrightarrow> seen (clocks (cores s i)) ! q = 0"
    "NUM_TRAINS c \<le> i \<Longrightarrow> next_issue_clock (cores s i) = 1"
  using assms unfolding lap_inv_def by blast+

lemma lap_trainE:
  assumes "lap_inv c m s" and "q < NUM_TRAINS c" and "q \<in> up s"
  obtains n x where "at c s q n x" "train_inv c s q n x"
  using assms unfolding lap_inv_def by metis

lemma lap_silent: "lap_inv c m s \<Longrightarrow> q < NUM_TRAINS c \<Longrightarrow> q \<notin> up s \<Longrightarrow> silent c s q"
  unfolding lap_inv_def by metis

lemma lap_issuer: "lap_inv c m s \<Longrightarrow> n < RING_SIZE c \<Longrightarrow> t \<in> set (inbox s n) \<Longrightarrow> issuer t < NUM_TRAINS c \<and> issuer t \<in> up s"
  unfolding lap_inv_def by blast

lemma lap_at:
  assumes "lap_inv c m s" and "at c s q n x"
  shows "train_inv c s q n x" "q < NUM_TRAINS c" "q \<in> up s"
proof -
  show q: "q < NUM_TRAINS c" "q \<in> up s" using lap_issuer [OF assms(1) atD(1,2) [OF assms(2)]] atD(3) [OF assms(2)] by auto
  show "train_inv c s q n x" using lap_trainE [OF assms(1) q] at_unique [OF assms(2)] by metis
qed

lemma train_invD:
  assumes "train_inv c s q n x"
  shows "next_issue_clock (cores s q) = Suc (clock x)" "1 \<le> clock x"
    "\<And>j. j < RING_SIZE c \<Longrightarrow> seen (clocks (cores s j)) ! q \<le> clock x"
    "bit (ack_bits x) q" "\<And>i. bit (ack_bits x) i \<Longrightarrow> i < RING_SIZE c"
    "\<And>j. j < RING_SIZE c \<Longrightarrow> j \<noteq> q \<Longrightarrow> bit (ack_bits x) j = (clock x \<le> seen (clocks (cores s j)) ! q)"
    "\<And>j. taken (cores s q) (ClockKey (clock x) q) \<Longrightarrow> j < RING_SIZE c \<Longrightarrow> behind (RING_SIZE c) q n j \<Longrightarrow>
       taken (cores s j) (ClockKey (clock x) q)"
    "\<And>cl j. cl < clock x \<Longrightarrow> 1 \<le> cl \<Longrightarrow> j < RING_SIZE c \<Longrightarrow> taken (cores s j) (ClockKey cl q)"
    "\<And>cl. cl < clock x \<Longrightarrow> 1 \<le> cl \<Longrightarrow> ClockKey cl q \<in> done_keys (delivery (cores s q))"
  using assms unfolding train_inv_def by blast+

section \<open>A hop keeps it\<close>

lemma recv_event:
  assumes inv: "lap_inv c m s" and d: "d < RING_SIZE c" and hd: "inbox s d = x # ts"
    and st: "node_arm c d (TrainReceived x) (pop_inbox d s) = Some s'"
  obtains n' outs where "step c (TrainReceived x) (cores s d) = Some (n', outs)"
    "hop_ok c m x (cores s d) n' outs" "cores s' = (cores s)(d := n')" "up s' = up s"
    "hop_inbox c d (hop_train (cores s d) x) s s'" "rlog s' = (rlog s)(d := rlog s d @ concat (batches outs))"
    "at c s (issuer x) d x" "train_inv c s (issuer x) d x" "issuer x < NUM_TRAINS c" "issuer x \<in> up s"
proof -
  have c: "valid_config c" using inv by (simp add: lap_inv_def)
  have x: "x \<in> set (inbox s d)" using hd by simp
  note iss = lap_issuer [OF inv d x]
  obtain n y where ny: "at c s (issuer x) n y" "train_inv c s (issuer x) n y"
    using lap_trainE [OF inv conjunct1 [OF iss] conjunct2 [OF iss]] .
  have xy: "d = n" "x = y" using at_member [OF ny(1) d x] by auto
  obtain n' outs where st': "step c (TrainReceived x) (cores s d) = Some (n', outs)"
      and s': "s' = dispatch c d outs ((pop_inbox d s)\<lparr>cores := (cores s)(d := n')\<rparr>)"
    using st by (auto simp: node_arm_def pop_inbox_def split: bind_splits)
  have q: "issuer x < RING_SIZE c" using iss valid_configD(5) [OF c] by simp
  note T = train_invD [OF ny(2), folded xy]
  have "next_issue_clock (cores s (issuer x)) \<le> u64_max"
    using node_wfD(8) [OF node_okD(1) [OF lap_nodeD(1) [OF inv q]]] .
  then have "clock x \<le> u64_max" using T(1) by simp
  then have h: "hop_ok c m x (cores s d) n' outs"
    using recv_hop [OF c lap_nodeD(1,2) [OF inv d] q T(2) _ st'] by blast
  have "cores s' = (cores s)(d := n')" "up s' = up s" "hop_inbox c d (hop_train (cores s d) x) s s'"
      "rlog s' = (rlog s)(d := rlog s d @ concat (batches outs))"
    using h successor_ne [OF c d] by (simp_all add: s' dispatch_effect pop_inbox_def hop_inbox_def hop_ok_def)
  then show ?thesis using that [OF st' h] ny xy iss by blast
qed

lemma hop_okD:
  assumes "hop_ok c m t n n' outs"
  shows "sends outs = [hop_train n t]" "node_ok c n'" "plain c m n'" "node_id n' = node_id n"
    "\<And>k. taken n k \<Longrightarrow> taken n' k" "\<And>k. taken n' k \<Longrightarrow> taken n k \<or> k = key_of t"
    "done_keys (delivery n) \<subseteq> done_keys (delivery n')"
    "\<And>q. q < RING_SIZE c \<Longrightarrow> q \<noteq> issuer t \<Longrightarrow> seen (clocks n') ! q = seen (clocks n) ! q"
    "issuer t < RING_SIZE c \<Longrightarrow> seen (clocks n') ! issuer t = max (seen (clocks n) ! issuer t) (clock t)"
    "next_issue_clock n' = (if recycles n t then sat_add64 (next_issue_clock n) 1 else next_issue_clock n)"
    "pending n' = (if recycles n t \<or> loads n t then [] else pending n)"
  using assms unfolding hop_ok_def by (blast, blast, blast, blast, blast, blast, blast, simp, simp, blast, blast)

lemma hop_train_issuer: "issuer (hop_train n t) = issuer t"
  by (simp add: hop_train_def recycles_def fresh_train_def load_train_def)

text \<open>The other issuers' trains are not affected.\<close>

lemma train_inv_other:
  assumes h: "hop_ok c m x (cores s d) n' outs" and s': "cores s' = (cores s)(d := n')"
    and q: "q \<noteq> issuer x" "q < RING_SIZE c" and idd: "node_id (cores s d) = d" and t: "train_inv c s q n y"
  shows "train_inv c s' q n y"
proof -
  note H = hop_okD [OF h]
  have seen: "seen (clocks (cores s' j)) ! q = seen (clocks (cores s j)) ! q" for j
    using H(8) [OF q(2,1)] by (simp add: s')
  have "taken (cores s' j) k = taken (cores s j) k" if "ck_issuer k = q" for j k
    using H(5,6) [of k] that q(1) by (auto simp: s' key_of_def)
  moreover have "next_issue_clock (cores s' q) = next_issue_clock (cores s q)"
    using H(10) q(1) idd by (auto simp: s' recycles_def)
  moreover have "done_keys (delivery (cores s q)) \<subseteq> done_keys (delivery (cores s' q))"
    using H(7) by (simp add: s')
  ultimately show ?thesis using t seen by (auto simp: train_inv_def)
qed

lemma all_acks_taken:
  assumes t: "train_inv c s q n x" and ack: "acked_all c s" and i: "i < RING_SIZE c"
    and tk: "taken (cores s i) (ClockKey (clock x) q)"
  shows "all_acks c x"
  unfolding all_acks_def
proof (intro allI impI)
  fix j assume j: "j < RING_SIZE c"
  show "bit (ack_bits x) j"
  proof (cases "j = q")
    case False
    then have "clock x \<le> seen (clocks (cores s j)) ! q" using ack i tk j unfolding acked_all_def by blast
    then show ?thesis using train_invD(6) [OF t j False] by simp
  qed (use train_invD(4) [OF t] in simp)
qed

lemma train_inv_pass:
  assumes c: "valid_config c" and inv: "lap_inv c m s" and m: "m \<noteq> CausalOrder" and ack: "acked_all c s"
    and d: "d < RING_SIZE c" "d \<noteq> issuer x" and t: "train_inv c s (issuer x) d x"
    and st: "step c (TrainReceived x) (cores s d) = Some (n', outs)" and h: "hop_ok c m x (cores s d) n' outs"
    and s': "cores s' = (cores s)(d := n')" and q: "issuer x < RING_SIZE c" and cl: "clock x \<le> u64_max"
  shows "train_inv c s' (issuer x) (successor c d) (hop_train (cores s d) x)"
proof -
  let ?n = "cores s d" and ?x = "hop_train (cores s d) x" and ?q = "issuer x" and ?N = "RING_SIZE c"
  note T = train_invD [OF t] and H = hop_okD [OF h]
  have idd: "node_id ?n = d" using lap_nodeD(3) [OF inv d(1)] .
  have nr: "\<not> recycles ?n x" using d(2) idd by (simp add: recycles_def)
  have seen: "seen (clocks (cores s' j)) ! ?q = (if j = d then clock x else seen (clocks (cores s j)) ! ?q)" for j
    using H(9) [OF q] T(3) [OF d(1)] by (simp add: s' max_absorb2)
  have key: "key_of x = ClockKey (clock x) ?q" by (simp add: key_of_def)
  have ld: "loads ?n x \<longleftrightarrow> \<not> bit (ack_bits x) d" using T(6) [OF d] d(2) idd by (auto simp: loads_def)
  have x: "clock ?x = clock x" "bit (ack_bits ?x) i \<longleftrightarrow> bit (ack_bits x) i \<or> i = d" for i
    using nr ld id_small [OF c node_okD(1) [OF lap_nodeD(1) [OF inv d(1)]]] idd bit_or_shl_one [of d "ack_bits x" i]
    by (auto simp: hop_train_def load_train_def)
  have core: "cores s' ?q = cores s ?q" using d(2) by (simp add: s')
  have full: "bit (ack_bits x) d" "taken n' (key_of x)" if "taken (cores s ?q) (ClockKey (clock x) ?q)"
  proof -
    have fa: "all_acks c x" by (rule all_acks_taken [OF t ack q that])
    then show b: "bit (ack_bits x) d" using d(1) by (simp add: all_acks_def)
    then have "\<not> loads ?n x" using ld by simp
    moreover have "ready c x ?n" using ready_iff [OF c lap_nodeD(2) [OF inv d(1)] m T(5)] fa by simp
    ultimately show "taken n' (key_of x)"
      using recv_taken [OF c lap_nodeD(1,2) [OF inv d(1)] q T(2) cl _ _ st] by blast
  qed
  have mono: "taken (cores s j) k \<Longrightarrow> taken (cores s' j) k" for j k using H(5) by (auto simp: s')
  show ?thesis
    unfolding train_inv_def x(1)
  proof (intro conjI allI impI)
    show "next_issue_clock (cores s' ?q) = Suc (clock x)" "1 \<le> clock x" using T(1,2) core by simp_all
    show "seen (clocks (cores s' j)) ! ?q \<le> clock x" if "j < ?N" for j using T(3) [OF that] seen by simp
    show "bit (ack_bits ?x) ?q" using T(4) x(2) by blast
    show "i < ?N" if "bit (ack_bits ?x) i" for i using that T(5) x(2) d(1) by blast
    show "bit (ack_bits ?x) j = (clock x \<le> seen (clocks (cores s' j)) ! ?q)" if "j < ?N" "j \<noteq> ?q" for j
      using T(6) [OF that] seen x(2) by auto
    show "taken (cores s' j) (ClockKey (clock x) ?q)"
      if "taken (cores s' ?q) (ClockKey (clock x) ?q)" "j < ?N" "behind ?N ?q (successor c d) j" for j
    proof (cases "j = d")
      case True
      then show ?thesis using full(2) that(1) core key by (simp add: s')
    next
      case False
      then have "behind ?N ?q d j" using that(3) behind_next [OF q d(1) that(2) d(2)] by (simp add: successor_def)
      then show ?thesis using T(7) that(1,2) core mono by simp
    qed
    show "taken (cores s' j) (ClockKey cl ?q)" if "cl < clock x" "1 \<le> cl" "j < ?N" for cl j
      using T(8) [OF that] mono by blast
    show "ClockKey cl ?q \<in> done_keys (delivery (cores s' ?q))" if "cl < clock x" "1 \<le> cl" for cl
      using T(9) [OF that] core by simp
  qed
qed

lemma train_inv_home:
  assumes c: "valid_config c" and inv: "lap_inv c m s" and ack: "acked_all c s"
    and d: "d < RING_SIZE c" "d = issuer x" and t: "train_inv c s (issuer x) d x"
    and h: "hop_ok c m x (cores s d) n' outs" and s': "cores s' = (cores s)(d := n')"
    and left: "next_issue_clock (cores s d) < u64_max"
  shows "train_inv c s' d (successor c d) (hop_train (cores s d) x)"
proof -
  let ?n = "cores s d" and ?x = "hop_train (cores s d) x" and ?N = "RING_SIZE c"
  note T = train_invD [OF t, folded d(2)] and H = hop_okD [OF h]
  have idd: "node_id ?n = d" using lap_nodeD(3) [OF inv d(1)] .
  have nl: "\<not> loads ?n x" using d(2) idd by (simp add: loads_def)
  have key: "key_of x = ClockKey (clock x) d" by (simp add: key_of_def d(2))
  have seen: "seen (clocks (cores s' j)) ! d = (if j = d then clock x else seen (clocks (cores s j)) ! d)" for j
    using H(9) T(3) [OF d(1)] d by (simp add: s' max_absorb2)
  have mono: "taken (cores s j) k \<Longrightarrow> taken (cores s' j) k" for j k using H(5) by (auto simp: s')
  have nb: "\<not> behind ?N d (successor c d) j" if "j < ?N" for j
    using behind_start [OF d(1) that valid_configD(1) [OF c]] by (simp add: successor_def)
  show ?thesis
  proof (cases "recycles ?n x")
    case False
    then have "?x = x" using nl by (simp add: hop_train_def)
    then show ?thesis
      using T H(7,10) False seen nb mono unfolding train_inv_def by (auto simp: s')
  next
    case True
    then have x: "?x = fresh_train ?n" by (simp add: hop_train_def)
    have clk: "clock ?x = Suc (clock x)" using T(1) by (simp add: x fresh_train_def)
    have ni: "next_issue_clock (cores s' d) = Suc (Suc (clock x))"
      using H(10) True T(1) left by (simp add: s' sat_add64_one_gt)
    have bits: "bit (ack_bits ?x) i \<longleftrightarrow> i = d" for i
      using bit_shl_one [of d i] id_small [OF c node_okD(1) [OF lap_nodeD(1) [OF inv d(1)]]] idd
      by (simp add: x fresh_train_def)
    have dn: "ClockKey (clock x) d \<in> done_keys (delivery ?n)" using True key by (simp add: recycles_def)
    then have tk: "taken ?n (ClockKey (clock x) d)" by (simp add: taken_def)
    have fresh: "\<not> taken (cores s' d) (ClockKey (Suc (clock x)) d)"
    proof
      assume "taken (cores s' d) (ClockKey (Suc (clock x)) d)"
      then have "taken ?n (ClockKey (Suc (clock x)) d)" using H(6) [of "ClockKey (Suc (clock x)) d"] key by (simp add: s')
      then have "Suc (clock x) < next_issue_clock ?n" using ack d(1) unfolding acked_all_def by blast
      then show False using T(1) by simp
    qed
    have all: "taken (cores s j) (ClockKey (clock x) d)" if "j < ?N" for j
      using T(7) [OF tk that] behind_self [OF d(1) that] tk by blast
    have le: "seen (clocks (cores s' j)) ! d < Suc (clock x)" if "j < ?N" for j
      using T(3) [OF that] seen [of j] by simp
    show ?thesis
      unfolding train_inv_def clk
    proof (intro conjI allI impI)
      show "taken (cores s' j) (ClockKey cl d)" if "cl < Suc (clock x)" "1 \<le> cl" "j < ?N" for cl j
        using that T(8) all mono by (cases "cl = clock x") auto
      show "ClockKey cl d \<in> done_keys (delivery (cores s' d))" if "cl < Suc (clock x)" "1 \<le> cl" for cl
        using that T(9) dn H(7) by (cases "cl = clock x") (auto simp: s')
      show "bit (ack_bits ?x) j = (Suc (clock x) \<le> seen (clocks (cores s' j)) ! d)" if "j < ?N" "j \<noteq> d" for j
        using le [OF that(1)] bits that(2) by simp
    qed (use ni bits d(1) fresh le in \<open>auto simp: less_imp_le\<close>)
  qed
qed

lemma silent_hop:
  assumes h: "hop_ok c m x (cores s d) n' outs" and s': "cores s' = (cores s)(d := n')"
    and q: "q \<noteq> issuer x" "q < RING_SIZE c" and idd: "node_id (cores s d) = d" and si: "silent c s q"
  shows "silent c s' q"
  using si hop_okD(8) [OF h q(2,1)] hop_okD(10) [OF h] q(1) idd by (auto simp: silent_def s' recycles_def)

lemma lap_inv_recv:
  assumes inv: "lap_inv c m s" and m: "m \<noteq> CausalOrder" and ack: "acked_all c s"
    and d: "d < RING_SIZE c" and hd: "inbox s d = x # ts"
    and left: "\<And>i. i < RING_SIZE c \<Longrightarrow> next_issue_clock (cores s i) < u64_max"
    and st: "node_arm c d (TrainReceived x) (pop_inbox d s) = Some s'"
  shows "lap_inv c m s'"
proof -
  have c: "valid_config c" using inv by (simp add: lap_inv_def)
  obtain n' outs where E: "step c (TrainReceived x) (cores s d) = Some (n', outs)"
      "hop_ok c m x (cores s d) n' outs" "cores s' = (cores s)(d := n')" "up s' = up s"
      "hop_inbox c d (hop_train (cores s d) x) s s'" "at c s (issuer x) d x" "train_inv c s (issuer x) d x"
      "issuer x < NUM_TRAINS c" "issuer x \<in> up s"
    using recv_event [OF inv d hd st] by metis
  let ?x = "hop_train (cores s d) x"
  note H = hop_okD [OF E(2)] and T = train_invD [OF E(7)]
  have q: "issuer x < RING_SIZE c" using E(8) valid_configD(5) [OF c] by simp
  have cl: "clock x \<le> u64_max" using T(1) left [OF q] by simp
  have idd: "node_id (cores s d) = d" using lap_nodeD(3) [OF inv d] .
  have own: "at c s' (issuer x) (successor c d) ?x \<and> train_inv c s' (issuer x) (successor c d) ?x"
    using at_hop_same [OF c d hd E(6,5) hop_train_issuer] train_inv_pass [OF c inv m ack d _ E(7,1,2,3) q cl]
      train_inv_home [OF c inv ack d _ E(7,2,3) left [OF d]] by (cases "d = issuer x") auto
  have trains: "if q \<in> up s' then \<exists>n y. at c s' q n y \<and> train_inv c s' q n y else silent c s' q"
    if qk: "q < NUM_TRAINS c" for q
  proof (cases "q = issuer x")
    case True
    then show ?thesis using own E(4,9) by auto
  next
    case False
    have qN: "q < RING_SIZE c" using qk valid_configD(5) [OF c] by simp
    show ?thesis
    proof (cases "q \<in> up s")
      case True
      obtain n y where ny: "at c s q n y" "train_inv c s q n y" using lap_trainE [OF inv qk True] .
      have "train_inv c s' q n y" by (rule train_inv_other [OF E(2,3) False qN idd ny(2)])
      moreover have "at c s' q n y" using at_hop_other [OF c d hd E(5) hop_train_issuer _ ny(1)] False by blast
      ultimately show ?thesis using True E(4) by auto
    qed (use silent_hop [OF E(2,3) False qN idd lap_silent [OF inv qk]] E(4) in simp)
  qed
  have nodes: "node_ok c (cores s' i) \<and> plain c m (cores s' i) \<and> node_id (cores s' i) = i \<and>
      (NUM_TRAINS c \<le> i \<longrightarrow> next_issue_clock (cores s' i) = 1) \<and> (\<forall>q. NUM_TRAINS c \<le> q \<and> q < RING_SIZE c \<longrightarrow> seen (clocks (cores s' i)) ! q = 0)" if i: "i < RING_SIZE c" for i
  proof (cases "i = d")
    case True
    have "NUM_TRAINS c \<le> d \<Longrightarrow> \<not> recycles (cores s d) x" using E(8) idd by (simp add: recycles_def)
    then show ?thesis
      using True H(2,3,4) H(8,10) idd lap_nodeD(4,5) [OF inv d] E(8) by (auto simp: E(3))
  qed (use lap_nodeD [OF inv i] in \<open>simp add: E(3)\<close>)
  have "issuer t < NUM_TRAINS c \<and> issuer t \<in> up s'" if "n < RING_SIZE c" "t \<in> set (inbox s' n)" for n t
  proof -
    have "t = ?x \<or> t \<in> set (inbox s n)"
      using that(2) E(5) hd by (auto simp: hop_inbox_def split: if_splits)
    then show ?thesis using lap_issuer [OF inv that(1)] E(4,8,9) hop_train_issuer [of "cores s d" x] by metis
  qed
  then show ?thesis
    using c nodes trains unfolding lap_inv_def by blast
qed

text \<open>Submissions and ticks change only pending lists.\<close>

definition quiet_step :: "config \<Rightarrow> ring_state \<Rightarrow> ring_state \<Rightarrow> bool" where
  "quiet_step c s s' \<longleftrightarrow> s' = s \<or> (\<exists>i<RING_SIZE c.
     (\<exists>bs. node_arm c i (LocalBroadcast bs) s = Some s') \<or> node_arm c i Tick s = Some s')"

lemma broadcast_frame:
  "taken (fst (handle_broadcast bs n)) = taken n" "clocks (fst (handle_broadcast bs n)) = clocks n"
  "next_issue_clock (fst (handle_broadcast bs n)) = next_issue_clock n"
  "plain c m (fst (handle_broadcast bs n)) = plain c m n" "node_id (fst (handle_broadcast bs n)) = node_id n"
  "done_keys (delivery (fst (handle_broadcast bs n))) = done_keys (delivery n)"
  "set (pending n) \<subseteq> set (pending (fst (handle_broadcast bs n)))"
  by (auto simp: handle_broadcast_def Let_def taken_def plain_def fun_eq_iff)

lemma quiet_frame:
  assumes "quiet_step c s s'"
  shows "inbox s' = inbox s" "up s' = up s" "rlog s' = rlog s"
    "taken (cores s' i) = taken (cores s i)" "clocks (cores s' i) = clocks (cores s i)"
    "next_issue_clock (cores s' i) = next_issue_clock (cores s i)"
    "plain c m (cores s' i) = plain c m (cores s i)" "node_id (cores s' i) = node_id (cores s i)"
    "done_keys (delivery (cores s' i)) = done_keys (delivery (cores s i))"
    "node_ok c (cores s i) \<Longrightarrow> node_ok c (cores s' i)"
    "set (pending (cores s i)) \<subseteq> set (pending (cores s' i))"
proof -
  consider (same) "s' = s"
    | (bc) j bs where "s' = s\<lparr>cores := (cores s)(j := fst (handle_broadcast bs (cores s j)))\<rparr>"
  proof -
    have hb: "snd (handle_broadcast bs n) = []" for bs n
      by (simp add: handle_broadcast_def Let_def)
    have bc: "s' = s\<lparr>cores := (cores s)(j := fst (handle_broadcast bs (cores s j)))\<rparr>"
      if "node_arm c j (LocalBroadcast bs) s = Some s'" for j bs
      using that hb [of bs "cores s j"] by (auto simp: node_arm_def dispatch_def case_prod_beta)
    have tk: "s' = s" if "node_arm c j Tick s = Some s'" for j
      using that by (simp add: node_arm_def dispatch_def handle_tick_def)
    show ?thesis using assms that bc tk unfolding quiet_step_def by blast
  qed
  then have "inbox s' = inbox s \<and> up s' = up s \<and> rlog s' = rlog s \<and>
    taken (cores s' i) = taken (cores s i) \<and> clocks (cores s' i) = clocks (cores s i) \<and>
    next_issue_clock (cores s' i) = next_issue_clock (cores s i) \<and>
    plain c m (cores s' i) = plain c m (cores s i) \<and> node_id (cores s' i) = node_id (cores s i) \<and>
    done_keys (delivery (cores s' i)) = done_keys (delivery (cores s i)) \<and>
    (node_ok c (cores s i) \<longrightarrow> node_ok c (cores s' i)) \<and> set (pending (cores s i)) \<subseteq> set (pending (cores s' i))"
    using broadcast_frame handle_broadcast_ok by cases simp_all
  then show "inbox s' = inbox s" "up s' = up s" "rlog s' = rlog s"
    "taken (cores s' i) = taken (cores s i)" "clocks (cores s' i) = clocks (cores s i)"
    "next_issue_clock (cores s' i) = next_issue_clock (cores s i)"
    "plain c m (cores s' i) = plain c m (cores s i)" "node_id (cores s' i) = node_id (cores s i)"
    "done_keys (delivery (cores s' i)) = done_keys (delivery (cores s i))"
    "node_ok c (cores s i) \<Longrightarrow> node_ok c (cores s' i)"
    "set (pending (cores s i)) \<subseteq> set (pending (cores s' i))" by blast+
qed

lemma lap_inv_quiet:
  assumes "lap_inv c m s" and "quiet_step c s s'"
  shows "lap_inv c m s'"
proof -
  note Q = quiet_frame [OF assms(2)]
  have "at c s' = at c s" by (simp add: at_def fun_eq_iff Q(1))
  moreover have "train_inv c s' = train_inv c s" by (simp add: train_inv_def fun_eq_iff Q(4,5,6,9))
  moreover have "silent c s' = silent c s" by (simp add: silent_def fun_eq_iff Q(5,6))
  ultimately show ?thesis using assms(1) Q(10) by (simp add: lap_inv_def Q(1,2,5,6,7,8))
qed

end
