(* ===== verification/Ring_Boot.thy ===== *)
theory Ring_Boot
  imports Ring_Laps
begin

text \<open>
  The lap invariant holds from the first step of the ring on, while its node tasks start in
  any order, and what it gives at every moment: a key that is taken everywhere, with all below
  it, is delivered everywhere, and the trains on the ring are at most two clocks apart.
\<close>

section \<open>Nodes that have not started\<close>

text \<open>A node task that has not started counts as the node it will create.\<close>

definition boot :: "config \<Rightarrow> delivery_mode \<Rightarrow> ring_state \<Rightarrow> ring_state" where
  "boot c m s = s\<lparr>cores := (\<lambda>i. if i \<in> up s then cores s i else the (node_new c i m))\<rparr>"

lemma boot_simps [simp]:
  "inbox (boot c m s) = inbox s" "up (boot c m s) = up s" "rlog (boot c m s) = rlog s"
  "i \<in> up s \<Longrightarrow> cores (boot c m s) i = cores s i"
  "i \<notin> up s \<Longrightarrow> cores (boot c m s) i = the (node_new c i m)"
  by (simp_all add: boot_def)

lemma boot_pop: "boot c m (pop_inbox i s) = pop_inbox i (boot c m s)"
  by (intro ring_state.equality) (simp_all add: boot_def pop_inbox_def fun_eq_iff)

lemma boot_arm:
  assumes "i \<in> up s" and "node_arm c i inp s = Some s'"
  shows "node_arm c i inp (boot c m s) = Some (boot c m s')"
proof -
  obtain n outs where r: "step c inp (cores s i) = Some (n, outs)"
      "s' = dispatch c i outs (s\<lparr>cores := (cores s)(i := n)\<rparr>)"
    using assms(2) by (auto simp: node_arm_def split: bind_splits)
  have "dispatch c i outs ((boot c m s)\<lparr>cores := (cores (boot c m s))(i := n)\<rparr>) = boot c m s'"
    using assms(1) by (intro ring_state.equality) (auto simp: r(2) dispatch_effect boot_def fun_eq_iff)
  then show ?thesis using assms(1) r(1) by (simp add: node_arm_def)
qed

lemma new_plain:
  assumes "node_new c i m = Some n"
  shows "plain c m n" "\<not> taken n k" "q < RING_SIZE c \<Longrightarrow> seen (clocks n) ! q = 0"
  using assms by (auto simp: node_new_def plain_def delivery_new_def taken_def clock_new_def split: if_splits)

lemma new_some: "i < RING_SIZE c \<Longrightarrow> node_new c i m = Some (the (node_new c i m))"
  by (simp add: node_new_def)

lemma lap_inv_init:
  assumes "ring_init c s"
  shows "lap_inv c m (boot c m s)"
proof -
  have c: "valid_config c" "up s = {}" "inbox s = (\<lambda>_. [])" using assms by (simp_all add: ring_init_def)
  have new: "node_new c i m = Some (cores (boot c m s) i)" if "i < RING_SIZE c" for i
    using new_some [OF that, of m] c(2) by simp
  have "q < RING_SIZE c" if "q < NUM_TRAINS c" for q using that valid_configD(5) [OF c(1)] by simp
  then have "silent c (boot c m s) q" if "q < NUM_TRAINS c" for q
    using that new_plain(3) [OF new] node_new_fields(3) [OF new] by (simp add: silent_def)
  then show ?thesis
    unfolding lap_inv_def using c new_plain [OF new] node_new_fields(1,3) [OF new] node_new_ok [OF new] by simp
qed

lemma lap_inv_up:
  assumes "lap_inv c m s" and "i \<notin> {..<NUM_TRAINS c}"
  shows "lap_inv c m (s\<lparr>up := insert i (up s)\<rparr>)"
proof -
  have "at c (s\<lparr>up := insert i (up s)\<rparr>) = at c s" "train_inv c (s\<lparr>up := insert i (up s)\<rparr>) = train_inv c s"
      "silent c (s\<lparr>up := insert i (up s)\<rparr>) = silent c s"
    by (simp_all add: at_def train_inv_def silent_def fun_eq_iff)
  then show ?thesis using assms unfolding lap_inv_def by fastforce
qed

lemma issue_taken: "taken (issue_node n) = taken n" "plain c m (issue_node n) = plain c m n"
  by (simp_all add: taken_def plain_def fun_eq_iff)

text \<open>The first train of an issuer.\<close>

lemma lap_inv_issue:
  assumes inv: "lap_inv c m s" and i: "i < NUM_TRAINS c" "i \<notin> up s" and new: "node_new c i m = Some (cores s i)"
    and s': "s' = outbox_send c i (fresh_train (cores s i))
      (s\<lparr>cores := (cores s)(i := issue_node (cores s i)), up := insert i (up s)\<rparr>)"
  shows "lap_inv c m s'"
proof -
  let ?n = "cores s i" and ?x = "fresh_train (cores s i)"
  have c: "valid_config c" using inv by (simp add: lap_inv_def)
  have iN: "i < RING_SIZE c" "i < 32" using i valid_configD [OF c] by auto
  note F = node_new_fields [OF new] and sd = successor_ne [OF c iN(1)] and P = new_plain [OF new]
  have f: "issuer ?x = i" "clock ?x = 1" "bit (ack_bits ?x) j \<longleftrightarrow> j = i" for j
    using F(1,3) bit_shl_one [OF iN(2), of j] by (simp_all add: fresh_train_def)
  have cr: "cores s' = (cores s)(i := issue_node ?n)" "up s' = insert i (up s)"
    and ib: "inbox s' = (inbox s)(successor c i := inbox s (successor c i) @ [?x])"
    by (simp_all add: s' outbox_send_def)
  have none: "filter (\<lambda>t. issuer t = i) (inbox s j) = []" if "j < RING_SIZE c" for j
    using lap_issuer [OF inv that] i(2) by (auto simp: filter_empty_conv)
  have seen: "clocks (cores s' j) = clocks (cores s j)" for j by (simp add: cr)
  have tk: "taken (cores s' j) = taken (cores s j)" for j by (simp add: cr issue_taken)
  have dn: "done_keys (delivery (cores s' j)) = done_keys (delivery (cores s j))" for j by (simp add: cr)
  have sil: "seen (clocks (cores s j)) ! i = 0" if "j < RING_SIZE c" for j
    using lap_silent [OF inv i] that by (simp add: silent_def)
  have one: "sat_add64 (Suc 0) (Suc 0) = Suc (Suc 0)" by (simp add: sat_add64_def u64_max_def)
  have "at c s' i (successor c i) ?x"
    using sd none f(1) by (simp add: at_def ib)
  moreover have "train_inv c s' i (successor c i) ?x"
    unfolding train_inv_def f using sil P(2) iN(1)
    by (simp add: seen tk f) (simp add: cr F(3) one)
  ultimately have own: "\<exists>n y. at c s' i n y \<and> train_inv c s' i n y" by blast
  have trains: "if q \<in> up s' then \<exists>n y. at c s' q n y \<and> train_inv c s' q n y else silent c s' q"
    if qk: "q < NUM_TRAINS c" for q
  proof (cases "q = i")
    case False
    have ni: "next_issue_clock (cores s' q) = next_issue_clock (cores s q)" using False by (simp add: cr)
    have "at c s' q = at c s q" using False f(1) by (auto simp: at_def ib fun_eq_iff)
    moreover have "train_inv c s' q = train_inv c s q" by (simp add: train_inv_def fun_eq_iff seen tk dn ni)
    moreover have "silent c s' q = silent c s q" by (simp add: silent_def seen ni)
    ultimately show ?thesis using inv qk False cr(2) unfolding lap_inv_def by (metis insert_iff)
  qed (use own cr(2) in simp)
  have nodes: "node_ok c (cores s' j) \<and> plain c m (cores s' j) \<and> node_id (cores s' j) = j \<and>
      (NUM_TRAINS c \<le> j \<longrightarrow> next_issue_clock (cores s' j) = 1) \<and> (\<forall>q. NUM_TRAINS c \<le> q \<and> q < RING_SIZE c \<longrightarrow> seen (clocks (cores s' j)) ! q = 0)" if "j < RING_SIZE c" for j
    using lap_nodeD [OF inv that] issue_node_ok i(1) by (auto simp: cr issue_taken)
  have "issuer t < NUM_TRAINS c \<and> issuer t \<in> up s'" if "n < RING_SIZE c" "t \<in> set (inbox s' n)" for n t
  proof -
    have "t = ?x \<or> t \<in> set (inbox s n)" using that(2) by (auto simp: ib split: if_splits)
    then show ?thesis using lap_issuer [OF inv that(1)] i(1) f(1) cr(2) by auto
  qed
  then show ?thesis using c nodes trains unfolding lap_inv_def by blast
qed

lemma lap_inv_start:
  assumes inv: "lap_inv c m (boot c m s)" and i: "i < RING_SIZE c" "i \<notin> up s"
    and st: "start_node c (NUM_TRAINS c) m i s = Some s'"
  shows "lap_inv c m (boot c m s')"
proof -
  have c: "valid_config c" using inv by (simp add: lap_inv_def)
  obtain n where new: "node_new c i m = Some n" using new_some [OF i(1)] by blast
  have core: "cores (boot c m s) i = n" using i(2) new by simp
  show ?thesis
  proof (cases "i < NUM_TRAINS c")
    case True
    have "issue_initial_train c n = Some (issue_node n, fresh_train n)"
      using issue_new_train_pure [OF c node_okD(1) [OF node_new_ok [OF new]]] by (simp add: issue_initial_train_def)
    then have s': "s' = outbox_send c i (fresh_train n) (s\<lparr>cores := (cores s)(i := issue_node n), up := insert i (up s)\<rparr>)"
      using st True by (simp add: start_node_def new)
    have "boot c m s' = outbox_send c i (fresh_train n)
        ((boot c m s)\<lparr>cores := (cores (boot c m s))(i := issue_node n), up := insert i (up (boot c m s))\<rparr>)"
      unfolding s' by (intro ring_state.equality) (simp_all add: boot_def outbox_send_def fun_eq_iff)
    then show ?thesis using True i(2) new by (intro lap_inv_issue [OF inv, of i]) (simp_all add: core)
  next
    case False
    then have s': "s' = s\<lparr>cores := (cores s)(i := n), up := insert i (up s)\<rparr>"
      using st by (simp add: start_node_def new)
    have "boot c m s' = (boot c m s)\<lparr>up := insert i (up (boot c m s))\<rparr>"
      unfolding s' by (intro ring_state.equality) (simp_all add: boot_def fun_eq_iff new i(2))
    then show ?thesis using False by (simp only:) (rule lap_inv_up [OF inv], simp)
  qed
qed

section \<open>What the network invariant adds\<close>

definition segments :: "config \<Rightarrow> ring_state \<Rightarrow> bool" where
  "segments c s \<longleftrightarrow> (\<forall>i<RING_SIZE c. initial_segment c (done_keys (delivery (cores s i))))"

lemma boot_core:
  assumes "ring_sim c k m s a" and "i < RING_SIZE c"
  shows "cores (boot c m s) i = nodes a i"
proof -
  have *: "if i \<in> up s then nodes a i = cores s i else node_new c i m = Some (nodes a i)"
    using assms unfolding ring_sim_def by blast
  show ?thesis using * by (cases "i \<in> up s") simp_all
qed

lemma sim_acked_all:
  assumes sim: "ring_sim c k m s a" and inv: "soup_inv c C a"
  shows "acked_all c (boot c m s)"
proof -
  have c: "valid_config c" using sim by (simp add: ring_sim_def)
  have ak: "proper c key \<and> (\<forall>j<RING_SIZE c. acked a j key)"
    if i: "i < RING_SIZE c" and t: "taken (nodes a i) key" for i key
  proof (cases "key \<in> done_keys (delivery (nodes a i))")
    case True
    then have "proper c key" using node_invD(5) [OF inv i] unfolding initial_segment_def by blast
    then show ?thesis using node_invD(6) [OF inv i True] by blast
  next
    case False
    then have "key \<in> set (btm_keys (parked (nodes a i)))" using t by (simp add: taken_def)
    then obtain u where u: "btm_get (parked (nodes a i)) key = Some u" by (rule parked_keyE)
    have k: "key_of u = key" using node_wfD(6) [OF node_invD(1) [OF inv i] u] by blast
    have "u \<in> snd ` set (parked (nodes a i))" using map_of_SomeD [OF u] by force
    then have "u \<in> sent a" "all_acks c u" using node_invD(4) [OF inv i] by auto
    then show ?thesis using sent_ok [OF inv] k
      unfolding train_ok_def all_acks_def proper_def by (auto simp: key_of_def)
  qed
  show ?thesis
    unfolding acked_all_def
  proof (intro allI impI)
    fix i q cl assume i: "i < RING_SIZE c" and "taken (cores (boot c m s) i) (ClockKey cl q)"
    then have p: "proper c (ClockKey cl q)" "\<forall>j<RING_SIZE c. acked a j (ClockKey cl q)"
      using ak [OF i] boot_core [OF sim i] by auto
    have "q < RING_SIZE c" using p(1) valid_configD(5) [OF c] by (simp add: proper_def)
    moreover from this have "cl < next_issue_clock (nodes a q)" using p(2) by (fastforce simp: acked_def)
    moreover have "cl \<le> seen (clocks (nodes a j)) ! q" if "j < RING_SIZE c" "j \<noteq> q" for j
      using p(2) that by (fastforce simp: acked_def)
    ultimately show "1 \<le> cl \<and> q < NUM_TRAINS c \<and> cl < next_issue_clock (cores (boot c m s) q) \<and>
        (\<forall>j<RING_SIZE c. j \<noteq> q \<longrightarrow> cl \<le> seen (clocks (cores (boot c m s) j)) ! q)"
      using p(1) boot_core [OF sim] by (simp add: proper_def)
  qed
qed

lemma sim_segments: "ring_sim c k m s a \<Longrightarrow> soup_inv c C a \<Longrightarrow> segments c (boot c m s)"
  using boot_core node_invD(5) by (simp add: segments_def)

section \<open>Taken everywhere, delivered everywhere\<close>

lemma taken_known:
  assumes "node_wf c n" and "taken n k"
  shows "known c n k"
  using assms(2) node_wfD(10) [OF assms(1)] node_wfD(6) [OF assms(1)] parked_keyE [of k n]
  unfolding taken_def by metis

lemma done_upto:
  assumes inv: "lap_inv c m s" and j: "j < RING_SIZE c"
    and all: "\<And>q cl. q < NUM_TRAINS c \<Longrightarrow> 1 \<le> cl \<Longrightarrow> cl \<le> M \<Longrightarrow> taken (cores s j) (ClockKey cl q)"
    and k: "q < NUM_TRAINS c" "1 \<le> cl" "cl \<le> M"
  shows "ClockKey cl q \<in> done_keys (delivery (cores s j))"
proof (rule ccontr)
  let ?n = "cores s j" and ?P = "set (btm_keys (parked (cores s j)))"
  assume no: "ClockKey cl q \<notin> done_keys (delivery ?n)"
  then have kin: "ClockKey cl q \<in> ?P" using all [OF k] by (simp add: taken_def)
  define k0 where "k0 = Min ?P"
  have fin: "finite ?P" by (rule finite_set)
  have ne: "?P \<noteq> {}" using kin by force
  have k0: "k0 \<in> ?P" "\<And>k. k \<in> ?P \<Longrightarrow> k0 \<le> k"
    unfolding k0_def using Min_in [OF fin ne] Min_le [OF fin] by blast+
  have ckM: "ck_clock k0 \<le> M" using k0(2) [OF kin] k(3) by (auto simp: less_eq_clock_key_def)
  have wf: "node_wf c ?n" by (rule node_okD(1) [OF lap_nodeD(1) [OF inv j]])
  have kn0: "known c ?n k0" by (rule taken_known [OF wf]) (use k0(1) in \<open>simp add: taken_def\<close>)
  have "deliverable c ?n k0"
    unfolding deliverable_def
  proof (intro conjI ballI allI impI)
    fix i assume i: "known c ?n i \<and> i < k0"
    then have "ck_clock i \<le> M" using ckM by (auto simp: less_clock_key_def)
    moreover have "ck_issuer i < NUM_TRAINS c"
      using i lap_nodeD(4) [OF inv j, of "ck_issuer i"] by (cases "ck_issuer i < NUM_TRAINS c") (auto simp: known_def)
    ultimately have "taken ?n i" using all [of "ck_issuer i" "ck_clock i"] i by (simp add: known_def)
    moreover have "i \<notin> ?P" using k0(2) [of i] i by (meson leD)
    ultimately show "i \<in> done_keys (delivery ?n)" unfolding taken_def by blast
  next
    fix q' assume "q' < NUM_TRAINS c"
    then have "taken ?n (ClockKey (ck_clock k0) q')" using all ckM kn0 by (simp add: known_def)
    then show "bit (crashed_bits (delivery ?n)) q' \<or> ck_clock k0 \<le> seen (clocks ?n) ! q'"
      using taken_known [OF wf, of "ClockKey (ck_clock k0) q'"] by (simp add: known_def)
  qed (use k0(2) in blast)
  moreover have "quiescent c ?n" using node_okD(2) [OF lap_nodeD(1) [OF inv j]] lap_nodeD(2) [OF inv j] by (simp add: plain_def)
  ultimately show False using quiescentD k0(1) by blast
qed

text \<open>Two trains on the ring are at most two clocks apart, and every key three clocks below
  one of them is delivered at every node.\<close>

lemma clocks_close:
  assumes inv: "lap_inv c m s" and ack: "acked_all c s" and seg: "segments c s"
    and x: "at c s q n x" and r: "r < NUM_TRAINS c" and cl: "3 \<le> clock x"
  obtains n' y where "at c s r n' y" "train_inv c s r n' y" "clock x \<le> clock y + 2"
proof -
  have c: "valid_config c" using inv by (simp add: lap_inv_def)
  note A = lap_at [OF inv x]
  have q: "q < RING_SIZE c" using A(2) valid_configD(5) [OF c] by simp
  have "ClockKey (clock x - 1) q \<in> done_keys (delivery (cores s q))"
    using train_invD(9) [OF A(1)] cl by simp
  moreover have "clock x - 2 < clock x - 1" "1 \<le> clock x - 2" using cl by simp_all
  then have "proper c (ClockKey (clock x - 2) r)" "ClockKey (clock x - 2) r < ClockKey (clock x - 1) q"
    using r unfolding proper_def less_clock_key_def by simp_all
  ultimately have "ClockKey (clock x - 2) r \<in> done_keys (delivery (cores s q))"
    using seg q unfolding segments_def initial_segment_def by blast
  then have "taken (cores s q) (ClockKey (clock x - 2) r)" by (simp add: taken_def)
  then have ni: "clock x - 2 < next_issue_clock (cores s r)" using ack q unfolding acked_all_def by blast
  then have "r \<in> up s" using lap_silent [OF inv r] cl by (cases "r \<in> up s") (auto simp: silent_def)
  then obtain n' y where ny: "at c s r n' y" "train_inv c s r n' y" using lap_trainE [OF inv r] by blast
  then show ?thesis using that [OF ny] train_invD(1) [OF ny(2)] ni by simp
qed

lemma done_below:
  assumes inv: "lap_inv c m s" and ack: "acked_all c s" and seg: "segments c s"
    and x: "at c s q n x" and j: "j < RING_SIZE c" and k: "r < NUM_TRAINS c" "1 \<le> cl" "cl + 3 \<le> clock x"
  shows "ClockKey cl r \<in> done_keys (delivery (cores s j))"
proof (rule done_upto [OF inv j _ k(1,2)])
  fix q' cl' assume q': "q' < NUM_TRAINS c" "1 \<le> cl'" "cl' \<le> clock x - 3"
  have "3 \<le> clock x" using k(3) by simp
  from clocks_close [OF inv ack seg x q'(1) this] obtain n' y
    where y: "train_inv c s q' n' y" "clock x \<le> clock y + 2" by blast
  then show "taken (cores s j) (ClockKey cl' q')" using train_invD(8) [OF y(1) _ q'(2) j] q'(3) k(3) by simp
qed (use k(3) in simp)

end
