(* ===== verification/Ring_Runs.thy ===== *)
theory Ring_Runs
  imports Ring_Boot
begin

text \<open>
  Infinite runs of a ring whose links lose nothing. Such a run is simulated, state by state, by a run
  of the network; while issue clocks are left the lap invariant holds along it, and clocks,
  taken keys and deliveries only grow.
\<close>

section \<open>Runs\<close>

definition receives :: "config \<Rightarrow> proc_id \<Rightarrow> ring_state \<Rightarrow> ring_state \<Rightarrow> bool" where
  "receives c n s s' \<longleftrightarrow> n \<in> up s \<and>
     (\<exists>x ts. inbox s n = x # ts \<and> node_arm c n (TrainReceived x) (pop_inbox n s) = Some s')"

inductive reliable_step ::
    "config \<Rightarrow> nat \<Rightarrow> delivery_mode \<Rightarrow> ring_state \<Rightarrow> ring_state \<Rightarrow> bool" for c k m where
  rel_start: "i < RING_SIZE c \<Longrightarrow> i \<notin> up s \<Longrightarrow> start_node c k m i s = Some s' \<Longrightarrow> reliable_step c k m s s'"
| rel_bcast: "i \<in> up s \<Longrightarrow> node_arm c i (LocalBroadcast bs) s = Some s' \<Longrightarrow> reliable_step c k m s s'"
| rel_tick: "i \<in> up s \<Longrightarrow> node_arm c i Tick s = Some s' \<Longrightarrow> reliable_step c k m s s'"
| rel_recv: "receives c i s s' \<Longrightarrow> reliable_step c k m s s'"
| rel_idle: "reliable_step c k m s s"

text \<open>Every node task starts, and a started task takes the next train from its inbox
  eventually.\<close>

definition fair_run :: "config \<Rightarrow> nat \<Rightarrow> delivery_mode \<Rightarrow> (nat \<Rightarrow> ring_state) \<Rightarrow> bool" where
  "fair_run c k m \<sigma> \<longleftrightarrow> ring_init c (\<sigma> 0) \<and> (\<forall>t. reliable_step c k m (\<sigma> t) (\<sigma> (Suc t))) \<and>
     (\<forall>i<RING_SIZE c. \<exists>t. i \<in> up (\<sigma> t)) \<and>
     (\<forall>t n. n \<in> up (\<sigma> t) \<and> inbox (\<sigma> t) n \<noteq> [] \<longrightarrow> (\<exists>t'\<ge>t. receives c n (\<sigma> t') (\<sigma> (Suc t'))))"

lemma reliable_ring_step: "reliable_step c k m s s' \<Longrightarrow> s' = s \<or> ring_step c k m s s'"
  by (induction rule: reliable_step.induct) (auto simp: receives_def intro: ring_step.intros)

lemma node_arm_up: "node_arm c i inp s = Some s' \<Longrightarrow> up s' = up s"
  by (cases "step c inp (cores s i)") (auto simp: node_arm_def dispatch_effect)

lemma step_up:
  assumes "reliable_step c k m s s'"
  shows "up s \<subseteq> up s'"
  using assms
proof (induction rule: reliable_step.induct)
  case (rel_start i s s')
  then show ?case by (auto simp: start_node_def outbox_send_def split: bind_splits if_splits)
next
  case (rel_recv i s s')
  then show ?case using node_arm_up by (fastforce simp: receives_def pop_inbox_def)
qed (simp_all add: node_arm_up)

definition run_sim :: "config \<Rightarrow> delivery_mode \<Rightarrow> (nat \<Rightarrow> ring_state) \<Rightarrow> (nat \<Rightarrow> net) \<Rightarrow> bool" where
  "run_sim c m \<sigma> a \<longleftrightarrow> fair_run c (NUM_TRAINS c) m \<sigma> \<and>
     (\<forall>t. ring_sim c (NUM_TRAINS c) m (\<sigma> t) (a t) \<and> net_ok c (a t) \<and> (soup_step c)\<^sup>*\<^sup>* (a t) (a (Suc t)))"

lemma soup_steps_ok:
  assumes "(soup_step c)\<^sup>*\<^sup>* a a'" and "valid_config c" and "net_ok c a"
  shows "net_ok c a' \<and> (clocks_left c a' \<longrightarrow> clocks_left c a \<and>
    (\<forall>C. soup_inv c C a \<longrightarrow> (\<exists>C'. soup_inv c C' a' \<and> extends c C a C' a')))"
  using assms(1)
proof (induction rule: rtranclp_induct)
  case base
  then show ?case using assms(3) extends_refl by blast
next
  case (step b b')
  have ok: "net_ok c b" using step.IH by blast
  note S = net_ok_step [OF assms(2) ok step.hyps(2)]
  have "\<exists>C'. soup_inv c C' b' \<and> extends c C a C' b'" if left: "clocks_left c b'" and C: "soup_inv c C a" for C
  proof -
    obtain C1 where C1: "soup_inv c C1 b" "extends c C a C1 b" using step.IH S left C by blast
    obtain C2 where "soup_inv c C2 b'" "extends c C1 b C2 b'"
      using soup_inv_step [OF assms(2) ok C1(1) left _ step.hyps(2)] S left by blast
    then show ?thesis using extends_trans [OF C1(2)] by blast
  qed
  then show ?case using S step.IH by blast
qed

lemma run_sim_exists:
  assumes "fair_run c (NUM_TRAINS c) m \<sigma>"
  shows "\<exists>a. run_sim c m \<sigma> a \<and> soup_init c m (a 0)"
proof -
  let ?K = "NUM_TRAINS c"
  let ?P = "\<lambda>t a. ring_sim c ?K m (\<sigma> t) a \<and> net_ok c a \<and> (t = 0 \<longrightarrow> soup_init c m a)"
  have c: "valid_config c" and init: "ring_start_state c ?K (\<sigma> 0)"
    using assms by (simp_all add: fair_run_def ring_init_def ring_start_state_def)
  obtain a0 where a0: "soup_init c m a0" "ring_sim c ?K m (\<sigma> 0) a0" using ring_sim_init [OF init] by blast
  have "\<exists>a. \<forall>t. ?P t (a t) \<and> (soup_step c)\<^sup>*\<^sup>* (a t) (a (Suc t))"
  proof (rule dependent_nat_choice)
    show "\<exists>a. ?P 0 a" using a0 net_ok_init by blast
  next
    fix a t assume a: "?P t a"
    have "reliable_step c ?K m (\<sigma> t) (\<sigma> (Suc t))" using assms by (simp add: fair_run_def)
    then have "\<exists>a'. (soup_step c)\<^sup>*\<^sup>* a a' \<and> ring_sim c ?K m (\<sigma> (Suc t)) a'"
      using reliable_ring_step ring_sim_step [of c ?K m "\<sigma> t" a] a by (metis rtranclp.rtrancl_refl)
    then show "\<exists>a'. ?P (Suc t) a' \<and> (soup_step c)\<^sup>*\<^sup>* a a'" using soup_steps_ok [OF _ c] a by blast
  qed
  then obtain a where "\<forall>t. ?P t (a t) \<and> (soup_step c)\<^sup>*\<^sup>* (a t) (a (Suc t))" by blast
  then show ?thesis using assms unfolding run_sim_def by blast
qed

lemma run_simD:
  assumes "run_sim c m \<sigma> a"
  shows "valid_config c" "reliable_step c (NUM_TRAINS c) m (\<sigma> t) (\<sigma> (Suc t))"
    "ring_sim c (NUM_TRAINS c) m (\<sigma> t) (a t)" "net_ok c (a t)" "(soup_step c)\<^sup>*\<^sup>* (a t) (a (Suc t))"
    "i < RING_SIZE c \<Longrightarrow> \<exists>t. i \<in> up (\<sigma> t)" "ring_init c (\<sigma> 0)"
    "n \<in> up (\<sigma> t) \<Longrightarrow> inbox (\<sigma> t) n \<noteq> [] \<Longrightarrow> \<exists>t'\<ge>t. receives c n (\<sigma> t') (\<sigma> (Suc t'))"
  using assms unfolding run_sim_def fair_run_def ring_init_def by blast+

lemma run_left_mono:
  assumes "run_sim c m \<sigma> a" and "t \<le> t'" and "clocks_left c (a t')"
  shows "clocks_left c (a t)"
  using assms(2,3)
proof (induction t' rule: dec_induct)
  case (step t')
  then show ?case using soup_steps_ok [OF run_simD(5,1,4) [OF assms(1)]] by blast
qed

lemma run_extends:
  assumes "run_sim c m \<sigma> a" and "t \<le> t'" and "clocks_left c (a t')" and "soup_inv c C (a t)"
  shows "\<exists>C'. soup_inv c C' (a t') \<and> extends c C (a t) C' (a t')"
  using assms(2,3)
proof (induction t' rule: dec_induct)
  case base
  then show ?case using assms(4) extends_refl by blast
next
  case (step t')
  note S = soup_steps_ok [OF run_simD(5,1,4) [OF assms(1)], of t']
  obtain C1 where C1: "soup_inv c C1 (a t')" "extends c C (a t) C1 (a t')" using step S by blast
  obtain C2 where "soup_inv c C2 (a (Suc t'))" "extends c C1 (a t') C2 (a (Suc t'))"
    using S step.prems C1(1) by blast
  then show ?case using extends_trans [OF C1(2)] by blast
qed

section \<open>The invariant along a run\<close>

lemma boot_quiet:
  assumes "i \<in> up s" and "i < RING_SIZE c" and "node_arm c i (LocalBroadcast bs) s = Some s' \<or> node_arm c i Tick s = Some s'"
  shows "quiet_step c (boot c m s) (boot c m s')"
  using assms boot_arm [OF assms(1)] unfolding quiet_step_def by blast

lemma boot_receives:
  assumes "receives c n s s'"
  obtains x ts where "inbox s n = x # ts" "n \<in> up s"
    "node_arm c n (TrainReceived x) (pop_inbox n (boot c m s)) = Some (boot c m s')"
proof -
  obtain x ts where x: "inbox s n = x # ts" "n \<in> up s" "node_arm c n (TrainReceived x) (pop_inbox n s) = Some s'"
    using assms by (auto simp: receives_def)
  then have "n \<in> up (pop_inbox n s)" by (simp add: pop_inbox_def)
  then show ?thesis using that [OF x(1,2)] boot_arm [OF _ x(3), of m] by (simp add: boot_pop)
qed

definition live :: "config \<Rightarrow> delivery_mode \<Rightarrow> ring_state \<Rightarrow> bool" where
  "live c m s \<longleftrightarrow> lap_inv c m s \<and> acked_all c s \<and> segments c s \<and> up s \<subseteq> {..<RING_SIZE c} \<and>
     (\<forall>i<RING_SIZE c. next_issue_clock (cores s i) < u64_max)"

lemma liveD:
  assumes "live c m s"
  shows "lap_inv c m s" "acked_all c s" "segments c s" "up s \<subseteq> {..<RING_SIZE c}"
    "i < RING_SIZE c \<Longrightarrow> next_issue_clock (cores s i) < u64_max"
  using assms by (simp_all add: live_def)

lemma receive_event:
  assumes l: "live c m (boot c m s)" and rc: "receives c d s s'" and d: "d < RING_SIZE c"
  obtains x ts n' outs where "inbox s d = x # ts"
    "node_arm c d (TrainReceived x) (pop_inbox d (boot c m s)) = Some (boot c m s')"
    "step c (TrainReceived x) (cores (boot c m s) d) = Some (n', outs)"
    "hop_ok c m x (cores (boot c m s) d) n' outs" "cores (boot c m s') = (cores (boot c m s))(d := n')"
    "hop_inbox c d (hop_train (cores (boot c m s) d) x) (boot c m s) (boot c m s')"
    "at c (boot c m s) (issuer x) d x" "train_inv c (boot c m s) (issuer x) d x" "issuer x < NUM_TRAINS c"
proof -
  obtain x ts where x: "inbox s d = x # ts"
      "node_arm c d (TrainReceived x) (pop_inbox d (boot c m s)) = Some (boot c m s')"
    using boot_receives [OF rc] by metis
  have "inbox (boot c m s) d = x # ts" using x(1) by simp
  from recv_event [OF liveD(1) [OF l] d this x(2)] show ?thesis using that [OF x] by blast
qed

lemma live_lap_step:
  assumes l: "live c m (boot c m s)" and m: "m \<noteq> CausalOrder" and st: "reliable_step c (NUM_TRAINS c) m s s'"
  shows "lap_inv c m (boot c m s')"
  using st
proof (cases rule: reliable_step.cases)
  case (rel_start i)
  then show ?thesis using lap_inv_start [OF liveD(1) [OF l]] by blast
next
  case (rel_bcast i bs)
  moreover from this have "i < RING_SIZE c" using liveD(4) [OF l] by auto
  ultimately show ?thesis using lap_inv_quiet [OF liveD(1) [OF l] boot_quiet] by blast
next
  case (rel_tick i)
  moreover from this have "i < RING_SIZE c" using liveD(4) [OF l] by auto
  ultimately show ?thesis using lap_inv_quiet [OF liveD(1) [OF l] boot_quiet] by blast
next
  case (rel_recv i)
  then obtain x ts where x: "inbox s i = x # ts" "i \<in> up s"
      "node_arm c i (TrainReceived x) (pop_inbox i (boot c m s)) = Some (boot c m s')"
    by (rule boot_receives)
  then have "i < RING_SIZE c" using liveD(4) [OF l] by auto
  then show ?thesis using lap_inv_recv [OF liveD(1) [OF l] m liveD(2) [OF l] _ _ liveD(5) [OF l] x(3)] x(1) by simp
qed (use liveD(1) [OF l] in simp)

lemma run_soup_inv:
  assumes "run_sim c m \<sigma> a" and "soup_init c m (a 0)" and "clocks_left c (a t)"
  obtains C where "soup_inv c C (a t)"
  using run_extends [OF assms(1) le0 assms(3) soup_inv_init [OF assms(2)]] by blast

lemma sim_live:
  assumes sim: "ring_sim c k m s a" and C: "soup_inv c C a" and left: "clocks_left c a" and lap: "lap_inv c m (boot c m s)"
  shows "live c m (boot c m s)"
proof -
  have "up s \<subseteq> {..<RING_SIZE c}" using sim unfolding ring_sim_def by blast
  moreover have "next_issue_clock (cores (boot c m s) i) < u64_max" if "i < RING_SIZE c" for i
    using boot_core [OF sim that] left that by (simp add: clocks_left_def)
  ultimately show ?thesis
    using lap sim_acked_all [OF sim C] sim_segments [OF sim C] unfolding live_def boot_simps(2) by blast
qed

lemma run_live:
  assumes r: "run_sim c m \<sigma> a" and i: "soup_init c m (a 0)" and m: "m \<noteq> CausalOrder" and left: "clocks_left c (a t)"
  shows "live c m (boot c m (\<sigma> t))"
  using left
proof (induction t)
  case 0
  obtain C where "soup_inv c C (a 0)" by (rule run_soup_inv [OF r i 0])
  then show ?case by (rule sim_live [OF run_simD(3) [OF r] _ 0 lap_inv_init [OF run_simD(7) [OF r]]])
next
  case (Suc t)
  obtain C where C: "soup_inv c C (a (Suc t))" by (rule run_soup_inv [OF r i Suc.prems])
  have "lap_inv c m (boot c m (\<sigma> (Suc t)))"
    using live_lap_step [OF _ m run_simD(2) [OF r]] Suc run_left_mono [OF r le_SucI [OF le_refl]] by blast
  then show ?case by (rule sim_live [OF run_simD(3) [OF r] C Suc.prems])
qed

section \<open>What only grows\<close>

definition grows :: "config \<Rightarrow> ring_state \<Rightarrow> ring_state \<Rightarrow> bool" where
  "grows c s s' \<longleftrightarrow> up s \<subseteq> up s' \<and> (\<forall>i<RING_SIZE c.
     next_issue_clock (cores s i) \<le> next_issue_clock (cores s' i) \<and>
     next_issue_clock (cores s' i) \<le> Suc (next_issue_clock (cores s i)) \<and>
     (\<forall>q<RING_SIZE c. seen (clocks (cores s i)) ! q \<le> seen (clocks (cores s' i)) ! q) \<and>
     (\<forall>k. taken (cores s i) k \<longrightarrow> taken (cores s' i) k) \<and>
     done_keys (delivery (cores s i)) \<subseteq> done_keys (delivery (cores s' i)))"

lemma grows_quiet: "quiet_step c s s' \<Longrightarrow> grows c s s'"
  unfolding grows_def by (simp add: quiet_frame)

lemma grows_hop:
  assumes h: "hop_ok c m x (cores s d) n' outs" and x: "issuer x < RING_SIZE c"
    and s': "cores s' = (cores s)(d := n')" "up s' = up s"
    and b: "d < RING_SIZE c \<Longrightarrow> next_issue_clock (cores s d) < u64_max"
  shows "grows c s s'"
proof -
  note H = hop_okD [OF h]
  have "seen (clocks (cores s d)) ! q \<le> seen (clocks n') ! q" if "q < RING_SIZE c" for q
    using H(8) [OF that] H(9) [OF x] by (cases "q = issuer x") simp_all
  moreover have "d < RING_SIZE c \<Longrightarrow> next_issue_clock (cores s d) \<le> next_issue_clock n' \<and>
      next_issue_clock n' \<le> Suc (next_issue_clock (cores s d))"
    using H(10) b by (simp add: sat_add64_def)
  ultimately show ?thesis unfolding grows_def using H(5,7) by (auto simp: s')
qed

lemma grows_start:
  assumes c: "valid_config c" and i: "i < RING_SIZE c" "i \<notin> up s" and st: "start_node c k m i s = Some s'"
  shows "grows c (boot c m s) (boot c m s')"
proof -
  obtain n where new: "node_new c i m = Some n" using new_some [OF i(1)] by blast
  have iss: "issue_initial_train c n = Some (issue_node n, fresh_train n)"
    using issue_new_train_pure [OF c node_okD(1) [OF node_new_ok [OF new]]] by (simp add: issue_initial_train_def)
  have s': "up s' = insert i (up s)" "cores s' = (cores s)(i := (if i < k then issue_node n else n))"
    using st by (auto simp: start_node_def new iss outbox_send_def split: if_splits)
  have same: "cores (boot c m s') j = cores (boot c m s) j" if "j \<noteq> i" for j
    using that by (simp add: boot_def s')
  have own: "cores (boot c m s) i = n" "cores (boot c m s') i = (if i < k then issue_node n else n)"
    using i(2) new by (simp_all add: boot_def s')
  have one: "next_issue_clock n = 1" by (rule node_new_fields(3) [OF new])
  show ?thesis
    unfolding grows_def
  proof (intro conjI allI impI)
    fix j assume "j < RING_SIZE c"
    show "next_issue_clock (cores (boot c m s) j) \<le> next_issue_clock (cores (boot c m s') j)"
      "next_issue_clock (cores (boot c m s') j) \<le> Suc (next_issue_clock (cores (boot c m s) j))"
      "done_keys (delivery (cores (boot c m s) j)) \<subseteq> done_keys (delivery (cores (boot c m s') j))"
      using same [of j] own one by (cases "j = i"; simp add: sat_add64_def u64_max_def)+
    show "seen (clocks (cores (boot c m s) j)) ! q \<le> seen (clocks (cores (boot c m s') j)) ! q" for q
      using same [of j] own by (cases "j = i") simp_all
    show "taken (cores (boot c m s) j) k' \<Longrightarrow> taken (cores (boot c m s') j) k'" for k'
      using same [of j] own issue_taken(1) [of n] by (cases "j = i") simp_all
  qed (auto simp: s')
qed

lemma run_grows_step:
  assumes l: "live c m (boot c m s)" and st: "reliable_step c (NUM_TRAINS c) m s s'"
  shows "grows c (boot c m s) (boot c m s')"
  using st
proof (cases rule: reliable_step.cases)
  case (rel_start i)
  have "valid_config c" using liveD(1) [OF l] by (simp add: lap_inv_def)
  then show ?thesis using grows_start rel_start by blast
next
  case (rel_bcast i bs)
  moreover from this have "i < RING_SIZE c" using liveD(4) [OF l] by auto
  ultimately show ?thesis using grows_quiet [OF boot_quiet] by blast
next
  case (rel_tick i)
  moreover from this have "i < RING_SIZE c" using liveD(4) [OF l] by auto
  ultimately show ?thesis using grows_quiet [OF boot_quiet] by blast
next
  case (rel_recv i)
  then obtain x ts where x: "inbox s i = x # ts" "i \<in> up s"
      "node_arm c i (TrainReceived x) (pop_inbox i (boot c m s)) = Some (boot c m s')"
    by (rule boot_receives)
  have i: "i < RING_SIZE c" using liveD(4) [OF l] x(2) by auto
  have c: "valid_config c" using liveD(1) [OF l] by (simp add: lap_inv_def)
  have "inbox (boot c m s) i = x # ts" using x(1) by simp
  from recv_event [OF liveD(1) [OF l] i this x(3)]
  obtain n' outs where E: "hop_ok c m x (cores (boot c m s) i) n' outs"
      "cores (boot c m s') = (cores (boot c m s))(i := n')" "up (boot c m s') = up (boot c m s)" "issuer x < NUM_TRAINS c"
    by blast
  have "issuer x < RING_SIZE c" using E(4) valid_configD(5) [OF c] by simp
  then show ?thesis by (rule grows_hop [OF E(1) _ E(2,3) liveD(5) [OF l]])
qed (simp add: grows_def)

lemma run_monotone:
  assumes r: "run_sim c m \<sigma> a" and i: "soup_init c m (a 0)" and m: "m \<noteq> CausalOrder"
    and left: "clocks_left c (a t')" and t: "t \<le> t'"
  shows "up (\<sigma> t) \<subseteq> up (\<sigma> t')"
    "j < RING_SIZE c \<Longrightarrow> next_issue_clock (cores (boot c m (\<sigma> t)) j) \<le> next_issue_clock (cores (boot c m (\<sigma> t')) j)"
    "j < RING_SIZE c \<Longrightarrow> q < RING_SIZE c \<Longrightarrow>
       seen (clocks (cores (boot c m (\<sigma> t)) j)) ! q \<le> seen (clocks (cores (boot c m (\<sigma> t')) j)) ! q"
    "j < RING_SIZE c \<Longrightarrow> taken (cores (boot c m (\<sigma> t)) j) k \<Longrightarrow> taken (cores (boot c m (\<sigma> t')) j) k"
    "j < RING_SIZE c \<Longrightarrow> done_keys (delivery (cores (boot c m (\<sigma> t)) j)) \<subseteq> done_keys (delivery (cores (boot c m (\<sigma> t')) j))"
proof -
  have one: "grows c (boot c m (\<sigma> u)) (boot c m (\<sigma> (Suc u)))" if "clocks_left c (a (Suc u))" for u
    using run_grows_step [OF run_live [OF r i m] run_simD(2) [OF r]] run_left_mono [OF r le_SucI [OF le_refl] that] by blast
  have "up (\<sigma> t) \<subseteq> up (\<sigma> t') \<and> (\<forall>j<RING_SIZE c.
    next_issue_clock (cores (boot c m (\<sigma> t)) j) \<le> next_issue_clock (cores (boot c m (\<sigma> t')) j) \<and>
    (\<forall>q<RING_SIZE c. seen (clocks (cores (boot c m (\<sigma> t)) j)) ! q \<le> seen (clocks (cores (boot c m (\<sigma> t')) j)) ! q) \<and>
    (\<forall>k. taken (cores (boot c m (\<sigma> t)) j) k \<longrightarrow> taken (cores (boot c m (\<sigma> t')) j) k) \<and>
    done_keys (delivery (cores (boot c m (\<sigma> t)) j)) \<subseteq> done_keys (delivery (cores (boot c m (\<sigma> t')) j)))"
    using t left
  proof (induction t' rule: dec_induct)
    case (step t')
    have "clocks_left c (a t')" using run_left_mono [OF r le_SucI [OF le_refl] step.prems] .
    with step.IH one [OF step.prems] show ?case
      unfolding grows_def boot_simps(2) by (meson le_trans subset_trans)
  qed simp
  then show "up (\<sigma> t) \<subseteq> up (\<sigma> t')"
    "j < RING_SIZE c \<Longrightarrow> next_issue_clock (cores (boot c m (\<sigma> t)) j) \<le> next_issue_clock (cores (boot c m (\<sigma> t')) j)"
    "j < RING_SIZE c \<Longrightarrow> q < RING_SIZE c \<Longrightarrow>
       seen (clocks (cores (boot c m (\<sigma> t)) j)) ! q \<le> seen (clocks (cores (boot c m (\<sigma> t')) j)) ! q"
    "j < RING_SIZE c \<Longrightarrow> taken (cores (boot c m (\<sigma> t)) j) k \<Longrightarrow> taken (cores (boot c m (\<sigma> t')) j) k"
    "j < RING_SIZE c \<Longrightarrow> done_keys (delivery (cores (boot c m (\<sigma> t)) j)) \<subseteq> done_keys (delivery (cores (boot c m (\<sigma> t')) j))"
    by blast+
qed

end
