(* ===== verification/Ring_Live.thy ===== *)
theory Ring_Live
  imports Ring_Runs
begin

text \<open>
  Progress of a fair run on links that lose nothing: the train of every issuer visits every node
  again and again, so every clock is issued, acknowledged, taken and delivered everywhere, and
  the issue clocks pass every bound. A submitted payload is therefore delivered by every
  node, before any issue clock has moved more than seven ahead of where the clocks stood.
\<close>

section \<open>Visits\<close>

lemma eventually_all:
  fixes t :: nat
  assumes "finite A" and "\<And>i. i \<in> A \<Longrightarrow> \<exists>t'\<ge>t. P i t'"
    and "\<And>i s s'. i \<in> A \<Longrightarrow> t \<le> s \<Longrightarrow> s \<le> s' \<Longrightarrow> P i s \<Longrightarrow> P i s'"
  shows "\<exists>t'\<ge>t. \<forall>i\<in>A. P i t'"
  using assms
proof (induction A rule: finite_induct)
  case (insert i A)
  obtain t1 where t1: "t1 \<ge> t" "\<forall>i\<in>A. P i t1" using insert by blast
  obtain t2 where t2: "t2 \<ge> t" "P i t2" using insert by blast
  show ?case
    using t1 t2 insert.prems(2) by (intro exI [of _ "max t1 t2"]) (auto intro: le_trans)
qed blast

definition forever :: "config \<Rightarrow> delivery_mode \<Rightarrow> (nat \<Rightarrow> ring_state) \<Rightarrow> (nat \<Rightarrow> net) \<Rightarrow> nat \<Rightarrow> bool" where
  "forever c m \<sigma> a t0 \<longleftrightarrow> run_sim c m \<sigma> a \<and> soup_init c m (a 0) \<and> m \<noteq> CausalOrder \<and>
     (\<forall>t. clocks_left c (a t)) \<and> up (\<sigma> t0) = {..<RING_SIZE c}"

lemma foreverD:
  assumes "forever c m \<sigma> a t0"
  shows "run_sim c m \<sigma> a" "live c m (boot c m (\<sigma> t))" "valid_config c"
    "t0 \<le> t \<Longrightarrow> up (\<sigma> t) = {..<RING_SIZE c}" "m \<noteq> CausalOrder"
proof -
  have r: "run_sim c m \<sigma> a" "soup_init c m (a 0)" "m \<noteq> CausalOrder" "\<And>t. clocks_left c (a t)"
    using assms by (simp_all add: forever_def)
  show "run_sim c m \<sigma> a" "m \<noteq> CausalOrder" by (rule r)+
  show l: "live c m (boot c m (\<sigma> t))" for t by (rule run_live [OF r])
  show "valid_config c" by (rule run_simD(1) [OF r(1)])
  show "t0 \<le> t \<Longrightarrow> up (\<sigma> t) = {..<RING_SIZE c}"
    using run_monotone(1) [OF r] liveD(4) [OF l, of t] assms by (fastforce simp: forever_def)
qed

lemma forever_grows:
  assumes "forever c m \<sigma> a t0" and "t \<le> t'" and "j < RING_SIZE c"
  shows "next_issue_clock (cores (boot c m (\<sigma> t)) j) \<le> next_issue_clock (cores (boot c m (\<sigma> t')) j)"
    "q < RING_SIZE c \<Longrightarrow> seen (clocks (cores (boot c m (\<sigma> t)) j)) ! q \<le> seen (clocks (cores (boot c m (\<sigma> t')) j)) ! q"
    "taken (cores (boot c m (\<sigma> t)) j) k \<Longrightarrow> taken (cores (boot c m (\<sigma> t')) j) k"
    "done_keys (delivery (cores (boot c m (\<sigma> t)) j)) \<subseteq> done_keys (delivery (cores (boot c m (\<sigma> t')) j))"
proof -
  have r: "run_sim c m \<sigma> a" "soup_init c m (a 0)" "m \<noteq> CausalOrder" "clocks_left c (a t')"
    using assms(1) by (simp_all add: forever_def)
  note G = run_monotone [OF r assms(2)]
  show "next_issue_clock (cores (boot c m (\<sigma> t)) j) \<le> next_issue_clock (cores (boot c m (\<sigma> t')) j)"
    "q < RING_SIZE c \<Longrightarrow> seen (clocks (cores (boot c m (\<sigma> t)) j)) ! q \<le> seen (clocks (cores (boot c m (\<sigma> t')) j)) ! q"
    "taken (cores (boot c m (\<sigma> t)) j) k \<Longrightarrow> taken (cores (boot c m (\<sigma> t')) j) k"
    "done_keys (delivery (cores (boot c m (\<sigma> t)) j)) \<subseteq> done_keys (delivery (cores (boot c m (\<sigma> t')) j))"
    by (rule G(2) [OF assms(3)], rule G(3) [OF assms(3)], assumption, rule G(4) [OF assms(3)], assumption,
        rule G(5) [OF assms(3)])
qed

lemma settled_step:
  assumes u: "up s = {..<RING_SIZE c}" and st: "reliable_step c k m s s'"
  shows "(\<exists>d<RING_SIZE c. receives c d s s') \<or> quiet_step c (boot c m s) (boot c m s')"
  using st
proof (cases rule: reliable_step.cases)
  case (rel_start i)
  then show ?thesis using u by simp
next
  case (rel_bcast i bs)
  moreover from this have "i < RING_SIZE c" using u by simp
  ultimately show ?thesis using boot_quiet by blast
next
  case (rel_tick i)
  moreover from this have "i < RING_SIZE c" using u by simp
  ultimately show ?thesis using boot_quiet by blast
next
  case (rel_recv i)
  moreover from this have "i < RING_SIZE c" using u by (auto simp: receives_def)
  ultimately show ?thesis by blast
qed (simp add: quiet_step_def)

lemma full_step:
  assumes f: "forever c m \<sigma> a t0" and t: "t0 \<le> t"
  shows "(\<exists>d<RING_SIZE c. receives c d (\<sigma> t) (\<sigma> (Suc t))) \<or> quiet_step c (boot c m (\<sigma> t)) (boot c m (\<sigma> (Suc t)))"
  by (rule settled_step [OF foreverD(4) [OF f t] run_simD(2) [OF foreverD(1) [OF f]]])

lemma inbox_keep:
  assumes f: "forever c m \<sigma> a t0" and t: "t0 \<le> t" and no: "\<not> receives c n (\<sigma> t) (\<sigma> (Suc t))"
  shows "\<exists>ws. inbox (\<sigma> (Suc t)) n = inbox (\<sigma> t) n @ ws"
  using full_step [OF f t]
proof
  assume "quiet_step c (boot c m (\<sigma> t)) (boot c m (\<sigma> (Suc t)))"
  then show ?thesis using quiet_frame(1) by fastforce
next
  assume "\<exists>d<RING_SIZE c. receives c d (\<sigma> t) (\<sigma> (Suc t))"
  then obtain d where d: "d < RING_SIZE c" "receives c d (\<sigma> t) (\<sigma> (Suc t))" by blast
  then have "n \<noteq> d" using no by blast
  moreover obtain x' where "hop_inbox c d x' (boot c m (\<sigma> t)) (boot c m (\<sigma> (Suc t)))"
    using receive_event [OF foreverD(2) [OF f] d(2,1)] by metis
  ultimately show ?thesis by (simp add: hop_inbox_def)
qed

lemma inbox_pop:
  assumes f: "forever c m \<sigma> a t0" and n: "n < RING_SIZE c" and rc: "receives c n (\<sigma> t) (\<sigma> (Suc t))"
  shows "inbox (\<sigma> (Suc t)) n = tl (inbox (\<sigma> t) n)"
proof -
  obtain x' where "hop_inbox c n x' (boot c m (\<sigma> t)) (boot c m (\<sigma> (Suc t)))"
    using receive_event [OF foreverD(2) [OF f] rc n] by metis
  then show ?thesis using successor_ne [OF foreverD(3) [OF f] n] by (simp add: hop_inbox_def)
qed

lemma next_pop:
  assumes f: "forever c m \<sigma> a t0" and t: "t0 \<le> t" and n: "n < RING_SIZE c" and ne: "inbox (\<sigma> t) n \<noteq> []"
  shows "\<exists>t'\<ge>t. receives c n (\<sigma> t') (\<sigma> (Suc t')) \<and> (\<exists>ws. inbox (\<sigma> t') n = inbox (\<sigma> t) n @ ws)"
proof -
  have "n \<in> up (\<sigma> t)" using foreverD(4) [OF f t] n by simp
  then have ex: "\<exists>k. receives c n (\<sigma> (t + k)) (\<sigma> (Suc (t + k)))"
    using run_simD(8) [OF foreverD(1) [OF f] _ ne] by (metis le_Suc_ex)
  define k where "k = (LEAST k. receives c n (\<sigma> (t + k)) (\<sigma> (Suc (t + k))))"
  have k: "receives c n (\<sigma> (t + k)) (\<sigma> (Suc (t + k)))" unfolding k_def using ex by (rule LeastI_ex)
  have "\<exists>ws. inbox (\<sigma> (t + i)) n = inbox (\<sigma> t) n @ ws" if "i \<le> k" for i
    using that
  proof (induction i)
    case (Suc i)
    then have "i < k" by simp
    then have "\<not> receives c n (\<sigma> (t + i)) (\<sigma> (Suc (t + i)))" unfolding k_def by (rule not_less_Least)
    moreover have "t0 \<le> t + i" using t by simp
    ultimately obtain ws where "inbox (\<sigma> (Suc (t + i))) n = inbox (\<sigma> (t + i)) n @ ws" using inbox_keep [OF f] by blast
    moreover obtain ws' where "inbox (\<sigma> (t + i)) n = inbox (\<sigma> t) n @ ws'" using Suc by auto
    ultimately show ?case by simp
  qed simp
  then show ?thesis using k by (intro exI [of _ "t + k"]) simp
qed

lemma reaches_head:
  assumes f: "forever c m \<sigma> a t0" and n: "n < RING_SIZE c"
  shows "t0 \<le> t \<Longrightarrow> inbox (\<sigma> t) n = us @ x # vs \<Longrightarrow>
    \<exists>t'\<ge>t. receives c n (\<sigma> t') (\<sigma> (Suc t')) \<and> (\<exists>ts. inbox (\<sigma> t') n = x # ts)"
proof (induction us arbitrary: t vs)
  case Nil
  then show ?case using next_pop [OF f Nil(1) n] by fastforce
next
  case (Cons u us)
  obtain t' ws where t': "t' \<ge> t" "receives c n (\<sigma> t') (\<sigma> (Suc t'))" "inbox (\<sigma> t') n = inbox (\<sigma> t) n @ ws"
    using next_pop [OF f Cons.prems(1) n] Cons.prems(2) by auto
  have "inbox (\<sigma> (Suc t')) n = us @ x # (vs @ ws)" using inbox_pop [OF f n t'(2)] t'(3) Cons.prems(2) by simp
  moreover have "t0 \<le> Suc t'" using t'(1) Cons.prems(1) by simp
  ultimately show ?case using Cons.IH t'(1) by (meson Suc_leD le_trans)
qed

definition visit :: "config \<Rightarrow> delivery_mode \<Rightarrow> (nat \<Rightarrow> ring_state) \<Rightarrow> nat \<Rightarrow> proc_id \<Rightarrow> proc_id \<Rightarrow> train \<Rightarrow> bool" where
  "visit c m \<sigma> t q d x \<longleftrightarrow> at c (boot c m (\<sigma> t)) q d x \<and> (\<exists>ts. inbox (\<sigma> t) d = x # ts) \<and>
     receives c d (\<sigma> t) (\<sigma> (Suc t))"

lemma visitE:
  assumes f: "forever c m \<sigma> a t0" and v: "visit c m \<sigma> t q d x"
  obtains n' outs where "d < RING_SIZE c" "q < NUM_TRAINS c" "issuer x = q"
    "train_inv c (boot c m (\<sigma> t)) q d x"
    "step c (TrainReceived x) (cores (boot c m (\<sigma> t)) d) = Some (n', outs)"
    "hop_ok c m x (cores (boot c m (\<sigma> t)) d) n' outs" "cores (boot c m (\<sigma> (Suc t))) d = n'"
    "at c (boot c m (\<sigma> (Suc t))) q (successor c d) (hop_train (cores (boot c m (\<sigma> t)) d) x)"
proof -
  have at: "at c (boot c m (\<sigma> t)) q d x" and rc: "receives c d (\<sigma> t) (\<sigma> (Suc t))" using v by (simp_all add: visit_def)
  obtain ts where ts: "inbox (\<sigma> t) d = x # ts" using v by (auto simp: visit_def)
  note d = atD(1) [OF at] and iss = atD(3) [OF at]
  obtain n' outs where E: "step c (TrainReceived x) (cores (boot c m (\<sigma> t)) d) = Some (n', outs)"
      "hop_ok c m x (cores (boot c m (\<sigma> t)) d) n' outs" "cores (boot c m (\<sigma> (Suc t))) = (cores (boot c m (\<sigma> t)))(d := n')"
      "hop_inbox c d (hop_train (cores (boot c m (\<sigma> t)) d) x) (boot c m (\<sigma> t)) (boot c m (\<sigma> (Suc t)))"
      "train_inv c (boot c m (\<sigma> t)) q d x" "q < NUM_TRAINS c"
    using receive_event [OF foreverD(2) [OF f] rc d] ts iss by (metis list.inject)
  have "inbox (boot c m (\<sigma> t)) d = x # ts" using ts by simp
  then have "at c (boot c m (\<sigma> (Suc t))) q (successor c d) (hop_train (cores (boot c m (\<sigma> t)) d) x)"
    using at_hop_same [OF foreverD(3) [OF f] d _ at E(4)] hop_train_issuer iss by simp
  then show ?thesis using that [OF d E(6) iss E(5,1,2)] E(3) by simp
qed

lemma at_visited:
  assumes f: "forever c m \<sigma> a t0" and t: "t0 \<le> t" and at: "at c (boot c m (\<sigma> t)) q n x"
  shows "\<exists>t'\<ge>t. visit c m \<sigma> t' q n x"
proof -
  note n = atD(1) [OF at] and q = lap_at(2,3) [OF liveD(1) [OF foreverD(2) [OF f]] at]
  have "x \<in> set (inbox (\<sigma> t) n)" using atD(2) [OF at] by simp
  then obtain us vs where "inbox (\<sigma> t) n = us @ x # vs" by (metis split_list)
  then obtain t' ts where t': "t' \<ge> t" "receives c n (\<sigma> t') (\<sigma> (Suc t'))" "inbox (\<sigma> t') n = x # ts"
    using reaches_head [OF f n t] by blast
  obtain y where y: "inbox (\<sigma> t') n = y # ts" "at c (boot c m (\<sigma> t')) (issuer y) n y"
    using receive_event [OF foreverD(2) [OF f] t'(2) n] t'(3) by (metis list.inject)
  have "visit c m \<sigma> t' q n x" using y t'(2,3) atD(3) [OF at] by (auto simp: visit_def)
  then show ?thesis using t'(1) by blast
qed

lemma visits_from:
  assumes f: "forever c m \<sigma> a t0"
  shows "t0 \<le> t \<Longrightarrow> at c (boot c m (\<sigma> t)) q n x \<Longrightarrow> \<exists>t'\<ge>t. \<exists>y. visit c m \<sigma> t' q ((n + k) mod RING_SIZE c) y"
proof (induction k arbitrary: t n x)
  case 0
  then show ?case using at_visited [OF f 0] atD(1) [OF 0(2)] by auto
next
  case (Suc k)
  obtain t' where t': "t' \<ge> t" "visit c m \<sigma> t' q n x" using at_visited [OF f Suc.prems] by blast
  obtain y where "at c (boot c m (\<sigma> (Suc t'))) q (successor c n) y" using visitE [OF f t'(2)] by metis
  moreover have "t0 \<le> Suc t'" using t'(1) Suc.prems(1) by simp
  ultimately obtain t'' z where "t'' \<ge> Suc t'" "visit c m \<sigma> t'' q ((successor c n + k) mod RING_SIZE c) z"
    using Suc.IH by blast
  moreover have "(successor c n + k) mod RING_SIZE c = (n + Suc k) mod RING_SIZE c"
    by (simp add: successor_def mod_simps)
  ultimately show ?case using t'(1) by (metis Suc_leD le_trans)
qed

lemma visits:
  assumes f: "forever c m \<sigma> a t0" and t: "t0 \<le> t" and q: "q < NUM_TRAINS c" and d: "d < RING_SIZE c"
  obtains t' x where "t \<le> t'" "visit c m \<sigma> t' q d x"
proof -
  have "q \<in> up (boot c m (\<sigma> t))" using foreverD(4) [OF f t] q valid_configD(5) [OF foreverD(3) [OF f]] by simp
  then obtain n x where at: "at c (boot c m (\<sigma> t)) q n x"
    using lap_trainE [OF liveD(1) [OF foreverD(2) [OF f]] q] by metis
  have "(n + (d + RING_SIZE c - n)) mod RING_SIZE c = d" using atD(1) [OF at] d by simp
  then show ?thesis using visits_from [OF f t at, of "d + RING_SIZE c - n"] that by auto
qed

section \<open>Every clock is issued, acknowledged, taken, delivered\<close>

definition ahead :: "config \<Rightarrow> ring_state \<Rightarrow> tick \<Rightarrow> bool" where
  "ahead c s x \<longleftrightarrow> (\<forall>q<NUM_TRAINS c. x < next_issue_clock (cores s q))"

lemma ahead_mono:
  assumes f: "forever c m \<sigma> a t0" and "t \<le> t'" and "ahead c (boot c m (\<sigma> t)) x"
  shows "ahead c (boot c m (\<sigma> t')) x"
  unfolding ahead_def
proof (intro allI impI)
  fix q assume q: "q < NUM_TRAINS c"
  then have "q < RING_SIZE c" using valid_configD(5) [OF foreverD(3) [OF f]] by simp
  then show "x < next_issue_clock (cores (boot c m (\<sigma> t')) q)"
    using forever_grows(1) [OF f assms(2)] assms(3) q unfolding ahead_def by (meson less_le_trans)
qed

lemma visit_clock:
  assumes f: "forever c m \<sigma> a t0" and "t \<le> t'" and "ahead c (boot c m (\<sigma> t)) k" and v: "visit c m \<sigma> t' q d x"
  shows "k \<le> clock x"
proof -
  obtain n' outs where V: "q < NUM_TRAINS c" "train_inv c (boot c m (\<sigma> t')) q d x" using visitE [OF f v] by metis
  then show ?thesis using ahead_mono [OF f assms(2,3)] train_invD(1) [OF V(2)] unfolding ahead_def by fastforce
qed

lemma clock_seen:
  assumes f: "forever c m \<sigma> a t0" and t: "t0 \<le> t" "ahead c (boot c m (\<sigma> t)) k"
  shows "\<exists>t'\<ge>t. \<forall>(q, j)\<in>{..<NUM_TRAINS c} \<times> {..<RING_SIZE c}. k \<le> seen (clocks (cores (boot c m (\<sigma> t')) j)) ! q"
proof (rule eventually_all)
  note c = foreverD(3) [OF f]
  fix i assume "i \<in> {..<NUM_TRAINS c} \<times> {..<RING_SIZE c}"
  then obtain q j where i: "i = (q, j)" "q < NUM_TRAINS c" "j < RING_SIZE c" by auto
  have qN: "q < RING_SIZE c" using i(2) valid_configD(5) [OF c] by simp
  obtain t' x where t': "t \<le> t'" "visit c m \<sigma> t' q j x" by (rule visits [OF f t(1) i(2,3)])
  have "k \<le> seen (clocks (cores (boot c m (\<sigma> (Suc t'))) j)) ! q"
    using visitE [OF f t'(2)] visit_clock [OF f t'(1) t(2) t'(2)] hop_okD(9) qN
    by (metis (no_types, lifting) le_max_iff_disj)
  then show "\<exists>t'\<ge>t. case i of (q, j) \<Rightarrow> k \<le> seen (clocks (cores (boot c m (\<sigma> t')) j)) ! q"
    using t'(1) i(1) by (intro exI [of _ "Suc t'"]) simp
  show "case i of (q, j) \<Rightarrow> k \<le> seen (clocks (cores (boot c m (\<sigma> s')) j)) ! q"
    if "s \<le> s'" "case i of (q, j) \<Rightarrow> k \<le> seen (clocks (cores (boot c m (\<sigma> s)) j)) ! q" for s s'
    using that i forever_grows(2) [OF f that(1) i(3) qN] by simp
qed simp

lemma visit_takes:
  assumes f: "forever c m \<sigma> a t0" and v: "visit c m \<sigma> t q j x" and k: "k \<le> clock x" "1 \<le> k"
    and seen: "\<And>i. i < RING_SIZE c \<Longrightarrow> k \<le> seen (clocks (cores (boot c m (\<sigma> t)) i)) ! q"
  shows "taken (cores (boot c m (\<sigma> (Suc t))) j) (ClockKey k q)"
proof -
  obtain n' outs where V: "j < RING_SIZE c" "q < NUM_TRAINS c" "issuer x = q" "train_inv c (boot c m (\<sigma> t)) q j x"
      "step c (TrainReceived x) (cores (boot c m (\<sigma> t)) j) = Some (n', outs)" "cores (boot c m (\<sigma> (Suc t))) j = n'"
    using visitE [OF f v] by metis
  note T = train_invD [OF V(4)] and l = foreverD(2) [OF f, of t] and c = foreverD(3) [OF f]
  note N = lap_nodeD [OF liveD(1) [OF l] V(1)]
  have q: "q < RING_SIZE c" using V(2) valid_configD(5) [OF c] by simp
  show ?thesis
  proof (cases "k = clock x")
    case False
    then show ?thesis using T(8) [of k j] k V(1) forever_grows(3) [OF f le_SucI [OF le_refl] V(1)] by simp
  next
    case True
    have "bit (ack_bits x) i" if "i < RING_SIZE c" for i
      using T(4) T(6) [OF that] seen [OF that] True by (cases "i = q") simp_all
    then have "ready c x (cores (boot c m (\<sigma> t)) j)"
      using ready_iff [OF c N(2) foreverD(5) [OF f] T(5)] by (simp add: all_acks_def)
    moreover have "\<not> loads (cores (boot c m (\<sigma> t)) j) x"
      using seen [OF V(1)] True V(3) by (simp add: loads_def)
    moreover have "clock x \<le> u64_max" using T(1) liveD(5) [OF l q] by simp
    ultimately have "taken n' (key_of x)"
      using recv_taken [OF c N(1,2) _ T(2) _ _ _ V(5)] V(3) q by simp
    then show ?thesis using V(3,6) True by (simp add: key_of_def)
  qed
qed

lemma clock_taken:
  assumes f: "forever c m \<sigma> a t0" and t: "t0 \<le> t" "ahead c (boot c m (\<sigma> t)) k" and k: "1 \<le> k"
    and seen: "\<And>q i. q < NUM_TRAINS c \<Longrightarrow> i < RING_SIZE c \<Longrightarrow> k \<le> seen (clocks (cores (boot c m (\<sigma> t)) i)) ! q"
  shows "\<exists>t'\<ge>t. \<forall>(q, j)\<in>{..<NUM_TRAINS c} \<times> {..<RING_SIZE c}. taken (cores (boot c m (\<sigma> t')) j) (ClockKey k q)"
proof (rule eventually_all)
  fix i assume "i \<in> {..<NUM_TRAINS c} \<times> {..<RING_SIZE c}"
  then obtain q j where i: "i = (q, j)" "q < NUM_TRAINS c" "j < RING_SIZE c" by auto
  have qN: "q < RING_SIZE c" using i(2) valid_configD(5) [OF foreverD(3) [OF f]] by simp
  obtain t' x where t': "t \<le> t'" "visit c m \<sigma> t' q j x" by (rule visits [OF f t(1) i(2,3)])
  have "k \<le> seen (clocks (cores (boot c m (\<sigma> t')) i)) ! q" if "i < RING_SIZE c" for i
    using seen [OF i(2) that] forever_grows(2) [OF f t'(1) that qN] by (rule le_trans)
  then have "taken (cores (boot c m (\<sigma> (Suc t'))) j) (ClockKey k q)"
    by (rule visit_takes [OF f t'(2) visit_clock [OF f t'(1) t(2) t'(2)] k])
  then show "\<exists>t'\<ge>t. case i of (q, j) \<Rightarrow> taken (cores (boot c m (\<sigma> t')) j) (ClockKey k q)"
    using t'(1) i(1) by (intro exI [of _ "Suc t'"]) simp
  show "case i of (q, j) \<Rightarrow> taken (cores (boot c m (\<sigma> s')) j) (ClockKey k q)"
    if "s \<le> s'" "case i of (q, j) \<Rightarrow> taken (cores (boot c m (\<sigma> s)) j) (ClockKey k q)" for s s'
    using that i forever_grows(3) [OF f that(1) i(3)] by simp
qed simp

lemma all_taken_done:
  assumes f: "forever c m \<sigma> a t0" and t: "t0 \<le> t" "ahead c (boot c m (\<sigma> t)) k"
    and all: "\<And>q j. q < NUM_TRAINS c \<Longrightarrow> j < RING_SIZE c \<Longrightarrow> taken (cores (boot c m (\<sigma> t)) j) (ClockKey k q)"
    and q: "q < NUM_TRAINS c" "1 \<le> k" and j: "j < RING_SIZE c"
  shows "ClockKey k q \<in> done_keys (delivery (cores (boot c m (\<sigma> t)) j))"
proof (rule done_upto [OF liveD(1) [OF foreverD(2) [OF f]] j _ q le_refl])
  fix q' cl assume q': "q' < NUM_TRAINS c" and cl: "1 \<le> cl" "cl \<le> k"
  have "q' \<in> up (boot c m (\<sigma> t))" using foreverD(4) [OF f t(1)] q' valid_configD(5) [OF foreverD(3) [OF f]] by simp
  then obtain n x where x: "train_inv c (boot c m (\<sigma> t)) q' n x"
    using lap_trainE [OF liveD(1) [OF foreverD(2) [OF f]] q'] by metis
  have "k \<le> clock x" using t(2) q' train_invD(1) [OF x] unfolding ahead_def by fastforce
  then show "taken (cores (boot c m (\<sigma> t)) j) (ClockKey cl q')"
    using train_invD(8) [OF x _ cl(1) j] cl all [OF q' j] by (cases "cl = k") simp_all
qed

lemma clock_issued:
  assumes f: "forever c m \<sigma> a t0" and t: "t0 \<le> t" "ahead c (boot c m (\<sigma> t)) k"
    and dn: "\<And>q. q < NUM_TRAINS c \<Longrightarrow> ClockKey k q \<in> done_keys (delivery (cores (boot c m (\<sigma> t)) q))"
  shows "\<exists>t'\<ge>t. \<forall>q\<in>{..<NUM_TRAINS c}. Suc k < next_issue_clock (cores (boot c m (\<sigma> t')) q)"
proof (rule eventually_all)
  fix q assume "q \<in> {..<NUM_TRAINS c}"
  then have q: "q < NUM_TRAINS c" by simp
  then have qN: "q < RING_SIZE c" using valid_configD(5) [OF foreverD(3) [OF f]] by simp
  obtain t' x where t': "t \<le> t'" "visit c m \<sigma> t' q q x" by (rule visits [OF f t(1) q qN])
  obtain n' outs where V: "issuer x = q" "train_inv c (boot c m (\<sigma> t')) q q x"
      "hop_ok c m x (cores (boot c m (\<sigma> t')) q) n' outs" "cores (boot c m (\<sigma> (Suc t'))) q = n'"
    using visitE [OF f t'(2)] by metis
  note T = train_invD [OF V(2)] and l = foreverD(2) [OF f, of t'] and g = forever_grows [OF f _ qN]
  have "k \<le> clock x" by (rule visit_clock [OF f t'(1) t(2) t'(2)])
  then consider (past) "k < clock x" | (now) "k = clock x" by linarith
  then have "Suc k < next_issue_clock (cores (boot c m (\<sigma> (Suc t'))) q)"
  proof cases
    case past
    then show ?thesis using T(1) g(1) [of t' "Suc t'"] by simp
  next
    case now
    have "ClockKey k q \<in> done_keys (delivery (cores (boot c m (\<sigma> t')) q))" using dn [OF q] g(4) [OF t'(1)] by blast
    then have "recycles (cores (boot c m (\<sigma> t')) q) x"
      using now V(1) lap_nodeD(3) [OF liveD(1) [OF l] qN] by (simp add: recycles_def key_of_def)
    then show ?thesis
      using hop_okD(10) [OF V(3)] T(1) now V(4) liveD(5) [OF l qN] by (simp add: sat_add64_one_gt)
  qed
  then show "\<exists>t'\<ge>t. Suc k < next_issue_clock (cores (boot c m (\<sigma> t')) q)"
    using t'(1) by (intro exI [of _ "Suc t'"]) simp
  show "Suc k < next_issue_clock (cores (boot c m (\<sigma> s')) q)"
    if "s \<le> s'" "Suc k < next_issue_clock (cores (boot c m (\<sigma> s)) q)" for s s'
    using that(2) g(1) [OF that(1)] by simp
qed simp

lemma clocks_pass:
  assumes f: "forever c m \<sigma> a t0"
  shows "1 \<le> k \<Longrightarrow> \<exists>t\<ge>t0. ahead c (boot c m (\<sigma> t)) k"
proof (induction k rule: nat_induct_at_least)
  case base
  have "1 < next_issue_clock (cores (boot c m (\<sigma> t0)) q)" if q: "q < NUM_TRAINS c" for q
  proof -
    have "q \<in> up (boot c m (\<sigma> t0))" using foreverD(4) [OF f le_refl] q valid_configD(5) [OF foreverD(3) [OF f]] by simp
    then obtain n x where x: "train_inv c (boot c m (\<sigma> t0)) q n x"
      using lap_trainE [OF liveD(1) [OF foreverD(2) [OF f]] q] by metis
    show ?thesis using train_invD(1,2) [OF x] by simp
  qed
  then show ?case unfolding ahead_def by blast
next
  case (Suc k)
  obtain t where t: "t0 \<le> t" "ahead c (boot c m (\<sigma> t)) k" using Suc.IH by blast
  obtain t1 where t1: "t \<le> t1"
      "\<And>q j. q < NUM_TRAINS c \<Longrightarrow> j < RING_SIZE c \<Longrightarrow> k \<le> seen (clocks (cores (boot c m (\<sigma> t1)) j)) ! q"
    using clock_seen [OF f t] by fastforce
  have t01: "t0 \<le> t1" using t(1) t1(1) by simp
  obtain t2 where t2: "t1 \<le> t2"
      "\<And>q j. q < NUM_TRAINS c \<Longrightarrow> j < RING_SIZE c \<Longrightarrow> taken (cores (boot c m (\<sigma> t2)) j) (ClockKey k q)"
    using clock_taken [OF f t01 ahead_mono [OF f t1(1) t(2)] Suc.hyps t1(2)] by fastforce
  have t02: "t0 \<le> t2" and ah: "ahead c (boot c m (\<sigma> t2)) k"
    using t01 t2(1) ahead_mono [OF f _ t(2)] t1(1) by simp_all
  have dn: "ClockKey k q \<in> done_keys (delivery (cores (boot c m (\<sigma> t2)) q))" if "q < NUM_TRAINS c" for q
    using that valid_configD(5) [OF foreverD(3) [OF f]] by (intro all_taken_done [OF f t02 ah t2(2) _ Suc.hyps]) auto
  obtain t3 where "t2 \<le> t3" "\<forall>q\<in>{..<NUM_TRAINS c}. Suc k < next_issue_clock (cores (boot c m (\<sigma> t3)) q)"
    using clock_issued [OF f t02 ah dn] by blast
  then show ?case using t02 unfolding ahead_def by (intro exI [of _ t3]) simp
qed

end
