(* ===== verification/Ring_Sched.thy ===== *)
theory Ring_Sched
  imports Ring_Runs
begin

text \<open>
  Schedules: a function from time to moves drives the ring. A move that is not enabled (a train
  asked from an empty inbox, a second start) leaves the state as it is, so every schedule gives
  a run without loss; it is fair when every node is started and served again and again.
\<close>

datatype ring_move = RM_Start proc_id | RM_Bcast proc_id "byte list" | RM_Recv proc_id | RM_Wait

fun ring_exec :: "config \<Rightarrow> nat \<Rightarrow> delivery_mode \<Rightarrow> ring_move \<Rightarrow> ring_state \<Rightarrow> ring_state option" where
  "ring_exec c k m (RM_Start i) s =
     (if i < RING_SIZE c \<and> i \<notin> up s then start_node c k m i s else None)"
| "ring_exec c k m (RM_Bcast i bs) s =
     (if i \<in> up s then node_arm c i (LocalBroadcast bs) s else None)"
| "ring_exec c k m (RM_Recv i) s =
     (case inbox s i of [] \<Rightarrow> None
      | t # ts \<Rightarrow> if i \<in> up s then node_arm c i (TrainReceived t) (pop_inbox i s) else None)"
| "ring_exec c k m RM_Wait s = None"

definition try_exec :: "config \<Rightarrow> nat \<Rightarrow> delivery_mode \<Rightarrow> ring_move \<Rightarrow> ring_state \<Rightarrow> ring_state" where
  "try_exec c k m mv s = (case ring_exec c k m mv s of None \<Rightarrow> s | Some s' \<Rightarrow> s')"

primrec drive :: "config \<Rightarrow> nat \<Rightarrow> delivery_mode \<Rightarrow> (nat \<Rightarrow> ring_move) \<Rightarrow> ring_state \<Rightarrow> nat \<Rightarrow> ring_state" where
  "drive c k m mvs s 0 = s"
| "drive c k m mvs s (Suc t) = try_exec c k m (mvs t) (drive c k m mvs s t)"

lemma ring_exec_reliable: "ring_exec c k m mv s = Some s' \<Longrightarrow> reliable_step c k m s s'"
proof (cases mv)
  case (RM_Recv i)
  assume "ring_exec c k m mv s = Some s'"
  then have "receives c i s s'" using RM_Recv by (auto simp: receives_def split: list.splits if_splits)
  then show ?thesis by (rule rel_recv)
qed (auto split: if_splits intro: reliable_step.intros)

lemma ring_exec_step: "ring_exec c k m mv s = Some s' \<Longrightarrow> ring_step c k m s s'"
  by (cases mv) (auto split: if_splits list.splits intro: ring_step.intros)

lemma try_exec_reliable: "reliable_step c k m s (try_exec c k m mv s)"
  using ring_exec_reliable by (auto simp: try_exec_def rel_idle split: option.splits)

lemma reliable_sim:
  assumes "valid_config c" and "ring_sim c k m s a" and "net_ok c a" and "reliable_step c k m s s'"
  shows "\<exists>a'. ring_sim c k m s' a' \<and> net_ok c a'"
  using reliable_ring_step [OF assms(4)]
proof
  assume "ring_step c k m s s'"
  then obtain a' where "(soup_step c)\<^sup>*\<^sup>* a a'" "ring_sim c k m s' a'" using ring_sim_step [OF assms(2)] by blast
  then show ?thesis using soup_steps_ok [OF _ assms(1,3)] by blast
qed (use assms in blast)

text \<open>A started node whose inbox is not empty can take its next train.\<close>

lemma recv_enabled:
  assumes c: "valid_config c" and sim: "ring_sim c k m s a" and ok: "net_ok c a" and n: "n \<in> up s" and x: "inbox s n = x # ts"
  shows "\<exists>s'. node_arm c n (TrainReceived x) (pop_inbox n s) = Some s'"
proof -
  have nN: "n < RING_SIZE c" and core: "nodes a n = cores s n" using sim n unfolding ring_sim_def by auto
  have "set (inbox s n) \<subseteq> sent a" using sim unfolding ring_sim_def by blast
  then have "x \<in> sent a" using x by auto
  then have "issuer x < NUM_TRAINS c \<and> clock x \<le> u64_max" by (rule net_ok_train [OF ok])
  then have "input_ok c (TrainReceived x)" using valid_configD(5) [OF c] by simp
  then obtain n' outs where "step c (TrainReceived x) (cores s n) = Some (n', outs)"
    using step_ok [OF c net_okD(1) [OF ok nN]] core by metis
  then show ?thesis by (simp add: node_arm_def pop_inbox_def)
qed

lemma node_arm_inbox:
  assumes "node_arm c i inp s = Some s'"
  shows "\<exists>ws. inbox s' n = inbox s n @ ws"
  using assms by (cases "step c inp (cores s i)") (auto simp: node_arm_def dispatch_effect)

text \<open>Without a receive at \<open>n\<close> its inbox only grows.\<close>

lemma inbox_waits:
  assumes st: "reliable_step c k m s s'" and no: "\<not> receives c n s s'"
  shows "\<exists>ws. inbox s' n = inbox s n @ ws"
  using st
proof (cases rule: reliable_step.cases)
  case (rel_start i)
  then show ?thesis by (auto simp: start_node_def outbox_send_def split: bind_splits if_splits)
next
  case (rel_bcast i bs)
  then show ?thesis using node_arm_inbox by blast
next
  case (rel_tick i)
  then show ?thesis using node_arm_inbox by blast
next
  case (rel_recv i)
  then obtain x where x: "node_arm c i (TrainReceived x) (pop_inbox i s) = Some s'" by (auto simp: receives_def)
  have "i \<noteq> n" using rel_recv no by blast
  then have "inbox (pop_inbox i s) n = inbox s n" by (simp add: pop_inbox_def)
  then show ?thesis using node_arm_inbox [OF x, of n] by simp
qed simp

lemma inbox_stays:
  assumes st: "\<And>u. reliable_step c k m (\<sigma> u) (\<sigma> (Suc u))" and "t \<le> t'"
    and no: "\<And>u. t \<le> u \<Longrightarrow> u < t' \<Longrightarrow> \<not> receives c n (\<sigma> u) (\<sigma> (Suc u))"
  shows "\<exists>ws. inbox (\<sigma> t') n = inbox (\<sigma> t) n @ ws"
  using assms(2) no
proof (induction t' rule: dec_induct)
  case (step u)
  obtain ws where "inbox (\<sigma> u) n = inbox (\<sigma> t) n @ ws" using step by fastforce
  moreover obtain ws' where "inbox (\<sigma> (Suc u)) n = inbox (\<sigma> u) n @ ws'"
    using inbox_waits [OF st] step.prems [of u] step.hyps by blast
  ultimately show ?case by simp
qed simp

lemma drive_fair:
  assumes s: "ring_init c s" and starts: "\<And>i. i < RING_SIZE c \<Longrightarrow> \<exists>t. mvs t = RM_Start i"
    and serves: "\<And>n t. n < RING_SIZE c \<Longrightarrow> \<exists>t'\<ge>t. mvs t' = RM_Recv n"
    and k: "k \<le> NUM_TRAINS c"
  shows "fair_run c k m (drive c k m mvs s)"
proof -
  let ?r = "drive c k m mvs s"
  have c: "valid_config c" using s by (simp add: ring_init_def)
  have st: "reliable_step c k m (?r t) (?r (Suc t))" for t using try_exec_reliable by simp
  have sim: "\<exists>a. ring_sim c k m (?r t) a \<and> net_ok c a" for t
  proof (induction t)
    case 0
    then show ?case using ring_sim_init [of c k s m] s k net_ok_init by (fastforce simp: ring_start_state_def)
  next
    case (Suc t)
    then show ?case using reliable_sim [OF c _ _ st] by blast
  qed
  have ups: "up (?r t) \<subseteq> {..<RING_SIZE c}" for t using sim [of t] unfolding ring_sim_def by blast
  have "\<exists>t. i \<in> up (?r t)" if i: "i < RING_SIZE c" for i
  proof -
    obtain t where t: "mvs t = RM_Start i" using starts [OF i] by blast
    obtain n where new: "node_new c i m = Some n" using new_some [OF i] by blast
    have "issue_initial_train c n = Some (issue_node n, fresh_train n)"
      using issue_new_train_pure [OF c node_okD(1) [OF node_new_ok [OF new]]] by (simp add: issue_initial_train_def)
    then have "i \<in> up (?r (Suc t))" if "i \<notin> up (?r t)"
      using i that by (simp add: t try_exec_def start_node_def new outbox_send_def)
    then show ?thesis by blast
  qed
  moreover have "\<exists>t'\<ge>t. receives c n (?r t') (?r (Suc t'))" if n: "n \<in> up (?r t)" "inbox (?r t) n \<noteq> []" for t n
  proof (rule ccontr)
    assume no: "\<not> ?thesis"
    have nN: "n < RING_SIZE c" using ups n(1) by blast
    obtain t' where t': "t \<le> t'" "mvs t' = RM_Recv n" using serves [OF nN] by blast
    have upm: "up (?r u) \<subseteq> up (?r (Suc u))" for u using step_up [OF st] by blast
    have "\<exists>ws. inbox (?r t') n = inbox (?r t) n @ ws"
      by (rule inbox_stays [of c k m ?r, OF st t'(1)]) (use no in blast)
    then have "inbox (?r t') n \<noteq> []" using n(2) by auto
    then obtain x ts where x: "inbox (?r t') n = x # ts" by (cases "inbox (?r t') n") auto
    have up: "n \<in> up (?r t')" using t'(1) n(1)
    proof (induction t' rule: dec_induct)
      case (step u)
      then show ?case using upm [of u] by blast
    qed
    obtain a where "ring_sim c k m (?r t') a" "net_ok c a" using sim by blast
    then obtain s' where s': "node_arm c n (TrainReceived x) (pop_inbox n (?r t')) = Some s'"
      using recv_enabled [OF c _ _ up x] by blast
    then have "?r (Suc t') = s'" using up x by (simp add: t'(2) try_exec_def)
    then have "receives c n (?r t') (?r (Suc t'))" using up x s' by (simp add: receives_def)
    then show False using no t'(1) by blast
  qed
  ultimately show ?thesis using s st unfolding fair_run_def by simp
qed

section \<open>No false suspicion\<close>

lemma reliable_reach_inv:
  assumes "reach (ring_init c) (reliable_step c (NUM_TRAINS c) m) s" and m: "m \<noteq> CausalOrder"
  shows "valid_config c \<and> (\<exists>a. ring_sim c (NUM_TRAINS c) m s a \<and> net_ok c a \<and>
    (clocks_left c a \<longrightarrow> (\<exists>C. soup_inv c C a) \<and> lap_inv c m (boot c m s)))"
  using assms(1)
proof (induction rule: reach.induct)
  case (reach_init s)
  then obtain a where "soup_init c m a" "ring_sim c (NUM_TRAINS c) m s a"
    using ring_sim_init [of c "NUM_TRAINS c" s m] by (auto simp: ring_start_state_def)
  then show ?case
    using reach_init net_ok_init soup_inv_init lap_inv_init unfolding ring_init_def by blast
next
  case (reach_step s s')
  then obtain a where c: "valid_config c" and a: "ring_sim c (NUM_TRAINS c) m s a" "net_ok c a"
      "clocks_left c a \<Longrightarrow> (\<exists>C. soup_inv c C a) \<and> lap_inv c m (boot c m s)" by blast
  obtain a' where a': "(soup_step c)\<^sup>*\<^sup>* a a'" "ring_sim c (NUM_TRAINS c) m s' a'"
    using reliable_ring_step [OF reach_step.hyps(2)] ring_sim_step [OF a(1)] a(1) by blast
  note S = soup_steps_ok [OF a'(1) c a(2)]
  have "(\<exists>C. soup_inv c C a') \<and> lap_inv c m (boot c m s')" if left: "clocks_left c a'"
  proof -
    obtain C where C: "soup_inv c C a" "lap_inv c m (boot c m s)" "clocks_left c a" using a(3) S left by blast
    have "lap_inv c m (boot c m s')"
      by (rule live_lap_step [OF sim_live [OF a(1) C(1,3,2)] m reach_step.hyps(2)])
    then show ?thesis using S left C(1) by blast
  qed
  then show ?case using c a'(2) S by blast
qed

lemma hop_no_gap:
  assumes inv: "lap_inv c m s" and j: "j < RING_SIZE c" and t: "train_inv c s (issuer x) j x"
    and h: "hop_ok c m x (cores s j) n' outs" and q: "issuer x < RING_SIZE c"
  shows "declared outs = []"
proof -
  have "clock x \<le> Suc (seen (clocks (cores s j)) ! issuer x)"
  proof (cases "clock x \<le> 1")
    case False
    then have "taken (cores s j) (ClockKey (clock x - 1) (issuer x))"
      using train_invD(8) [OF t _ _ j, of "clock x - 1"] by simp
    then have "known c (cores s j) (ClockKey (clock x - 1) (issuer x))"
      by (rule taken_known [OF node_okD(1) [OF lap_nodeD(1) [OF inv j]]])
    then have "clock x - 1 \<le> seen (clocks (cores s j)) ! issuer x" by (simp add: known_def)
    then show ?thesis by linarith
  qed simp
  then show ?thesis using h by (simp add: hop_ok_def)
qed

text \<open>C7. On links that lose nothing no node ever declares another one crashed: a \<^verbatim>\<open>DeclareCrash\<close> for a
  gap in the clocks means that a train was lost.\<close>

theorem no_false_suspicion:
  assumes r: "reach (ring_init c) (reliable_step c (NUM_TRAINS c) m) s" and m: "m \<noteq> CausalOrder"
    and left: "ring_clocks_left c s" and n: "n \<in> up s" and x: "inbox s n = x # ts"
    and st: "step c (TrainReceived x) (cores s n) = Some (n', outs)"
  shows "declared outs = []"
proof -
  obtain a where c: "valid_config c" and a: "ring_sim c (NUM_TRAINS c) m s a" "net_ok c a"
      "clocks_left c a \<Longrightarrow> (\<exists>C. soup_inv c C a) \<and> lap_inv c m (boot c m s)"
    using reliable_reach_inv [OF r m] by blast
  have cl: "clocks_left c a" by (rule ring_sim_clocks [OF a(1) left])
  then obtain C where C: "soup_inv c C a" "lap_inv c m (boot c m s)" using a(3) by blast
  note l = sim_live [OF a(1) C(1) cl C(2)]
  have nN: "n < RING_SIZE c" using a(1) n unfolding ring_sim_def by blast
  have "node_arm c n (TrainReceived x) (pop_inbox n s) =
      Some (dispatch c n outs ((pop_inbox n s)\<lparr>cores := (cores s)(n := n')\<rparr>))"
    using st by (simp add: node_arm_def pop_inbox_def)
  then have "receives c n s (dispatch c n outs ((pop_inbox n s)\<lparr>cores := (cores s)(n := n')\<rparr>))"
    using n x unfolding receives_def by blast
  then obtain y ts' n'' outs' where E: "inbox s n = y # ts'" "step c (TrainReceived y) (cores (boot c m s) n) = Some (n'', outs')"
      "hop_ok c m y (cores (boot c m s) n) n'' outs'" "train_inv c (boot c m s) (issuer y) n y" "issuer y < NUM_TRAINS c"
    using receive_event [OF l _ nN] by metis
  have "issuer y < RING_SIZE c" using E(5) valid_configD(5) [OF c] by simp
  then have "declared outs' = []" by (rule hop_no_gap [OF C(2) nN E(4,3)])
  then show ?thesis using E(1,2) x st n by simp
qed

text \<open>A ring of two, started and served once; node 1 then receives the next train of node 0.\<close>

definition idle_ring :: ring_state where
  "idle_ring = \<lparr>cores = demo_node, inbox = (\<lambda>_. []), up = {}, rlog = (\<lambda>_. [])\<rparr>"

definition suspicion_demo :: ring_state where
  "suspicion_demo = the (fold_opt (ring_exec cfg2 (NUM_TRAINS cfg2) UniformTotalOrder)
     [RM_Start 0, RM_Start 1, RM_Recv 1, RM_Recv 0, RM_Recv 1, RM_Recv 0] idle_ring)"

lemma suspicion_demo_facts:
  "fold_opt (ring_exec cfg2 (NUM_TRAINS cfg2) UniformTotalOrder)
     [RM_Start 0, RM_Start 1, RM_Recv 1, RM_Recv 0, RM_Recv 1, RM_Recv 0] idle_ring \<noteq> None"
  "map clock (inbox suspicion_demo 1) = [2]" "up suspicion_demo = {0, 1}"
  "next_issue_clock (cores suspicion_demo 0) = 3" "next_issue_clock (cores suspicion_demo 1) = 1"
  "map_option (sends \<circ> snd) (step cfg2 (TrainReceived (hd (inbox suspicion_demo 1))) (cores suspicion_demo 1)) =
     Some [\<lparr>issuer = 0, clock = 2, payloads = [], ack_bits = 3\<rparr>]"
  by code_simp+

lemma suspicion_demo_reach: "reach (ring_init cfg2) (reliable_step cfg2 (NUM_TRAINS cfg2) UniformTotalOrder) suspicion_demo"
proof (rule fold_opt_reach)
  show "reach (ring_init cfg2) (reliable_step cfg2 (NUM_TRAINS cfg2) UniformTotalOrder) idle_ring"
    by (intro reach_init) (simp add: ring_init_def idle_ring_def cfg2_valid)
  show "fold_opt (ring_exec cfg2 (NUM_TRAINS cfg2) UniformTotalOrder)
     [RM_Start 0, RM_Start 1, RM_Recv 1, RM_Recv 0, RM_Recv 1, RM_Recv 0] idle_ring = Some suspicion_demo"
    using suspicion_demo_facts(1) by (auto simp: suspicion_demo_def simp del: fold_opt.simps)
qed (rule ring_exec_reliable)

theorem no_false_suspicion_witness:
  "\<exists>x n' outs. inbox suspicion_demo 1 = [x] \<and> step cfg2 (TrainReceived x) (cores suspicion_demo 1) = Some (n', outs) \<and>
    clock x = 2 \<and> declared outs = []"
proof -
  obtain x where x: "inbox suspicion_demo 1 = [x]" "clock x = 2" using suspicion_demo_facts(2) by auto
  obtain n' outs where st: "step cfg2 (TrainReceived x) (cores suspicion_demo 1) = Some (n', outs)"
    using suspicion_demo_facts(6) x(1) by auto
  have "ring_clocks_left cfg2 suspicion_demo"
    using suspicion_demo_facts(3-5) by (simp add: ring_clocks_left_def u64_max_def)
  from no_false_suspicion [OF suspicion_demo_reach _ this _ x(1) st] have "declared outs = []"
    using suspicion_demo_facts(3) by simp
  then show ?thesis using x st by blast
qed

end
