(* ===== verification/Ring_Delivery.thy ===== *)
theory Ring_Delivery
  imports Ring_Live Ring_Sched
begin

text \<open>
  Every payload submitted on a fair run of a ring that loses nothing is delivered by every node.
  The issue clocks pass every bound below the end of the 64-bit range; by then what was pending
  has been loaded, and what was loaded has been delivered.
\<close>

section \<open>The issue clocks pass every bound\<close>

definition runs :: "config \<Rightarrow> delivery_mode \<Rightarrow> (nat \<Rightarrow> ring_state) \<Rightarrow> (nat \<Rightarrow> net) \<Rightarrow> bool" where
  "runs c m \<sigma> a \<longleftrightarrow> run_sim c m \<sigma> a \<and> soup_init c m (a 0) \<and> m \<noteq> CausalOrder"

definition clk :: "config \<Rightarrow> delivery_mode \<Rightarrow> (nat \<Rightarrow> ring_state) \<Rightarrow> nat \<Rightarrow> proc_id \<Rightarrow> tick" where
  "clk c m \<sigma> t i = next_issue_clock (cores (boot c m (\<sigma> t)) i)"

lemma runsD:
  assumes "runs c m \<sigma> a"
  shows "run_sim c m \<sigma> a" "soup_init c m (a 0)" "m \<noteq> CausalOrder"
  using assms by (simp_all add: runs_def)

lemma clk_left:
  assumes "runs c m \<sigma> a"
  shows "clocks_left c (a t) \<longleftrightarrow> (\<forall>i<RING_SIZE c. clk c m \<sigma> t i < u64_max)"
  using boot_core [OF run_simD(3) [OF runsD(1) [OF assms]]] by (simp add: clocks_left_def clk_def)

lemma run_up:
  assumes r: "runs c m \<sigma> a" and "t \<le> t'"
  shows "up (\<sigma> t) \<subseteq> up (\<sigma> t')"
  using assms(2)
proof (induction t' rule: dec_induct)
  case (step t')
  then show ?case using step_up [OF run_simD(2) [OF runsD(1) [OF r]]] by blast
qed simp

lemma run_up_ring: "runs c m \<sigma> a \<Longrightarrow> up (\<sigma> t) \<subseteq> {..<RING_SIZE c}"
  using run_simD(3) [OF runsD(1)] unfolding ring_sim_def by blast

lemma all_up:
  assumes r: "runs c m \<sigma> a"
  shows "\<exists>t. up (\<sigma> t) = {..<RING_SIZE c}"
proof -
  have "\<exists>t'\<ge>0. \<forall>i\<in>{..<RING_SIZE c}. i \<in> up (\<sigma> t')"
    by (rule eventually_all) (use run_simD(6) [OF runsD(1) [OF r]] run_up [OF r] in blast)+
  then show ?thesis using run_up_ring [OF r] by blast
qed

lemma clk_step:
  assumes r: "runs c m \<sigma> a" and l: "clocks_left c (a t)" and i: "i < RING_SIZE c"
  shows "clk c m \<sigma> t i \<le> clk c m \<sigma> (Suc t) i" "clk c m \<sigma> (Suc t) i \<le> Suc (clk c m \<sigma> t i)"
  using run_grows_step [OF run_live [OF runsD [OF r] l] run_simD(2) [OF runsD(1) [OF r]]] i
  unfolding grows_def clk_def by blast+

lemma clk_mono:
  assumes r: "runs c m \<sigma> a" and l: "clocks_left c (a t')" and "t \<le> t'" and "i < RING_SIZE c"
  shows "clk c m \<sigma> t i \<le> clk c m \<sigma> t' i"
  unfolding clk_def by (rule run_monotone(2) [OF runsD [OF r] l assms(3,4)])

lemma run_lap:
  assumes r: "runs c m \<sigma> a" and l: "\<And>u. u < t \<Longrightarrow> clocks_left c (a u)"
  shows "lap_inv c m (boot c m (\<sigma> t))"
proof (cases t)
  case 0
  then show ?thesis using lap_inv_init [OF run_simD(7) [OF runsD(1) [OF r]]] by simp
next
  case (Suc u)
  then show ?thesis
    using live_lap_step [OF run_live [OF runsD [OF r] l] runsD(3) [OF r] run_simD(2) [OF runsD(1) [OF r]]] by simp
qed

lemma clk_zero: "runs c m \<sigma> a \<Longrightarrow> i < RING_SIZE c \<Longrightarrow> clk c m \<sigma> 0 i = 1"
proof -
  assume r: "runs c m \<sigma> a" and i: "i < RING_SIZE c"
  have "up (\<sigma> 0) = {}" using run_simD(7) [OF runsD(1) [OF r]] by (simp add: ring_init_def)
  then show ?thesis using node_new_fields(3) [OF new_some [OF i, of m]] by (simp add: clk_def)
qed

lemma bounded_left:
  assumes r: "runs c m \<sigma> a" and b: "\<And>u q. u \<le> t \<Longrightarrow> q < NUM_TRAINS c \<Longrightarrow> clk c m \<sigma> u q < u64_max"
  shows "clocks_left c (a t)"
  using b
proof (induction t rule: less_induct)
  case (less t)
  have lap: "lap_inv c m (boot c m (\<sigma> t))" using less by (intro run_lap [OF r]) auto
  have "clk c m \<sigma> t i < u64_max" if "i < RING_SIZE c" for i
    using less.prems [OF le_refl, of i] lap_nodeD(5) [OF lap that]
    by (cases "i < NUM_TRAINS c") (simp_all add: u64_max_def clk_def)
  then show ?case using clk_left [OF r] by blast
qed

lemma clocks_grow:
  assumes r: "runs c m \<sigma> a" and b: "B < u64_max"
  shows "\<exists>t q. q < NUM_TRAINS c \<and> B \<le> clk c m \<sigma> t q"
proof (rule ccontr)
  assume "\<not> ?thesis"
  then have less: "clk c m \<sigma> t q < B" if "q < NUM_TRAINS c" for t q using that by (metis not_less)
  then have left: "clocks_left c (a t)" for t using b by (intro bounded_left [OF r]) (meson less_trans)
  obtain t0 where t0: "up (\<sigma> t0) = {..<RING_SIZE c}" using all_up [OF r] by blast
  have "forever c m \<sigma> a t0" using r left t0 by (simp add: forever_def runs_def)
  then have "\<exists>t\<ge>t0. ahead c (boot c m (\<sigma> t)) (max 1 B)" by (rule clocks_pass) simp
  then obtain t where t: "ahead c (boot c m (\<sigma> t)) (max 1 B)" by blast
  have K: "0 < NUM_TRAINS c" by (rule valid_configD(6) [OF run_simD(1) [OF runsD(1) [OF r]]])
  show False using less [OF K, of t] t K by (auto simp: ahead_def clk_def)
qed

lemma reach_clock:
  assumes r: "runs c m \<sigma> a" and B: "1 < B" "B < u64_max"
  obtains T q where "q < NUM_TRAINS c" "clk c m \<sigma> T q = B" "\<And>i. i < RING_SIZE c \<Longrightarrow> clk c m \<sigma> T i \<le> B"
    "clocks_left c (a T)"
proof -
  let ?P = "\<lambda>t. \<exists>q<NUM_TRAINS c. B \<le> clk c m \<sigma> t q"
  define T where "T = (LEAST t. ?P t)"
  have c: "valid_config c" by (rule run_simD(1) [OF runsD(1) [OF r]])
  have "\<exists>t. ?P t" using clocks_grow [OF r B(2)] by blast
  then have "?P T" unfolding T_def by (rule LeastI_ex)
  then obtain q where q: "q < NUM_TRAINS c" "B \<le> clk c m \<sigma> T q" by blast
  have below: "clk c m \<sigma> u i < B" if "u < T" "i < NUM_TRAINS c" for u i
    using not_less_Least [of u ?P] that unfolding T_def by (meson not_less)
  have left: "clocks_left c (a u)" if "u < T" for u
    using below that B(2) by (intro bounded_left [OF r]) (meson le_less_trans less_trans)
  have qN: "q < RING_SIZE c" using q(1) valid_configD(5) [OF c] by simp
  then obtain u where u: "T = Suc u" using q(2) clk_zero [OF r qN] B(1) by (cases T) auto
  have lap: "lap_inv c m (boot c m (\<sigma> T))" by (rule run_lap [OF r left])
  have le: "clk c m \<sigma> T i \<le> B" if "i < RING_SIZE c" for i
  proof (cases "i < NUM_TRAINS c")
    case True
    then show ?thesis using below [of u i] clk_step(2) [OF r left that, of u] u by simp
  next
    case False
    then show ?thesis using lap_nodeD(5) [OF lap that] B(1) by (simp add: clk_def)
  qed
  moreover have "clk c m \<sigma> T q = B" using le [OF qN] q(2) by simp
  moreover have "clocks_left c (a T)" using le B(2) clk_left [OF r] by (meson le_less_trans)
  ultimately show ?thesis using that q(1) by blast
qed

lemma reach_later:
  assumes r: "runs c m \<sigma> a" and left: "clocks_left c (a t)" and q: "q < RING_SIZE c"
    and "clk c m \<sigma> t q < clk c m \<sigma> T q"
  shows "t < T"
  using clk_mono [OF r left _ q, of T] assms(4) by (meson not_less)

lemma clock_train:
  assumes r: "runs c m \<sigma> a" and left: "clocks_left c (a t)" and q: "q < NUM_TRAINS c" "1 < clk c m \<sigma> t q"
  obtains n x where "at c (boot c m (\<sigma> t)) q n x" "train_inv c (boot c m (\<sigma> t)) q n x" "Suc (clock x) = clk c m \<sigma> t q"
proof -
  note l = run_live [OF runsD [OF r] left]
  have "q \<in> up (boot c m (\<sigma> t))"
  proof (rule ccontr)
    assume "q \<notin> up (boot c m (\<sigma> t))"
    then show False using lap_silent [OF liveD(1) [OF l] q(1)] q(2) by (simp add: silent_def clk_def)
  qed
  then obtain n x where "at c (boot c m (\<sigma> t)) q n x" "train_inv c (boot c m (\<sigma> t)) q n x"
    using lap_trainE [OF liveD(1) [OF l] q(1)] by metis
  then show ?thesis using that train_invD(1) by (metis clk_def)
qed

lemma reach_done:
  assumes r: "runs c m \<sigma> a" and left: "clocks_left c (a t)" and q: "q < NUM_TRAINS c" "clk c m \<sigma> t q = B + 4"
    and k: "r' < NUM_TRAINS c" "1 \<le> cl" "cl \<le> B" and j: "j < RING_SIZE c"
  shows "ClockKey cl r' \<in> done_keys (delivery (cores (boot c m (\<sigma> t)) j))"
proof -
  note l = run_live [OF runsD [OF r] left]
  have "1 < clk c m \<sigma> t q" using q(2) by simp
  then obtain n x where x: "at c (boot c m (\<sigma> t)) q n x" "Suc (clock x) = clk c m \<sigma> t q"
    using clock_train [OF r left q(1)] by metis
  have "cl + 3 \<le> clock x" using x(2) q(2) k(3) by simp
  then show ?thesis by (rule done_below [OF liveD(1,2,3) [OF l] x(1) j k(1,2)])
qed

section \<open>The start of the ring\<close>

lemma early_clocks:
  assumes r: "runs c m \<sigma> a" and j: "j < RING_SIZE c" "j \<notin> up (\<sigma> t)" and left: "clocks_left c (a t)"
    and i: "i < RING_SIZE c"
  shows "clk c m \<sigma> t i \<le> 2"
proof (rule ccontr)
  assume "\<not> ?thesis"
  then have big: "2 < clk c m \<sigma> t i" by simp
  note l = run_live [OF runsD [OF r] left]
  have iK: "i < NUM_TRAINS c" using lap_nodeD(5) [OF liveD(1) [OF l] i] big
    by (cases "i < NUM_TRAINS c") (simp_all add: clk_def)
  moreover have "1 < clk c m \<sigma> t i" using big by simp
  ultimately obtain n x where x: "at c (boot c m (\<sigma> t)) i n x" "train_inv c (boot c m (\<sigma> t)) i n x" "Suc (clock x) = clk c m \<sigma> t i"
    using clock_train [OF r left] by metis
  have "i \<in> up (\<sigma> t)" using lap_at(3) [OF liveD(1) [OF l] x(1)] by simp
  then have "j \<noteq> i" using j(2) by blast
  moreover have "taken (cores (boot c m (\<sigma> t)) i) (ClockKey 1 i)"
    using train_invD(9) [OF x(2), of 1] x(3) big by (simp add: taken_def)
  ultimately have "1 \<le> seen (clocks (cores (boot c m (\<sigma> t)) j)) ! i"
    using liveD(2) [OF l] i j(1) unfolding acked_all_def by blast
  then show False using new_plain(3) [OF new_some [OF j(1), of m] i] j(2) by simp
qed

lemma early_left:
  assumes r: "runs c m \<sigma> a" and j: "j < RING_SIZE c" "j \<notin> up (\<sigma> t)"
  shows "clocks_left c (a t)"
  using j(2)
proof (induction t)
  case 0
  then show ?case using clk_left [OF r] clk_zero [OF r] by (simp add: u64_max_def)
next
  case (Suc t)
  have no: "j \<notin> up (\<sigma> t)" using run_up [OF r le_SucI [OF le_refl], of t] Suc.prems by blast
  then have left: "clocks_left c (a t)" by (rule Suc.IH)
  have "clk c m \<sigma> (Suc t) i \<le> 3" if "i < RING_SIZE c" for i
    using clk_step(2) [OF r left that] early_clocks [OF r j(1) no left that] by simp
  then have "clk c m \<sigma> (Suc t) i < u64_max" if "i < RING_SIZE c" for i
    using that by (fastforce simp: u64_max_def)
  then show ?case using clk_left [OF r] by blast
qed

text \<open>From any time on, all nodes are up at a time when the clocks are no further than three or
  where they stood.\<close>

lemma settle:
  assumes r: "runs c m \<sigma> a" and B: "3 \<le> B" "\<And>i. i < RING_SIZE c \<Longrightarrow> clk c m \<sigma> t i \<le> B"
  obtains t' where "t \<le> t'" "up (\<sigma> t') = {..<RING_SIZE c}" "\<And>i. i < RING_SIZE c \<Longrightarrow> clk c m \<sigma> t' i \<le> B"
proof (cases "up (\<sigma> t) = {..<RING_SIZE c}")
  case True
  then show ?thesis using that [of t] B(2) by simp
next
  case False
  define t' where "t' = (LEAST t. up (\<sigma> t) = {..<RING_SIZE c})"
  have t': "up (\<sigma> t') = {..<RING_SIZE c}" unfolding t'_def using all_up [OF r] by (rule LeastI_ex)
  have later: "t < t'"
  proof (rule ccontr)
    assume "\<not> t < t'"
    then have "up (\<sigma> t') \<subseteq> up (\<sigma> t)" by (intro run_up [OF r]) simp
    then show False using t' False run_up_ring [OF r] by blast
  qed
  then obtain u where u: "t' = Suc u" by (cases t') simp_all
  have "up (\<sigma> u) \<noteq> {..<RING_SIZE c}" using not_less_Least [of u] u unfolding t'_def by (metis lessI)
  then obtain j where j: "j < RING_SIZE c" "j \<notin> up (\<sigma> u)" using run_up_ring [OF r, of u] by auto
  note left = early_left [OF r j]
  have "clk c m \<sigma> t' i \<le> B" if "i < RING_SIZE c" for i
    using clk_step(2) [OF r left that] early_clocks [OF r j left that] u B(1) by simp
  then show ?thesis using that [of t'] later t' by simp
qed

section \<open>A pending payload is loaded\<close>

lemma first_rise:
  fixes g :: "nat \<Rightarrow> nat"
  assumes "t \<le> T" and "g t < g T"
  shows "\<exists>s. t \<le> s \<and> s < T \<and> g s < g (Suc s)"
proof (rule ccontr)
  assume no: "\<not> ?thesis"
  have "g u \<le> g t" if "t \<le> u" "u \<le> T" for u
    using that
  proof (induction u rule: dec_induct)
    case (step u)
    then have "\<not> g u < g (Suc u)" using no by auto
    then show ?case using step by simp
  qed simp
  then show False using assms by (meson le_refl not_less)
qed

lemma rise_loads:
  assumes l: "live c m (boot c m s)" and u: "up s = {..<RING_SIZE c}" and st: "reliable_step c k m s s'"
    and i: "i < RING_SIZE c" and q: "q < RING_SIZE c" "q \<noteq> i"
    and rise: "next_issue_clock (cores (boot c m s) i) < next_issue_clock (cores (boot c m s') i) \<or>
      seen (clocks (cores (boot c m s) i)) ! q < seen (clocks (cores (boot c m s') i)) ! q"
  shows "pending (cores (boot c m s') i) = []"
  using settled_step [OF u st]
proof
  assume "quiet_step c (boot c m s) (boot c m s')"
  from quiet_frame(5,6) [OF this] show ?thesis using rise by simp
next
  assume "\<exists>d<RING_SIZE c. receives c d s s'"
  then obtain d where d: "d < RING_SIZE c" "receives c d s s'" by blast
  obtain x n' outs where E: "hop_ok c m x (cores (boot c m s) d) n' outs"
      "cores (boot c m s') = (cores (boot c m s))(d := n')" "issuer x < NUM_TRAINS c"
    using receive_event [OF l d(2,1)] by metis
  note H = hop_okD [OF E(1)]
  have di: "d = i" using rise by (cases "d = i") (simp_all add: E(2))
  have idi: "node_id (cores (boot c m s) i) = i" by (rule lap_nodeD(3) [OF liveD(1) [OF l] i])
  have "recycles (cores (boot c m s) i) x \<or> loads (cores (boot c m s) i) x"
  proof (rule ccontr)
    assume no: "\<not> ?thesis"
    then have "next_issue_clock n' = next_issue_clock (cores (boot c m s) i)" using H(10) di by simp
    then have sn: "seen (clocks (cores (boot c m s) i)) ! q < seen (clocks n') ! q" using rise E(2) di by simp
    then have iss: "issuer x = q" using H(8) [OF q(1)] di by (cases "issuer x = q") simp_all
    then have "seen (clocks (cores (boot c m s) i)) ! q < clock x" using H(9) sn q(1) di by (simp add: less_max_iff_disj)
    then show False using no iss q(2) idi by (simp add: loads_def)
  qed
  then show ?thesis using H(11) E(2) di by simp
qed

lemma pending_loaded:
  assumes r: "runs c m \<sigma> a" and t: "up (\<sigma> t) = {..<RING_SIZE c}" "\<And>i. i < RING_SIZE c \<Longrightarrow> clk c m \<sigma> t i \<le> B"
    and T: "t \<le> T" "clocks_left c (a T)" "q < NUM_TRAINS c" "clk c m \<sigma> T q = B + 4" and B: "1 \<le> B" and i: "i < RING_SIZE c"
  obtains s where "t < s" "s \<le> T" "pending (cores (boot c m (\<sigma> s)) i) = []"
proof -
  have c: "valid_config c" by (rule run_simD(1) [OF runsD(1) [OF r]])
  have z: "0 < NUM_TRAINS c" "0 < RING_SIZE c" using valid_configD [OF c] by simp_all
  note left = run_left_mono [OF runsD(1) [OF r] _ T(2)] and lT = run_live [OF runsD [OF r] T(2)]
  have left_t: "clocks_left c (a t)" by (rule left [OF T(1)])
  have dn: "ClockKey B 0 \<in> done_keys (delivery (cores (boot c m (\<sigma> T)) i))"
    by (rule reach_done [OF r T(2,3,4) z(1) B le_refl i])
  then have tk: "taken (cores (boot c m (\<sigma> T)) i) (ClockKey B 0)" by (simp add: taken_def)
  let ?f = "\<lambda>u. clk c m \<sigma> u i" and ?g = "\<lambda>u. seen (clocks (cores (boot c m (\<sigma> u)) i)) ! 0"
  have "\<exists>s. t \<le> s \<and> s < T \<and> (?f s < ?f (Suc s) \<or> (i \<noteq> 0 \<and> ?g s < ?g (Suc s)))"
  proof (cases "i = 0")
    case True
    then have "B < ?f T" using liveD(2) [OF lT] tk z(2) unfolding acked_all_def clk_def by blast
    then have "?f t < ?f T" using t(2) [OF i] by simp
    then show ?thesis using first_rise [OF T(1), of ?f] by blast
  next
    case False
    have "0 \<in> up (boot c m (\<sigma> t))" using t(1) z(2) by simp
    then obtain n x where x: "train_inv c (boot c m (\<sigma> t)) 0 n x"
      using lap_trainE [OF liveD(1) [OF run_live [OF runsD [OF r] left_t]] z(1)] by metis
    have "?g t \<le> clock x" by (rule train_invD(3) [OF x i])
    also have "clock x < B" using train_invD(1) [OF x] t(2) [OF z(2)] by (simp add: clk_def)
    also have "B \<le> ?g T" using liveD(2) [OF lT] tk i False unfolding acked_all_def by blast
    finally show ?thesis using first_rise [OF T(1), of ?g] False by blast
  qed
  then obtain s where s: "t \<le> s" "s < T" "?f s < ?f (Suc s) \<or> (i \<noteq> 0 \<and> ?g s < ?g (Suc s))" by blast
  have u: "up (\<sigma> s) = {..<RING_SIZE c}" using run_up [OF r s(1)] t(1) run_up_ring [OF r, of s] by auto
  have l: "live c m (boot c m (\<sigma> s))" using s(2) by (intro run_live [OF runsD [OF r] left]) simp
  obtain q' where q': "q' < RING_SIZE c" "q' \<noteq> i" "i \<noteq> 0 \<longrightarrow> q' = 0"
    using valid_configD(1) [OF c] z(2) by (cases "i = 0") (auto intro: that [of 1] that [of 0])
  have "pending (cores (boot c m (\<sigma> (Suc s))) i) = []"
    using s(3) q'(3) by (intro rise_loads [OF l u run_simD(2) [OF runsD(1) [OF r]] i q'(1,2)]) (auto simp: clk_def)
  then show ?thesis using that [of "Suc s"] s by simp
qed

section \<open>A loaded payload is delivered\<close>

lemma done_payload:
  assumes inv: "soup_inv c C s" and j: "j < RING_SIZE c" and k: "k \<in> done_keys (delivery (nodes s j))"
    and p: "p \<in> set (C i k)" "i < RING_SIZE c"
  shows "p \<in> set (concat (dlog s j))"
proof -
  let ?ks = "sorted_list_of_set (done_keys (delivery (nodes s j)))"
  have "finite (done_keys (delivery (nodes s j)))" using node_invD(5) [OF inv j] by (simp add: initial_segment_def)
  then have "p \<in> set (concat (map (merged c C) ?ks))" using k p set_merged by auto
  then have "p \<in># mset (concat (concat (map (content c C) ?ks)))" by (simp only: mset_log_of set_mset_mset)
  then show ?thesis using node_invD(7) [OF inv j] by (simp add: log_of_def)
qed

lemma acked_clock:
  assumes r: "runs c m \<sigma> a" and left: "clocks_left c (a t)" and u: "up (\<sigma> t) = {..<RING_SIZE c}"
    and i: "i < RING_SIZE c" and k: "acked (a t) i k" "proper c k" and D: "\<And>j. j < RING_SIZE c \<Longrightarrow> clk c m \<sigma> t j \<le> D"
  shows "ck_clock k < D"
proof -
  let ?q = "ck_issuer k"
  have q: "?q < NUM_TRAINS c" "?q < RING_SIZE c"
    using k(2) valid_configD(5) [OF run_simD(1) [OF runsD(1) [OF r]]] by (simp_all add: proper_def)
  have core: "nodes (a t) i = cores (boot c m (\<sigma> t)) i" using boot_core [OF run_simD(3) [OF runsD(1) [OF r]] i] by simp
  show ?thesis
  proof (cases "i = ?q")
    case True
    then show ?thesis using k(1) D [OF i] core by (simp add: acked_def clk_def)
  next
    case False
    have "?q \<in> up (boot c m (\<sigma> t))" using u q(2) by simp
    then obtain n x where x: "train_inv c (boot c m (\<sigma> t)) ?q n x"
      using lap_trainE [OF liveD(1) [OF run_live [OF runsD [OF r] left]] q(1)] by metis
    have "ck_clock k \<le> clock x" using k(1) False core train_invD(3) [OF x i] by (simp add: acked_def)
    then show ?thesis using train_invD(1) [OF x] D [OF q(2)] by (simp add: clk_def)
  qed
qed

lemma pending_delivered:
  assumes r: "runs c m \<sigma> a" and C: "soup_inv c C (a t)" and i: "i < RING_SIZE c"
    and p: "p \<in> set (pending (cores (boot c m (\<sigma> t)) i))"
    and B: "3 \<le> B" "B + 7 < u64_max" "\<And>j. j < RING_SIZE c \<Longrightarrow> clk c m \<sigma> t j \<le> B"
  shows "\<exists>T\<ge>t. (\<forall>j<RING_SIZE c. p \<in> set (rlog (\<sigma> T) j)) \<and> (\<forall>j<RING_SIZE c. clk c m \<sigma> T j \<le> B + 7)"
proof -
  note rs = runsD(1) [OF r]
  note core = boot_core [OF run_simD(3) [OF rs]]
  have KN: "q < RING_SIZE c" if "q < NUM_TRAINS c" for q using that valid_configD(5) [OF run_simD(1) [OF rs]] by simp
  obtain t2 where t2: "t \<le> t2" "up (\<sigma> t2) = {..<RING_SIZE c}" "\<And>j. j < RING_SIZE c \<Longrightarrow> clk c m \<sigma> t2 j \<le> B"
    using settle [OF r B(1,3)] by blast
  have left2: "clocks_left c (a t2)" unfolding clk_left [OF r] using t2(3) B(2) by fastforce
  have B4: "1 < B + 4" "B + 4 < u64_max" using B by simp_all
  obtain T1 q1 where T1: "q1 < NUM_TRAINS c" "clk c m \<sigma> T1 q1 = B + 4"
      "\<And>j. j < RING_SIZE c \<Longrightarrow> clk c m \<sigma> T1 j \<le> B + 4" "clocks_left c (a T1)"
    by (rule reach_clock [OF r B4]) blast
  have "clk c m \<sigma> t2 q1 < clk c m \<sigma> T1 q1" using t2(3) [OF KN [OF T1(1)]] T1(2) by simp
  then have "t2 < T1" by (rule reach_later [OF r left2 KN [OF T1(1)]])
  then have t12: "t2 \<le> T1" by simp
  have "1 \<le> B" using B(1) by simp
  then obtain s where s: "t2 < s" "s \<le> T1" "pending (cores (boot c m (\<sigma> s)) i) = []"
    using pending_loaded [OF r t2(2,3) t12 T1(4,1,2) _ i] by blast
  have left_s: "clocks_left c (a s)" by (rule run_left_mono [OF rs s(2) T1(4)])
  have ts: "t \<le> s" using t2(1) s(1) by simp
  obtain C1 where C1: "soup_inv c C1 (a s)" "extends c C (a t) C1 (a s)"
    using run_extends [OF rs ts left_s C] by blast
  have pend: "p \<in> set (pending (nodes (a t) i))" using p core [OF i] by simp
  then have "p \<in> held C1 (a s) i" using C1(2) unfolding extends_def held_def by blast
  moreover have "pending (nodes (a s) i) = []" using s(3) core [OF i] by simp
  ultimately obtain k where k: "p \<in> set (C1 i k)" by (auto simp: held_def)
  have "p \<notin> set (C i k)" using node_invD(9) [OF C i] pend unfolding own_ok_def apart_def by blast
  then have pr: "proper c k" using C1(2) k unfolding extends_def by metis
  have ack: "acked (a s) i k" using node_invD(8) [OF C1(1) i] k by (metis empty_iff empty_set)
  have up_s: "up (\<sigma> s) = {..<RING_SIZE c}" using run_up [OF r less_imp_le [OF s(1)]] t2(2) run_up_ring [OF r, of s] by auto
  have "clk c m \<sigma> s j \<le> B + 4" if "j < RING_SIZE c" for j
    using clk_mono [OF r T1(4) s(2) that] T1(3) [OF that] by simp
  then have ck: "ck_clock k < B + 4" by (rule acked_clock [OF r left_s up_s i ack pr])
  have B7: "1 < B + 7" "B + 7 < u64_max" using B by simp_all
  obtain T2 q2 where T2: "q2 < NUM_TRAINS c" "clk c m \<sigma> T2 q2 = B + 7"
      "\<And>j. j < RING_SIZE c \<Longrightarrow> clk c m \<sigma> T2 j \<le> B + 7" "clocks_left c (a T2)"
    by (rule reach_clock [OF r B7]) blast
  have "clk c m \<sigma> T1 q2 < clk c m \<sigma> T2 q2" using T1(3) [OF KN [OF T2(1)]] T2(2) by simp
  then have T12: "T1 < T2" by (rule reach_later [OF r T1(4) KN [OF T2(1)]])
  have sT: "s \<le> T2" using s(2) T12 by simp
  obtain C2 where C2: "soup_inv c C2 (a T2)" "extends c C1 (a s) C2 (a T2)"
    using run_extends [OF rs sT T2(4) C1(1)] by blast
  have k2: "p \<in> set (C2 i k)" using C2(2) ack k unfolding extends_def by metis
  have "p \<in> set (rlog (\<sigma> T2) j)" if j: "j < RING_SIZE c" for j
  proof -
    have "clk c m \<sigma> T2 q2 = (B + 3) + 4" using T2(2) by simp
    from reach_done [OF r T2(4,1) this, of "ck_issuer k" "ck_clock k" j] have "k \<in> done_keys (delivery (nodes (a T2) j))"
      using pr ck j core [OF j, of T2] by (simp add: proper_def)
    then have "p \<in> set (concat (dlog (a T2) j))" by (rule done_payload [OF C2(1) j _ k2 i])
    moreover have "rlog (\<sigma> T2) j = concat (dlog (a T2) j)" using run_simD(3) [OF rs, of T2] unfolding ring_sim_def by blast
    ultimately show ?thesis by simp
  qed
  then show ?thesis using T2(3) ts sT by (intro exI [of _ T2]) auto
qed

text \<open>What a submission does to its node: its sequence number is new, the payload is pending.\<close>

lemma submission_effect:
  assumes r: "runs c m \<sigma> a" and C: "soup_inv c C (a t)" and i: "i \<in> up (\<sigma> t)"
    and st: "node_arm c i (LocalBroadcast bs) (\<sigma> t) = Some s'" and sq: "next_seq (cores (\<sigma> t) i) < u64_max"
  shows "\<lparr>sender = i, seq = next_seq (cores (\<sigma> t) i), data = bs\<rparr> \<in> set (pending (cores (boot c m s') i))"
    "next_seq (cores s' i) = Suc (next_seq (cores (\<sigma> t) i))"
proof -
  have iN: "i < RING_SIZE c" using i run_up_ring [OF r] by blast
  have core: "nodes (a t) i = cores (\<sigma> t) i" using boot_core [OF run_simD(3) [OF runsD(1) [OF r]] iN, of t] i by simp
  have "counter_ok (a t) i" using node_invD(9) [OF C iN] by (simp add: own_ok_def)
  then have new: "(i, next_seq (cores (\<sigma> t) i)) \<notin> broadcast_seen (cores (\<sigma> t) i)"
    using sq unfolding counter_ok_def core by (auto simp: min_def split: if_splits)
  have idi: "node_id (cores (\<sigma> t) i) = i" using node_invD(2) [OF C iN] core by simp
  have "i \<in> up s'" using node_arm_up [OF st] i by simp
  then show "\<lparr>sender = i, seq = next_seq (cores (\<sigma> t) i), data = bs\<rparr> \<in> set (pending (cores (boot c m s') i))"
    using st new idi by (auto simp: node_arm_def dispatch_effect handle_broadcast_def Let_def)
  show "next_seq (cores s' i) = Suc (next_seq (cores (\<sigma> t) i))"
    using st new idi sq by (auto simp: node_arm_def dispatch_effect handle_broadcast_def Let_def sat_add64_def)
qed

lemma submission_delivered:
  assumes r: "runs c m \<sigma> a" and i: "i \<in> up (\<sigma> t)" and st: "node_arm c i (LocalBroadcast bs) (\<sigma> t) = Some (\<sigma> (Suc t))"
    and sq: "next_seq (cores (\<sigma> t) i) < u64_max"
    and B: "3 \<le> B" "B + 7 < u64_max" "\<And>j. j < RING_SIZE c \<Longrightarrow> clk c m \<sigma> t j \<le> B"
  shows "\<exists>T>t. (\<forall>j<RING_SIZE c. \<lparr>sender = i, seq = next_seq (cores (\<sigma> t) i), data = bs\<rparr> \<in> set (rlog (\<sigma> T) j)) \<and>
    (\<forall>j<RING_SIZE c. clk c m \<sigma> T j \<le> B + 7)"
proof -
  have iN: "i < RING_SIZE c" using i run_up_ring [OF r] by blast
  have q: "quiet_step c (boot c m (\<sigma> t)) (boot c m (\<sigma> (Suc t)))" using boot_quiet [OF i iN] st by blast
  have clk': "clk c m \<sigma> (Suc t) j \<le> B" if "j < RING_SIZE c" for j
    using B(3) [OF that] quiet_frame(6) [OF q] by (simp add: clk_def)
  have left: "clocks_left c (a t)" "clocks_left c (a (Suc t))"
    unfolding clk_left [OF r] using B(3) clk' B(2) by fastforce+
  obtain C where C: "soup_inv c C (a t)" using run_soup_inv [OF runsD(1,2) [OF r] left(1)] .
  obtain C' where C': "soup_inv c C' (a (Suc t))" using run_soup_inv [OF runsD(1,2) [OF r] left(2)] .
  show ?thesis
    using pending_delivered [OF r C' iN submission_effect(1) [OF r C i st sq] B(1,2) clk'] Suc_le_lessD by blast
qed

text \<open>C4. Every submission is delivered. The ring of \<^verbatim>\<open>ring.rs\<close> is started in any order of its tasks, its
  links lose nothing, and every task that has a train waiting takes it eventually. Then the payload
  of a \<^verbatim>\<open>LocalBroadcast\<close> at any started node comes into the delivered log of every node,
  before any issue clock is more than seven ahead of where the clocks stood.\<close>

theorem broadcast_delivered_everywhere:
  assumes f: "fair_run c (NUM_TRAINS c) m \<sigma>" and m: "m \<noteq> CausalOrder"
    and i: "i \<in> up (\<sigma> t)" and st: "node_arm c i (LocalBroadcast bs) (\<sigma> t) = Some (\<sigma> (Suc t))"
    and sq: "next_seq (cores (\<sigma> t) i) < u64_max"
    and B: "3 \<le> B" "B + 7 < u64_max" "\<And>j. j \<in> up (\<sigma> t) \<Longrightarrow> next_issue_clock (cores (\<sigma> t) j) \<le> B"
  shows "\<exists>T>t. (\<forall>j<RING_SIZE c. \<lparr>sender = i, seq = next_seq (cores (\<sigma> t) i), data = bs\<rparr> \<in> set (rlog (\<sigma> T) j)) \<and>
    (\<forall>j\<in>up (\<sigma> T). next_issue_clock (cores (\<sigma> T) j) \<le> B + 7)"
proof -
  obtain a where r: "runs c m \<sigma> a" using run_sim_exists [OF f] m unfolding runs_def by blast
  have "clk c m \<sigma> t j \<le> B" if "j < RING_SIZE c" for j
    using B(1,3) node_new_fields(3) [OF new_some [OF that, of m]] by (cases "j \<in> up (\<sigma> t)") (simp_all add: clk_def)
  then obtain T where T: "t < T"
      "\<And>j. j < RING_SIZE c \<Longrightarrow> \<lparr>sender = i, seq = next_seq (cores (\<sigma> t) i), data = bs\<rparr> \<in> set (rlog (\<sigma> T) j)"
      "\<And>j. j < RING_SIZE c \<Longrightarrow> clk c m \<sigma> T j \<le> B + 7"
    using submission_delivered [OF r i st sq B(1,2)] by blast
  have "next_issue_clock (cores (\<sigma> T) j) \<le> B + 7" if "j \<in> up (\<sigma> T)" for j
    using T(3) [of j] that run_up_ring [OF r, of T] by (auto simp: clk_def)
  then show ?thesis using T(1,2) by (intro exI [of _ T]) auto
qed

text \<open>A ring of two, started one after the other, where node 1 submits and both nodes take
  turns for ever.\<close>

definition turns :: "nat \<Rightarrow> ring_move" where
  "turns t = (if t < 2 then RM_Start t else if t = 2 then RM_Bcast 1 [9] else RM_Recv (t mod 2))"

definition turns_run :: "nat \<Rightarrow> ring_state" where
  "turns_run = drive cfg2 (NUM_TRAINS cfg2) UniformTotalOrder turns idle_ring"

lemma turns_fair: "fair_run cfg2 (NUM_TRAINS cfg2) UniformTotalOrder turns_run"
  unfolding turns_run_def
proof (rule drive_fair)
  show "ring_init cfg2 idle_ring" by (simp add: ring_init_def idle_ring_def cfg2_valid)
  show "\<exists>t. turns t = RM_Start i" if "i < RING_SIZE cfg2" for i
    using that by (intro exI [of _ i]) (simp add: turns_def cfg2_def)
  show "\<exists>t'\<ge>t. turns t' = RM_Recv n" if "n < RING_SIZE cfg2" for n t
  proof -
    have "(4 + 2 * t + n) mod 2 = n" using that unfolding cfg2_def by simp presburger
    then show ?thesis by (intro exI [of _ "4 + 2 * t + n"]) (simp add: turns_def)
  qed
qed simp

lemma turns_start: "up (turns_run 2) = {0, 1}" "next_seq (cores (turns_run 2) 1) = 0"
    "next_issue_clock (cores (turns_run 2) 0) = 2" "next_issue_clock (cores (turns_run 2) 1) = 1"
    "map_option up (node_arm cfg2 1 (LocalBroadcast [9]) (turns_run 2)) = Some {0, 1}"
  unfolding turns_run_def by code_simp+

lemma turns_submits: "node_arm cfg2 1 (LocalBroadcast [9]) (turns_run 2) = Some (turns_run (Suc 2))"
proof -
  obtain s' where s': "node_arm cfg2 1 (LocalBroadcast [9]) (turns_run 2) = Some s'" using turns_start(5) by auto
  have "turns_run (Suc 2) = try_exec cfg2 (NUM_TRAINS cfg2) UniformTotalOrder (RM_Bcast 1 [9]) (turns_run 2)"
    unfolding turns_run_def by (simp only: drive.simps) (simp add: turns_def)
  then show ?thesis using s' turns_start(1) by (simp add: try_exec_def)
qed

theorem broadcast_delivered_everywhere_witness:
  "\<exists>T. \<forall>j<2. \<lparr>sender = 1, seq = 0, data = [9]\<rparr> \<in> set (rlog (turns_run T) j)"
proof -
  have one: "1 \<in> up (turns_run 2)" "next_seq (cores (turns_run 2) 1) < u64_max" "3 + 7 < u64_max"
    using turns_start(1,2) by (simp_all add: u64_max_def)
  have three: "next_issue_clock (cores (turns_run 2) j) \<le> 3" if "j \<in> up (turns_run 2)" for j
    using that turns_start by (cases "j = 0") simp_all
  obtain T where "\<forall>j<RING_SIZE cfg2. \<lparr>sender = 1, seq = next_seq (cores (turns_run 2) 1), data = [9]\<rparr> \<in> set (rlog (turns_run T) j)"
    using broadcast_delivered_everywhere [OF turns_fair _ one(1) turns_submits one(2) le_refl one(3) three] by blast
  then show ?thesis using turns_start(2) by (intro exI [of _ T]) (simp add: cfg2_def)
qed

end
