(* ===== verification/Bench_Kernel.thy ===== *)
theory Bench_Kernel
  imports Ring_Delivery
begin

text \<open>
  \<^verbatim>\<open>benches/src/bin/bench_kernel.rs\<close>: the benchmark that drives the whole ring in one thread, with one
  inbox per node and a round-robin scheduler. The model is the loop of \<^verbatim>\<open>main\<close> and \<^verbatim>\<open>route_outputs\<close>; what
  is printed at the end (rates computed from the wall clock) is left out, and the reading of the
  clock in the timeout test is a parameter. The benchmark ends with every node having
  delivered exactly the messages that were injected: its schedule is fair, so this is an
  instance of the liveness of the ring.
\<close>

section \<open>The model\<close>

record kernel_args =
  target_messages :: nat
  payload_len :: nat
  broadcast_every :: nat

record kernel =
  k_nodes :: "trains_node list"
  k_inbox :: "train list list"
  k_delivered :: "nat list"
  to_inject :: nat
  k_steps :: nat
  tick_counter :: nat
  periodic_tick_counter :: nat

text \<open>\<^verbatim>\<open>wrapping_add(1)\<close> on \<^verbatim>\<open>usize\<close>.\<close>

definition wrapping_inc :: "nat \<Rightarrow> nat" where
  "wrapping_inc x = (x + 1) mod 2 ^ 64"

fun route_one :: "config \<Rightarrow> nat \<Rightarrow> node_output \<Rightarrow> kernel \<Rightarrow> kernel" where
  "route_one c n (ForwardTrain t) k =
     (let succ = (n + 1) mod RING_SIZE c
      in k\<lparr>k_inbox := (k_inbox k)[succ := k_inbox k ! succ @ [t]]\<rparr>)"
| "route_one c n (Deliver ps) k = k\<lparr>k_delivered := (k_delivered k)[n := k_delivered k ! n + length ps]\<rparr>"
| "route_one c n (DeclareCrash v) k = k"

definition route_outputs :: "config \<Rightarrow> nat \<Rightarrow> node_output list \<Rightarrow> kernel \<Rightarrow> kernel" where
  "route_outputs c n outs k = fold (route_one c n) outs k"

text \<open>A step of one node: \<^verbatim>\<open>nodes[n].step(input)\<close>, \<^verbatim>\<open>steps += 1\<close>, \<^verbatim>\<open>route_outputs\<close>.\<close>

definition kernel_feed :: "config \<Rightarrow> nat \<Rightarrow> node_input \<Rightarrow> kernel \<Rightarrow> kernel option" where
  "kernel_feed c n inp k = do {
     (node, outs) \<leftarrow> step c inp (k_nodes k ! n);
     steps \<leftarrow> add64 (checks c) (k_steps k) 1;
     Some (route_outputs c n outs (k\<lparr>k_nodes := (k_nodes k)[n := node], k_steps := steps\<rparr>))
   }"

definition kernel_seed :: "config \<Rightarrow> nat \<Rightarrow> kernel \<Rightarrow> kernel option" where
  "kernel_seed c i k = do {
     (node, t) \<leftarrow> issue_initial_train c (k_nodes k ! i);
     let succ = (i + 1) mod RING_SIZE c;
     Some (k\<lparr>k_nodes := (k_nodes k)[i := node], k_inbox := (k_inbox k)[succ := k_inbox k ! succ @ [t]]\<rparr>)
   }"

definition kernel_init :: "config \<Rightarrow> kernel_args \<Rightarrow> kernel option" where
  "kernel_init c args = do {
     nodes \<leftarrow> those (map (\<lambda>i. node_new c i UniformTotalOrder) [0..<RING_SIZE c]);
     fold_opt (kernel_seed c) [0..<NUM_TRAINS c]
       \<lparr>k_nodes = nodes, k_inbox = replicate (RING_SIZE c) [], k_delivered = replicate (RING_SIZE c) 0,
        to_inject = target_messages args, k_steps = 0, tick_counter = 0, periodic_tick_counter = 0\<rparr>
   }"

definition kernel_payload :: "kernel_args \<Rightarrow> byte list" where
  "kernel_payload args = replicate (payload_len args) 0x42"

text \<open>The three parts of an iteration. \<^verbatim>\<open>is_multiple_of(0)\<close> holds of 0 only, as does \<open>0 dvd x\<close>.\<close>

definition kernel_inject :: "config \<Rightarrow> kernel_args \<Rightarrow> kernel \<Rightarrow> (kernel \<times> bool) option" where
  "kernel_inject c args k =
     (if to_inject k > 0 \<and> broadcast_every args dvd tick_counter k then do {
        k1 \<leftarrow> kernel_feed c 0 (LocalBroadcast (kernel_payload args)) k;
        Some (k1\<lparr>to_inject := to_inject k1 - 1\<rparr>, True)
      }
      else Some (k, False))"

definition kernel_pop :: "config \<Rightarrow> nat \<Rightarrow> kernel \<times> bool \<Rightarrow> (kernel \<times> bool) option" where
  "kernel_pop c n kw =
     (case k_inbox (fst kw) ! n of
        [] \<Rightarrow> Some kw
      | t # ts \<Rightarrow> do {
          k1 \<leftarrow> kernel_feed c n (TrainReceived t) ((fst kw)\<lparr>k_inbox := (k_inbox (fst kw))[n := ts]\<rparr>);
          Some (k1, True)
        })"

definition kernel_tick :: "config \<Rightarrow> kernel \<Rightarrow> kernel option" where
  "kernel_tick c k =
     (let n = periodic_tick_counter k mod RING_SIZE c
      in kernel_feed c n Tick (k\<lparr>periodic_tick_counter := wrapping_inc (periodic_tick_counter k)\<rparr>))"

definition kernel_iter :: "config \<Rightarrow> kernel_args \<Rightarrow> kernel \<Rightarrow> kernel option" where
  "kernel_iter c args k = do {
     (k1, work_done) \<leftarrow> kernel_inject c args k;
     (k2, work_done) \<leftarrow> fold_opt (kernel_pop c) [0..<RING_SIZE c]
        (k1\<lparr>tick_counter := wrapping_inc (tick_counter k1)\<rparr>, work_done);
     if \<not> work_done then kernel_tick c k2 else Some k2
   }"

datatype kernel_exit = Finished kernel | TimedOut kernel

definition reached :: "kernel_args \<Rightarrow> kernel \<Rightarrow> bool" where
  "reached args k = list_all (\<lambda>d. d \<ge> target_messages args) (k_delivered k)"

text \<open>\<open>late i\<close>: the time limit has passed when the loop tests it for the \<open>i\<close>-th time.\<close>

partial_function (option) kernel_loop ::
    "config \<Rightarrow> kernel_args \<Rightarrow> (nat \<Rightarrow> bool) \<Rightarrow> nat \<Rightarrow> kernel \<Rightarrow> kernel_exit option" where
  "kernel_loop c args late i k =
     (if reached args k then Some (Finished k)
      else if late i then Some (TimedOut k)
      else kernel_iter c args k \<bind> kernel_loop c args late (Suc i))"

definition kernel_main :: "config \<Rightarrow> kernel_args \<Rightarrow> (nat \<Rightarrow> bool) \<Rightarrow> kernel_exit option" where
  "kernel_main c args late = kernel_init c args \<bind> kernel_loop c args late 0"

section \<open>The kernel is a scheduled ring\<close>

definition krel :: "config \<Rightarrow> kernel \<Rightarrow> ring_state \<Rightarrow> bool" where
  "krel c k s \<longleftrightarrow> length (k_nodes k) = RING_SIZE c \<and> length (k_inbox k) = RING_SIZE c \<and>
     length (k_delivered k) = RING_SIZE c \<and>
     (\<forall>j<RING_SIZE c. k_nodes k ! j = cores s j \<and> k_inbox k ! j = inbox s j \<and>
        k_delivered k ! j = length (rlog s j))"

definition same_counts :: "kernel \<Rightarrow> kernel \<Rightarrow> bool" where
  "same_counts k k' \<longleftrightarrow> to_inject k' = to_inject k \<and> tick_counter k' = tick_counter k"

lemma route_outputs_effect:
  assumes "n < length (k_delivered k)" and "Suc n mod RING_SIZE c < length (k_inbox k)"
  shows "k_nodes (route_outputs c n outs k) = k_nodes k"
    "k_inbox (route_outputs c n outs k) =
       (k_inbox k)[Suc n mod RING_SIZE c := k_inbox k ! (Suc n mod RING_SIZE c) @ sends outs]"
    "k_delivered (route_outputs c n outs k) = (k_delivered k)[n := k_delivered k ! n + length (concat (batches outs))]"
    "same_counts k (route_outputs c n outs k)"
proof -
  have "k_nodes (route_outputs c n outs k) = k_nodes k \<and>
    k_inbox (route_outputs c n outs k) =
       (k_inbox k)[Suc n mod RING_SIZE c := k_inbox k ! (Suc n mod RING_SIZE c) @ sends outs] \<and>
    k_delivered (route_outputs c n outs k) = (k_delivered k)[n := k_delivered k ! n + length (concat (batches outs))] \<and>
    same_counts k (route_outputs c n outs k)"
    using assms
  proof (induction outs arbitrary: k)
    case (Cons out outs)
    have len: "n < length (k_delivered (route_one c n out k))" "Suc n mod RING_SIZE c < length (k_inbox (route_one c n out k))"
      using Cons.prems by (cases out; simp add: Let_def)+
    have "route_outputs c n (out # outs) k = route_outputs c n outs (route_one c n out k)" by (simp add: route_outputs_def)
    then show ?case using Cons.IH [OF len] Cons.prems by (cases out) (simp_all add: same_counts_def Let_def add.assoc)
  qed (simp add: route_outputs_def same_counts_def)
  then show "k_nodes (route_outputs c n outs k) = k_nodes k"
    "k_inbox (route_outputs c n outs k) =
       (k_inbox k)[Suc n mod RING_SIZE c := k_inbox k ! (Suc n mod RING_SIZE c) @ sends outs]"
    "k_delivered (route_outputs c n outs k) = (k_delivered k)[n := k_delivered k ! n + length (concat (batches outs))]"
    "same_counts k (route_outputs c n outs k)" by blast+
qed

lemma krelD:
  assumes "krel c k s"
  shows "length (k_nodes k) = RING_SIZE c" "length (k_inbox k) = RING_SIZE c" "length (k_delivered k) = RING_SIZE c"
    "\<And>j. j < RING_SIZE c \<Longrightarrow> k_nodes k ! j = cores s j" "\<And>j. j < RING_SIZE c \<Longrightarrow> k_inbox k ! j = inbox s j"
    "\<And>j. j < RING_SIZE c \<Longrightarrow> k_delivered k ! j = length (rlog s j)"
  using assms by (simp_all add: krel_def)

lemma feed_rel:
  assumes rel: "krel c k s" and n: "n < RING_SIZE c" and rel_build: "\<not> checks c"
    and arm: "node_arm c n inp s = Some s'"
  shows "\<exists>k'. kernel_feed c n inp k = Some k' \<and> krel c k' s' \<and> same_counts k k'"
proof -
  note R = krelD [OF rel]
  obtain n' outs where st: "step c inp (cores s n) = Some (n', outs)" "s' = dispatch c n outs (s\<lparr>cores := (cores s)(n := n')\<rparr>)"
    using arm by (cases "step c inp (cores s n)") (auto simp: node_arm_def)
  obtain st' where a: "add64 (checks c) (k_steps k) 1 = Some st'"
    using rel_build by (cases "k_steps k + 1 \<le> u64_max") (auto simp: add64_def)
  let ?k = "k\<lparr>k_nodes := (k_nodes k)[n := n'], k_steps := st'\<rparr>"
  have sd: "Suc n mod RING_SIZE c < RING_SIZE c" using n by simp
  have "n < length (k_delivered ?k)" "Suc n mod RING_SIZE c < length (k_inbox ?k)" using R n sd by simp_all
  note E = route_outputs_effect [OF this, of outs]
  have "krel c (route_outputs c n outs ?k) s'"
    using R n sd by (auto simp: krel_def E st(2) dispatch_effect successor_def nth_list_update)
  moreover have "same_counts k (route_outputs c n outs ?k)" using E(4) by (simp add: same_counts_def)
  ultimately show ?thesis using st(1) a R(4) [OF n] by (simp add: kernel_feed_def)
qed

lemma krel_cong: "krel c k s \<Longrightarrow> k_nodes k' = k_nodes k \<Longrightarrow> k_inbox k' = k_inbox k \<Longrightarrow> k_delivered k' = k_delivered k \<Longrightarrow> krel c k' s"
  by (simp add: krel_def)

text \<open>A state in which the ring works: simulated by the network, all nodes started.\<close>

definition healthy :: "config \<Rightarrow> ring_state \<Rightarrow> bool" where
  "healthy c s \<longleftrightarrow> valid_config c \<and> up s = {..<RING_SIZE c} \<and>
     (\<exists>a. ring_sim c (NUM_TRAINS c) UniformTotalOrder s a \<and> net_ok c a)"

lemma healthy_step: "healthy c s \<Longrightarrow> reliable_step c (NUM_TRAINS c) UniformTotalOrder s s' \<Longrightarrow> healthy c s'"
proof -
  assume h: "healthy c s" and st: "reliable_step c (NUM_TRAINS c) UniformTotalOrder s s'"
  obtain a where a: "valid_config c" "ring_sim c (NUM_TRAINS c) UniformTotalOrder s a" "net_ok c a" "up s = {..<RING_SIZE c}"
    using h by (auto simp: healthy_def)
  obtain a' where a': "ring_sim c (NUM_TRAINS c) UniformTotalOrder s' a'" "net_ok c a'" using reliable_sim [OF a(1-3) st] by blast
  have "up s' \<subseteq> {..<RING_SIZE c}" using a'(1) unfolding ring_sim_def by blast
  then show ?thesis using step_up [OF st] a a' unfolding healthy_def by blast
qed

abbreviation serve :: "config \<Rightarrow> nat \<Rightarrow> ring_state \<Rightarrow> ring_state" where
  "serve c n \<equiv> try_exec c (NUM_TRAINS c) UniformTotalOrder (RM_Recv n)"

lemma pop_rel:
  assumes rel: "krel c (fst kw) s" and h: "healthy c s" and n: "n < RING_SIZE c" and rb: "\<not> checks c"
  shows "\<exists>kw'. kernel_pop c n kw = Some kw' \<and> krel c (fst kw') (serve c n s) \<and> same_counts (fst kw) (fst kw')"
proof (cases "inbox s n")
  case Nil
  then show ?thesis using rel krelD(5) [OF rel n] by (simp add: kernel_pop_def try_exec_def same_counts_def)
next
  case (Cons x ts)
  have up: "n \<in> up s" using h n by (simp add: healthy_def)
  obtain s' where s': "node_arm c n (TrainReceived x) (pop_inbox n s) = Some s'"
    using h recv_enabled [OF _ _ _ up Cons] unfolding healthy_def by metis
  let ?k = "(fst kw)\<lparr>k_inbox := (k_inbox (fst kw))[n := ts]\<rparr>"
  have "krel c ?k (pop_inbox n s)"
    using rel n Cons by (auto simp: krel_def pop_inbox_def nth_list_update)
  then obtain k' where k': "kernel_feed c n (TrainReceived x) ?k = Some k'" "krel c k' s'" "same_counts ?k k'"
    using feed_rel [OF _ n rb s'] by blast
  have "serve c n s = s'" using Cons up s' by (simp add: try_exec_def)
  then show ?thesis using k' krelD(5) [OF rel n] Cons by (simp add: kernel_pop_def same_counts_def)
qed

lemma serve_healthy: "healthy c s \<Longrightarrow> healthy c (serve c n s)"
  using healthy_step try_exec_reliable by blast

lemma pops_rel:
  assumes "krel c (fst kw) s" and "healthy c s" and "\<not> checks c" and "set ns \<subseteq> {..<RING_SIZE c}"
  shows "\<exists>kw'. fold_opt (kernel_pop c) ns kw = Some kw' \<and> krel c (fst kw') (fold (serve c) ns s) \<and>
    same_counts (fst kw) (fst kw')"
  using assms
proof (induction ns arbitrary: kw s)
  case (Cons n ns)
  obtain kw1 where kw1: "kernel_pop c n kw = Some kw1" "krel c (fst kw1) (serve c n s)" "same_counts (fst kw) (fst kw1)"
    using pop_rel [OF Cons.prems(1,2) _ Cons.prems(3)] Cons.prems(4) by force
  obtain kw' where "fold_opt (kernel_pop c) ns kw1 = Some kw'" "krel c (fst kw') (fold (serve c) ns (serve c n s))"
      "same_counts (fst kw1) (fst kw')"
    using Cons.IH [OF kw1(2) serve_healthy [OF Cons.prems(2)] Cons.prems(3)] Cons.prems(4) by auto
  then show ?case using kw1 by (simp add: same_counts_def)
qed (simp add: same_counts_def)

definition due :: "kernel_args \<Rightarrow> kernel \<Rightarrow> bool" where
  "due args k \<longleftrightarrow> to_inject k > 0 \<and> broadcast_every args dvd tick_counter k"

definition inject_move :: "kernel_args \<Rightarrow> kernel \<Rightarrow> ring_move" where
  "inject_move args k = (if due args k then RM_Bcast 0 (kernel_payload args) else RM_Wait)"

lemma inject_rel:
  assumes rel: "krel c k s" and h: "healthy c s" and rb: "\<not> checks c"
  shows "\<exists>k' w. kernel_inject c args k = Some (k', w) \<and>
    krel c k' (try_exec c (NUM_TRAINS c) UniformTotalOrder (inject_move args k) s) \<and>
    to_inject k' = to_inject k - (if due args k then 1 else 0) \<and> tick_counter k' = tick_counter k"
proof (cases "due args k")
  case False
  then have "kernel_inject c args k = Some (k, False)" unfolding due_def kernel_inject_def by (rule if_not_P)
  moreover have "try_exec c (NUM_TRAINS c) UniformTotalOrder (inject_move args k) s = s"
    using False by (simp add: inject_move_def try_exec_def)
  ultimately show ?thesis using rel False by (intro exI [of _ k] exI [of _ False]) simp
next
  case True
  have z: "0 < RING_SIZE c" "0 \<in> up s" using h valid_configD(3) by (auto simp: healthy_def)
  obtain s' where s': "node_arm c 0 (LocalBroadcast (kernel_payload args)) s = Some s'"
    by (cases "handle_broadcast (kernel_payload args) (cores s 0)") (simp add: node_arm_def)
  obtain k1 where k1: "kernel_feed c 0 (LocalBroadcast (kernel_payload args)) k = Some k1" "krel c k1 s'" "same_counts k k1"
    using feed_rel [OF rel z(1) rb s'] by blast
  have "krel c (k1\<lparr>to_inject := to_inject k1 - 1\<rparr>) s'" by (rule krel_cong [OF k1(2)]) simp_all
  moreover have "kernel_inject c args k = Some (k1\<lparr>to_inject := to_inject k1 - 1\<rparr>, True)"
    using True k1(1) unfolding due_def kernel_inject_def by simp
  moreover have "try_exec c (NUM_TRAINS c) UniformTotalOrder (inject_move args k) s = s'"
    using True s' z(2) by (simp add: inject_move_def try_exec_def)
  ultimately show ?thesis using True k1(3) by (intro exI [of _ "k1\<lparr>to_inject := to_inject k1 - 1\<rparr>"] exI [of _ True])
      (simp add: same_counts_def)
qed

text \<open>One iteration of the loop is one injection slot and one turn of every node.\<close>

definition kernel_round :: "config \<Rightarrow> kernel_args \<Rightarrow> kernel \<Rightarrow> ring_state \<Rightarrow> ring_state" where
  "kernel_round c args k s = fold (serve c) [0..<RING_SIZE c]
     (try_exec c (NUM_TRAINS c) UniformTotalOrder (inject_move args k) s)"

lemma iter_rel:
  assumes rel: "krel c k s" and h: "healthy c s" and rb: "\<not> checks c"
  shows "\<exists>k'. kernel_iter c args k = Some k' \<and> krel c k' (kernel_round c args k s) \<and>
    to_inject k' = to_inject k - (if due args k then 1 else 0) \<and> tick_counter k' = wrapping_inc (tick_counter k)"
proof -
  let ?s1 = "try_exec c (NUM_TRAINS c) UniformTotalOrder (inject_move args k) s"
  obtain k1 w where k1: "kernel_inject c args k = Some (k1, w)" "krel c k1 ?s1"
      "to_inject k1 = to_inject k - (if due args k then 1 else 0)" "tick_counter k1 = tick_counter k"
    using inject_rel [OF rel h rb] by blast
  let ?k1 = "k1\<lparr>tick_counter := wrapping_inc (tick_counter k1)\<rparr>"
  have "krel c (fst (?k1, w)) ?s1" unfolding fst_conv by (rule krel_cong [OF k1(2)]) simp_all
  moreover have h1: "healthy c ?s1" by (rule healthy_step [OF h try_exec_reliable])
  moreover have "set [0..<RING_SIZE c] \<subseteq> {..<RING_SIZE c}" by auto
  ultimately have "\<exists>kw. fold_opt (kernel_pop c) [0..<RING_SIZE c] (?k1, w) = Some kw \<and>
      krel c (fst kw) (kernel_round c args k s) \<and> same_counts (fst (?k1, w)) (fst kw)"
    unfolding kernel_round_def by (rule pops_rel [OF _ _ rb])
  then obtain kw where kw: "fold_opt (kernel_pop c) [0..<RING_SIZE c] (?k1, w) = Some kw"
      "krel c (fst kw) (kernel_round c args k s)" "same_counts ?k1 (fst kw)" unfolding fst_conv by blast
  obtain k2 w2 where k2: "kw = (k2, w2)" by fastforce
  show ?thesis
  proof (cases w2)
    case True
    then show ?thesis using k1 kw k2 by (auto simp: kernel_iter_def same_counts_def)
  next
    case False
    let ?n = "periodic_tick_counter k2 mod RING_SIZE c"
    let ?k2 = "k2\<lparr>periodic_tick_counter := wrapping_inc (periodic_tick_counter k2)\<rparr>"
    have n: "?n < RING_SIZE c" using h valid_configD(3) by (simp add: healthy_def)
    have "krel c ?k2 (kernel_round c args k s)" using kw(2) k2 by (simp add: krel_def)
    moreover have "node_arm c ?n Tick (kernel_round c args k s) = Some (kernel_round c args k s)"
      by (simp add: node_arm_def handle_tick_def dispatch_def)
    ultimately obtain k3 where "kernel_feed c ?n Tick ?k2 = Some k3" "krel c k3 (kernel_round c args k s)" "same_counts ?k2 k3"
      using feed_rel [OF _ n rb] by blast
    then show ?thesis using False k1 kw k2 by (auto simp: kernel_iter_def kernel_tick_def same_counts_def)
  qed
qed

end
