(* ===== verification/Kernel_Live.thy ===== *)
theory Kernel_Live
  imports Bench_Kernel
begin

text \<open>
  The kernel benchmark ends: the states of its loop are those of a fair run of the ring at the
  ends of its rounds, every injected message is delivered by every node, and nothing else is.
\<close>

section \<open>The run behind the loop\<close>

primrec kseq :: "config \<Rightarrow> kernel_args \<Rightarrow> nat \<Rightarrow> kernel" where
  "kseq c args 0 = the (kernel_init c args)"
| "kseq c args (Suc i) = the (kernel_iter c args (kseq c args i))"

definition kernel_moves :: "config \<Rightarrow> kernel_args \<Rightarrow> nat \<Rightarrow> ring_move" where
  "kernel_moves c args t = (if t < RING_SIZE c then RM_Start t
     else let i = (t - RING_SIZE c) div Suc (RING_SIZE c); pc = (t - RING_SIZE c) mod Suc (RING_SIZE c)
          in if pc = 0 then inject_move args (kseq c args i) else RM_Recv (pc - 1))"

definition empty_ring :: "config \<Rightarrow> ring_state" where
  "empty_ring c = \<lparr>cores = (\<lambda>i. the (node_new c i UniformTotalOrder)), inbox = (\<lambda>_. []), up = {}, rlog = (\<lambda>_. [])\<rparr>"

definition krun :: "config \<Rightarrow> kernel_args \<Rightarrow> nat \<Rightarrow> ring_state" where
  "krun c args = drive c (NUM_TRAINS c) UniformTotalOrder (kernel_moves c args) (empty_ring c)"

definition round_start :: "config \<Rightarrow> nat \<Rightarrow> nat" where
  "round_start c i = RING_SIZE c + Suc (RING_SIZE c) * i"

lemma krun_Suc: "krun c args (Suc t) = try_exec c (NUM_TRAINS c) UniformTotalOrder (kernel_moves c args t) (krun c args t)"
  by (simp add: krun_def)

lemma moves_at:
  "t < RING_SIZE c \<Longrightarrow> kernel_moves c args t = RM_Start t"
  "kernel_moves c args (round_start c i) = inject_move args (kseq c args i)"
  "n < RING_SIZE c \<Longrightarrow> kernel_moves c args (Suc (round_start c i + n)) = RM_Recv n"
proof -
  show "t < RING_SIZE c \<Longrightarrow> kernel_moves c args t = RM_Start t" by (simp add: kernel_moves_def)
  show "kernel_moves c args (round_start c i) = inject_move args (kseq c args i)"
    unfolding kernel_moves_def round_start_def Let_def by (simp del: mult_Suc)
  assume n: "n < RING_SIZE c"
  have e: "Suc (round_start c i + n) - RING_SIZE c = Suc n + Suc (RING_SIZE c) * i" by (simp add: round_start_def del: mult_Suc)
  have "(Suc n + Suc (RING_SIZE c) * i) div Suc (RING_SIZE c) = i" "(Suc n + Suc (RING_SIZE c) * i) mod Suc (RING_SIZE c) = Suc n"
    using n by (simp_all only: div_mult_self2 mod_mult_self2) simp_all
  then show "kernel_moves c args (Suc (round_start c i + n)) = RM_Recv n"
    unfolding kernel_moves_def Let_def e by (simp add: round_start_def)
qed

lemma krun_fair:
  assumes c: "valid_config c"
  shows "fair_run c (NUM_TRAINS c) UniformTotalOrder (krun c args)"
  unfolding krun_def
proof (rule drive_fair)
  show "ring_init c (empty_ring c)" using c by (simp add: ring_init_def empty_ring_def)
  show "\<exists>t. kernel_moves c args t = RM_Start i" if "i < RING_SIZE c" for i using moves_at(1) [OF that] by blast
  show "\<exists>t'\<ge>t. kernel_moves c args t' = RM_Recv n" if "n < RING_SIZE c" for n t
  proof -
    have "t \<le> Suc (RING_SIZE c) * t" by simp
    then have "t \<le> Suc (round_start c t + n)" unfolding round_start_def by linarith
    then show ?thesis using moves_at(3) [OF that] by blast
  qed
qed simp

lemma krun_round: "krun c args (round_start c (Suc i)) = kernel_round c args (kseq c args i) (krun c args (round_start c i))"
proof -
  let ?s = "try_exec c (NUM_TRAINS c) UniformTotalOrder (inject_move args (kseq c args i)) (krun c args (round_start c i))"
  have "krun c args (Suc (round_start c i + n)) = fold (serve c) [0..<n] ?s" if "n \<le> RING_SIZE c" for n
    using that
  proof (induction n)
    case 0
    then show ?case using krun_Suc moves_at(2) by simp
  next
    case (Suc n)
    then show ?case using krun_Suc [of c args "Suc (round_start c i + n)"] moves_at(3) [of n c args i] by simp
  qed
  from this [of "RING_SIZE c"] show ?thesis by (simp add: kernel_round_def round_start_def algebra_simps)
qed

section \<open>The start\<close>

definition kernel_blank :: "config \<Rightarrow> kernel_args \<Rightarrow> kernel" where
  "kernel_blank c args = \<lparr>k_nodes = map (\<lambda>i. the (node_new c i UniformTotalOrder)) [0..<RING_SIZE c],
     k_inbox = replicate (RING_SIZE c) [], k_delivered = replicate (RING_SIZE c) 0,
     to_inject = target_messages args, k_steps = 0, tick_counter = 0, periodic_tick_counter = 0\<rparr>"

lemma those_Some: "(\<And>x. x \<in> set xs \<Longrightarrow> f x = Some (g x)) \<Longrightarrow> those (map f xs) = Some (map g xs)"
  by (induction xs) simp_all

lemma kernel_init_eq: "kernel_init c args = fold_opt (kernel_seed c) [0..<NUM_TRAINS c] (kernel_blank c args)"
proof -
  have "those (map (\<lambda>i. node_new c i UniformTotalOrder) [0..<RING_SIZE c]) =
      Some (map (\<lambda>i. the (node_new c i UniformTotalOrder)) [0..<RING_SIZE c])"
    by (rule those_Some) (simp add: node_new_def)
  then show ?thesis by (simp add: kernel_init_def kernel_blank_def)
qed

lemma start_rel:
  assumes c: "valid_config c"
  shows "t \<le> RING_SIZE c \<Longrightarrow> up (krun c args t) = {..<t} \<and>
    (\<exists>k. fold_opt (kernel_seed c) [0..<min t (NUM_TRAINS c)] (kernel_blank c args) = Some k \<and>
      krel c k (boot c UniformTotalOrder (krun c args t)) \<and> same_counts (kernel_blank c args) k) \<and>
    (\<forall>j<RING_SIZE c. next_seq (cores (boot c UniformTotalOrder (krun c args t)) j) = 0)"
proof (induction t)
  case 0
  have "krel c (kernel_blank c args) (boot c UniformTotalOrder (empty_ring c))"
    by (simp add: krel_def kernel_blank_def empty_ring_def boot_def)
  moreover have "next_seq (cores (boot c UniformTotalOrder (empty_ring c)) j) = 0" if "j < RING_SIZE c" for j
    using node_new_fields(4) [OF new_some [OF that, of UniformTotalOrder]] by (simp add: empty_ring_def)
  ultimately show ?case by (simp add: krun_def empty_ring_def same_counts_def)
next
  case (Suc t)
  let ?m = UniformTotalOrder and ?s = "krun c args t"
  have t: "t < RING_SIZE c" "t \<notin> up ?s" using Suc by simp_all
  obtain k where k: "fold_opt (kernel_seed c) [0..<min t (NUM_TRAINS c)] (kernel_blank c args) = Some k"
      "krel c k (boot c ?m ?s)" "same_counts (kernel_blank c args) k" using Suc by auto
  have IHsq: "next_seq (cores (boot c ?m ?s) j) = 0" if "j < RING_SIZE c" for j using Suc that by simp
  note R = krelD [OF k(2)]
  obtain n where new: "node_new c t ?m = Some n" using new_some [OF t(1)] by blast
  have iss: "issue_initial_train c n = Some (issue_node n, fresh_train n)"
    using issue_new_train_pure [OF c node_okD(1) [OF node_new_ok [OF new]]] by (simp add: issue_initial_train_def)
  have own: "k_nodes k ! t = n" using R(4) [OF t(1)] t(2) new by simp
  have sd: "Suc t mod RING_SIZE c < RING_SIZE c" using t(1) by simp
  show ?case
  proof (cases "t < NUM_TRAINS c")
    case True
    have s': "krun c args (Suc t) = outbox_send c t (fresh_train n) (?s\<lparr>cores := (cores ?s)(t := issue_node n), up := insert t (up ?s)\<rparr>)"
      using t True by (simp add: krun_Suc moves_at(1) try_exec_def start_node_def new iss)
    let ?k = "k\<lparr>k_nodes := (k_nodes k)[t := issue_node n],
       k_inbox := (k_inbox k)[Suc t mod RING_SIZE c := k_inbox k ! (Suc t mod RING_SIZE c) @ [fresh_train n]]\<rparr>"
    have "krel c ?k (boot c ?m (krun c args (Suc t)))"
      using R sd unfolding s' by (auto simp: krel_def boot_def outbox_send_def successor_def nth_list_update)
    moreover have "fold_opt (kernel_seed c) [0..<min (Suc t) (NUM_TRAINS c)] (kernel_blank c args) = Some ?k"
    proof -
      have "kernel_seed c t k = Some ?k" by (simp add: kernel_seed_def own iss Let_def)
      moreover have "min (Suc t) (NUM_TRAINS c) = Suc t" "min t (NUM_TRAINS c) = t" using True by simp_all
      ultimately show ?thesis using k(1) by (simp add: fold_opt_append)
    qed
    moreover have "same_counts (kernel_blank c args) ?k" using k(3) by (simp add: same_counts_def)
    moreover have "up (krun c args (Suc t)) = {..<Suc t}" using Suc unfolding s' by (simp add: outbox_send_def lessThan_Suc)
    moreover have "next_seq (cores (boot c ?m (krun c args (Suc t))) j) = 0" if "j < RING_SIZE c" for j
      using IHsq [OF that] node_new_fields(4) [OF new] unfolding s' by (cases "j = t") (simp_all add: boot_def outbox_send_def split: if_splits)
    ultimately show ?thesis by blast
  next
    case False
    have s': "krun c args (Suc t) = ?s\<lparr>cores := (cores ?s)(t := n), up := insert t (up ?s)\<rparr>"
      using t False by (simp add: krun_Suc moves_at(1) try_exec_def start_node_def new)
    have "krel c k (boot c ?m (krun c args (Suc t)))"
      using R t(2) own unfolding s' by (auto simp: krel_def boot_def)
    moreover have "min (Suc t) (NUM_TRAINS c) = min t (NUM_TRAINS c)" using False by simp
    moreover have "up (krun c args (Suc t)) = {..<Suc t}" using Suc unfolding s' by (simp add: lessThan_Suc)
    moreover have "next_seq (cores (boot c ?m (krun c args (Suc t))) j) = 0" if "j < RING_SIZE c" for j
      using IHsq [OF that] node_new_fields(4) [OF new] unfolding s' by (cases "j = t") (simp_all add: boot_def split: if_splits)
    ultimately show ?thesis using k(1,3) by metis
  qed
qed

lemma krun_runs: "valid_config c \<Longrightarrow> \<exists>a. runs c UniformTotalOrder (krun c args) a"
  using run_sim_exists [OF krun_fair] unfolding runs_def by blast

text \<open>The states of the loop: no iteration panics, and each ends in the state of the run at the
  end of a round.\<close>

lemma kernel_start:
  assumes c: "valid_config c"
  shows "kernel_init c args = Some (kseq c args 0)" "krel c (kseq c args 0) (krun c args (round_start c 0))"
    "up (krun c args (round_start c 0)) = {..<RING_SIZE c}" "same_counts (kernel_blank c args) (kseq c args 0)"
    "j < RING_SIZE c \<Longrightarrow> next_seq (cores (krun c args (round_start c 0)) j) = 0"
proof -
  let ?N = "RING_SIZE c"
  have "min ?N (NUM_TRAINS c) = NUM_TRAINS c" using valid_configD(5) [OF c] by simp
  then obtain k where k: "kernel_init c args = Some k" "krel c k (boot c UniformTotalOrder (krun c args ?N))"
      "same_counts (kernel_blank c args) k" and up: "up (krun c args ?N) = {..<?N}"
      and sq: "\<forall>j<?N. next_seq (cores (boot c UniformTotalOrder (krun c args ?N)) j) = 0"
    using start_rel [OF c le_refl, of args] by (auto simp: kernel_init_eq)
  show "kernel_init c args = Some (kseq c args 0)" "same_counts (kernel_blank c args) (kseq c args 0)" using k(1,3) by simp_all
  show "krel c (kseq c args 0) (krun c args (round_start c 0))" using k(1,2) up by (simp add: krel_def round_start_def)
  show "up (krun c args (round_start c 0)) = {..<RING_SIZE c}" using up by (simp add: round_start_def)
  show "j < ?N \<Longrightarrow> next_seq (cores (krun c args (round_start c 0)) j) = 0" using sq up by (simp add: round_start_def)
qed

lemma krun_healthy:
  assumes c: "valid_config c"
  shows "healthy c (krun c args (round_start c i))"
proof -
  obtain a where r: "runs c UniformTotalOrder (krun c args) a" using krun_runs [OF c] by blast
  have "round_start c 0 \<le> round_start c i" by (simp add: round_start_def)
  then have "up (krun c args (round_start c i)) = {..<RING_SIZE c}"
    using run_up [OF r] run_up_ring [OF r] kernel_start(3) [OF c, of args] by blast
  then show ?thesis using run_simD(3,4) [OF runsD(1) [OF r]] c unfolding healthy_def by blast
qed

lemma kernel_next:
  assumes c: "valid_config c" and rb: "\<not> checks c" and rel: "krel c (kseq c args i) (krun c args (round_start c i))"
  shows "kernel_iter c args (kseq c args i) = Some (kseq c args (Suc i))"
    "krel c (kseq c args (Suc i)) (krun c args (round_start c (Suc i)))"
    "to_inject (kseq c args (Suc i)) = to_inject (kseq c args i) - (if due args (kseq c args i) then 1 else 0)"
    "tick_counter (kseq c args (Suc i)) = wrapping_inc (tick_counter (kseq c args i))"
proof -
  obtain k' where k': "kernel_iter c args (kseq c args i) = Some k'"
      "krel c k' (kernel_round c args (kseq c args i) (krun c args (round_start c i)))"
      "to_inject k' = to_inject (kseq c args i) - (if due args (kseq c args i) then 1 else 0)"
      "tick_counter k' = wrapping_inc (tick_counter (kseq c args i))"
    using iter_rel [OF rel krun_healthy [OF c] rb] by blast
  have eq: "kseq c args (Suc i) = k'" using k'(1) by simp
  show "kernel_iter c args (kseq c args i) = Some (kseq c args (Suc i))" using k'(1) eq by simp
  show "krel c (kseq c args (Suc i)) (krun c args (round_start c (Suc i)))"
    "to_inject (kseq c args (Suc i)) = to_inject (kseq c args i) - (if due args (kseq c args i) then 1 else 0)"
    "tick_counter (kseq c args (Suc i)) = wrapping_inc (tick_counter (kseq c args i))"
    unfolding eq krun_round by (rule k')+
qed

text \<open>The states of the loop: no iteration panics, and each ends in the state of the run at the
  end of a round.\<close>

lemma kernel_states:
  assumes c: "valid_config c" and rb: "\<not> checks c"
  shows "krel c (kseq c args i) (krun c args (round_start c i))" "tick_counter (kseq c args i) = i mod 2 ^ 64"
proof (induction i)
  case 0
  show "krel c (kseq c args 0) (krun c args (round_start c 0))" by (rule kernel_start(2) [OF c])
  show "tick_counter (kseq c args 0) = 0 mod 2 ^ 64"
    using kernel_start(4) [OF c, of args] by (simp add: same_counts_def kernel_blank_def)
next
  case (Suc i)
  show "krel c (kseq c args (Suc i)) (krun c args (round_start c (Suc i)))" by (rule kernel_next(2) [OF c rb Suc(1)])
  show "tick_counter (kseq c args (Suc i)) = Suc i mod 2 ^ 64"
    using kernel_next(4) [OF c rb Suc(1)] Suc(2) by (simp add: wrapping_inc_def mod_Suc_eq)
qed

lemma kernel_steps:
  assumes c: "valid_config c" and rb: "\<not> checks c"
  shows "kernel_iter c args (kseq c args i) = Some (kseq c args (Suc i))"
    "to_inject (kseq c args (Suc i)) = to_inject (kseq c args i) - (if due args (kseq c args i) then 1 else 0)"
  by (rule kernel_next(1,3) [OF c rb kernel_states(1) [OF c rb]])+

section \<open>Clocks, sequence numbers and logs along the run\<close>

lemma clk_within:
  assumes r: "runs c m \<sigma> a" and "\<And>j. j < RING_SIZE c \<Longrightarrow> clk c m \<sigma> t j \<le> D" and "D + d < u64_max"
  shows "(\<forall>j<RING_SIZE c. clk c m \<sigma> (t + d) j \<le> D + d) \<and> clocks_left c (a (t + d))"
  using assms(3)
proof (induction d)
  case 0
  then show ?case using assms(2) unfolding clk_left [OF r] by fastforce
next
  case (Suc d)
  then have IH: "\<And>j. j < RING_SIZE c \<Longrightarrow> clk c m \<sigma> (t + d) j \<le> D + d" "clocks_left c (a (t + d))" by auto
  have "clk c m \<sigma> (t + Suc d) j \<le> D + Suc d" if "j < RING_SIZE c" for j
    using clk_step(2) [OF r IH(2) that] IH(1) [OF that] by simp
  then show ?case unfolding clk_left [OF r] using Suc.prems by fastforce
qed

lemma clk_time:
  assumes "runs c m \<sigma> a" and "1 + t < u64_max"
  shows "(\<forall>j<RING_SIZE c. clk c m \<sigma> t j \<le> 1 + t) \<and> clocks_left c (a t)"
  using clk_within [OF assms(1), of 0 1 t] clk_zero [OF assms(1)] assms(2) by simp

lemma node_arm_log:
  assumes "node_arm c i inp s = Some s'"
  shows "\<exists>ws. rlog s' n = rlog s n @ ws"
  using assms by (cases "step c inp (cores s i)") (auto simp: node_arm_def dispatch_effect)

lemma reliable_log: "reliable_step c k m s s' \<Longrightarrow> \<exists>ws. rlog s' n = rlog s n @ ws"
proof (induction rule: reliable_step.induct)
  case (rel_start i s s')
  then show ?case by (auto simp: start_node_def outbox_send_def split: bind_splits if_splits)
next
  case (rel_recv i s s')
  then show ?case using node_arm_log by (fastforce simp: receives_def pop_inbox_def)
qed (use node_arm_log in blast)+

lemma run_log_mono:
  assumes r: "runs c m \<sigma> a" and "t \<le> t'"
  shows "set (rlog (\<sigma> t) n) \<subseteq> set (rlog (\<sigma> t') n)"
  using assms(2)
proof (induction t' rule: dec_induct)
  case (step t')
  then show ?case using reliable_log [OF run_simD(2) [OF runsD(1) [OF r]], of t' n] by auto
qed simp

lemma serve_next_seq:
  assumes h: "healthy c s" and n: "n < RING_SIZE c"
  shows "next_seq (cores (serve c n s) j) = next_seq (cores s j)"
proof (cases "inbox s n")
  case (Cons x ts)
  obtain a where a: "valid_config c" "ring_sim c (NUM_TRAINS c) UniformTotalOrder s a" "net_ok c a" "n \<in> up s"
    using h n by (auto simp: healthy_def)
  have core: "nodes a n = cores s n" using a(2,4) n unfolding ring_sim_def by metis
  have "set (inbox s n) \<subseteq> sent a" using a(2) unfolding ring_sim_def by blast
  then have x: "issuer x < RING_SIZE c" "clock x \<le> u64_max"
    using net_ok_train [OF a(3), of x] valid_configD(5) [OF a(1)] Cons by auto
  obtain s' where s': "node_arm c n (TrainReceived x) (pop_inbox n s) = Some s'"
    using recv_enabled [OF a(1-4) Cons] by blast
  then obtain n' outs where st: "step c (TrainReceived x) (cores s n) = Some (n', outs)" "cores s' = (cores s)(n := n')"
    by (cases "step c (TrainReceived x) (cores s n)") (auto simp: node_arm_def pop_inbox_def dispatch_effect)
  have "next_seq n' = next_seq (cores s n)"
    using recv_next_seq [OF a(1) net_okD(1) [OF a(3) n] x] st(1) core by metis
  moreover have "serve c n s = s'" using Cons a(4) s' by (simp add: try_exec_def)
  ultimately show ?thesis using st(2) by simp
qed (simp add: try_exec_def)

lemma serves_next_seq:
  assumes "healthy c s" and "set ns \<subseteq> {..<RING_SIZE c}"
  shows "next_seq (cores (fold (serve c) ns s) j) = next_seq (cores s j)"
  using assms
proof (induction ns arbitrary: s)
  case (Cons n ns)
  then show ?case using serve_next_seq [of c s n j] serve_healthy by simp
qed simp

text \<open>What was submitted so far is the number of injections so far.\<close>

lemma injected_seq:
  assumes c: "valid_config c" and rb: "\<not> checks c" and M: "target_messages args < u64_max"
    and i: "\<And>j. j < i \<Longrightarrow> due args (kseq c args j) \<Longrightarrow> 1 + round_start c j < u64_max"
  shows "next_seq (cores (krun c args (round_start c i)) 0) = target_messages args - to_inject (kseq c args i) \<and>
    (\<forall>j<RING_SIZE c. j \<noteq> 0 \<longrightarrow> next_seq (cores (krun c args (round_start c i)) j) = 0) \<and>
    to_inject (kseq c args i) \<le> target_messages args"
  using i
proof (induction i)
  case 0
  have "to_inject (kseq c args 0) = target_messages args"
    using kernel_start(4) [OF c, of args] by (simp add: same_counts_def kernel_blank_def)
  then show ?case using kernel_start(5) [OF c, of _ args] valid_configD(3) [OF c] by simp
next
  case (Suc i)
  let ?s = "krun c args (round_start c i)" and ?k = "kseq c args i"
  let ?s1 = "try_exec c (NUM_TRAINS c) UniformTotalOrder (inject_move args ?k) ?s"
  obtain a where r: "runs c UniformTotalOrder (krun c args) a" using krun_runs [OF c] by blast
  have IH: "next_seq (cores ?s 0) = target_messages args - to_inject ?k"
      "\<And>j. j < RING_SIZE c \<Longrightarrow> j \<noteq> 0 \<Longrightarrow> next_seq (cores ?s j) = 0" "to_inject ?k \<le> target_messages args"
    using Suc.IH Suc.prems by auto
  have h: "healthy c ?s" by (rule krun_healthy [OF c])
  have up0: "0 \<in> up ?s" using h valid_configD(3) by (auto simp: healthy_def)
  have fin: "next_seq (cores (krun c args (round_start c (Suc i))) j) = next_seq (cores ?s1 j)" for j
    unfolding krun_round kernel_round_def
    by (rule serves_next_seq [OF healthy_step [OF h try_exec_reliable]]) auto
  note ti = kernel_steps(2) [OF c rb, of args i]
  show ?case
  proof (cases "due args ?k")
    case False
    then have "?s1 = ?s" by (simp add: inject_move_def try_exec_def)
    then show ?thesis using IH fin ti False by (simp del: kseq.simps)
  next
    case True
    obtain s' where arm: "node_arm c 0 (LocalBroadcast (kernel_payload args)) ?s = Some s'"
      by (cases "handle_broadcast (kernel_payload args) (cores ?s 0)") (simp add: node_arm_def)
    then have s': "?s1 = s'" using True up0 by (simp add: inject_move_def try_exec_def)
    obtain C where C: "soup_inv c C (a (round_start c i))"
      using run_soup_inv [OF runsD(1,2) [OF r]] clk_time [OF r Suc.prems [OF lessI True]] by blast
    have sq: "next_seq (cores ?s 0) < u64_max" using IH(1) M by simp
    have "next_seq (cores s' 0) = Suc (next_seq (cores ?s 0))" by (rule submission_effect(2) [OF r C up0 arm sq])
    moreover have "cores s' j = cores ?s j" if "j \<noteq> 0" for j
      using arm that by (cases "handle_broadcast (kernel_payload args) (cores ?s 0)") (auto simp: node_arm_def dispatch_effect)
    moreover have "0 < to_inject ?k" using True by (simp add: due_def)
    ultimately show ?thesis using IH fin ti True s' by (auto simp: Suc_diff_le simp del: kseq.simps)
  qed
qed

text \<open>No node has delivered more than was submitted.\<close>

lemma log_bounded:
  assumes r: "runs c m \<sigma> a" and left: "clocks_left c (a t)" and up: "up (\<sigma> t) = {..<RING_SIZE c}"
    and sq: "next_seq (cores (\<sigma> t) 0) < u64_max" "\<And>j. j < RING_SIZE c \<Longrightarrow> j \<noteq> 0 \<Longrightarrow> next_seq (cores (\<sigma> t) j) = 0"
    and i: "i < RING_SIZE c"
  shows "length (rlog (\<sigma> t) i) \<le> next_seq (cores (\<sigma> t) 0)"
proof -
  obtain C where C: "soup_inv c C (a t)" using run_soup_inv [OF runsD(1,2) [OF r] left] .
  have log: "rlog (\<sigma> t) i = concat (dlog (a t) i)" using run_simD(3) [OF runsD(1) [OF r], of t] unfolding ring_sim_def by blast
  have core: "nodes (a t) j = cores (\<sigma> t) j" if "j < RING_SIZE c" for j
    using boot_core [OF run_simD(3) [OF runsD(1) [OF r]] that, of t] up that by simp
  have cnt: "next_seq (cores (\<sigma> t) j) = min (length (submitted (a t) j)) u64_max" if "j < RING_SIZE c" for j
    using node_invD(9) [OF C that] core [OF that] by (simp add: own_ok_def counter_ok_def)
  have "payload_id ` set (rlog (\<sigma> t) i) \<subseteq> {0} \<times> {..<next_seq (cores (\<sigma> t) 0)}"
  proof
    fix x assume "x \<in> payload_id ` set (rlog (\<sigma> t) i)"
    then obtain p where p: "x = payload_id p" "p \<in> set (concat (dlog (a t) i))" unfolding log by blast
    have s: "sender p < RING_SIZE c" "seq p < length (submitted (a t) (sender p))" using soup_inv_integrity [OF C i p(2)] by auto
    have "sender p = 0"
    proof (rule ccontr)
      assume "sender p \<noteq> 0"
      then show False using sq(2) [OF s(1)] cnt [OF s(1)] s(2) by (simp add: u64_max_def)
    qed
    then show "x \<in> {0} \<times> {..<next_seq (cores (\<sigma> t) 0)}"
      using p(1) s cnt [OF s(1)] sq(1) by (simp add: payload_id_def min_def split: if_splits)
  qed
  then have "card (payload_id ` set (rlog (\<sigma> t) i)) \<le> card ({0::nat} \<times> {..<next_seq (cores (\<sigma> t) 0)})"
    by (rule card_mono [rotated]) simp
  moreover have "card (set (map payload_id (rlog (\<sigma> t) i))) = length (rlog (\<sigma> t) i)"
    using distinct_card [OF soup_inv_no_duplicates [OF C i]] unfolding log by simp
  ultimately show ?thesis by (simp add: card_cartesian_product)
qed

section \<open>The loop ends\<close>

lemma loop_runs:
  assumes c: "valid_config c" and rb: "\<not> checks c" and i: "\<And>j. j < i \<Longrightarrow> \<not> reached args (kseq c args j) \<and> \<not> late j"
  shows "kernel_main c args late = kernel_loop c args late i (kseq c args i)"
proof -
  have "kernel_loop c args late 0 (kseq c args 0) = kernel_loop c args late i (kseq c args i)"
    using i
  proof (induction i)
    case (Suc i)
    have "kernel_loop c args late i (kseq c args i) = kernel_loop c args late (Suc i) (kseq c args (Suc i))"
      using Suc.prems [of i] kernel_steps(1) [OF c rb, of args i] by (subst kernel_loop.simps) (simp del: kseq.simps)
    then show ?case using Suc by simp
  qed simp
  then show ?thesis using kernel_start(1) [OF c, of args] by (simp add: kernel_main_def del: kseq.simps)
qed

lemma reached_iff:
  assumes "krel c k s"
  shows "reached args k \<longleftrightarrow> (\<forall>j<RING_SIZE c. target_messages args \<le> length (rlog s j))"
  using krelD(3,6) [OF assms] by (auto simp: reached_def list_all_length)

lemma round_start_mono: "i \<le> i' \<Longrightarrow> round_start c i \<le> round_start c i'"
  unfolding round_start_def by (intro add_left_mono mult_le_mono2)

lemma round_start_bound:
  assumes "valid_config c"
  shows "round_start c x \<le> 30 + 31 * x"
  unfolding round_start_def using valid_configD(2) [OF assms] by (intro add_mono mult_le_mono1) simp_all

lemma delivered_bounded:
  assumes c: "valid_config c" and rb: "\<not> checks c" and M: "target_messages args < u64_max"
    and r: "runs c UniformTotalOrder (krun c args) a" and left: "clocks_left c (a (round_start c i))"
    and seq: "next_seq (cores (krun c args (round_start c i)) 0) = target_messages args - to_inject (kseq c args i) \<and>
      (\<forall>j<RING_SIZE c. j \<noteq> 0 \<longrightarrow> next_seq (cores (krun c args (round_start c i)) j) = 0)"
    and j: "j < RING_SIZE c"
  shows "k_delivered (kseq c args i) ! j \<le> target_messages args - to_inject (kseq c args i)"
proof -
  have "up (krun c args (round_start c i)) = {..<RING_SIZE c}" using krun_healthy [OF c] by (simp add: healthy_def)
  moreover have "next_seq (cores (krun c args (round_start c i)) 0) < u64_max" using seq M by simp
  ultimately show ?thesis
    using log_bounded [OF r left _ _ _ j] krelD(6) [OF kernel_states(1) [OF c rb] j, of args i] seq by simp
qed

text \<open>Injections: one every \<^verbatim>\<open>broadcast_every\<close> iterations until the target.\<close>

lemma inject_schedule:
  assumes c: "valid_config c" and rb: "\<not> checks c" and be: "1 \<le> broadcast_every args"
    and b: "broadcast_every args * target_messages args < 2 ^ 64" and n: "n \<le> target_messages args"
  shows "to_inject (kseq c args (broadcast_every args * n)) = target_messages args - n"
  using n
proof (induction n)
  case 0
  then show ?case using kernel_start(4) [OF c, of args] by (simp add: same_counts_def kernel_blank_def)
next
  case (Suc n)
  let ?b = "broadcast_every args" and ?M = "target_messages args"
  have tc: "tick_counter (kseq c args i) = i" if "i < ?b * Suc n" for i
  proof -
    have "?b * Suc n \<le> ?b * ?M" using Suc.prems by (rule mult_le_mono2)
    then show ?thesis using kernel_states(2) [OF c rb, of args i] that b by simp
  qed
  have "to_inject (kseq c args (?b * n + Suc d)) = ?M - Suc n" if "Suc d \<le> ?b" for d
    using that
  proof (induction d)
    case 0
    have "due args (kseq c args (?b * n))" using tc [of "?b * n"] be Suc by (simp add: due_def)
    then show ?case using kernel_steps(2) [OF c rb, of args "?b * n"] Suc by simp
  next
    case (Suc d)
    let ?i = "?b * n + Suc d"
    have "?i < ?b * Suc n" using Suc.prems by simp
    then have "tick_counter (kseq c args ?i) = ?i" by (rule tc)
    moreover have "\<not> ?b dvd ?i"
      using Suc.prems nat_dvd_not_less [of "Suc d" ?b] by (metis Suc_le_lessD dvd_add_right_iff dvd_triv_left zero_less_Suc)
    ultimately have "\<not> due args (kseq c args ?i)" by (simp add: due_def)
    then show ?case using kernel_steps(2) [OF c rb, of args ?i] Suc by simp
  qed
  from this [of "?b - 1"] show ?case using be by (simp add: add.commute)
qed

lemma no_late_injection:
  assumes c: "valid_config c" and rb: "\<not> checks c" and be: "1 \<le> broadcast_every args"
    and b: "broadcast_every args * target_messages args < 2 ^ 64" and d: "due args (kseq c args i)"
  shows "i < broadcast_every args * target_messages args"
proof (rule ccontr)
  assume "\<not> ?thesis"
  then have "broadcast_every args * target_messages args \<le> i" by simp
  then have "to_inject (kseq c args i) = 0"
  proof (induction i rule: dec_induct)
    case base
    then show ?case using inject_schedule [OF c rb be b le_refl] by simp
  next
    case (step i)
    then show ?case using kernel_steps(2) [OF c rb, of args i] by simp
  qed
  then show False using d by (simp add: due_def)
qed


lemma krun_injects:
  assumes c: "valid_config c" and d: "due args (kseq c args i)"
  shows "node_arm c 0 (LocalBroadcast (kernel_payload args)) (krun c args (round_start c i)) = Some (krun c args (Suc (round_start c i)))"
    "0 \<in> up (krun c args (round_start c i))"
proof -
  let ?s = "krun c args (round_start c i)"
  show up0: "0 \<in> up ?s" using krun_healthy [OF c] valid_configD(3) [OF c] by (auto simp: healthy_def)
  obtain s' where arm: "node_arm c 0 (LocalBroadcast (kernel_payload args)) ?s = Some s'"
    by (cases "handle_broadcast (kernel_payload args) (cores ?s 0)") (simp add: node_arm_def)
  then show "node_arm c 0 (LocalBroadcast (kernel_payload args)) ?s = Some (krun c args (Suc (round_start c i)))"
    using d up0 by (simp add: krun_Suc moves_at(2) inject_move_def try_exec_def)
qed

text \<open>The arguments the benchmark is meant for: at least one iteration between injections, and a
  target that the clocks can carry.\<close>

definition kernel_fits :: "config \<Rightarrow> kernel_args \<Rightarrow> bool" where
  "kernel_fits c args \<longleftrightarrow> valid_config c \<and> \<not> checks c \<and> 1 \<le> broadcast_every args \<and>
     32 * (broadcast_every args * target_messages args + 4) < u64_max"

lemma kernel_fitsD:
  assumes "kernel_fits c args"
  shows "valid_config c" "\<not> checks c" "1 \<le> broadcast_every args" "target_messages args < u64_max"
    "broadcast_every args * target_messages args < 2 ^ 64"
    "round_start c (broadcast_every args * target_messages args) + 80 < u64_max"
proof -
  let ?x = "broadcast_every args * target_messages args"
  show c: "valid_config c" and "\<not> checks c" and be: "1 \<le> broadcast_every args" using assms by (simp_all add: kernel_fits_def)
  have b: "32 * (?x + 4) < u64_max" using assms by (simp add: kernel_fits_def)
  have "target_messages args \<le> ?x" using be by simp
  moreover have "?x < u64_max" using b by (simp add: u64_max_def)
  ultimately show "target_messages args < u64_max" by (rule le_less_trans)
  show "?x < 2 ^ 64" using b by (simp add: u64_max_def)
  have "round_start c ?x + 80 \<le> 32 * (?x + 4)" using round_start_bound [OF c, of ?x] by simp
  then show "round_start c ?x + 80 < u64_max" using b by (rule le_less_trans)
qed

lemma message_delivered:
  assumes f: "kernel_fits c args" and r: "runs c UniformTotalOrder (krun c args) a" and n: "n < target_messages args"
  shows "\<exists>T. (\<forall>j<RING_SIZE c. \<lparr>sender = 0, seq = n, data = kernel_payload args\<rparr> \<in> set (rlog (krun c args T) j)) \<and>
    (\<forall>j<RING_SIZE c. clk c UniformTotalOrder (krun c args) T j \<le>
      round_start c (broadcast_every args * target_messages args) + 11)"
proof -
  note F = kernel_fitsD [OF f]
  let ?i = "broadcast_every args * n" and ?x = "broadcast_every args * target_messages args"
  have lt: "?i < ?x" using n F(3) by simp
  have rs: "round_start c j \<le> round_start c ?x" if "j < ?x" for j using that by (intro round_start_mono) simp
  have "to_inject (kseq c args ?i) = target_messages args - n" by (rule inject_schedule [OF F(1-3,5) less_imp_le [OF n]])
  moreover have "tick_counter (kseq c args ?i) = ?i" 
    using kernel_states(2) [OF F(1,2), of args ?i] less_trans [OF lt F(5)] by (simp only: mod_less)
  ultimately have d: "due args (kseq c args ?i)" and ti: "target_messages args - to_inject (kseq c args ?i) = n"
    using n by (simp_all add: due_def)
  have "1 + round_start c j < u64_max" if "j < ?i" for j using rs [of j] that lt F(6) by simp
  then have seq: "next_seq (cores (krun c args (round_start c ?i)) 0) = n"
    using injected_seq [OF F(1,2,4), of ?i] ti by simp
  have "clk c UniformTotalOrder (krun c args) (round_start c ?i) j \<le> round_start c ?x + 4" if "j < RING_SIZE c" for j
  proof -
    have "1 + round_start c ?i < u64_max" using rs [OF lt] F(6) by simp
    from clk_time [OF r this] have "clk c UniformTotalOrder (krun c args) (round_start c ?i) j \<le> 1 + round_start c ?i" using that by blast
    then show ?thesis using rs [OF lt] by simp
  qed
  moreover have "next_seq (cores (krun c args (round_start c ?i)) 0) < u64_max" using seq n F(4) by simp
  moreover have "3 \<le> round_start c ?x + 4" "round_start c ?x + 4 + 7 < u64_max" using F(6) by simp_all
  ultimately show ?thesis
    using submission_delivered [OF r krun_injects(2,1) [OF F(1) d], of "round_start c ?x + 4"] unfolding seq
    by (auto simp: add.commute)
qed

lemma all_delivered:
  assumes f: "kernel_fits c args" and r: "runs c UniformTotalOrder (krun c args) a" and m: "m \<le> target_messages args"
  shows "\<exists>T. (\<forall>n<m. \<forall>j<RING_SIZE c. \<lparr>sender = 0, seq = n, data = kernel_payload args\<rparr> \<in> set (rlog (krun c args T) j)) \<and>
    (\<forall>j<RING_SIZE c. clk c UniformTotalOrder (krun c args) T j \<le>
      round_start c (broadcast_every args * target_messages args) + 11)"
  using m
proof (induction m)
  case 0
  show ?case using clk_zero [OF r] by (intro exI [of _ 0]) simp
next
  case (Suc m)
  obtain T1 where T1: "\<And>n j. n < m \<Longrightarrow> j < RING_SIZE c \<Longrightarrow> \<lparr>sender = 0, seq = n, data = kernel_payload args\<rparr> \<in> set (rlog (krun c args T1) j)"
      "\<forall>j<RING_SIZE c. clk c UniformTotalOrder (krun c args) T1 j \<le> round_start c (broadcast_every args * target_messages args) + 11"
    using Suc by auto
  obtain T2 where T2: "\<And>j. j < RING_SIZE c \<Longrightarrow> \<lparr>sender = 0, seq = m, data = kernel_payload args\<rparr> \<in> set (rlog (krun c args T2) j)"
      "\<forall>j<RING_SIZE c. clk c UniformTotalOrder (krun c args) T2 j \<le> round_start c (broadcast_every args * target_messages args) + 11"
    using message_delivered [OF f r] Suc.prems by (meson Suc_le_lessD)
  let ?T = "max T1 T2"
  have "\<lparr>sender = 0, seq = n, data = kernel_payload args\<rparr> \<in> set (rlog (krun c args ?T) j)" if "n < Suc m" "j < RING_SIZE c" for n j
  proof (cases "n = m")
    case True
    then show ?thesis using T2(1) [OF that(2)] run_log_mono [OF r, of T2 ?T j] by auto
  next
    case False
    then show ?thesis using T1(1) [OF _ that(2), of n] that(1) run_log_mono [OF r, of T1 ?T j] by auto
  qed
  moreover have "?T = T1 \<or> ?T = T2" by (simp add: max_def)
  ultimately show ?case using T1(2) T2(2) by metis
qed

lemma log_full:
  assumes "\<And>n. n < M \<Longrightarrow> \<lparr>sender = 0, seq = n, data = d\<rparr> \<in> set xs"
  shows "M \<le> length xs"
proof -
  have "(\<lambda>n. \<lparr>sender = 0, seq = n, data = d\<rparr>) ` {..<M} \<subseteq> set xs" using assms by auto
  then have "card ((\<lambda>n. \<lparr>sender = 0, seq = n, data = d\<rparr>) ` {..<M}) \<le> card (set xs)" by (rule card_mono [rotated]) simp
  also have "card ((\<lambda>n. \<lparr>sender = 0, seq = n, data = d\<rparr>) ` {..<M}) = M" by (subst card_image) (auto intro: inj_onI)
  finally show ?thesis using card_length le_trans by blast
qed

lemma reached_eventually:
  assumes f: "kernel_fits c args" and r: "runs c UniformTotalOrder (krun c args) a"
  shows "\<exists>i. reached args (kseq c args i) \<and> clocks_left c (a (round_start c i))"
proof -
  note F = kernel_fitsD [OF f]
  let ?D = "round_start c (broadcast_every args * target_messages args) + 11"
  obtain T where T: "\<And>n j. n < target_messages args \<Longrightarrow> j < RING_SIZE c \<Longrightarrow>
        \<lparr>sender = 0, seq = n, data = kernel_payload args\<rparr> \<in> set (rlog (krun c args T) j)"
      "\<And>j. j < RING_SIZE c \<Longrightarrow> clk c UniformTotalOrder (krun c args) T j \<le> ?D"
    using all_delivered [OF f r le_refl] by blast
  let ?i = "Suc (T div Suc (RING_SIZE c))"
  let ?q = "Suc (RING_SIZE c) * (T div Suc (RING_SIZE c))"
  have q: "?q \<le> T" "T < ?q + Suc (RING_SIZE c)"
    using mult_div_mod_eq [of "Suc (RING_SIZE c)" T] mod_less_divisor [OF zero_less_Suc, of T "RING_SIZE c"] by linarith+
  have "round_start c ?i = RING_SIZE c + (?q + Suc (RING_SIZE c))" unfolding round_start_def by simp
  then have i: "T \<le> round_start c ?i" "round_start c ?i - T \<le> 61" using q valid_configD(2) [OF F(1)] by linarith+
  have "?D + (round_start c ?i - T) < u64_max" using F(6) i(2) by linarith
  then have left: "clocks_left c (a (round_start c ?i))" using clk_within [OF r T(2), of "round_start c ?i - T"] i(1) by simp
  have "target_messages args \<le> length (rlog (krun c args (round_start c ?i)) j)" if "j < RING_SIZE c" for j
    by (rule log_full) (use T(1) [OF _ that] run_log_mono [OF r i(1), of j] in blast)
  then show ?thesis using left reached_iff [OF kernel_states(1) [OF F(1,2)]] by blast
qed

text \<open>C5. The kernel benchmark of a release build completes, if \<^verbatim>\<open>--broadcast-every\<close> is at least one and its
  product with the number of messages small enough for the 64-bit counters and clocks
  (\<open>kernel_fits\<close>; with \<open>0\<close> two messages or more only time out, as shown below): there is an iteration by
  which every node has delivered exactly the number of messages asked for, and unless the limit of
  120 seconds has passed before, the loop of \<^verbatim>\<open>main\<close> is left by its \<^verbatim>\<open>break\<close> there. If it has passed, the loop is left by the timeout with some node short of the
  number. There is no panic and no endless loop, whatever the ring and the payload.\<close>

theorem kernel_completes:
  assumes f: "kernel_fits c args"
  shows "\<exists>i k. k_delivered k = replicate (RING_SIZE c) (target_messages args) \<and> length (k_nodes k) = RING_SIZE c \<and>
    (\<forall>late. if \<forall>j<i. \<not> late j then kernel_main c args late = Some (Finished k)
       else \<exists>k'. kernel_main c args late = Some (TimedOut k') \<and> \<not> reached args k')"
proof -
  note F = kernel_fitsD [OF f]
  obtain a where r: "runs c UniformTotalOrder (krun c args) a" using krun_runs [OF F(1)] by blast
  obtain i1 where i1: "reached args (kseq c args i1)" "clocks_left c (a (round_start c i1))" using reached_eventually [OF f r] by blast
  obtain i where hit: "reached args (kseq c args i)" and le: "i \<le> i1"
    and before: "\<And>j. j < i \<Longrightarrow> \<not> reached args (kseq c args j)"
    using ex_least_nat_le [of "\<lambda>i. reached args (kseq c args i)", OF i1(1)] by blast
  have left: "clocks_left c (a (round_start c i))" by (rule run_left_mono [OF runsD(1) [OF r] round_start_mono [OF le] i1(2)])
  have "1 + round_start c j < u64_max" if "due args (kseq c args j)" for j
    using no_late_injection [OF F(1-3,5) that] round_start_mono [of j "broadcast_every args * target_messages args" c] F(6) by simp
  then have "k_delivered (kseq c args i) ! j \<le> target_messages args" if "j < RING_SIZE c" for j
    using delivered_bounded [OF F(1,2,4) r left _ that] injected_seq [OF F(1,2,4), of i] by fastforce
  moreover have K: "krel c (kseq c args i) (krun c args (round_start c i))" by (rule kernel_states(1) [OF F(1,2)])
  ultimately have "k_delivered (kseq c args i) = replicate (RING_SIZE c) (target_messages args)"
    using hit krelD(3) [OF K] by (intro nth_equalityI) (auto simp: reached_def list_all_length intro: antisym)
  moreover have "if \<forall>j<i. \<not> late j then kernel_main c args late = Some (Finished (kseq c args i))
      else \<exists>k'. kernel_main c args late = Some (TimedOut k') \<and> \<not> reached args k'" for late
  proof (cases "\<forall>j<i. \<not> late j")
    case True
    then have "kernel_main c args late = Some (Finished (kseq c args i))"
      using loop_runs [OF F(1,2), of i args late] before hit by (simp add: kernel_loop.simps)
    then show ?thesis using True by simp
  next
    case False
    then obtain j where j: "j < i" "late j" and first: "\<And>l. l < j \<Longrightarrow> \<not> late l"
      using exists_least_iff [of "\<lambda>j. j < i \<and> late j"] by (meson order.strict_trans)
    have "kernel_main c args late = Some (TimedOut (kseq c args j))"
      using loop_runs [OF F(1,2), of j args late] before first j by (simp add: kernel_loop.simps)
    then show ?thesis using False before [OF j(1)] by auto
  qed
  ultimately show ?thesis using krelD(1) [OF K] by blast
qed


definition release2 :: config where
  "release2 = cfg2\<lparr>checks := False\<rparr>"

definition one_message :: kernel_args where
  "one_message = \<lparr>target_messages = 1, payload_len = 2, broadcast_every = 1\<rparr>"

theorem kernel_completes_witness:
  "\<exists>k. kernel_main release2 one_message (\<lambda>i. False) = Some (Finished k) \<and> k_delivered k = [1, 1]"
proof -
  have "kernel_fits release2 one_message"
    by (simp add: kernel_fits_def release2_def one_message_def cfg2_def valid_config_def u64_max_def)
  then obtain i k where k: "k_delivered k = replicate (RING_SIZE release2) (target_messages one_message)"
      "\<And>late. if \<forall>j<i. \<not> late j then kernel_main release2 one_message late = Some (Finished k)
        else \<exists>k'. kernel_main release2 one_message late = Some (TimedOut k') \<and> \<not> reached one_message k'"
    using kernel_completes [of release2 one_message] by blast
  moreover have "replicate (RING_SIZE release2) (target_messages one_message) = [1, 1]" by code_simp
  ultimately show ?thesis using k(2) [of "\<lambda>i. False"] by auto
qed

text \<open>With \<^verbatim>\<open>--broadcast-every 0\<close> the benchmark does not inject the messages it waits for:
  \<^verbatim>\<open>is_multiple_of(0)\<close> holds at the first iteration only, one message is injected, and a
  target of two or more is left by the timeout alone.\<close>

lemma kernel_pace_zero_times_out:
  assumes c: "valid_config c" and rb: "\<not> checks c" and z: "broadcast_every args = 0"
    and M: "2 \<le> target_messages args" "target_messages args < u64_max"
    and i: "32 * (i + 4) < u64_max" and late: "late i" "\<And>j. j < i \<Longrightarrow> \<not> late j"
  shows "\<exists>k. kernel_main c args late = Some (TimedOut k) \<and> (\<forall>j<RING_SIZE c. k_delivered k ! j \<le> 1)"
proof -
  obtain a where r: "runs c UniformTotalOrder (krun c args) a" using krun_runs [OF c] by blast
  have fit: "1 + round_start c j < u64_max" "tick_counter (kseq c args j) = j" if "j \<le> i" for j
  proof -
    have "1 + round_start c j \<le> 32 * (i + 4)" using round_start_bound [OF c, of j] that by simp
    then show "1 + round_start c j < u64_max" using i by (rule le_less_trans)
    have "j < 2 ^ 64" using that i by (simp add: u64_max_def)
    then show "tick_counter (kseq c args j) = j" using kernel_states(2) [OF c rb, of args j] by simp
  qed
  have ti: "target_messages args - 1 \<le> to_inject (kseq c args j) \<and> (j = 0 \<longrightarrow> to_inject (kseq c args j) = target_messages args)"
    if "j \<le> i" for j
    using that
  proof (induction j)
    case 0
    then show ?case using kernel_start(4) [OF c, of args] by (simp add: same_counts_def kernel_blank_def)
  next
    case (Suc j)
    have "due args (kseq c args j) \<Longrightarrow> j = 0" using fit(2) [of j] Suc.prems z by (simp add: due_def)
    then show ?case using kernel_steps(2) [OF c rb, of args j] Suc by (auto simp del: kseq.simps)
  qed
  have one: "k_delivered (kseq c args j) ! n \<le> 1" if "j \<le> i" "n < RING_SIZE c" for j n
  proof -
    have "clocks_left c (a (round_start c j))" using clk_time [OF r fit(1) [OF that(1)]] by blast
    moreover have "1 + round_start c l < u64_max" if "l < j" for l using fit(1) [of l] that \<open>j \<le> i\<close> by simp
    ultimately have "k_delivered (kseq c args j) ! n \<le> target_messages args - to_inject (kseq c args j)"
      using delivered_bounded [OF c rb M(2) r _ _ that(2)] injected_seq [OF c rb M(2), of j] by blast
    then show ?thesis using ti [OF that(1)] by linarith
  qed
  have "\<not> reached args (kseq c args j)" if "j \<le> i" for j
    using one [OF that valid_configD(3) [OF c]] M(1) krelD(3) [OF kernel_states(1) [OF c rb], of args j] valid_configD(3) [OF c]
    by (auto simp: reached_def list_all_length)
  then have "kernel_main c args late = Some (TimedOut (kseq c args i))"
    using loop_runs [OF c rb, of i args late] late by (simp add: kernel_loop.simps)
  then show ?thesis using one [OF le_refl] by blast
qed

end
