(* ===== verification/Ring_Short.thy ===== *)
theory Ring_Short
  imports Ring_Delivery
begin

text \<open>
  A ring started with fewer issuers than it was built for. \<^verbatim>\<open>run\<close> of \<^verbatim>\<open>ring.rs\<close> checks
  \<^verbatim>\<open>--num-trains\<close> against the ring size only; the delivery gate waits for every one of the \<^verbatim>\<open>NUM_TRAINS\<close>
  issuers of the build, so a ring with an issuer missing never delivers.
\<close>

text \<open>An issuer the node has neither heard of nor excluded.\<close>

definition unheard :: "proc_id \<Rightarrow> trains_node \<Rightarrow> bool" where
  "unheard q n \<longleftrightarrow> seen (clocks n) ! q = 0 \<and> \<not> bit (crashed_bits (delivery n)) q"

lemma unheard_blocks:
  assumes "unheard q n" and "q < NUM_TRAINS c" and "delivers c n ts n'"
  shows "ts = [] \<and> n' = n"
  using assms(3)
proof cases
  case (delivers_Cons t us)
  then have "1 \<le> ck_clock (key_of t)" "bit (crashed_bits (delivery n)) q \<or> ck_clock (key_of t) \<le> seen (clocks n) ! q"
    using assms(2) unfolding known_def deliverable_def by blast+
  then show ?thesis using assms(1) by (simp add: unheard_def)
qed simp

lemma unheard_run:
  assumes "unheard q n" and "q < NUM_TRAINS c" and "delivery_run c t n ts n'"
  shows "ts = [] \<and> unheard q n'"
proof -
  obtain n1 where n1: "maybe_park c t n n1" "delivers c n1 ts n'" using assms(3) by (auto simp: delivery_run_def)
  have "unheard q n1" using n1(1) assms(1) by (auto simp: maybe_park_def unheard_def)
  then show ?thesis using unheard_blocks [OF _ assms(2) n1(2)] by simp
qed

lemma unheard_raise: "unheard q n \<Longrightarrow> i \<noteq> q \<Longrightarrow> unheard q (raise_seen i cl n)"
  by (simp add: unheard_def raise_seen_def)

text \<open>As long as no train of that issuer arrives, the node delivers nothing.\<close>

lemma unheard_step:
  assumes c: "valid_config c" and ok: "node_ok c n" and q: "q < NUM_TRAINS c" "unheard q n" "q \<noteq> issuer t"
    and t: "issuer t < RING_SIZE c" "clock t \<le> u64_max" and st: "step c (TrainReceived t) n = Some (n', outs)"
  shows "unheard q n' \<and> batches outs = []"
  using c ok t
proof (cases rule: step_cases)
  case (replay n1 ts us)
  have "unheard q (note_payloads (payloads t) n)" using q(2) by (simp add: unheard_def)
  then show ?thesis using unheard_run [OF _ q(1) replay(5)] st replay(4) by simp
next
  case (first n1 ts)
  have "unheard q (load_node t n)" using unheard_raise [OF q(2), of "issuer t" "clock t"] q(3) by (simp add: unheard_def)
  then show ?thesis using unheard_blocks [OF _ q(1) first(5)] st first(4) by simp
next
  case (return n1 ts us)
  have "unheard q (raise_seen (node_id n) (clock t) n)" using unheard_raise [OF q(2)] q(3) return(1) by simp
  then show ?thesis using unheard_run [OF _ q(1) return(5)] st return(4) by simp
qed (use st q(2) in \<open>auto simp: unheard_def\<close>)

section \<open>The ring\<close>

definition short_inv :: "config \<Rightarrow> nat \<Rightarrow> ring_state \<Rightarrow> bool" where
  "short_inv c k s \<longleftrightarrow> valid_config c \<and> up s \<subseteq> {..<RING_SIZE c} \<and> (\<forall>i. rlog s i = []) \<and>
     (\<forall>i\<in>up s. node_ok c (cores s i) \<and> node_id (cores s i) = i \<and> unheard k (cores s i)) \<and>
     (\<forall>i. \<forall>t\<in>set (inbox s i). issuer t < k \<and> clock t \<le> u64_max)"

lemma short_fewer:
  assumes "short_inv c k s" and "\<And>j. set (inbox s' j) \<subseteq> set (inbox s j)"
    and "up s' = up s" "rlog s' = rlog s" "cores s' = cores s"
  shows "short_inv c k s'"
  using assms unfolding short_inv_def by (metis subsetD)

lemma short_start:
  assumes inv: "short_inv c k s" and i: "i < RING_SIZE c" and k: "k < RING_SIZE c" and st: "start_node c k m i s = Some s'"
  shows "short_inv c k s'"
proof -
  have c: "valid_config c" using inv by (simp add: short_inv_def)
  obtain n where new: "node_new c i m = Some n" using new_some [OF i] by blast
  have "seen (clocks n) = replicate (RING_SIZE c) 0" using new by (auto simp: node_new_def clock_new_def split: if_splits)
  then have n: "node_ok c n" "node_id n = i" "unheard k n" "next_issue_clock n = 1"
    using node_new_ok [OF new] node_new_fields [OF new] k by (simp_all add: unheard_def delivery_new_def)
  show ?thesis
  proof (cases "i < k")
    case True
    have iss: "issue_initial_train c n = Some (issue_node n, fresh_train n)"
      using issue_new_train_pure [OF c node_okD(1) [OF n(1)]] by (simp add: issue_initial_train_def)
    have "s' = outbox_send c i (fresh_train n) (s\<lparr>cores := (cores s)(i := issue_node n), up := insert i (up s)\<rparr>)"
      using st True by (simp add: start_node_def new iss)
    then show ?thesis
      using inv n i True issue_node_ok [OF n(1)] by (auto simp: short_inv_def outbox_send_def fresh_train_def unheard_def u64_max_def)
  next
    case False
    then have "s' = s\<lparr>cores := (cores s)(i := n), up := insert i (up s)\<rparr>" using st by (simp add: start_node_def new)
    then show ?thesis using inv n i by (auto simp: short_inv_def)
  qed
qed

lemma short_arm:
  assumes inv: "short_inv c k s" and i: "i \<in> up s"
    and n': "step c inp (cores s i) = Some (n', outs)" "node_ok c n'" "node_id n' = i" "unheard k n'"
    and outs: "batches outs = []" "\<And>u. u \<in> set (sends outs) \<Longrightarrow> issuer u < k \<and> clock u \<le> u64_max"
    and st: "node_arm c i inp s = Some s'"
  shows "short_inv c k s'"
proof -
  have "s' = dispatch c i outs (s\<lparr>cores := (cores s)(i := n')\<rparr>)" using st n'(1) by (simp add: node_arm_def)
  then show ?thesis using inv i n'(2-4) outs by (auto simp: short_inv_def dispatch_effect)
qed

lemma short_other:
  assumes inv: "short_inv c k s" and i: "i \<in> up s" and inp: "\<And>t. inp \<noteq> TrainReceived t"
    and st: "node_arm c i inp s = Some s'"
  shows "short_inv c k s'"
proof -
  obtain n' outs where n': "step c inp (cores s i) = Some (n', outs)" using inp by (cases inp; cases "step c inp (cores s i)") auto
  have I: "node_ok c (cores s i)" "node_id (cores s i) = i" "unheard k (cores s i)" using inv i by (auto simp: short_inv_def)
  note F = step_other_frame [OF I(1) n' inp]
  have "unheard k n'" using n' inp I(3)
    by (cases inp) (auto simp: handle_tick_def handle_broadcast_def unheard_def Let_def split: if_splits)
  then show ?thesis using short_arm [OF inv i n' _ _ _ _ _ st] F I(2) by simp
qed

lemma short_recv:
  assumes inv: "short_inv c k s" and k: "k < NUM_TRAINS c" and i: "i \<in> up s" and box: "inbox s i = t # ts"
    and st: "node_arm c i (TrainReceived t) (pop_inbox i s) = Some s'"
  shows "short_inv c k s'"
proof -
  have c: "valid_config c" and I: "node_ok c (cores s i)" "node_id (cores s i) = i" "unheard k (cores s i)"
    using inv i by (auto simp: short_inv_def)
  have t: "issuer t < k" "clock t \<le> u64_max" using inv box unfolding short_inv_def by (metis list.set_intros(1))+
  then have tN: "issuer t < NUM_TRAINS c" "issuer t < RING_SIZE c" using k valid_configD(5) [OF c] by simp_all
  have inv': "short_inv c k (pop_inbox i s)" 
    by (rule short_fewer [OF inv]) (auto simp: pop_inbox_def box  split: if_splits)
  obtain n' outs where n': "step c (TrainReceived t) (cores s i) = Some (n', outs)"
    using step_ok [OF c I(1), of "TrainReceived t"] tN(2) t(2) by auto
  note F = step_train_frame [OF c I(1) tN(1) t(2) n']
  have U: "unheard k n' \<and> batches outs = []" by (rule unheard_step [OF c I(1) k I(3) _ tN(2) t(2) n']) (use t in simp)
  show ?thesis
  proof (rule short_arm [OF inv' _ _ F(1) _ _ _ _ st])
    show "step c (TrainReceived t) (cores (pop_inbox i s) i) = Some (n', outs)" "i \<in> up (pop_inbox i s)"
      using n' i by (simp_all add: pop_inbox_def)
    show "issuer u < k \<and> clock u \<le> u64_max" if "u \<in> set (sends outs)" for u using F(4) [OF that] t(1) by simp
  qed (use F(2) I(2) U in simp_all)
qed

lemma short_step:
  assumes "ring_step c k m s s'" and "short_inv c k s" and "k < NUM_TRAINS c"
  shows "short_inv c k s'"
  using assms
proof (cases rule: ring_step.cases)
  case (ring_start i)
  have "valid_config c" using assms(2) by (simp add: short_inv_def)
  then have "k < RING_SIZE c" using assms(3) valid_configD(5) by fastforce
  then show ?thesis using short_start [OF assms(2)] ring_start by blast
next
  case (ring_bcast i bs)
  then show ?thesis using short_other [OF assms(2)] by blast
next
  case (ring_recv i t ts)
  then show ?thesis using short_recv [OF assms(2,3)] by blast
next
  case (ring_tick i)
  then show ?thesis using short_other [OF assms(2)] by blast
next
  case (ring_lose i xs ys zs)
  show ?thesis by (rule short_fewer [OF assms(2)]) (use ring_lose in auto)
qed

text \<open>C6. \<^verbatim>\<open>run\<close> accepts every \<^verbatim>\<open>--num-trains\<close> up to the ring size. With fewer than \<^verbatim>\<open>NUM_TRAINS\<close> issuers
  no node ever delivers anything, whatever is submitted and however the tasks are scheduled:
  the gate waits for the first clock of the missing issuer. The consistency check
  still succeeds, on empty logs.\<close>

theorem missing_issuer_stalls_ring:
  assumes "ring_args_ok c num k" and "k < NUM_TRAINS c" and "ring_reach c k m s"
  shows "rlog s i = [] \<and> consistency_check (map (rlog s) [0..<num])"
proof -
  have "short_inv c k s" using assms(3)
  proof (induction rule: reach.induct)
    case (reach_init s)
    then show ?case by (simp add: ring_init_def short_inv_def)
  next
    case (reach_step s s')
    then show ?case using short_step assms(2) by blast
  qed
  then have "rlog s = (\<lambda>_. [])" by (auto simp: short_inv_def)
  then show ?thesis by (simp add: consistency_check_iff)
qed


text \<open>The default build, started with one issuer: a payload goes round the ring three times.\<close>

definition default_build :: config where
  "default_build = \<lparr>RING_SIZE = 3, NUM_TRAINS = 2, checks = True\<rparr>"

definition short_laps :: "ring_move list" where
  "short_laps = [RM_Start 0, RM_Start 1, RM_Start 2, RM_Bcast 1 [9]] @ concat (replicate 3 [RM_Recv 1, RM_Recv 2, RM_Recv 0])"

definition short_ring :: ring_state where
  "short_ring = the (fold_opt (ring_exec default_build 1 UniformTotalOrder) short_laps idle_ring)"

lemma short_ring_facts:
  "fold_opt (ring_exec default_build 1 UniformTotalOrder) short_laps idle_ring \<noteq> None"
  "map payloads (inbox short_ring 1) = [[\<lparr>sender = 1, seq = 0, data = [9]\<rparr>]]"
  "map ack_bits (inbox short_ring 1) = [FULL_ACK default_build]"
  by code_simp+

theorem missing_issuer_stalls_ring_witness:
  "ring_args_ok default_build 3 1 \<and> rlog short_ring 0 = [] \<and> rlog short_ring 1 = [] \<and>
   map payloads (inbox short_ring 1) = [[\<lparr>sender = 1, seq = 0, data = [9]\<rparr>]] \<and>
   map ack_bits (inbox short_ring 1) = [FULL_ACK default_build]"
proof -
  have "ring_reach default_build 1 UniformTotalOrder short_ring"
  proof (rule fold_opt_reach)
    show "ring_reach default_build 1 UniformTotalOrder idle_ring"
      by (intro reach_init) (simp add: ring_init_def idle_ring_def default_build_def valid_config_def)
    show "fold_opt (ring_exec default_build 1 UniformTotalOrder) short_laps idle_ring = Some short_ring"
      using short_ring_facts(1) by (auto simp: short_ring_def)
  qed (rule ring_exec_step)
  moreover have "ring_args_ok default_build 3 1" "1 < NUM_TRAINS default_build" by (simp_all add: ring_args_ok_def default_build_def)
  ultimately show ?thesis using missing_issuer_stalls_ring [of default_build 3 1] short_ring_facts by simp
qed

end
