(* ===== verification/Codec.thy ===== *)
theory Codec
  imports View_Change
begin

text \<open>
  \<^verbatim>\<open>crates/trains-net/src/codec.rs\<close>: frames \<^verbatim>\<open>[u32 BE length][body]\<close>. The body is produced and
  read by the bincode crate, which is a parameter: \<open>enc\<close> encodes (\<^term>\<open>None\<close> is an
  \<^verbatim>\<open>EncodeError\<close>), \<open>dec\<close> decodes a slice to the value and the number of bytes used. The one
  property relied on is \<open>bincode_ok\<close>. The bound \<^verbatim>\<open>MAX_FRAME_LEN\<close> comes from a file the build
  generates and is the parameter \<open>mx\<close>. A reader is the list of bytes that will still arrive
  and the I/O condition it ends with; a failing write puts some prefix of the frame on the
  wire first.
\<close>

section \<open>Bytes\<close>

text \<open>\<^verbatim>\<open>to_be_bytes\<close> and \<^verbatim>\<open>from_be_bytes\<close> at width \<open>8 * k\<close>.\<close>

primrec be_bytes :: "nat \<Rightarrow> nat \<Rightarrow> byte list" where
  "be_bytes 0 n = []"
| "be_bytes (Suc k) n = word_of_nat (n div 256 ^ k) # be_bytes k n"

definition from_be :: "byte list \<Rightarrow> nat" where
  "from_be bs = foldl (\<lambda>a b. a * 256 + unat b) 0 bs"

text \<open>\<^verbatim>\<open>AsyncReadExt::read_exact\<close>: the bytes and the rest of the stream, or the stream ended.\<close>

definition read_exact :: "nat \<Rightarrow> byte list \<Rightarrow> (byte list \<times> byte list) option" where
  "read_exact k bs = (if k \<le> length bs then Some (take k bs, drop k bs) else None)"

section \<open>Frames\<close>

datatype io_kind = UnexpectedEof | OtherIo

datatype codec_error = CE_Io io_kind | CE_Encode | CE_Decode | CE_FrameTooLarge nat

type_synonym 'm bincode_enc = "'m \<Rightarrow> byte list option"
type_synonym 'm bincode_dec = "byte list \<Rightarrow> ('m \<times> nat) option"

definition encode_frame :: "'m bincode_enc \<Rightarrow> nat \<Rightarrow> 'm \<Rightarrow> codec_error + byte list" where
  "encode_frame enc mx m = (case enc m of
       None \<Rightarrow> Inl CE_Encode
     | Some body \<Rightarrow>
         if length body > u32_max then Inl (CE_FrameTooLarge u32_max)
         else let len = length body
              in if len > mx then Inl (CE_FrameTooLarge len) else Inr (be_bytes 4 len @ body))"

definition read_frame ::
    "'m bincode_dec \<Rightarrow> nat \<Rightarrow> io_kind \<Rightarrow> byte list \<Rightarrow> codec_error + ('m \<times> byte list)" where
  "read_frame dec mx e bs = (case read_exact 4 bs of
       None \<Rightarrow> Inl (CE_Io e)
     | Some (len_buf, bs1) \<Rightarrow>
         let len = from_be len_buf
         in if len > mx then Inl (CE_FrameTooLarge len)
            else (case read_exact len bs1 of
                None \<Rightarrow> Inl (CE_Io e)
              | Some (body, bs2) \<Rightarrow>
                  (case dec body of None \<Rightarrow> Inl CE_Decode | Some (m, _) \<Rightarrow> Inr (m, bs2))))"

text \<open>Writing appends to what is already on the wire; \<open>fault\<close> is the number of bytes accepted
  before the connection fails, if it fails.\<close>

definition write_frame ::
    "'m bincode_enc \<Rightarrow> nat \<Rightarrow> nat option \<Rightarrow> 'm \<Rightarrow> byte list \<Rightarrow> byte list \<times> codec_error option" where
  "write_frame enc mx fault m wire = (case encode_frame enc mx m of
       Inl err \<Rightarrow> (wire, Some err)
     | Inr frame \<Rightarrow> (case fault of
           None \<Rightarrow> (wire @ frame, None)
         | Some k \<Rightarrow> (wire @ take k frame, Some (CE_Io OtherIo))))"

definition encode_train :: "train bincode_enc \<Rightarrow> nat \<Rightarrow> train \<Rightarrow> codec_error + byte list" where
  "encode_train = encode_frame"

definition read_train ::
    "train bincode_dec \<Rightarrow> nat \<Rightarrow> io_kind \<Rightarrow> byte list \<Rightarrow> codec_error + (train \<times> byte list)" where
  "read_train = read_frame"

definition write_train ::
    "train bincode_enc \<Rightarrow> nat \<Rightarrow> nat option \<Rightarrow> train \<Rightarrow> byte list \<Rightarrow> byte list \<times> codec_error option" where
  "write_train = write_frame"

definition encode_msg :: "wire_msg bincode_enc \<Rightarrow> nat \<Rightarrow> wire_msg \<Rightarrow> codec_error + byte list" where
  "encode_msg = encode_frame"

definition read_msg ::
    "wire_msg bincode_dec \<Rightarrow> nat \<Rightarrow> io_kind \<Rightarrow> byte list \<Rightarrow> codec_error + (wire_msg \<times> byte list)" where
  "read_msg = read_frame"

definition write_msg ::
    "wire_msg bincode_enc \<Rightarrow> nat \<Rightarrow> nat option \<Rightarrow> wire_msg \<Rightarrow> byte list \<Rightarrow> byte list \<times> codec_error option" where
  "write_msg = write_frame"

text \<open>What the callers rely on of bincode: decoding an encoding gives the value back.\<close>

definition bincode_ok :: "'m bincode_enc \<Rightarrow> 'm bincode_dec \<Rightarrow> bool" where
  "bincode_ok enc dec \<longleftrightarrow> (\<forall>m body. enc m = Some body \<longrightarrow> dec body = Some (m, length body))"

section \<open>Lemmas on bytes\<close>

lemma length_be_bytes [simp]: "length (be_bytes k n) = k"
  by (induction k) auto

lemma from_be_append: "from_be (bs @ [b]) = from_be bs * 256 + unat b"
  by (simp add: from_be_def)

lemma from_be_Cons: "from_be (b # bs) = unat b * 256 ^ length bs + from_be bs"
proof (induction bs rule: rev_induct)
  case Nil
  show ?case by (simp add: from_be_def)
next
  case (snoc x xs)
  have "from_be (b # xs @ [x]) = from_be (b # xs) * 256 + unat x"
    using from_be_append [of "b # xs" x] by simp
  then show ?case using snoc by (simp add: from_be_append algebra_simps)
qed

lemma from_be_Nil [simp]: "from_be [] = 0"
  by (simp add: from_be_def)

lemma unat_byte_of_nat: "unat (word_of_nat n :: byte) = n mod 256"
  by (simp add: unat_of_nat)

lemma mod_pow_split: "n div b ^ k mod b * b ^ k + n mod b ^ k = n mod (b :: nat) ^ Suc k"
  by (metis add.commute mod_mult2_eq mult.commute power_Suc)

lemma from_be_bytes: "from_be (be_bytes k n) = n mod 256 ^ k"
  by (induction k) (simp_all add: from_be_Cons unat_byte_of_nat mod_pow_split del: power_Suc)

lemma from_be_bytes_exact: "n < 256 ^ k \<Longrightarrow> from_be (be_bytes k n) = n"
  by (simp add: from_be_bytes)

lemma read_exact_append [simp]: "length xs = k \<Longrightarrow> read_exact k (xs @ ys) = Some (xs, ys)"
  by (simp add: read_exact_def)

lemma read_exact_Some: "read_exact k bs = Some (xs, ys) \<longleftrightarrow> bs = xs @ ys \<and> length xs = k"
  by (auto simp: read_exact_def)

lemma read_exact_None: "read_exact k bs = None \<longleftrightarrow> length bs < k"
  by (auto simp: read_exact_def)

section \<open>The interface of a framing\<close>

text \<open>
  A framing turns the items it accepts into byte strings that a reader takes off the front of
  a stream. The laws: reading returns the item and leaves the stream after it; a proper prefix
  of a frame is not a frame. From these, a stream of frames is read back item by item, also
  when it is cut in the middle of a frame.
\<close>

primrec read_n :: "(byte list \<Rightarrow> 'e + ('m \<times> byte list)) \<Rightarrow> nat \<Rightarrow> byte list \<Rightarrow> 'e + ('m list \<times> byte list)" where
  "read_n rd 0 bs = Inr ([], bs)"
| "read_n rd (Suc n) bs = (case rd bs of
       Inl err \<Rightarrow> Inl err
     | Inr (m, rest) \<Rightarrow> (case read_n rd n rest of
           Inl err \<Rightarrow> Inl err
         | Inr (ms, rest') \<Rightarrow> Inr (m # ms, rest')))"

locale framing =
  fixes accepts :: "'m \<Rightarrow> bool"
    and frame :: "'m \<Rightarrow> byte list"
    and rd :: "byte list \<Rightarrow> 'e + ('m \<times> byte list)"
    and eof :: 'e
  assumes read_back: "accepts m \<Longrightarrow> rd (frame m @ rest) = Inr (m, rest)"
    and read_cut: "accepts m \<Longrightarrow> k < length (frame m) \<Longrightarrow> rd (take k (frame m)) = Inl eof"
    and read_end: "rd [] = Inl eof"
begin

lemma read_stream:
  "\<forall>m\<in>set ms. accepts m \<Longrightarrow> read_n rd (length ms) (concat (map frame ms) @ rest) = Inr (ms, rest)"
  by (induction ms) (simp_all add: read_back)

lemma read_short:
  "\<forall>m\<in>set ms. accepts m \<Longrightarrow> rd rest = Inl err \<Longrightarrow>
     read_n rd (Suc (length ms) + n) (concat (map frame ms) @ rest) = Inl err"
  by (induction ms) (simp_all add: read_back)

lemma read_stream_cut:
  "\<forall>m\<in>set ms. accepts m \<Longrightarrow> k < length (concat (map frame ms)) \<Longrightarrow>
     read_n rd (length ms) (take k (concat (map frame ms))) = Inl eof"
proof (induction ms arbitrary: k)
  case (Cons m ms)
  then show ?case
  proof (cases "k < length (frame m)")
    case False
    then have "take k (concat (map frame (m # ms))) =
        frame m @ take (k - length (frame m)) (concat (map frame ms))" by simp
    then show ?thesis using Cons False by (simp add: read_back)
  qed (simp add: read_cut)
qed simp

lemma frame_inj: "accepts m \<Longrightarrow> accepts m' \<Longrightarrow> frame m = frame m' \<Longrightarrow> m = m'"
  using read_back [of m "[]"] read_back [of m' "[]"] by simp

text \<open>Frames are self-delimiting: a stream has one reading.\<close>

lemma stream_inj:
  assumes "\<forall>m\<in>set ms. accepts m" "\<forall>m\<in>set ms'. accepts m"
    and "concat (map frame ms) = concat (map frame ms')"
  shows "ms = ms'"
  using assms
proof (induction ms arbitrary: ms')
  case Nil
  show ?case
  proof (cases ms')
    case (Cons m' r)
    then have "rd (frame m' @ concat (map frame r)) = Inr (m', concat (map frame r))"
      using Nil(2) by (simp add: read_back)
    moreover have "frame m' @ concat (map frame r) = []" using Nil(3) Cons by simp
    ultimately show ?thesis by (simp add: read_end)
  qed simp
next
  case (Cons m ms)
  show ?case
  proof (cases ms')
    case Nil
    have "rd (frame m @ concat (map frame ms)) = Inr (m, concat (map frame ms))"
      using Cons.prems(1) by (simp add: read_back)
    moreover have "frame m @ concat (map frame ms) = []" using Cons.prems(3) Nil by simp
    ultimately show ?thesis by (simp add: read_end)
  next
    case (Cons m' r)
    have "rd (frame m @ concat (map frame ms)) = rd (frame m' @ concat (map frame r))"
      using Cons.prems(3) Cons by simp
    then have "m = m'" "concat (map frame ms) = concat (map frame r)"
      using Cons.prems(1,2) Cons by (simp_all add: read_back)
    then show ?thesis using Cons.IH [of r] Cons.prems(1,2) Cons by simp
  qed
qed

end

section \<open>Frames of the ring link form a framing\<close>

definition frame_of :: "'m bincode_enc \<Rightarrow> 'm \<Rightarrow> byte list" where
  "frame_of enc m = be_bytes 4 (length (the (enc m))) @ the (enc m)"

definition frame_fits :: "'m bincode_enc \<Rightarrow> nat \<Rightarrow> 'm \<Rightarrow> bool" where
  "frame_fits enc mx m \<longleftrightarrow> (case enc m of None \<Rightarrow> False | Some body \<Rightarrow> length body \<le> mx)"

lemma u32_max_eq: "Suc u32_max = 256 ^ 4"
  by (simp add: u32_max_def)

lemma encode_frame_Inr:
  assumes "mx \<le> u32_max"
  shows "encode_frame enc mx m = Inr f \<longleftrightarrow> frame_fits enc mx m \<and> f = frame_of enc m"
  using assms
  by (auto simp: encode_frame_def frame_fits_def frame_of_def Let_def split: option.splits)

lemma read_frame_back:
  assumes "bincode_ok enc dec" and "mx \<le> u32_max" and "frame_fits enc mx m"
  shows "read_frame dec mx e (frame_of enc m @ rest) = Inr (m, rest)"
proof -
  obtain body where b: "enc m = Some body" "length body \<le> mx"
    using assms(3) by (auto simp: frame_fits_def split: option.splits)
  have "dec body = Some (m, length body)" using assms(1) b(1) by (simp add: bincode_ok_def)
  moreover have "from_be (be_bytes 4 (length body)) = length body"
    using b(2) assms(2) u32_max_eq by (intro from_be_bytes_exact) simp
  ultimately show ?thesis
    using b by (simp add: read_frame_def frame_of_def)
qed

lemma read_frame_cut:
  assumes "mx \<le> u32_max" and "frame_fits enc mx m" and "k < length (frame_of enc m)"
  shows "read_frame dec mx e (take k (frame_of enc m)) = Inl (CE_Io e)"
proof (cases "k < 4")
  case True
  then show ?thesis by (simp add: read_frame_def read_exact_def frame_of_def)
next
  case False
  obtain body where b: "enc m = Some body" "length body \<le> mx"
    using assms(2) by (auto simp: frame_fits_def split: option.splits)
  have "from_be (be_bytes 4 (length body)) = length body"
    using b(2) assms(1) u32_max_eq by (intro from_be_bytes_exact) simp
  moreover have "take k (frame_of enc m) = be_bytes 4 (length body) @ take (k - 4) body"
    using False b by (simp add: frame_of_def)
  moreover have "k - 4 < length body" using assms(3) b False by (simp add: frame_of_def)
  ultimately show ?thesis using b(2) by (simp add: read_frame_def) (simp add: read_exact_def)
qed

lemma frame_framing:
  assumes "bincode_ok enc dec" and "mx \<le> u32_max"
  shows "framing (frame_fits enc mx) (frame_of enc) (read_frame dec mx e) (CE_Io e)"
proof
  show "read_frame dec mx e [] = Inl (CE_Io e)" by (simp add: read_frame_def read_exact_def)
qed (simp_all add: read_frame_back [OF assms] read_frame_cut [OF assms(2)])

lemma read_frame_shrinks:
  "read_frame dec mx e bs = Inr (m, rest) \<Longrightarrow> length rest < length bs"
  by (auto simp: read_frame_def read_exact_Some Let_def split: option.splits if_splits)

section \<open>Reading a connection\<close>

text \<open>
  The receive loop of both transports: read frames until an error. \<open>hand_over m\<close> says whether
  the channel for \<open>m\<close> is still open; a closed channel ends the loop after the frame was read.
  The result is what was handed over and the error, if an error ended the loop.
\<close>

function read_loop ::
    "'m bincode_dec \<Rightarrow> nat \<Rightarrow> io_kind \<Rightarrow> ('m \<Rightarrow> bool) \<Rightarrow> byte list \<Rightarrow> 'm list \<times> codec_error option" where
  "read_loop dec mx e hand_over bs = (case read_frame dec mx e bs of
       Inl err \<Rightarrow> ([], Some err)
     | Inr (m, rest) \<Rightarrow>
         if hand_over m then
           (let (ms, err) = read_loop dec mx e hand_over rest in (m # ms, err))
         else ([], None))"
  by pat_completeness auto
termination
  by (relation "measure (\<lambda>(dec, mx, e, hand_over, bs). length bs)") (auto dest: read_frame_shrinks)

declare read_loop.simps [simp del]

lemma read_loop_stream:
  assumes "bincode_ok enc dec" and "mx \<le> u32_max"
  shows "\<forall>m\<in>set ms. frame_fits enc mx m \<and> hand_over m \<Longrightarrow> read_frame dec mx e rest = Inl err \<Longrightarrow>
    read_loop dec mx e hand_over (concat (map (frame_of enc) ms) @ rest) = (ms, Some err)"
proof (induction ms)
  case Nil
  then show ?case by (simp add: read_loop.simps)
next
  case (Cons m ms)
  then show ?case
    by (subst read_loop.simps) (simp add: read_frame_back [OF assms])
qed

section \<open>Properties\<close>

text \<open>C30. The frame bound is enforced on both sides: a message is refused for writing exactly when
  its encoding exceeds \<^verbatim>\<open>MAX_FRAME_LEN\<close>; a header above the bound is refused before the body is
  read, whatever follows; and a frame that is accepted consumed at most the bound plus the
  four header bytes.\<close>

theorem frame_bound_enforced:
  assumes "enc m = Some body" and "mx \<le> u32_max"
  shows "(\<exists>f. encode_msg enc mx m = Inr f) = (length body \<le> mx) \<and>
    (\<forall>n e bs. mx < n \<and> n \<le> u32_max \<longrightarrow>
       read_msg dec mx e (be_bytes 4 n @ bs) = Inl (CE_FrameTooLarge n)) \<and>
    (\<forall>e bs m' rest. read_msg dec mx e bs = Inr (m', rest) \<longrightarrow> length bs \<le> length rest + mx + 4)"
proof (intro conjI allI impI)
  show "(\<exists>f. encode_msg enc mx m = Inr f) = (length body \<le> mx)"
    using assms by (simp add: encode_msg_def encode_frame_Inr frame_fits_def)
  show "read_msg dec mx e (be_bytes 4 n @ bs) = Inl (CE_FrameTooLarge n)"
    if "mx < n \<and> n \<le> u32_max" for n e bs
    using that u32_max_eq by (simp add: read_msg_def read_frame_def from_be_bytes_exact)
  show "length bs \<le> length rest + mx + 4" if "read_msg dec mx e bs = Inr (m', rest)" for e bs m' rest
    using that
    by (auto simp: read_msg_def read_frame_def read_exact_Some Let_def split: option.splits if_splits)
qed

text \<open>A concrete codec for the witnesses: one byte per process number of a token.\<close>

definition demo_enc :: "wire_msg bincode_enc" where
  "demo_enc m = (case m of
       Train_Msg t \<Rightarrow> (if t = \<lparr>issuer = 1, clock = 7, payloads = [], ack_bits = 3\<rparr> then Some [0, 1, 7] else None)
     | View_Change_Msg v \<Rightarrow> (if v = Gather 5 0 2 [] then Some [1, 5, 0, 2] else None))"

definition demo_dec :: "wire_msg bincode_dec" where
  "demo_dec bs =
     (if bs = [0, 1, 7] then Some (Train_Msg \<lparr>issuer = 1, clock = 7, payloads = [], ack_bits = 3\<rparr>, 3)
      else if bs = [1, 5, 0, 2] then Some (View_Change_Msg (Gather 5 0 2 []), 4) else None)"

lemma demo_bincode: "bincode_ok demo_enc demo_dec"
  by (simp add: bincode_ok_def demo_enc_def demo_dec_def split: wire_msg.splits)

theorem frame_bound_enforced_witness:
  "\<not> (\<exists>f. encode_msg demo_enc 3 (View_Change_Msg (Gather 5 0 2 [])) = Inr f) \<and>
   read_msg demo_dec 3 UnexpectedEof (be_bytes 4 4 @ [1, 5, 0, 2]) = Inl (CE_FrameTooLarge 4)"
  using frame_bound_enforced [of demo_enc "View_Change_Msg (Gather 5 0 2 [])" "[1, 5, 0, 2]" 3 demo_dec]
  by (simp add: demo_enc_def u32_max_def)

end
