(* ===== verification/Raft_Baseline.thy ===== *)
theory Raft_Baseline
  imports Codec Systems
begin

text \<open>
  \<^verbatim>\<open>benches/src/bin/bench_raft_baseline.rs\<close>: a leader that sends each message to two followers and
  commits it when an acknowledgement comes back. The tasks (leader loop, a writer and a reader
  per follower, the followers), the bounded channels between them and the connections are the
  state of a step relation; a task may fail at any time. A connection holds a bounded number of
  bytes in each direction (\<open>raft_wires\<close>: the socket buffers of both ends); \<^verbatim>\<open>write_all\<close> and \<^verbatim>\<open>read_exact\<close> move
  bytes piece by piece, as room and bytes come, and the task waits in between. Reading the clock
  is an argument of the step. The TLS set-up and the statistics are left out.
\<close>

section \<open>The model\<close>

record raft_args =
  raft_target :: nat
  raft_payload :: nat
  max_inflight :: nat

record raft_wires =
  down_cap :: nat
  up_cap :: nat

text \<open>Where the leader is: at the head of the outer loop, at the head of the sending loop, about to
  send the message taken at \<open>nanos\<close> to follower \<open>i\<close>, waiting for an acknowledgement, past the loop.\<close>

datatype raft_pc = Head | Fill | Sending nat nat | Await | Left

text \<open>The connection to a follower and its tasks: the channel to the writer, what the writer has still
  to write of the frame in hand, the bytes under way, what the follower has read of the frame to
  come and has still to write of its acknowledgement, the bytes back, what the reader has read.\<close>

record raft_link =
  send_q :: "byte list list"
  w_buf :: "byte list"
  down :: "byte list"
  f_in :: "byte list"
  f_out :: "byte list"
  up_link :: "byte list"
  r_in :: "byte list"
  handled :: nat
  writer_on :: bool
  follower_on :: bool
  reader_on :: bool

record raft =
  pc :: raft_pc
  payload_buf :: "byte list"
  inject_times :: "nat list"
  inflight_acks :: "nat list"
  latencies :: "nat list"
  sent_count :: nat
  committed :: nat
  link_of :: "nat \<Rightarrow> raft_link"
  ack_q :: "nat list"

definition NUM_FOLLOWERS :: nat where
  "NUM_FOLLOWERS = 2"

definition new_link :: raft_link where
  "new_link = \<lparr>send_q = [], w_buf = [], down = [], f_in = [], f_out = [], up_link = [], r_in = [], handled = 0,
     writer_on = True, follower_on = True, reader_on = True\<rparr>"

definition set_link :: "nat \<Rightarrow> raft_link \<Rightarrow> raft \<Rightarrow> raft" where
  "set_link i l s = s\<lparr>link_of := (link_of s)(i := l)\<rparr>"

text \<open>The assertion on the payload size, and \<^verbatim>\<open>mpsc::channel(0)\<close>, which panics.\<close>

definition raft_start :: "raft_args \<Rightarrow> raft option" where
  "raft_start a =
     (if \<not> raft_payload a \<ge> 8 \<or> max_inflight a = 0 then None
      else Some \<lparr>pc = Head, payload_buf = replicate (raft_payload a) 0x42, inject_times = [], inflight_acks = [],
             latencies = [], sent_count = 0, committed = 0, link_of = (\<lambda>_. new_link), ack_q = []\<rparr>)"

definition raft_head :: "raft_args \<Rightarrow> raft \<Rightarrow> raft" where
  "raft_head a s = (if committed s < raft_target a then s\<lparr>pc := Fill\<rparr> else s\<lparr>pc := Left\<rparr>)"

definition to_le_bytes :: "nat \<Rightarrow> byte list" where
  "to_le_bytes n = rev (be_bytes 8 n)"

definition raft_fill :: "raft_args \<Rightarrow> nat \<Rightarrow> raft \<Rightarrow> raft" where
  "raft_fill a nanos s =
     (if sent_count s < raft_target a \<and> sent_count s - committed s < max_inflight a
      then s\<lparr>payload_buf := to_le_bytes nanos @ drop 8 (payload_buf s), pc := Sending 0 nanos\<rparr>
      else s\<lparr>pc := Await\<rparr>)"

text \<open>\<^verbatim>\<open>st.send(payload.clone())\<close>: it waits for room in the channel, and fails at once when the writer
  task is gone.\<close>

definition send_waits :: "raft_args \<Rightarrow> nat \<Rightarrow> raft \<Rightarrow> bool" where
  "send_waits a i s \<longleftrightarrow> writer_on (link_of s i) \<and> length (send_q (link_of s i)) \<ge> max_inflight a * 2"

definition raft_send :: "nat \<Rightarrow> nat \<Rightarrow> raft \<Rightarrow> raft" where
  "raft_send i nanos s =
     (let l = link_of s i
      in if writer_on l then (set_link i (l\<lparr>send_q := send_q l @ [payload_buf s]\<rparr>) s)\<lparr>pc := Sending (Suc i) nanos\<rparr>
         else s\<lparr>pc := Sending (Suc i) nanos\<rparr>)"

definition raft_sent :: "nat \<Rightarrow> raft \<Rightarrow> raft" where
  "raft_sent nanos s = s\<lparr>inject_times := inject_times s @ [nanos], inflight_acks := inflight_acks s @ [0],
     sent_count := sent_count s + 1, pc := Fill\<rparr>"

text \<open>What an acknowledgement does, whoever it comes from: the first message in flight is credited.
  \<open>None\<close> is the panic of \<^verbatim>\<open>unwrap\<close>.\<close>

definition raft_credit :: "nat \<Rightarrow> raft \<Rightarrow> raft option" where
  "raft_credit now s =
     (case inflight_acks s of
        [] \<Rightarrow> Some s
      | k # ks \<Rightarrow>
          let k' = (k + 1) mod 256
          in if k' \<ge> 1 then
               (case inject_times s of
                  [] \<Rightarrow> None
                | t # ts \<Rightarrow> Some (s\<lparr>inject_times := ts, inflight_acks := ks, latencies := latencies s @ [now - t],
                                   committed := committed s + 1\<rparr>))
             else Some (s\<lparr>inflight_acks := k' # ks\<rparr>))"

definition raft_recv :: "nat \<Rightarrow> raft \<Rightarrow> raft option" where
  "raft_recv now s = do {
     s1 \<leftarrow> raft_credit now (s\<lparr>ack_q := tl (ack_q s)\<rparr>);
     Some (s1\<lparr>pc := Head\<rparr>)
   }"

text \<open>A frame is the length as four bytes (\<^verbatim>\<open>as u32\<close> truncates it) and the payload.\<close>

definition raft_frame :: "byte list \<Rightarrow> byte list" where
  "raft_frame p = be_bytes 4 (length p) @ p"

lemma raft_frame_nonempty [simp]: "raft_frame p \<noteq> []"
  by (simp add: raft_frame_def flip: length_greater_0_conv)

text \<open>The writer: \<^verbatim>\<open>snd_rx.recv()\<close>, then \<^verbatim>\<open>write_all\<close> of header and payload, \<open>k\<close> bytes at a time.\<close>

definition writer_take :: "raft_link \<Rightarrow> raft_link" where
  "writer_take l = l\<lparr>send_q := tl (send_q l), w_buf := raft_frame (hd (send_q l))\<rparr>"

definition writer_write :: "nat \<Rightarrow> raft_link \<Rightarrow> raft_link" where
  "writer_write k l = l\<lparr>w_buf := drop k (w_buf l), down := down l @ take k (w_buf l)\<rparr>"

text \<open>How many bytes \<^verbatim>\<open>run_follower\<close>'s two \<^verbatim>\<open>read_exact\<close>s still wait for.\<close>

definition follower_needs :: "byte list \<Rightarrow> nat" where
  "follower_needs bs = (if length bs < 4 then 4 - length bs else 4 + from_be (take 4 bs) - length bs)"

definition follower_read :: "nat \<Rightarrow> raft_link \<Rightarrow> raft_link" where
  "follower_read k l = l\<lparr>down := drop k (down l), f_in := f_in l @ take k (down l)\<rparr>"

definition follower_ack :: "raft_link \<Rightarrow> raft_link" where
  "follower_ack l = l\<lparr>f_in := [], f_out := be_bytes 4 0, handled := handled l + 1\<rparr>"

definition follower_write :: "nat \<Rightarrow> raft_link \<Rightarrow> raft_link" where
  "follower_write k l = l\<lparr>f_out := drop k (f_out l), up_link := up_link l @ take k (f_out l)\<rparr>"

definition reader_read :: "nat \<Rightarrow> raft_link \<Rightarrow> raft_link" where
  "reader_read k l = l\<lparr>up_link := drop k (up_link l), r_in := r_in l @ take k (up_link l)\<rparr>"

text \<open>The reader hands the acknowledgement on, \<^verbatim>\<open>ack_tx_n.send(i)\<close>, which waits for room.\<close>

definition reader_forward :: "nat \<Rightarrow> raft \<Rightarrow> raft" where
  "reader_forward i s = (set_link i ((link_of s i)\<lparr>r_in := []\<rparr>) s)\<lparr>ack_q := ack_q s @ [i]\<rparr>"

text \<open>The steps of the tasks of one connection while it holds.\<close>

inductive link_step :: "raft_wires \<Rightarrow> raft_link \<Rightarrow> raft_link \<Rightarrow> bool" for w where
  ls_take: "writer_on l \<Longrightarrow> w_buf l = [] \<Longrightarrow> send_q l \<noteq> [] \<Longrightarrow> link_step w l (writer_take l)"
| ls_write: "writer_on l \<Longrightarrow> 0 < k \<Longrightarrow> k \<le> length (w_buf l) \<Longrightarrow> length (down l) + k \<le> down_cap w \<Longrightarrow>
    link_step w l (writer_write k l)"
| ls_read: "follower_on l \<Longrightarrow> f_out l = [] \<Longrightarrow> 0 < k \<Longrightarrow> k \<le> length (down l) \<Longrightarrow> k \<le> follower_needs (f_in l) \<Longrightarrow>
    link_step w l (follower_read k l)"
| ls_ack: "follower_on l \<Longrightarrow> f_out l = [] \<Longrightarrow> follower_needs (f_in l) = 0 \<Longrightarrow> link_step w l (follower_ack l)"
| ls_reply: "follower_on l \<Longrightarrow> 0 < k \<Longrightarrow> k \<le> length (f_out l) \<Longrightarrow> length (up_link l) + k \<le> up_cap w \<Longrightarrow>
    link_step w l (follower_write k l)"
| ls_pull: "reader_on l \<Longrightarrow> 0 < k \<Longrightarrow> k \<le> length (up_link l) \<Longrightarrow> length (r_in l) + k \<le> 4 \<Longrightarrow>
    link_step w l (reader_read k l)"

text \<open>The steps of the benchmark while the connections hold.\<close>

inductive raft_step :: "raft_args \<Rightarrow> raft_wires \<Rightarrow> raft \<Rightarrow> raft \<Rightarrow> bool" for a w where
  rs_head: "pc s = Head \<Longrightarrow> raft_step a w s (raft_head a s)"
| rs_fill: "pc s = Fill \<Longrightarrow> raft_step a w s (raft_fill a nanos s)"
| rs_send: "pc s = Sending i nanos \<Longrightarrow> i < NUM_FOLLOWERS \<Longrightarrow> \<not> send_waits a i s \<Longrightarrow> raft_step a w s (raft_send i nanos s)"
| rs_sent: "pc s = Sending NUM_FOLLOWERS nanos \<Longrightarrow> raft_step a w s (raft_sent nanos s)"
| rs_recv: "pc s = Await \<Longrightarrow> ack_q s \<noteq> [] \<Longrightarrow> raft_recv now s = Some s' \<Longrightarrow> raft_step a w s s'"
| rs_link: "i < NUM_FOLLOWERS \<Longrightarrow> link_step w (link_of s i) l \<Longrightarrow> raft_step a w s (set_link i l s)"
| rs_forward: "i < NUM_FOLLOWERS \<Longrightarrow> reader_on (link_of s i) \<Longrightarrow> length (r_in (link_of s i)) = 4 \<Longrightarrow>
    length (ack_q s) < max_inflight a * NUM_FOLLOWERS * 2 \<Longrightarrow> raft_step a w s (reader_forward i s)"

text \<open>What a broken connection adds: a task leaves its loop (the writer when a write fails, the
  follower and the reader when a read or a write does); with both readers gone and no
  acknowledgement left, the leader does.\<close>

definition writer_break :: "raft_link \<Rightarrow> raft_link" where
  "writer_break l = l\<lparr>send_q := [], w_buf := [], writer_on := False\<rparr>"

definition follower_break :: "raft_link \<Rightarrow> raft_link" where
  "follower_break l = l\<lparr>f_in := [], f_out := [], follower_on := False\<rparr>"

definition reader_break :: "raft_link \<Rightarrow> raft_link" where
  "reader_break l = l\<lparr>r_in := [], reader_on := False\<rparr>"

inductive link_fault :: "raft_link \<Rightarrow> raft_link \<Rightarrow> bool" where
  lf_writer: "writer_on l \<Longrightarrow> w_buf l \<noteq> [] \<Longrightarrow> link_fault l (writer_break l)"
| lf_follower: "follower_on l \<Longrightarrow> link_fault l (follower_break l)"
| lf_reader: "reader_on l \<Longrightarrow> link_fault l (reader_break l)"

inductive raft_fault :: "raft \<Rightarrow> raft \<Rightarrow> bool" where
  rf_link: "i < NUM_FOLLOWERS \<Longrightarrow> link_fault (link_of s i) l \<Longrightarrow> raft_fault s (set_link i l s)"
| rf_closed: "pc s = Await \<Longrightarrow> ack_q s = [] \<Longrightarrow> (\<forall>i<NUM_FOLLOWERS. \<not> reader_on (link_of s i)) \<Longrightarrow>
    raft_fault s (s\<lparr>pc := Left\<rparr>)"

abbreviation raft_runs :: "raft_args \<Rightarrow> raft_wires \<Rightarrow> raft \<Rightarrow> bool" where
  "raft_runs a w \<equiv> reach (\<lambda>s. raft_start a = Some s) (raft_step a w)"

abbreviation raft_reach :: "raft_args \<Rightarrow> raft_wires \<Rightarrow> raft \<Rightarrow> bool" where
  "raft_reach a w \<equiv> reach (\<lambda>s. raft_start a = Some s) (\<lambda>s s'. raft_step a w s s' \<or> raft_fault s s')"

lemmas link_ops = writer_take_def writer_write_def follower_read_def follower_ack_def follower_write_def
  reader_read_def writer_break_def follower_break_def reader_break_def

section \<open>The window and the accounts\<close>

text \<open>The bytes of acknowledgements on their way back.\<close>

definition returning :: "raft_link \<Rightarrow> nat" where
  "returning l = length (f_out l) + length (up_link l) + length (r_in l)"

definition raft_inv :: "raft_args \<Rightarrow> raft \<Rightarrow> bool" where
  "raft_inv a s \<longleftrightarrow> 1 \<le> max_inflight a \<and> committed s \<le> sent_count s \<and> sent_count s \<le> raft_target a \<and> sent_count s - committed s \<le> max_inflight a \<and>
     length (inject_times s) = sent_count s - committed s \<and> inflight_acks s = replicate (sent_count s - committed s) 0 \<and>
     length (latencies s) = committed s \<and>
     (pc s = Fill \<longrightarrow> committed s < raft_target a) \<and> (pc s = Await \<longrightarrow> committed s < sent_count s) \<and>
     (\<forall>i nanos. pc s = Sending i nanos \<longrightarrow> sent_count s < raft_target a \<and> sent_count s - committed s < max_inflight a) \<and>
     4 * (committed s + length (ack_q s)) + returning (link_of s 0) + returning (link_of s 1) \<le>
       4 * (handled (link_of s 0) + handled (link_of s 1))"

lemma below_followers: "i < NUM_FOLLOWERS \<longleftrightarrow> i = 0 \<or> i = 1"
  by (auto simp: NUM_FOLLOWERS_def)

lemma set_link_simps [simp]:
  "pc (set_link i l s) = pc s" "payload_buf (set_link i l s) = payload_buf s" "inject_times (set_link i l s) = inject_times s"
  "inflight_acks (set_link i l s) = inflight_acks s" "latencies (set_link i l s) = latencies s"
  "sent_count (set_link i l s) = sent_count s" "committed (set_link i l s) = committed s" "ack_q (set_link i l s) = ack_q s"
  "link_of (set_link i l s) j = (if j = i then l else link_of s j)"
  by (simp_all add: set_link_def)

lemma link_step_returning:
  assumes "link_step w l l'" shows "returning l' + 4 * handled l = returning l + 4 * handled l'"
  using assms by (cases rule: link_step.cases) (auto simp: returning_def link_ops)

lemma link_fault_returning:
  assumes "link_fault l l'" shows "returning l' \<le> returning l" "handled l' = handled l"
  using assms by (cases rule: link_fault.cases; auto simp: returning_def link_ops)+

lemma raft_inv_start: "raft_start a = Some s \<Longrightarrow> raft_inv a s"
  by (auto simp: raft_start_def raft_inv_def returning_def new_link_def split: if_splits)

text \<open>A leader that takes an acknowledgement has a message in flight: it commits, it does not panic.\<close>

lemma raft_recv_eq:
  assumes "raft_inv a s" and "pc s = Await"
  shows "raft_recv now s = Some (s\<lparr>ack_q := tl (ack_q s), inject_times := tl (inject_times s),
    inflight_acks := tl (inflight_acks s), latencies := latencies s @ [now - hd (inject_times s)],
    committed := committed s + 1, pc := Head\<rparr>)"
proof -
  have "committed s < sent_count s" using assms by (simp add: raft_inv_def)
  then obtain d where "sent_count s - committed s = Suc d" using Suc_diff_Suc by metis
  then obtain t ts where "inflight_acks s = 0 # replicate d 0" "inject_times s = t # ts"
    using assms(1) by (cases "inject_times s") (auto simp: raft_inv_def)
  then show ?thesis by (simp add: raft_recv_def raft_credit_def Let_def)
qed

lemma raft_inv_link:
  assumes "raft_inv a s" and "i < NUM_FOLLOWERS" and "returning l + 4 * handled (link_of s i) \<le> returning (link_of s i) + 4 * handled l"
  shows "raft_inv a (set_link i l s)"
  using assms by (auto simp: raft_inv_def below_followers)

lemma raft_inv_step:
  assumes "raft_step a w s s'" and inv: "raft_inv a s"
  shows "raft_inv a s'"
  using assms(1)
proof cases
  case rs_head
  then show ?thesis using inv by (auto simp: raft_inv_def raft_head_def)
next
  case (rs_fill nanos)
  have "committed s < raft_target a" using inv rs_fill by (simp add: raft_inv_def)
  then show ?thesis using inv rs_fill unfolding raft_inv_def raft_fill_def by auto
next
  case (rs_send i nanos)
  then show ?thesis using inv by (auto simp: raft_inv_def raft_send_def returning_def Let_def)
next
  case (rs_sent nanos)
  then have "sent_count s < raft_target a" "sent_count s - committed s < max_inflight a" using inv by (auto simp: raft_inv_def)
  then show ?thesis using inv rs_sent by (auto simp: raft_inv_def raft_sent_def Suc_diff_le simp flip: replicate_append_same)
next
  case (rs_recv now)
  have "committed s < sent_count s" using inv rs_recv by (simp add: raft_inv_def)
  then have "tl (replicate (sent_count s - committed s) (0::nat)) = replicate (sent_count s - Suc (committed s)) 0"
    by (metis Suc_diff_Suc list.sel(3) replicate_Suc)
  then show ?thesis
    using inv rs_recv raft_recv_eq [OF inv rs_recv(1)] \<open>committed s < sent_count s\<close>
    by (cases "ack_q s") (auto simp: raft_inv_def)
next
  case (rs_link i l)
  then show ?thesis using raft_inv_link [OF inv rs_link(2)] link_step_returning [OF rs_link(3)] by simp
next
  case (rs_forward i)
  then show ?thesis using inv by (auto simp: raft_inv_def reader_forward_def below_followers returning_def)
qed

lemma raft_inv_fault:
  assumes "raft_fault s s'" and inv: "raft_inv a s"
  shows "raft_inv a s'"
  using assms(1)
proof cases
  case (rf_link i l)
  then show ?thesis using raft_inv_link [OF inv rf_link(2)] link_fault_returning [OF rf_link(3)] by simp
qed (use inv in \<open>auto simp: raft_inv_def\<close>)

lemma raft_inv_reach: "raft_reach a w s \<Longrightarrow> raft_inv a s"
  by (induction rule: reach.induct) (use raft_inv_start raft_inv_step raft_inv_fault in blast)+

section \<open>While the connections hold\<close>

fun passed :: "raft_pc \<Rightarrow> nat \<Rightarrow> nat" where
  "passed (Sending j nanos) i = (if i < j then 1 else 0)"
| "passed _ i = 0"

text \<open>Of \<open>n\<close> messages sent to a follower some are handled, some queued, and the others are whole frames
  between the writer's hands and the follower's.\<close>

definition frames_ok :: "raft_args \<Rightarrow> nat \<Rightarrow> raft_link \<Rightarrow> byte list list \<Rightarrow> bool" where
  "frames_ok a n l qs \<longleftrightarrow> f_in l @ down l @ w_buf l = concat (map raft_frame qs) \<and>
     (\<forall>q\<in>set qs. length q = raft_payload a) \<and> handled l + length qs + length (send_q l) = n"

definition link_ok :: "raft_args \<Rightarrow> raft_wires \<Rightarrow> nat \<Rightarrow> raft_link \<Rightarrow> bool" where
  "link_ok a w n l \<longleftrightarrow> writer_on l \<and> follower_on l \<and> reader_on l \<and> 4 dvd returning l \<and>
     length (r_in l) \<le> 4 \<and> length (f_out l) \<le> 4 \<and> length (up_link l) \<le> up_cap w \<and> length (down l) \<le> down_cap w \<and>
     length (w_buf l) \<le> raft_payload a + 4 \<and> length (f_in l) \<le> raft_payload a + 4 \<and>
     length (send_q l) \<le> max_inflight a * 2 \<and> (\<forall>p\<in>set (send_q l). length p = raft_payload a) \<and>
     (\<exists>qs. frames_ok a n l qs)"

lemma take_drop_append: "take k xs @ drop k xs @ ys = xs @ ys"
  by (metis append.assoc append_take_drop_id)

lemma length_frame [simp]: "length (raft_frame p) = length p + 4"
  by (simp add: raft_frame_def)

lemma length_frames: "\<forall>q\<in>set qs. length q = P \<Longrightarrow> length (concat (map raft_frame qs)) = (P + 4) * length qs"
  by (induction qs) simp_all

lemma follower_needs_frames:
  assumes f: "f @ x = concat (map raft_frame qs)" "\<forall>q\<in>set qs. length q = P" and P: "P < 2 ^ 32" and len: "length f \<le> P + 4"
  shows "k \<le> follower_needs f \<Longrightarrow> length f + k \<le> P + 4"
    "follower_needs f = 0 \<Longrightarrow> \<exists>q qs'. qs = q # qs' \<and> f = raft_frame q"
proof -
  have long: "\<exists>q qs'. qs = q # qs' \<and> follower_needs f = P + 4 - length f \<and> take (length f) (raft_frame q) = f" if 4: "4 \<le> length f"
  proof -
    obtain q qs' where q: "qs = q # qs'" using f(1) 4 by (cases qs) auto
    then have q_len: "length q = P" and fr: "f @ x = raft_frame q @ concat (map raft_frame qs')" using f by simp_all
    have t: "take (length f) (raft_frame q) = f" using arg_cong [OF fr, of "take (length f)"] len q_len by simp
    have "take 4 f = take 4 (raft_frame q)" using arg_cong [OF t, of "take 4"] 4 by (simp add: min_absorb1)
    also have "\<dots> = be_bytes 4 P" using q_len by (simp add: raft_frame_def)
    finally show ?thesis using q t 4 P by (simp add: follower_needs_def from_be_bytes_exact)
  qed
  show "length f + k \<le> P + 4" if "k \<le> follower_needs f"
    using that long len by (cases "4 \<le> length f") (auto simp: follower_needs_def)
  show "\<exists>q qs'. qs = q # qs' \<and> f = raft_frame q" if z: "follower_needs f = 0"
  proof -
    have "4 \<le> length f" using z by (auto simp: follower_needs_def split: if_splits)
    then obtain q qs' where q: "qs = q # qs'" "P + 4 - length f = 0" "take (length f) (raft_frame q) = f" using long z by auto
    then have "length f = P + 4" "length q = P" using len f(2) by auto
    then show ?thesis using q by simp
  qed
qed

lemma link_ok_step:
  assumes "link_step w l l'" and ok: "link_ok a w n l" and P: "raft_payload a < 2 ^ 32"
  shows "link_ok a w n l'"
proof -
  obtain qs where qs: "frames_ok a n l qs" using ok by (auto simp: link_ok_def)
  note F = qs [unfolded frames_ok_def]
  have "returning l' + 4 * handled l = returning l + 4 * handled l'" by (rule link_step_returning [OF assms(1)])
  moreover have "4 dvd returning l" using ok by (simp add: link_ok_def)
  ultimately have dvd: "4 dvd returning l'" by presburger
  have keep: "link_ok a w n l'"
    if "writer_on l'" "follower_on l'" "reader_on l'" "length (r_in l') \<le> 4" "length (f_out l') \<le> 4"
      "length (up_link l') \<le> up_cap w" "length (down l') \<le> down_cap w" "length (w_buf l') \<le> raft_payload a + 4"
      "length (f_in l') \<le> raft_payload a + 4" "length (send_q l') \<le> max_inflight a * 2"
      "\<forall>p\<in>set (send_q l'). length p = raft_payload a" "frames_ok a n l' qs'" for qs'
    using that dvd unfolding link_ok_def by blast
  note ok' = ok [unfolded link_ok_def]
  have fr: "f_in l @ (down l @ w_buf l) = concat (map raft_frame qs)" "\<forall>q\<in>set qs. length q = raft_payload a"
    "length (f_in l) \<le> raft_payload a + 4" using F ok' by simp_all
  note need = follower_needs_frames [OF fr(1,2) P fr(3)]
  show ?thesis
    using assms(1)
  proof cases
    case ls_take
    then obtain p ps where p: "send_q l = p # ps" by (cases "send_q l") auto
    have "frames_ok a n l' (qs @ [p])" using F ok' ls_take p by (auto simp: frames_ok_def writer_take_def)
    then show ?thesis using ok' ls_take p by (intro keep) (auto simp: writer_take_def)
  next
    case (ls_write k)
    have "frames_ok a n l' qs" using F ls_write by (simp add: frames_ok_def writer_write_def)
    then show ?thesis using ok' ls_write by (intro keep) (auto simp: writer_write_def)
  next
    case (ls_read k)
    have "frames_ok a n l' qs" using F ls_read by (simp add: frames_ok_def follower_read_def take_drop_append)
    then show ?thesis using ok' ls_read need(1) [of k] by (intro keep) (auto simp: follower_read_def)
  next
    case ls_ack
    then obtain q qs' where q: "qs = q # qs'" "f_in l = raft_frame q" using need(2) by blast
    have "frames_ok a n l' qs'" using F ls_ack q by (simp add: frames_ok_def follower_ack_def)
    then show ?thesis using ok' ls_ack by (intro keep) (auto simp: follower_ack_def)
  next
    case (ls_reply k)
    have "frames_ok a n l' qs" using F ls_reply by (simp add: frames_ok_def follower_write_def)
    then show ?thesis using ok' ls_reply by (intro keep) (auto simp: follower_write_def)
  next
    case (ls_pull k)
    have "frames_ok a n l' qs" using F ls_pull by (simp add: frames_ok_def reader_read_def)
    then show ?thesis using ok' ls_pull by (intro keep) (auto simp: reader_read_def)
  qed
qed

definition links_inv :: "raft_args \<Rightarrow> raft_wires \<Rightarrow> raft \<Rightarrow> bool" where
  "links_inv a w s \<longleftrightarrow> (\<forall>i<NUM_FOLLOWERS. link_ok a w (sent_count s + passed (pc s) i) (link_of s i)) \<and>
     8 \<le> raft_payload a \<and> length (payload_buf s) = raft_payload a \<and> length (ack_q s) \<le> max_inflight a * NUM_FOLLOWERS * 2 \<and>
     (\<forall>j nanos. pc s = Sending j nanos \<longrightarrow> j \<le> NUM_FOLLOWERS) \<and>
     4 * (committed s + length (ack_q s)) + returning (link_of s 0) + returning (link_of s 1) =
       4 * (handled (link_of s 0) + handled (link_of s 1))"

lemma links_invD:
  assumes "links_inv a w s"
  shows "\<And>i. i < NUM_FOLLOWERS \<Longrightarrow> link_ok a w (sent_count s + passed (pc s) i) (link_of s i)"
    "8 \<le> raft_payload a" "length (payload_buf s) = raft_payload a" "length (ack_q s) \<le> max_inflight a * NUM_FOLLOWERS * 2"
    "\<And>j nanos. pc s = Sending j nanos \<Longrightarrow> j \<le> NUM_FOLLOWERS"
    "4 * (committed s + length (ack_q s)) + returning (link_of s 0) + returning (link_of s 1) =
       4 * (handled (link_of s 0) + handled (link_of s 1))"
  using assms by (simp_all add: links_inv_def)

lemma links_inv_start: "raft_start a = Some s \<Longrightarrow> links_inv a w s"
  by (auto simp: raft_start_def links_inv_def link_ok_def frames_ok_def new_link_def returning_def split: if_splits)

lemma links_inv_step:
  assumes "raft_step a w s s'" and inv: "raft_inv a s" and ok: "links_inv a w s" and P: "raft_payload a < 2 ^ 32"
  shows "links_inv a w s'"
  using assms(1)
proof cases
  case rs_head
  then show ?thesis using ok by (auto simp: raft_head_def links_inv_def)
next
  case (rs_fill nanos)
  then show ?thesis using ok by (auto simp: raft_fill_def links_inv_def to_le_bytes_def)
next
  case (rs_send i nanos)
  let ?l = "link_of s i"
  note L = links_invD(1) [OF ok]
  have on: "writer_on ?l" using L [OF rs_send(3)] by (simp add: link_ok_def)
  then have room: "length (send_q ?l) < max_inflight a * 2" using rs_send(4) by (simp add: send_waits_def)
  have "link_ok a w (sent_count s + 1) (?l\<lparr>send_q := send_q ?l @ [payload_buf s]\<rparr>)"
    using L [OF rs_send(3)] rs_send(2) room links_invD(3) [OF ok] by (auto simp: link_ok_def frames_ok_def returning_def)
  moreover have "i = 0 \<or> i = 1" using rs_send by (simp add: below_followers)
  ultimately show ?thesis using rs_send ok on
    by (auto simp: links_inv_def raft_send_def Let_def returning_def below_followers NUM_FOLLOWERS_def)
next
  case (rs_sent nanos)
  then show ?thesis using ok by (auto simp: raft_sent_def links_inv_def)
next
  case (rs_recv now)
  then show ?thesis using ok raft_recv_eq [OF inv rs_recv(1), of now]
    by (cases "ack_q s") (auto simp: links_inv_def)
next
  case (rs_link i l)
  have "link_ok a w (sent_count s + passed (pc s) i) l"
    by (rule link_ok_step [OF rs_link(3) links_invD(1) [OF ok rs_link(2)] P])
  then show ?thesis using rs_link ok link_step_returning [OF rs_link(3)] by (auto simp: links_inv_def below_followers)
next
  case (rs_forward i)
  have "4 dvd returning (link_of s i) - length (r_in (link_of s i))"
    using links_invD(1) [OF ok rs_forward(2)] rs_forward(4) by (simp add: link_ok_def)
  then have "link_ok a w (sent_count s + passed (pc s) i) ((link_of s i)\<lparr>r_in := []\<rparr>)"
    using links_invD(1) [OF ok rs_forward(2)] by (auto simp: link_ok_def frames_ok_def returning_def)
  then show ?thesis using rs_forward ok by (auto simp: links_inv_def reader_forward_def returning_def below_followers)
qed

lemma raft_runs_inv:
  assumes "raft_runs a w s" and "raft_payload a < 2 ^ 32"
  shows "raft_inv a s" "links_inv a w s"
proof -
  have "raft_inv a s \<and> links_inv a w s" using assms(1)
    by (induction rule: reach.induct) (use assms(2) raft_inv_start links_inv_start raft_inv_step links_inv_step in blast)+
  then show "raft_inv a s" "links_inv a w s" by simp_all
qed

section \<open>Progress\<close>

text \<open>What a connection looks like when none of its tasks can go on: every buffer is full or empty.\<close>

lemma link_blocked:
  assumes ok: "link_ok a w n l" and blocked: "\<And>l'. \<not> link_step w l l'"
  shows "length (r_in l) = 4 \<or> up_link l = []" "f_out l = [] \<or> length (up_link l) = up_cap w"
    "f_out l = [] \<Longrightarrow> down l = [] \<and> follower_needs (f_in l) \<noteq> 0" "w_buf l = [] \<or> length (down l) = down_cap w"
    "w_buf l = [] \<Longrightarrow> send_q l = []"
proof -
  note ok' = ok [unfolded link_ok_def]
  show "length (r_in l) = 4 \<or> up_link l = []"
  proof (rule ccontr)
    assume n: "\<not> ?thesis"
    then have "length (r_in l) + 1 \<le> 4" using ok' by linarith
    moreover have "1 \<le> length (up_link l)" using n by (cases "up_link l") auto
    ultimately show False using blocked ls_pull [of l 1 w] ok' by simp
  qed
  show "f_out l = [] \<or> length (up_link l) = up_cap w"
  proof (rule ccontr)
    assume n: "\<not> ?thesis"
    then have "length (up_link l) + 1 \<le> up_cap w" using ok' by linarith
    moreover have "1 \<le> length (f_out l)" using n by (cases "f_out l") auto
    ultimately show False using blocked ls_reply [of l 1 w] ok' by simp
  qed
  show "down l = [] \<and> follower_needs (f_in l) \<noteq> 0" if "f_out l = []"
    using blocked [of "follower_read 1 l"] blocked [of "follower_ack l"] ls_read [of l 1 w] ls_ack [of l w] ok' that
    by (cases "down l"; cases "follower_needs (f_in l)") auto
  show "w_buf l = [] \<or> length (down l) = down_cap w"
  proof (rule ccontr)
    assume n: "\<not> ?thesis"
    then have "length (down l) + 1 \<le> down_cap w" using ok' by linarith
    moreover have "1 \<le> length (w_buf l)" using n by (cases "w_buf l") auto
    ultimately show False using blocked ls_write [of l 1 w] ok' by simp
  qed
  show "send_q l = []" if "w_buf l = []"
    using blocked [of "writer_take l"] ls_take [of l w] ok' that by auto
qed

text \<open>If its last acknowledgement byte is on the reader's side, everything sent is handled.\<close>

lemma link_drained:
  assumes ok: "link_ok a w n l" and blocked: "\<And>l'. \<not> link_step w l l'" and r: "length (r_in l) \<noteq> 4"
    and P: "raft_payload a < 2 ^ 32" and caps: "0 < down_cap w" "0 < up_cap w"
  shows "handled l = n" "returning l = 0"
proof -
  note B = link_blocked [OF ok blocked]
  have e: "up_link l = []" "f_out l = []" "down l = []" "w_buf l = []" "send_q l = []" "follower_needs (f_in l) \<noteq> 0"
    using B r caps by auto
  obtain qs where qs: "frames_ok a n l qs" using ok by (auto simp: link_ok_def)
  note F = qs [unfolded frames_ok_def]
  have "qs = []"
  proof (rule ccontr)
    assume "qs \<noteq> []"
    then obtain q qs' where q: "qs = q # qs'" by (cases qs) auto
    have q_len: "length q = raft_payload a" and f: "f_in l = raft_frame q @ concat (map raft_frame qs')"
      using F q e by simp_all
    have "length (f_in l) \<le> length (raft_frame q)" using ok q_len by (simp add: link_ok_def)
    then have "f_in l = raft_frame q" using f by simp
    then have "follower_needs (f_in l) = 0" using q_len P by (simp add: follower_needs_def raft_frame_def from_be_bytes_exact)
    then show False using e(6) by simp
  qed
  then show "handled l = n" using F e by simp
  have "4 dvd length (r_in l)" "length (r_in l) \<le> 4" using ok e by (simp_all add: link_ok_def returning_def)
  then have "length (r_in l) = 0" using r by presburger
  then show "returning l = 0" using e by (simp add: returning_def)
qed

text \<open>If messages are queued, every buffer on the way is full.\<close>

lemma link_jammed:
  assumes ok: "link_ok a w n l" and blocked: "\<And>l'. \<not> link_step w l l'" and q: "send_q l \<noteq> []"
    and caps: "0 < down_cap w" "0 < up_cap w"
  shows "length (r_in l) = 4" "up_cap w + 4 < returning l"
    "handled l + length (send_q l) + down_cap w div (raft_payload a + 4) \<le> n"
proof -
  note B = link_blocked [OF ok blocked]
  have e: "w_buf l \<noteq> []" "length (down l) = down_cap w" "f_out l \<noteq> []" "length (up_link l) = up_cap w" "length (r_in l) = 4"
    using B q caps by auto
  then show "length (r_in l) = 4" "up_cap w + 4 < returning l" by (simp_all add: returning_def)
  obtain qs where qs: "frames_ok a n l qs" using ok by (auto simp: link_ok_def)
  note F = qs [unfolded frames_ok_def]
  have "down_cap w \<le> length (concat (map raft_frame qs))"
    using arg_cong [OF conjunct1 [OF F], of length] e(2) by simp
  also have "\<dots> = (raft_payload a + 4) * length qs" using F by (intro length_frames) simp
  finally have "down_cap w div (raft_payload a + 4) \<le> length qs"
    by (metis Suc_eq_plus1 add_gr_0 div_le_mono nonzero_mult_div_cancel_left zero_less_numeral less_numeral_extra(3))
  then show "handled l + length (send_q l) + down_cap w div (raft_payload a + 4) \<le> n" using F by linarith
qed

text \<open>A target up to \<open>raft_safe\<close> fits into the channels and connections: the tasks do not wait for each other.\<close>

definition raft_safe :: "raft_args \<Rightarrow> raft_wires \<Rightarrow> nat" where
  "raft_safe a w = 5 * max_inflight a + up_cap w div 4 + down_cap w div (raft_payload a + 4)"

lemma jam_arith:
  fixes h :: nat
  assumes "h' \<le> sent + 1" and "4 * (com + mi * 4) + r + r' = 4 * (h + h')" and "sent < com + mi" and "sent < T"
    and "h + mi * 2 + d \<le> sent" and "up + 4 < r" and "T \<le> 5 * mi + u + d" and "4 * u \<le> up"
  shows False
  proof -
  have "4 * com + 16 * mi + r \<le> 4 * h + 4 * h'" using assms(2) by simp
  moreover have "4 * h + 8 * mi + 4 * d \<le> 4 * sent" "4 * h' \<le> 4 * sent + 4" "4 * sent + 4 \<le> 4 * com + 4 * mi"
    using assms(1,3,5) by simp_all
  ultimately have "20 * mi + r + 4 * d \<le> 4 * sent" by simp
  moreover have "4 * sent + 4 \<le> 20 * mi + 4 * u + 4 * d" using assms(4,7) by simp
  ultimately show False using assms(6,8) by simp
qed

lemma raft_progress:
  assumes inv: "raft_inv a s" and ok: "links_inv a w s" and P: "raft_payload a < 2 ^ 32" and run: "pc s \<noteq> Left"
    and caps: "0 < down_cap w" "0 < up_cap w" and T: "raft_target a \<le> raft_safe a w"
  shows "\<exists>s'. raft_step a w s s'"
proof (rule ccontr)
  assume stuck: "\<not> ?thesis"
  note L = links_invD [OF ok]
  have lk: "\<not> link_step w (link_of s i) l'" if "i < NUM_FOLLOWERS" for i l' using stuck rs_link [OF that] by blast
  have fw: "length (ack_q s) = max_inflight a * 4" if "i < NUM_FOLLOWERS" "length (r_in (link_of s i)) = 4" for i
  proof -
    have "\<not> length (ack_q s) < max_inflight a * NUM_FOLLOWERS * 2"
      using stuck rs_forward [of i s a w] L(1) [OF that(1)] that unfolding link_ok_def by blast
    then show ?thesis using L(4) by (simp add: NUM_FOLLOWERS_def)
  qed
  have two: "0 < NUM_FOLLOWERS" "1 < NUM_FOLLOWERS" by (simp_all add: NUM_FOLLOWERS_def)
  have mi: "1 \<le> max_inflight a" using inv by (simp add: raft_inv_def)
  show False
  proof (cases "pc s")
    case Await
    then have none: "ack_q s = []" using stuck rs_recv [OF Await] raft_recv_eq [OF inv Await] by blast
    have drained: "handled (link_of s i) = sent_count s" "returning (link_of s i) = 0" if "i < NUM_FOLLOWERS" for i
    proof -
      have "length (r_in (link_of s i)) \<noteq> 4" using fw [OF that] none mi by auto
      then show "handled (link_of s i) = sent_count s" "returning (link_of s i) = 0"
        using link_drained [OF L(1) [OF that] lk [OF that] _ P caps] Await by simp_all
    qed
    have "committed s = 2 * sent_count s" using L(6) none drained [OF two(1)] drained [OF two(2)] by simp
    then show False using inv Await by (simp add: raft_inv_def)
  next
    case (Sending j nanos)
    have j: "j < NUM_FOLLOWERS" using L(5) [OF Sending] stuck rs_sent [of s nanos a w] Sending by (cases "j = NUM_FOLLOWERS") auto
    let ?l = "link_of s j" and ?o = "link_of s (1 - j)"
    have j': "1 - j < NUM_FOLLOWERS" by (simp add: NUM_FOLLOWERS_def)
    have full: "max_inflight a * 2 \<le> length (send_q ?l)"
      using stuck rs_send [OF Sending j] by (auto simp: send_waits_def)
    then have "send_q ?l \<noteq> []" using mi by auto
    note jam = link_jammed [OF L(1) [OF j] lk [OF j] this caps]
    have h: "handled ?l + max_inflight a * 2 + down_cap w div (raft_payload a + 4) \<le> sent_count s"
      using jam(3) full Sending by simp
    have "handled ?o \<le> sent_count s + passed (pc s) (1 - j)" using L(1) [OF j'] by (auto simp: link_ok_def frames_ok_def)
    then have "handled ?o \<le> sent_count s + 1" using Sending by (auto split: if_splits)
    moreover have "4 * (committed s + max_inflight a * 4) + returning ?l + returning ?o = 4 * (handled ?l + handled ?o)"
      using L(6) fw [OF j jam(1)] j by (auto simp: below_followers)
    moreover have "sent_count s < committed s + max_inflight a" "sent_count s < raft_target a"
      using inv Sending by (auto simp: raft_inv_def)
    ultimately show False using h jam(2) T unfolding raft_safe_def by (rule jam_arith) simp
  qed (use run stuck rs_head rs_fill in blast)+
qed

text \<open>A run cannot go on for ever: every step uses up some of what the messages still to be sent
  and the bytes on their way are worth.\<close>

definition raft_cost :: "raft_args \<Rightarrow> nat" where
  "raft_cost a = 6 * raft_payload a + 26"

fun pc_weight :: "raft_args \<Rightarrow> raft_pc \<Rightarrow> nat" where
  "pc_weight a Head = 2"
| "pc_weight a Fill = 1"
| "pc_weight a (Sending i nanos) = (NUM_FOLLOWERS - i) * raft_cost a + 2"
| "pc_weight a Await = 0"
| "pc_weight a Left = 0"

definition unsent :: "raft_args \<Rightarrow> raft \<Rightarrow> nat" where
  "unsent a s = raft_target a - sent_count s - (case pc s of Sending _ _ \<Rightarrow> 1 | _ \<Rightarrow> 0)"

definition link_weight :: "raft_args \<Rightarrow> raft_link \<Rightarrow> nat" where
  "link_weight a l = (6 * raft_payload a + 25) * length (send_q l) + 6 * length (w_buf l) + 5 * length (down l) +
     4 * length (f_in l) + 3 * length (f_out l) + 2 * length (up_link l) + length (r_in l)"

definition raft_weight :: "raft_args \<Rightarrow> raft \<Rightarrow> nat" where
  "raft_weight a s = (2 * raft_cost a + 2) * unsent a s + 3 * (raft_target a - committed s) + pc_weight a (pc s) +
     link_weight a (link_of s 0) + link_weight a (link_of s 1)"

lemma link_weight_step:
  assumes "link_step w l l'" and ok: "link_ok a w n l"
  shows "link_weight a l' < link_weight a l"
  using assms(1)
proof cases
  case ls_take
  then obtain p ps where p: "send_q l = p # ps" "length p = raft_payload a"
    using ok by (cases "send_q l") (auto simp: link_ok_def)
  then show ?thesis using ls_take by (simp add: link_weight_def writer_take_def)
next
  case ls_ack
  then have "4 \<le> length (f_in l)" by (auto simp: follower_needs_def split: if_splits)
  then show ?thesis using ls_ack by (simp add: link_weight_def follower_ack_def)
qed (auto simp: link_weight_def link_ops)

lemma raft_weight_link:
  assumes "link_weight a l < link_weight a (link_of s i)" and "i < NUM_FOLLOWERS"
  shows "raft_weight a (set_link i l s) < raft_weight a s"
  using assms by (auto simp: raft_weight_def unsent_def below_followers)

lemma raft_weight_step:
  assumes "raft_step a w s s'" and inv: "raft_inv a s" and ok: "links_inv a w s"
  shows "raft_weight a s' < raft_weight a s"
  using assms(1)
proof cases
  case rs_head
  then show ?thesis by (auto simp: raft_head_def raft_weight_def unsent_def)
next
  case (rs_fill nanos)
  show ?thesis
  proof (cases "sent_count s < raft_target a \<and> sent_count s - committed s < max_inflight a")
    case True
    then obtain d where "raft_target a - sent_count s = Suc d" by (metis Suc_diff_Suc)
    then show ?thesis using rs_fill True by (simp add: raft_fill_def raft_weight_def unsent_def NUM_FOLLOWERS_def)
  qed (use rs_fill in \<open>auto simp: raft_fill_def raft_weight_def unsent_def\<close>)
next
  case (rs_send i nanos)
  have "writer_on (link_of s i)" using links_invD(1) [OF ok rs_send(3)] by (simp add: link_ok_def)
  moreover have "i = 0 \<or> i = 1" using rs_send by (simp add: below_followers)
  ultimately show ?thesis using rs_send
    by (auto simp: raft_send_def raft_weight_def unsent_def link_weight_def NUM_FOLLOWERS_def raft_cost_def Let_def)
next
  case (rs_sent nanos)
  then show ?thesis by (simp add: raft_sent_def raft_weight_def unsent_def)
next
  case (rs_recv now)
  have "committed s < raft_target a" using inv rs_recv by (simp add: raft_inv_def)
  then show ?thesis using rs_recv raft_recv_eq [OF inv rs_recv(1)]
    by (auto simp: raft_weight_def unsent_def)
next
  case (rs_link i l)
  then show ?thesis using raft_weight_link link_weight_step [OF rs_link(3) links_invD(1) [OF ok rs_link(2)]] by blast
next
  case (rs_forward i)
  have "link_weight a ((link_of s i)\<lparr>r_in := []\<rparr>) < link_weight a (link_of s i)" using rs_forward by (simp add: link_weight_def)
  then show ?thesis using raft_weight_link [OF _ rs_forward(2)] rs_forward(1)
    by (simp add: reader_forward_def raft_weight_def unsent_def)
qed

section \<open>The end of a run\<close>

lemma raft_left_done:
  assumes "raft_runs a w s" and "pc s = Left"
  shows "committed s = raft_target a"
  using assms
proof (induction rule: reach.induct)
  case (reach_step s s')
  have inv: "raft_inv a s" using reach_step.hyps(1) raft_inv_start raft_inv_step by (induction rule: reach.induct) blast+
  have "committed s = raft_target a" if "pc s = Left" using reach_step.IH that .
  with reach_step.hyps(2) reach_step.prems show ?case
  proof cases
    case rs_head
    then show ?thesis using reach_step.prems inv by (auto simp: raft_head_def raft_inv_def split: if_splits)
  next
    case (rs_recv now)
    then show ?thesis using reach_step.prems raft_recv_eq [OF inv rs_recv(1)] by auto
  qed (auto simp: raft_fill_def raft_send_def raft_sent_def reader_forward_def Let_def split: if_splits)
qed (auto simp: raft_start_def split: if_splits)

lemma raft_run_reach:
  assumes "raft_start a = Some (\<sigma> 0)" and "\<And>i. i < n \<Longrightarrow> raft_step a w (\<sigma> i) (\<sigma> (Suc i))"
  shows "raft_runs a w (\<sigma> n)"
  using assms by (induction n) (auto intro: reach.intros)

text \<open>The bound on the number of steps of a run.\<close>

definition raft_steps :: "raft_args \<Rightarrow> nat" where
  "raft_steps a = (12 * raft_payload a + 57) * raft_target a + 2"

lemma raft_weight_start: "raft_start a = Some s \<Longrightarrow> raft_weight a s = raft_steps a"
  by (auto simp: raft_start_def raft_steps_def raft_weight_def unsent_def link_weight_def new_link_def raft_cost_def
      algebra_simps split: if_splits)

lemma raft_run_bounded:
  assumes start: "raft_start a = Some (\<sigma> 0)" and steps: "\<And>i. i < n \<Longrightarrow> raft_step a w (\<sigma> i) (\<sigma> (Suc i))"
    and P: "raft_payload a < 2 ^ 32"
  shows "n \<le> raft_steps a"
proof -
  have "i + raft_weight a (\<sigma> i) \<le> raft_weight a (\<sigma> 0)" if "i \<le> n" for i
    using that
  proof (induction i)
    case (Suc i)
    have "raft_runs a w (\<sigma> i)" using start steps Suc.prems by (intro raft_run_reach [of a \<sigma>]) simp_all
    then show ?case using raft_weight_step [OF steps [of i]] raft_runs_inv [OF _ P] Suc by force
  qed simp
  from this [of n] show ?thesis using raft_weight_start [OF start] by simp
qed

text \<open>From every state some tasks can go on until none can.\<close>

lemma raft_runs_down:
  assumes "raft_runs a w s" and P: "raft_payload a < 2 ^ 32"
  shows "\<exists>s'. (raft_step a w)\<^sup>*\<^sup>* s s' \<and> (\<forall>s''. \<not> raft_step a w s' s'')"
  using assms(1)
proof (induction "raft_weight a s" arbitrary: s rule: less_induct)
  case less
  show ?case
  proof (cases "\<exists>s1. raft_step a w s s1")
    case True
    then obtain s1 where s1: "raft_step a w s s1" by blast
    have "raft_weight a s1 < raft_weight a s" by (rule raft_weight_step [OF s1 raft_runs_inv [OF less.prems P]])
    then obtain s' where "(raft_step a w)\<^sup>*\<^sup>* s1 s'" "\<forall>s''. \<not> raft_step a w s' s''"
      using less.hyps reach_step [OF less.prems s1] by blast
    then show ?thesis using s1 converse_rtranclp_into_rtranclp by metis
  qed blast
qed

section \<open>What fits\<close>

text \<open>Each commit takes one acknowledgement and each message brings two, so at the end a message is
  left over for each commit: queued, on the wire, or as an acknowledgement that nobody reads.
  \<open>raft_capacity\<close> bounds what the channels and connections hold of these.\<close>

definition raft_capacity :: "raft_args \<Rightarrow> raft_wires \<Rightarrow> nat" where
  "raft_capacity a w = 8 * max_inflight a + up_cap w div 2 + 2 * (down_cap w div (raft_payload a + 4)) + 8"

lemma link_backlog:
  assumes ok: "link_ok a w n l"
  shows "n \<le> handled l + 2 * max_inflight a + down_cap w div (raft_payload a + 4) + 2" "returning l \<le> up_cap w + 8"
proof -
  obtain qs where qs: "frames_ok a n l qs" using ok by (auto simp: link_ok_def)
  note F = qs [unfolded frames_ok_def]
  let ?m = "raft_payload a + 4"
  have "?m * length qs = length (concat (map raft_frame qs))" using F by (intro length_frames [symmetric]) simp
  also have "\<dots> = length (f_in l) + length (down l) + length (w_buf l)"
    using arg_cong [OF conjunct1 [OF F], of length] by simp
  also have "\<dots> \<le> down_cap w + 2 * ?m" using ok by (simp add: link_ok_def)
  finally have "?m * length qs div ?m \<le> (down_cap w + 2 * ?m) div ?m" by (rule div_le_mono)
  moreover have "(down_cap w + 2 * ?m) div ?m = down_cap w div ?m + 2" by (subst div_mult_self1) (simp_all del: div_mult_self1)
  moreover have "?m * length qs div ?m = length qs" by (rule nonzero_mult_div_cancel_left) simp
  ultimately have "length qs \<le> down_cap w div ?m + 2" by simp
  then show "n \<le> handled l + 2 * max_inflight a + down_cap w div ?m + 2" using F ok by (simp add: link_ok_def)
  show "returning l \<le> up_cap w + 8" using ok by (simp add: link_ok_def returning_def)
qed

lemma raft_left_fits:
  assumes run: "raft_runs a w s" and P: "raft_payload a < 2 ^ 32" and left: "pc s = Left"
  shows "raft_target a \<le> raft_capacity a w"
proof -
  note inv = raft_runs_inv [OF run P]
  note L = links_invD [OF inv(2)] and all = raft_left_done [OF run left]
  have sent: "sent_count s = raft_target a" using inv(1) all by (simp add: raft_inv_def)
  have "link_ok a w (raft_target a) (link_of s i)" if "i < NUM_FOLLOWERS" for i using L(1) [OF that] sent left by simp
  then have b: "link_ok a w (raft_target a) (link_of s 0)" "link_ok a w (raft_target a) (link_of s 1)"
    by (simp_all add: NUM_FOLLOWERS_def)
  have "4 * handled (link_of s 0) + 4 * handled (link_of s 1) \<le> 4 * raft_target a + 16 * max_inflight a + 2 * up_cap w + 16"
    using L(4,6) link_backlog(2) [OF b(1)] link_backlog(2) [OF b(2)] all by (simp add: NUM_FOLLOWERS_def)
  then have "4 * raft_target a \<le> 32 * max_inflight a + 2 * up_cap w + 8 * (down_cap w div (raft_payload a + 4)) + 32"
    using link_backlog(1) [OF b(1)] link_backlog(1) [OF b(2)] by simp
  then show ?thesis unfolding raft_capacity_def by simp
qed

section \<open>Properties\<close>


datatype link_move = L_Take | L_Write nat | L_Read nat | L_Ack | L_Reply nat | L_Pull nat

fun link_exec :: "raft_wires \<Rightarrow> link_move \<Rightarrow> raft_link \<Rightarrow> raft_link option" where
  "link_exec w L_Take l = (if writer_on l \<and> w_buf l = [] \<and> send_q l \<noteq> [] then Some (writer_take l) else None)"
| "link_exec w (L_Write k) l = (if writer_on l \<and> 0 < k \<and> k \<le> length (w_buf l) \<and> length (down l) + k \<le> down_cap w
     then Some (writer_write k l) else None)"
| "link_exec w (L_Read k) l = (if follower_on l \<and> f_out l = [] \<and> 0 < k \<and> k \<le> length (down l) \<and> k \<le> follower_needs (f_in l)
     then Some (follower_read k l) else None)"
| "link_exec w L_Ack l = (if follower_on l \<and> f_out l = [] \<and> follower_needs (f_in l) = 0 then Some (follower_ack l) else None)"
| "link_exec w (L_Reply k) l = (if follower_on l \<and> 0 < k \<and> k \<le> length (f_out l) \<and> length (up_link l) + k \<le> up_cap w
     then Some (follower_write k l) else None)"
| "link_exec w (L_Pull k) l = (if reader_on l \<and> 0 < k \<and> k \<le> length (up_link l) \<and> length (r_in l) + k \<le> 4
     then Some (reader_read k l) else None)"

lemma link_exec_step: "link_exec w mv l = Some l' \<Longrightarrow> link_step w l l'"
  by (cases mv) (auto split: if_splits intro: link_step.intros)

datatype raft_move = M_Head | M_Fill nat | M_Send | M_Sent | M_Recv nat | M_Link nat link_move | M_Forward nat

fun raft_exec :: "raft_args \<Rightarrow> raft_wires \<Rightarrow> raft_move \<Rightarrow> raft \<Rightarrow> raft option" where
  "raft_exec a w M_Head s = (if pc s = Head then Some (raft_head a s) else None)"
| "raft_exec a w (M_Fill nanos) s = (if pc s = Fill then Some (raft_fill a nanos s) else None)"
| "raft_exec a w M_Send s = (case pc s of Sending i nanos \<Rightarrow>
     if i < NUM_FOLLOWERS \<and> \<not> send_waits a i s then Some (raft_send i nanos s) else None | _ \<Rightarrow> None)"
| "raft_exec a w M_Sent s = (case pc s of Sending i nanos \<Rightarrow> if i = NUM_FOLLOWERS then Some (raft_sent nanos s) else None | _ \<Rightarrow> None)"
| "raft_exec a w (M_Recv now) s = (if pc s = Await \<and> ack_q s \<noteq> [] then raft_recv now s else None)"
| "raft_exec a w (M_Link i mv) s = (if i < NUM_FOLLOWERS then map_option (\<lambda>l. set_link i l s) (link_exec w mv (link_of s i)) else None)"
| "raft_exec a w (M_Forward i) s = (if i < NUM_FOLLOWERS \<and> reader_on (link_of s i) \<and> length (r_in (link_of s i)) = 4 \<and>
     length (ack_q s) < max_inflight a * NUM_FOLLOWERS * 2 then Some (reader_forward i s) else None)"

lemma raft_exec_step: "raft_exec a w mv s = Some s' \<Longrightarrow> raft_step a w s s'"
  by (cases mv) (auto split: if_splits raft_pc.splits intro: raft_step.intros link_exec_step)

definition two_messages :: raft_args where
  "two_messages = \<lparr>raft_target = 2, raft_payload = 8, max_inflight = 2\<rparr>"

definition small_wires :: raft_wires where
  "small_wires = \<lparr>down_cap = 16, up_cap = 8\<rparr>"

text \<open>One message goes to a follower and its acknowledgement comes back.\<close>

definition there_and_back :: "nat \<Rightarrow> raft_move list" where
  "there_and_back i = map (M_Link i) [L_Take, L_Write 12, L_Read 4, L_Read 8, L_Ack, L_Reply 4, L_Pull 4] @ [M_Forward i]"

definition early_commit :: "raft_move list" where
  "early_commit = [M_Head, M_Fill 10, M_Send, M_Send, M_Sent, M_Fill 20, M_Send, M_Send, M_Sent, M_Fill 30] @
     there_and_back 0 @ there_and_back 1 @ [M_Recv 40, M_Head, M_Fill 50, M_Recv 60, M_Head]"

lemma early_commit_run:
  "map_option (\<lambda>s. (pc s, committed s, handled (link_of s 0), handled (link_of s 1), latencies s))
     (raft_start two_messages \<bind> fold_opt (raft_exec two_messages small_wires) early_commit) = Some (Left, 2, 1, 1, [30, 40])"
  by code_simp

definition early_state :: "nat \<Rightarrow> raft" where
  "early_state n = the (fold_opt (raft_exec two_messages small_wires) (take n early_commit) (the (raft_start two_messages)))"

lemma early_states:
  assumes "n < 31"
  shows "raft_step two_messages small_wires (early_state n) (early_state (Suc n))"
proof -
  have len: "length early_commit = 31" by code_simp
  obtain s0 s where s0: "raft_start two_messages = Some s0"
    and s: "fold_opt (raft_exec two_messages small_wires) early_commit s0 = Some s"
    using early_commit_run by (auto simp: bind_eq_Some_conv)
  obtain s1 s2 where s1: "fold_opt (raft_exec two_messages small_wires) (take n early_commit) s0 = Some s1"
      "raft_exec two_messages small_wires (early_commit ! n) s1 = Some s2"
      "fold_opt (raft_exec two_messages small_wires) (take (Suc n) early_commit) s0 = Some s2"
    using fold_opt_states [OF s, of n] assms len by auto
  then show ?thesis using s1 s0 raft_exec_step by (simp add: early_state_def)
qed


text \<open>C34. The baseline benchmark deadlocks when it is asked for more messages than the channels and connections
  hold. The leader takes one acknowledgement per commit and the followers send two; the surplus
  fills the acknowledgement channel, then the reader waits, the connection back fills, the
  follower waits, the connection to it fills, the writer waits, and the leader waits for the
  writer. Above \<open>raft_capacity\<close> no run leaves the loop: every run has a bounded number of steps, and
  ends with the leader in its loop and every task waiting.\<close>

theorem raft_baseline_deadlocks:
  assumes start: "raft_start a = Some (\<sigma> 0)" and steps: "\<And>i. i < n \<Longrightarrow> raft_step a w (\<sigma> i) (\<sigma> (Suc i))"
    and P: "raft_payload a < 2 ^ 32" and T: "raft_capacity a w < raft_target a"
  shows "n \<le> raft_steps a \<and> pc (\<sigma> n) \<noteq> Left \<and>
    (\<exists>s. (raft_step a w)\<^sup>*\<^sup>* (\<sigma> n) s \<and> pc s \<noteq> Left \<and> (\<forall>s'. \<not> raft_step a w s s'))"
proof -
  have run: "raft_runs a w (\<sigma> n)" using start steps by (rule raft_run_reach [of a \<sigma>])
  have never: "pc s \<noteq> Left" if "raft_runs a w s" for s using raft_left_fits [OF that P] T by auto
  obtain s where s: "(raft_step a w)\<^sup>*\<^sup>* (\<sigma> n) s" "\<forall>s'. \<not> raft_step a w s s'" using raft_runs_down [OF run P] by blast
  then show ?thesis using raft_run_bounded [OF start steps P] never [OF run] never [OF reach_rtranclp [OF run s(1)]] by blast
qed

text \<open>40000 messages of 1024 bytes with the default window, over connections of 64 KiB each way.\<close>

theorem raft_baseline_deadlocks_witness:
  "\<exists>s. raft_runs \<lparr>raft_target = 40000, raft_payload = 1024, max_inflight = 64\<rparr> \<lparr>down_cap = 65536, up_cap = 65536\<rparr> s \<and>
     pc s \<noteq> Left \<and> (\<forall>s'. \<not> raft_step \<lparr>raft_target = 40000, raft_payload = 1024, max_inflight = 64\<rparr>
       \<lparr>down_cap = 65536, up_cap = 65536\<rparr> s s')"
proof -
  let ?a = "\<lparr>raft_target = 40000, raft_payload = 1024, max_inflight = 64\<rparr> :: raft_args"
  let ?w = "\<lparr>down_cap = 65536, up_cap = 65536\<rparr> :: raft_wires"
  obtain s0 where s0: "raft_start ?a = Some s0" by (simp add: raft_start_def)
  have "raft_capacity ?a ?w < raft_target ?a" "raft_payload ?a < 2 ^ 32" by (simp_all add: raft_capacity_def)
  then obtain s where s: "(raft_step ?a ?w)\<^sup>*\<^sup>* s0 s" "pc s \<noteq> Left" "\<forall>s'. \<not> raft_step ?a ?w s s'"
    using raft_baseline_deadlocks [of ?a "\<lambda>_. s0" 0 ?w] s0 by auto
  have "raft_runs ?a ?w s0" using s0 by (rule reach_init)
  then have "raft_runs ?a ?w s" using s(1) by (rule reach_rtranclp)
  then show ?thesis using s(2,3) by blast
qed

text \<open>C35. A commit of the baseline is not backed by a majority. Every acknowledgement is credited to
  the oldest message in flight, whichever follower sent it and for whichever message, so the
  second follower's acknowledgement of message 1 commits message 2: the benchmark ends with two messages
  committed and two latencies recorded, when both followers have handled the first message only.\<close>

theorem raft_commits_unreplicated_message:
  "\<exists>s. raft_runs two_messages small_wires s \<and> pc s = Left \<and> committed s = 2 \<and>
     handled (link_of s 0) = 1 \<and> handled (link_of s 1) = 1"
proof -
  obtain s0 s where s0: "raft_start two_messages = Some s0"
    and s: "fold_opt (raft_exec two_messages small_wires) early_commit s0 = Some s"
    and e: "pc s = Left" "committed s = 2" "handled (link_of s 0) = 1" "handled (link_of s 1) = 1"
    using early_commit_run by (auto simp: bind_eq_Some_conv)
  have "raft_runs two_messages small_wires s"
    by (rule fold_opt_reach [OF _ _ s]) (use raft_exec_step s0 reach_init in \<open>auto intro: reach_init\<close>)
  then show ?thesis using e by blast
qed

text \<open>What a commit does mean: even when connections break, there are never more commits than
  acknowledgements sent by the two followers together, the window is never exceeded, and the leader
  does not panic on an acknowledgement.\<close>

lemma raft_commits_backed_by_acks:
  assumes "raft_reach a w s"
  shows "committed s \<le> handled (link_of s 0) + handled (link_of s 1) \<and> sent_count s - committed s \<le> max_inflight a \<and>
    length (latencies s) = committed s \<and> (pc s = Await \<longrightarrow> raft_recv now s \<noteq> None)"
  using raft_inv_reach [OF assms] raft_recv_eq [of a s now] by (auto simp: raft_inv_def)

end
