(* ===== verification/Bench_Tls.thy ===== *)
theory Bench_Tls
  imports Ring Codec
begin

text \<open>
  \<^verbatim>\<open>benches/src/bin/bench_ring_tls.rs\<close>: the latency benchmark over the TLS ring. Its node tasks are those of
  \<^verbatim>\<open>ring.rs\<close> with a dispatch that counts: every node counts the payloads it delivers, the last node of the
  ring (the sentinel) records a latency per payload and signals the end. The links are those of
  \<open>Ring\<close> (they may lose trains), the clock readings are arguments of the steps. TLS
  set-up, warm-up and the statistics are left out. The delivered payloads, which the code drops, are
  kept as the logs of \<open>Ring\<close>, for the statements only.
\<close>

section \<open>The model\<close>

record tls_args =
  tls_target :: nat
  tls_payload :: nat

record tls_bench =
  base :: ring_state
  counts :: "proc_id \<Rightarrow> nat"
  samples :: "nat list"
  done_sent :: bool
  bc_q :: "byte list list"
  injections :: "byte list list"

definition sentinel :: "config \<Rightarrow> proc_id" where
  "sentinel c = RING_SIZE c - 1"

text \<open>The assertion on the payload size; \<^verbatim>\<open>mpsc::channel(0)\<close> panics. The nodes are not started yet.\<close>

definition tls_start :: "config \<Rightarrow> tls_args \<Rightarrow> ring_state \<Rightarrow> tls_bench option" where
  "tls_start c a b =
     (if \<not> tls_payload a \<ge> 8 \<or> tls_target a = 0 then None
      else Some \<lparr>base = b, counts = (\<lambda>_. 0), samples = [], done_sent = False, bc_q = [], injections = []\<rparr>)"

definition from_le_bytes :: "byte list \<Rightarrow> nat" where
  "from_le_bytes bs = from_be (rev bs)"

text \<open>\<^verbatim>\<open>tx.try_send(lat)\<close>: the channel has room for the target, a sample beyond it is dropped.\<close>

definition sample :: "tls_args \<Rightarrow> nat \<Rightarrow> payload \<Rightarrow> nat list \<Rightarrow> nat list" where
  "sample a now p ls =
     (if length (data p) \<ge> 8 \<and> length ls < tls_target a then ls @ [now - from_le_bytes (take 8 (data p))] else ls)"

fun tls_dispatch_one :: "config \<Rightarrow> tls_args \<Rightarrow> proc_id \<Rightarrow> nat \<Rightarrow> node_output \<Rightarrow> tls_bench \<Rightarrow> tls_bench" where
  "tls_dispatch_one c a i now (ForwardTrain t) s = s\<lparr>base := outbox_send c i t (base s)\<rparr>"
| "tls_dispatch_one c a i now (Deliver ps) s =
     (let s1 = (if i = sentinel c then s\<lparr>samples := fold (sample a now) ps (samples s)\<rparr> else s);
          prev = counts s1 i;
          s2 = s1\<lparr>counts := (counts s1)(i := prev + length ps),
                  base := (base s1)\<lparr>rlog := (rlog (base s1))(i := rlog (base s1) i @ ps)\<rparr>\<rparr>
      in if prev + length ps \<ge> tls_target a \<and> i = sentinel c then s2\<lparr>done_sent := True\<rparr> else s2)"
| "tls_dispatch_one c a i now (DeclareCrash v) s = s"

text \<open>The clock is read at each delivery: \<open>now j\<close> is its reading at output \<open>j\<close>.\<close>

definition tls_dispatch :: "config \<Rightarrow> tls_args \<Rightarrow> proc_id \<Rightarrow> (nat \<Rightarrow> nat) \<Rightarrow> node_output list \<Rightarrow> tls_bench \<Rightarrow> tls_bench" where
  "tls_dispatch c a i now outs s = fold (\<lambda>(j, out). tls_dispatch_one c a i (now j) out) (enumerate 0 outs) s"

text \<open>An arm of the \<^verbatim>\<open>select!\<close> of \<^verbatim>\<open>run_node\<close>.\<close>

definition tls_arm :: "config \<Rightarrow> tls_args \<Rightarrow> proc_id \<Rightarrow> node_input \<Rightarrow> (nat \<Rightarrow> nat) \<Rightarrow> tls_bench \<Rightarrow> tls_bench option" where
  "tls_arm c a i inp now s = do {
     (core, outs) \<leftarrow> step c inp (cores (base s) i);
     Some (tls_dispatch c a i now outs (s\<lparr>base := (base s)\<lparr>cores := (cores (base s))(i := core)\<rparr>\<rparr>))
   }"

text \<open>The injection loop of \<^verbatim>\<open>main\<close>: a time stamp in front of the filler, sent on the channel of node 0.\<close>

definition tls_message :: "tls_args \<Rightarrow> nat \<Rightarrow> byte list" where
  "tls_message a nanos = rev (be_bytes 8 nanos) @ drop 8 (replicate (tls_payload a) 0x42)"

definition tls_inject :: "tls_args \<Rightarrow> nat \<Rightarrow> tls_bench \<Rightarrow> tls_bench" where
  "tls_inject a nanos s = s\<lparr>bc_q := bc_q s @ [tls_message a nanos], injections := injections s @ [tls_message a nanos]\<rparr>"

inductive tls_step :: "config \<Rightarrow> tls_args \<Rightarrow> tls_bench \<Rightarrow> tls_bench \<Rightarrow> bool" for c a where
  tb_start: "i < RING_SIZE c \<Longrightarrow> i \<notin> up (base s) \<Longrightarrow> start_node c (NUM_TRAINS c) UniformTotalOrder i (base s) = Some b \<Longrightarrow>
    tls_step c a s (s\<lparr>base := b\<rparr>)"
| tb_inject: "length (injections s) < tls_target a \<Longrightarrow> length (bc_q s) < 1024 \<Longrightarrow> tls_step c a s (tls_inject a nanos s)"
| tb_bcast: "0 \<in> up (base s) \<Longrightarrow> bc_q s = d # ds \<Longrightarrow> tls_arm c a 0 (LocalBroadcast d) now (s\<lparr>bc_q := ds\<rparr>) = Some s' \<Longrightarrow>
    tls_step c a s s'"
| tb_recv: "i \<in> up (base s) \<Longrightarrow> inbox (base s) i = t # ts \<Longrightarrow>
    tls_arm c a i (TrainReceived t) now (s\<lparr>base := pop_inbox i (base s)\<rparr>) = Some s' \<Longrightarrow> tls_step c a s s'"
| tb_tick: "i \<in> up (base s) \<Longrightarrow> tls_arm c a i Tick now s = Some s' \<Longrightarrow> tls_step c a s s'"
| tb_lose: "inbox (base s) i = xs @ ys @ zs \<Longrightarrow>
    tls_step c a s (s\<lparr>base := (base s)\<lparr>inbox := (inbox (base s))(i := xs @ zs)\<rparr>\<rparr>)"

definition tls_init :: "config \<Rightarrow> tls_args \<Rightarrow> tls_bench \<Rightarrow> bool" where
  "tls_init c a s \<longleftrightarrow> (\<exists>b. ring_init c b \<and> tls_start c a b = Some s)"

section \<open>The ring underneath\<close>

definition long :: "payload list \<Rightarrow> payload list" where
  "long ps = filter (\<lambda>p. 8 \<le> length (data p)) ps"

lemma long_append [simp]: "long (ps @ qs) = long ps @ long qs"
  by (simp add: long_def)

lemma length_samples: "length (fold (sample a now) ps ls) = min (max (tls_target a) (length ls)) (length ls + length (long ps))"
  by (induction ps arbitrary: ls) (auto simp: sample_def long_def)

text \<open>What the counting keeps: the counter of a node is the length of its log, the samples are as many as
  the stamped payloads of the sentinel up to the target, and the signal is given when the target is.\<close>

definition tls_counts :: "config \<Rightarrow> tls_args \<Rightarrow> tls_bench \<Rightarrow> bool" where
  "tls_counts c a s \<longleftrightarrow> (\<forall>i. counts s i = length (rlog (base s) i)) \<and>
     length (samples s) = min (tls_target a) (length (long (rlog (base s) (sentinel c)))) \<and>
     (done_sent s \<longleftrightarrow> tls_target a \<le> length (rlog (base s) (sentinel c)))"

lemma tls_dispatch_effect:
  "base (tls_dispatch c a i now outs s) = dispatch c i outs (base s)"
  "bc_q (tls_dispatch c a i now outs s) = bc_q s"
  "injections (tls_dispatch c a i now outs s) = injections s"
  "tls_counts c a s \<Longrightarrow> tls_counts c a (tls_dispatch c a i now outs s)"
proof -
  let ?f = "\<lambda>n outs. fold (\<lambda>(j, out). tls_dispatch_one c a i (now j) out) (enumerate n outs)"
  have "base (?f n outs s) = dispatch c i outs (base s) \<and> bc_q (?f n outs s) = bc_q s \<and>
      injections (?f n outs s) = injections s \<and> (tls_counts c a s \<longrightarrow> tls_counts c a (?f n outs s))" for n
  proof (induction outs arbitrary: n s)
    case (Cons out outs)
    let ?s = "tls_dispatch_one c a i (now n) out s"
    have "base ?s = dispatch_one c i out (base s)" "bc_q ?s = bc_q s" "injections ?s = injections s"
      by (cases out; simp add: Let_def)+
    moreover have "tls_counts c a ?s" if "tls_counts c a s"
      using that by (cases out) (auto simp: tls_counts_def Let_def outbox_send_def length_samples)
    moreover have "?f n (out # outs) s = ?f (Suc n) outs ?s"
      "dispatch c i (out # outs) (base s) = dispatch c i outs (dispatch_one c i out (base s))"
      by (simp_all add: dispatch_def)
    ultimately show ?case using Cons.IH [of "Suc n" ?s] by metis
  qed (simp add: dispatch_def)
  from this [of 0] show "base (tls_dispatch c a i now outs s) = dispatch c i outs (base s)"
    "bc_q (tls_dispatch c a i now outs s) = bc_q s" "injections (tls_dispatch c a i now outs s) = injections s"
    "tls_counts c a s \<Longrightarrow> tls_counts c a (tls_dispatch c a i now outs s)" unfolding tls_dispatch_def by blast+
qed

lemma tls_arm_effect:
  assumes "tls_arm c a i inp now s = Some s'"
  shows "node_arm c i inp (base s) = Some (base s')" "bc_q s' = bc_q s" "injections s' = injections s"
    "tls_counts c a s \<Longrightarrow> tls_counts c a s'"
proof -
  obtain core outs where st: "step c inp (cores (base s) i) = Some (core, outs)"
      "s' = tls_dispatch c a i now outs (s\<lparr>base := (base s)\<lparr>cores := (cores (base s))(i := core)\<rparr>\<rparr>)"
    using assms by (cases "step c inp (cores (base s) i)") (auto simp: tls_arm_def)
  show "node_arm c i inp (base s) = Some (base s')" using st by (simp add: node_arm_def tls_dispatch_effect)
  show "bc_q s' = bc_q s" "injections s' = injections s" using st(2) by (simp_all add: tls_dispatch_effect)
  show "tls_counts c a s'" if "tls_counts c a s"
    unfolding st(2) by (rule tls_dispatch_effect(4)) (use that in \<open>simp add: tls_counts_def\<close>)
qed

text \<open>The simulation into the network of \<open>Soup\<close>, with what has been submitted: everything that was
  injected and is not waiting in the channel, at node 0.\<close>

definition tls_sim :: "config \<Rightarrow> tls_args \<Rightarrow> tls_bench \<Rightarrow> net \<Rightarrow> bool" where
  "tls_sim c a s n \<longleftrightarrow> ring_sim c (NUM_TRAINS c) UniformTotalOrder (base s) n \<and> tls_counts c a s \<and>
     8 \<le> tls_payload a \<and> length (injections s) \<le> tls_target a \<and> (\<forall>d\<in>set (injections s). length d = tls_payload a) \<and>
     injections s = submitted n 0 @ bc_q s \<and> (\<forall>j. j \<noteq> 0 \<longrightarrow> submitted n j = [])"

lemma start_keeps_logs: "start_node c k m i s = Some s' \<Longrightarrow> rlog s' = rlog s"
  by (auto simp: start_node_def outbox_send_def split: bind_splits if_splits)

lemma tls_sim_step:
  assumes sim: "tls_sim c a s n" and st: "tls_step c a s s'"
  shows "\<exists>n'. (soup_step c)\<^sup>*\<^sup>* n n' \<and> tls_sim c a s' n'"
proof -
  let ?k = "NUM_TRAINS c" and ?m = UniformTotalOrder
  have R: "ring_sim c ?k ?m (base s) n" and K: "tls_counts c a s" using sim by (simp_all add: tls_sim_def)
  show ?thesis
    using st
  proof cases
    case (tb_start i b)
    then obtain n' where n': "(soup_step c)\<^sup>*\<^sup>* n n'" "ring_sim c ?k ?m b n'" "submitted n' = submitted n"
      using ring_sim_start [OF R] by blast
    have "tls_counts c a s'" using K start_keeps_logs [OF tb_start(4)] tb_start(1) by (simp add: tls_counts_def)
    then show ?thesis using n' sim tb_start(1) by (auto simp: tls_sim_def)
  next
    case (tb_inject nanos)
    have "length (tls_message a nanos) = tls_payload a" using sim by (simp add: tls_message_def tls_sim_def)
    then have "tls_sim c a s' n" using sim tb_inject by (auto simp: tls_sim_def tls_inject_def tls_counts_def)
    then show ?thesis by blast
  next
    case (tb_bcast d ds now)
    note E = tls_arm_effect [OF tb_bcast(3)]
    have arm: "node_arm c 0 (LocalBroadcast d) (base s) = Some (base s')" using E(1) by simp
    obtain r where r: "step c (LocalBroadcast d) (nodes n 0) = Some r" "ring_sim c ?k ?m (base s') (net_apply 0 r n)" "0 < RING_SIZE c"
      using node_arm_sim [OF R tb_bcast(1) arm] by blast
    have "tls_counts c a s'" using E(4) K by (simp add: tls_counts_def)
    then have "tls_sim c a s' (submit 0 d (net_apply 0 r n))"
      using sim E(2,3) tb_bcast(2) ring_sim_submit [OF r(2)] by (auto simp: tls_sim_def submit_def)
    then show ?thesis using soup_bcast [OF r(3,1)] by blast
  next
    case (tb_recv i t ts now)
    note E = tls_arm_effect [OF tb_recv(3)]
    have arm: "node_arm c i (TrainReceived t) (pop_inbox i (base s)) = Some (base s')" "i \<in> up (pop_inbox i (base s))"
      using E(1) tb_recv(1) by (simp_all add: pop_inbox_def)
    obtain r where r: "step c (TrainReceived t) (nodes n i) = Some r" "ring_sim c ?k ?m (base s') (net_apply i r n)" "i < RING_SIZE c"
      using node_arm_sim [OF ring_sim_pop [OF R] arm(2,1)] by blast
    have "set (inbox (base s) i) \<subseteq> sent n" using R unfolding ring_sim_def by blast
    then have "t \<in> sent n" using tb_recv(2) by auto
    moreover have "tls_counts c a s'" using E(4) K by (simp add: tls_counts_def pop_inbox_def)
    ultimately show ?thesis using soup_recv [OF r(3) _ r(1)] r(2) sim E(2,3)
      by (intro exI [of _ "net_apply i r n"]) (auto simp: tls_sim_def)
  next
    case (tb_tick i now)
    note E = tls_arm_effect [OF tb_tick(2)]
    obtain r where r: "step c Tick (nodes n i) = Some r" "ring_sim c ?k ?m (base s') (net_apply i r n)" "i < RING_SIZE c"
      using node_arm_sim [OF R tb_tick(1) E(1)] by blast
    then show ?thesis using soup_tick [OF r(3,1)] sim E(2,3) E(4) [OF K]
      by (intro exI [of _ "net_apply i r n"]) (auto simp: tls_sim_def)
  next
    case (tb_lose i xs ys zs)
    then have "ring_sim c ?k ?m (base s') n" using ring_sim_inbox [OF R, of "xs @ zs" i] by auto
    then have "tls_sim c a s' n" using sim tb_lose by (auto simp: tls_sim_def tls_counts_def)
    then show ?thesis by blast
  qed
qed

lemma tls_sim_init:
  assumes "tls_init c a s"
  shows "\<exists>n. soup_init c UniformTotalOrder n \<and> tls_sim c a s n"
proof -
  obtain b where b: "ring_init c b" "tls_start c a b = Some s" using assms by (auto simp: tls_init_def)
  obtain n where n: "soup_init c UniformTotalOrder n" "ring_sim c (NUM_TRAINS c) UniformTotalOrder b n"
    using ring_sim_init [of c "NUM_TRAINS c" b] b(1) by (auto simp: ring_start_state_def)
  have "submitted n = (\<lambda>_. [])" using n(1) by (simp add: soup_init_def)
  then show ?thesis using n b
    by (intro exI [of _ n]) (auto simp: tls_sim_def tls_start_def tls_counts_def ring_init_def long_def split: if_splits)
qed

interpretation tls: simulation_system "tls_init c a" "tls_step c a" "soup_init c UniformTotalOrder" "soup_step c" "tls_sim c a" for c a
  by unfold_locales (simp_all add: tls_sim_init tls_sim_step)


section \<open>The measurement\<close>

lemma sim_log:
  assumes sim: "tls_sim c a s n" and C: "soup_inv c C n" and i: "i < RING_SIZE c"
  shows "length (rlog (base s) i) \<le> length (submitted n 0)" "long (rlog (base s) i) = rlog (base s) i"
proof -
  have log: "rlog (base s) i = concat (dlog n i)" using sim by (simp add: tls_sim_def ring_sim_def)
  have own: "sender p = 0 \<and> seq p < length (submitted n 0) \<and> data p \<in> set (injections s)" if "p \<in> set (rlog (base s) i)" for p
  proof -
    have I: "seq p < length (submitted n (sender p))" "data p = submitted n (sender p) ! seq p"
      using soup_inv_integrity [OF C i] that unfolding log by blast+
    have z: "sender p = 0"
    proof (rule ccontr)
      assume "sender p \<noteq> 0"
      then have "submitted n (sender p) = []" using sim by (simp add: tls_sim_def)
      then show False using I(1) by simp
    qed
    then have "data p \<in> set (submitted n 0)" using I nth_mem by metis
    then show ?thesis using sim I(1) z by (auto simp: tls_sim_def)
  qed
  have "payload_id ` set (rlog (base s) i) \<subseteq> {0} \<times> {..<length (submitted n 0)}" using own by (auto simp: payload_id_def)
  then have "card (set (map payload_id (rlog (base s) i))) \<le> card ({0::nat} \<times> {..<length (submitted n 0)})"
    unfolding set_map by (rule card_mono [rotated]) simp
  then show "length (rlog (base s) i) \<le> length (submitted n 0)"
    using distinct_card [OF soup_inv_no_duplicates [OF C i]] unfolding log by (simp add: card_cartesian_product)
  have "8 \<le> length (data p)" if "p \<in> set (rlog (base s) i)" for p using own [OF that] sim by (auto simp: tls_sim_def)
  then show "long (rlog (base s) i) = rlog (base s) i" by (auto simp: long_def filter_id_conv)
qed

text \<open>C32. The latency benchmark measures each message once. In every state of a run, whatever the
  schedule and whatever the links lose, every counter is at most the number of messages injected, the
  samples are as many as the sentinel has delivered, and the end is signalled exactly when the sentinel
  has delivered the target: then every message has been injected and has its one sample.\<close>

theorem tls_bench_samples_every_message:
  assumes "reach (tls_init c a) (tls_step c a) s" and "ring_clocks_left c (base s)"
  shows "(\<forall>i<RING_SIZE c. counts s i \<le> length (injections s)) \<and> length (injections s) \<le> tls_target a \<and>
    length (samples s) = counts s (sentinel c) \<and> (done_sent s \<longleftrightarrow> counts s (sentinel c) = tls_target a) \<and>
    (done_sent s \<longrightarrow> length (samples s) = tls_target a \<and> length (injections s) = tls_target a \<and> bc_q s = [])"
proof -
  obtain n where n: "soup_reach c UniformTotalOrder n" "tls_sim c a s n" using tls.reach_sim [OF assms(1)] by blast
  have R: "ring_sim c (NUM_TRAINS c) UniformTotalOrder (base s) n" using n(2) by (simp add: tls_sim_def)
  obtain C where C: "soup_inv c C n" using soup_reachE [OF n(1) ring_sim_clocks [OF R assms(2)]] by blast
  have "valid_config c" using R by (simp add: ring_sim_def)
  then have snt: "sentinel c < RING_SIZE c" using valid_configD(3) [of c] by (simp add: sentinel_def)
  have inj: "injections s = submitted n 0 @ bc_q s" "length (injections s) \<le> tls_target a"
    and K: "\<And>i. counts s i = length (rlog (base s) i)"
      "length (samples s) = min (tls_target a) (length (long (rlog (base s) (sentinel c))))"
      "done_sent s \<longleftrightarrow> tls_target a \<le> length (rlog (base s) (sentinel c))"
    using n(2) unfolding tls_sim_def tls_counts_def by blast+
  note S = sim_log [OF n(2) C snt]
  have "\<forall>i<RING_SIZE c. counts s i \<le> length (injections s)"
    using sim_log(1) [OF n(2) C] K(1) inj(1) le_trans by fastforce
  moreover have "length (samples s) = counts s (sentinel c)" using K S inj by simp
  moreover have "done_sent s \<longleftrightarrow> counts s (sentinel c) = tls_target a" using K(1,3) S(1) inj by auto
  moreover have "length (injections s) = tls_target a \<and> bc_q s = []" if "done_sent s"
  proof -
    have "length (injections s) = length (submitted n 0) + length (bc_q s)" using inj(1) by simp
    moreover have "tls_target a \<le> length (submitted n 0)" using that K(3) S(1) by simp
    ultimately have "length (injections s) = tls_target a \<and> length (bc_q s) = 0" using inj(2) by linarith
    then show ?thesis by simp
  qed
  ultimately show ?thesis using inj(2) by simp
qed


datatype tls_move = TM_Start nat | TM_Inject nat | TM_Bcast nat | TM_Recv nat nat

fun tls_exec :: "config \<Rightarrow> tls_args \<Rightarrow> tls_move \<Rightarrow> tls_bench \<Rightarrow> tls_bench option" where
  "tls_exec c a (TM_Start i) s = (if i < RING_SIZE c \<and> i \<notin> up (base s)
     then map_option (\<lambda>b. s\<lparr>base := b\<rparr>) (start_node c (NUM_TRAINS c) UniformTotalOrder i (base s)) else None)"
| "tls_exec c a (TM_Inject nanos) s = (if length (injections s) < tls_target a \<and> length (bc_q s) < 1024
     then Some (tls_inject a nanos s) else None)"
| "tls_exec c a (TM_Bcast now) s = (case bc_q s of [] \<Rightarrow> None
     | d # ds \<Rightarrow> if 0 \<in> up (base s) then tls_arm c a 0 (LocalBroadcast d) (\<lambda>_. now) (s\<lparr>bc_q := ds\<rparr>) else None)"
| "tls_exec c a (TM_Recv i now) s = (case inbox (base s) i of [] \<Rightarrow> None
     | t # ts \<Rightarrow> if i \<in> up (base s) then tls_arm c a i (TrainReceived t) (\<lambda>_. now) (s\<lparr>base := pop_inbox i (base s)\<rparr>) else None)"

lemma tls_exec_step: "tls_exec c a mv s = Some s' \<Longrightarrow> tls_step c a s s'"
  by (cases mv) (auto split: if_splits list.splits intro: tls_step.intros)

definition tls_one_message :: tls_args where
  "tls_one_message = \<lparr>tls_target = 1, tls_payload = 8\<rparr>"

definition tls_demo :: tls_bench where
  "tls_demo = the (tls_start cfg2 tls_one_message \<lparr>cores = demo_node, inbox = (\<lambda>_. []), up = {}, rlog = (\<lambda>_. [])\<rparr> \<bind>
     fold_opt (tls_exec cfg2 tls_one_message)
       [TM_Start 0, TM_Start 1, TM_Inject 5, TM_Bcast 6, TM_Recv 1 7, TM_Recv 0 8, TM_Recv 1 9, TM_Recv 0 10,
        TM_Recv 1 11, TM_Recv 0 12, TM_Recv 1 25])"

lemma tls_demo_facts:
  "tls_start cfg2 tls_one_message \<lparr>cores = demo_node, inbox = (\<lambda>_. []), up = {}, rlog = (\<lambda>_. [])\<rparr> \<bind>
     fold_opt (tls_exec cfg2 tls_one_message)
       [TM_Start 0, TM_Start 1, TM_Inject 5, TM_Bcast 6, TM_Recv 1 7, TM_Recv 0 8, TM_Recv 1 9, TM_Recv 0 10,
        TM_Recv 1 11, TM_Recv 0 12, TM_Recv 1 25] \<noteq> None"
  "samples tls_demo = [20] \<and> done_sent tls_demo \<and> up (base tls_demo) = {0, 1} \<and>
   next_issue_clock (cores (base tls_demo) 0) = 3 \<and> next_issue_clock (cores (base tls_demo) 1) = 1"
  by code_simp+

theorem tls_bench_samples_every_message_witness:
  "samples tls_demo = [20] \<and> counts tls_demo 1 = 1 \<and> length (injections tls_demo) = 1 \<and> bc_q tls_demo = []"
proof -
  let ?b = "\<lparr>cores = demo_node, inbox = (\<lambda>_. []), up = {}, rlog = (\<lambda>_. [])\<rparr>"
  obtain s0 where s0: "tls_start cfg2 tls_one_message ?b = Some s0"
    "fold_opt (tls_exec cfg2 tls_one_message) [TM_Start 0, TM_Start 1, TM_Inject 5, TM_Bcast 6, TM_Recv 1 7, TM_Recv 0 8,
       TM_Recv 1 9, TM_Recv 0 10, TM_Recv 1 11, TM_Recv 0 12, TM_Recv 1 25] s0 = Some tls_demo"
    using tls_demo_facts(1) by (auto simp: tls_demo_def bind_eq_Some_conv)
  have "ring_init cfg2 ?b" by (simp add: ring_init_def cfg2_valid)
  then have "tls_init cfg2 tls_one_message s0" using s0(1) by (auto simp: tls_init_def)
  then have "reach (tls_init cfg2 tls_one_message) (tls_step cfg2 tls_one_message) s0" by (rule reach_init)
  then have "reach (tls_init cfg2 tls_one_message) (tls_step cfg2 tls_one_message) tls_demo"
    using fold_opt_reach [OF _ _ s0(2)] tls_exec_step by metis
  moreover have "ring_clocks_left cfg2 (base tls_demo)" using tls_demo_facts(2) by (simp add: ring_clocks_left_def u64_max_def)
  moreover have "sentinel cfg2 = 1" "tls_target tls_one_message = 1" by (simp_all add: sentinel_def cfg2_def tls_one_message_def)
  ultimately show ?thesis using tls_bench_samples_every_message [of cfg2 tls_one_message tls_demo] tls_demo_facts(2) by auto
qed

end
