(* ===== verification/Kani.thy ===== *)
theory Kani
  imports Delivery
begin

text \<open>
  The Kani harnesses of \<^verbatim>\<open>trains-core/src/lib.rs\<close> (module \<^verbatim>\<open>kani_proofs\<close>). A harness takes the values \<^verbatim>\<open>kani::any\<close>
  returns; outside its assumptions it passes, \<open>None\<close> is a panic and the boolean its assertions.
  The bounds Kani needs on the clocks (4 or 8) are an argument \<open>mx\<close>: the harnesses pass for every
  bound of the machine type, hence for all clocks.
\<close>

section \<open>The harnesses\<close>

definition checked_add64 :: "tick \<Rightarrow> tick \<Rightarrow> tick option" where
  "checked_add64 x y = (if x + y \<le> u64_max then Some (x + y) else None)"

definition verify_tick_no_overflow :: "tick \<Rightarrow> bool option" where
  "verify_tick_no_overflow x = (if \<not> x < u64_max then Some True else do { _ \<leftarrow> checked_add64 x 1; Some True })"

definition verify_tick_monotonic :: "tick \<Rightarrow> bool option" where
  "verify_tick_monotonic x = (if \<not> x < u64_max then Some True else do { y \<leftarrow> checked_add64 x 1; Some (y > x) })"

definition verify_clock_state_monotonic :: "config \<Rightarrow> tick \<Rightarrow> proc_id \<Rightarrow> tick \<Rightarrow> bool option" where
  "verify_clock_state_monotonic c mx i cl =
     (if \<not> (i < RING_SIZE c \<and> cl \<le> mx) then Some True
      else do {
        let cs = clock_new c;
        prev \<leftarrow> last_seen cs i;
        (cs1, _) \<leftarrow> check_and_update c i cl cs;
        now \<leftarrow> last_seen cs1 i;
        Some (now \<ge> prev)
      })"

definition verify_clock_state_ok_iff_successor :: "config \<Rightarrow> tick \<Rightarrow> proc_id \<Rightarrow> tick \<Rightarrow> bool option" where
  "verify_clock_state_ok_iff_successor c mx i cl =
     (if \<not> (i < RING_SIZE c \<and> cl > 0 \<and> cl \<le> mx) then Some True
      else do {
        (cs1, _) \<leftarrow> check_and_update c i 1 (clock_new c);
        prev \<leftarrow> last_seen cs1 i;
        (_, res) \<leftarrow> check_and_update c i cl cs1;
        next \<leftarrow> add64 (checks c) prev 1;
        Some ((res = Clock_Ok) = (cl = next))
      })"

definition count_ones :: "ack_bits \<Rightarrow> nat" where
  "count_ones w = length (filter (bit w) [0..<32])"

definition verify_add_ack_monotonic :: "config \<Rightarrow> tick \<Rightarrow> proc_id \<Rightarrow> proc_id \<Rightarrow> tick \<Rightarrow> ack_bits \<Rightarrow> bool option" where
  "verify_add_ack_monotonic c mx p i cl b =
     (if \<not> (p < RING_SIZE c \<and> i < RING_SIZE c \<and> cl \<le> mx) then Some True
      else do {
        let t = \<lparr>issuer = i, clock = cl, payloads = [], ack_bits = b\<rparr>;
        let before = count_ones (ack_bits t);
        t1 \<leftarrow> add_ack c p t;
        m \<leftarrow> shl32 (checks c) 1 p;
        Some (count_ones (ack_bits t1) \<ge> before \<and> ack_bits t1 AND m \<noteq> 0)
      })"

definition verify_is_fully_acked_iff_full :: "config \<Rightarrow> tick \<Rightarrow> proc_id \<Rightarrow> tick \<Rightarrow> ack_bits \<Rightarrow> bool option" where
  "verify_is_fully_acked_iff_full c mx i cl b =
     (if \<not> (i < RING_SIZE c \<and> cl \<le> mx) then Some True
      else let t = \<lparr>issuer = i, clock = cl, payloads = [], ack_bits = b\<rparr>
           in Some (is_fully_acked c t = (b = FULL_ACK c)))"

definition verify_uto_requires_full_ack :: "config \<Rightarrow> ack_bits \<Rightarrow> bool option" where
  "verify_uto_requires_full_ack c b =
     (let ds = delivery_new UniformTotalOrder
      in Some (ready_to_deliver c ds b UniformTotalOrder = (b = FULL_ACK c)))"

definition verify_clock_key_lex_order :: "config \<Rightarrow> tick \<Rightarrow> tick \<Rightarrow> proc_id \<Rightarrow> tick \<Rightarrow> proc_id \<Rightarrow> bool option" where
  "verify_clock_key_lex_order c mx c1 i1 c2 i2 =
     (if \<not> (c1 \<le> mx \<and> i1 < RING_SIZE c \<and> c2 \<le> mx \<and> i2 < RING_SIZE c) then Some True
      else Some ((ClockKey c1 i1 < ClockKey c2 i2) = (c1 < c2 \<or> (c1 = c2 \<and> i1 < i2))))"

section \<open>They pass\<close>

lemma count_ones_or: "count_ones w \<le> count_ones (w OR v)"
proof -
  have "set (filter (bit w) [0..<32]) \<subseteq> set (filter (bit (w OR v)) [0..<32])" by (auto simp: bit_simps)
  moreover have "distinct (filter (bit u) [0..<32])" for u :: ack_bits by simp
  ultimately show ?thesis unfolding count_ones_def by (metis List.finite_set card_mono distinct_card)
qed

text \<open>The Kani harnesses pass for every value of the machine types and every bound on the clocks,
  in builds with and without overflow checks.\<close>

theorem kani_harnesses_pass:
  assumes c: "valid_config c" and mx: "mx \<le> u64_max"
  shows "verify_tick_no_overflow x = Some True \<and> verify_tick_monotonic x = Some True \<and>
    verify_clock_state_monotonic c mx i cl = Some True \<and> verify_clock_state_ok_iff_successor c mx i cl = Some True \<and>
    verify_add_ack_monotonic c mx p i cl b = Some True \<and> verify_is_fully_acked_iff_full c mx i cl b = Some True \<and>
    verify_uto_requires_full_ack c b = Some True \<and> verify_clock_key_lex_order c mx cl i c2 p = Some True"
proof (intro conjI)
  have new: "clock_ok c (clock_new c)" by (rule clock_ok_new)
  have upd: "check_and_update c i x (clock_new c) = Some (\<lparr>seen = (seen (clock_new c))[i := x]\<rparr>, clock_verdict 0 x)"
    "last_seen \<lparr>seen = (seen (clock_new c))[i := x]\<rparr> i = Some x" "last_seen (clock_new c) i = Some 0"
    "clock_ok c \<lparr>seen = (seen (clock_new c))[i := x]\<rparr>" if "i < RING_SIZE c" "x \<le> u64_max" for x
    using that check_and_update_pure [OF new that] clock_ok_update [OF new that(2), of i]
    by (simp_all add: clock_new_def last_seen_def)
  show "verify_clock_state_monotonic c mx i cl = Some True"
    using upd [of cl] mx by (simp add: verify_clock_state_monotonic_def)
  show "verify_clock_state_ok_iff_successor c mx i cl = Some True"
  proof (cases "i < RING_SIZE c \<and> cl > 0 \<and> cl \<le> mx")
    case True
    have "check_and_update c i cl \<lparr>seen = (seen (clock_new c))[i := 1]\<rparr> =
        Some (\<lparr>seen = (seen (clock_new c))[i := max 1 cl]\<rparr>, clock_verdict 1 cl)"
      using check_and_update_pure [OF upd(4) [of 1], of i cl] True mx by (simp add: clock_new_def u64_max_def)
    moreover have "add64 (checks c) 1 1 = Some 2" by (simp add: add64_def u64_max_def)
    ultimately show ?thesis
      using True upd [of 1] by (simp add: verify_clock_state_ok_iff_successor_def u64_max_def clock_verdict_def)
  qed (simp add: verify_clock_state_ok_iff_successor_def)
  show "verify_add_ack_monotonic c mx p i cl b = Some True"
  proof (cases "p < RING_SIZE c")
    case True
    then have p: "p < 32" using valid_configD(2) [OF c] by simp
    have "bit ((b OR push_bit p 1) AND push_bit p 1) p" using bit_shl_one [OF p, of p] by (simp add: bit_and_iff bit_or_iff)
    then have "(b OR push_bit p 1) AND push_bit p 1 \<noteq> 0" by (metis bit_0_eq bot_apply bot_bool_def)
    then show ?thesis using p count_ones_or by (simp add: verify_add_ack_monotonic_def panic_simps)
  qed (simp add: verify_add_ack_monotonic_def)
qed (simp_all add: verify_tick_no_overflow_def verify_tick_monotonic_def checked_add64_def verify_is_fully_acked_iff_full_def
    is_fully_acked_def verify_uto_requires_full_ack_def ready_to_deliver_def verify_clock_key_lex_order_def clock_key_less)

end
