(* ===== verification/Core_Tests.thy ===== *)
theory Core_Tests
  imports Node_Steps Recovery
begin

text \<open>
  The unit tests of \<^verbatim>\<open>trains-core\<close> (modules \<^verbatim>\<open>tests\<close> of \<^verbatim>\<open>clock.rs\<close>, \<^verbatim>\<open>delivery.rs\<close>, \<^verbatim>\<open>recovery.rs\<close> and \<^verbatim>\<open>node.rs\<close>) on the model,
  for the default build with debug assertions. A test is a computation that may panic (\<open>None\<close>) and the
  conjunction of its assertions: what the authors check of the program holds of its model.
\<close>

definition test_build :: config where
  "test_build = \<lparr>RING_SIZE = 3, NUM_TRAINS = 2, checks = True\<rparr>"

abbreviation full :: ack_bits where
  "full \<equiv> FULL_ACK test_build"

section \<open>\<^verbatim>\<open>clock.rs\<close>\<close>

definition test_normal_progression :: "bool option" where
  "test_normal_progression = do {
     (cs, r1) \<leftarrow> check_and_update test_build 0 1 (clock_new test_build);
     (cs, r2) \<leftarrow> check_and_update test_build 0 2 cs;
     l \<leftarrow> last_seen cs 0;
     Some (r1 = Clock_Ok \<and> r2 = Clock_Ok \<and> l = 2)
   }"

definition test_gap_detection :: "bool option" where
  "test_gap_detection = do {
     (cs, r) \<leftarrow> check_and_update test_build 1 3 (clock_new test_build);
     l \<leftarrow> last_seen cs 1;
     Some (r = Gap 1 3 \<and> l = 3)
   }"

definition test_duplicate_ignored :: "bool option" where
  "test_duplicate_ignored = do {
     (cs, _) \<leftarrow> check_and_update test_build 0 1 (clock_new test_build);
     (cs, r) \<leftarrow> check_and_update test_build 0 1 cs;
     l \<leftarrow> last_seen cs 0;
     Some (r = Duplicate \<and> l = 1)
   }"

section \<open>\<^verbatim>\<open>delivery.rs\<close>\<close>

definition test_uto_requires_full_ack :: "bool option" where
  "test_uto_requires_full_ack = do {
     let ds = delivery_new UniformTotalOrder;
     Some (\<not> ready_to_deliver test_build ds 3 UniformTotalOrder \<and> ready_to_deliver test_build ds 7 UniformTotalOrder)
   }"

definition test_to_ignores_crashed :: "bool option" where
  "test_to_ignores_crashed = do {
     ds \<leftarrow> delivery_mark_crashed test_build 2 (delivery_new TotalOrder);
     Some (ready_to_deliver test_build ds 3 TotalOrder \<and> \<not> ready_to_deliver test_build ds 1 TotalOrder)
   }"

definition test_ordering_blocks_until_prior_delivered :: "bool option" where
  "test_ordering_blocks_until_prior_delivered = do {
     let ds = delivery_new UniformTotalOrder;
     let k_low = ClockKey 1 0;
     let k_high = ClockKey 2 0;
     let known = [k_low, k_high];
     ds1 \<leftarrow> record_delivered test_build k_low ds;
     Some (\<not> is_next_in_order ds k_high known \<and> is_next_in_order ds k_low known \<and> is_next_in_order ds1 k_high known)
   }"

definition test_double_delivery_blocked :: "bool option" where
  "test_double_delivery_blocked = do {
     let k = ClockKey 1 0;
     ds \<leftarrow> record_delivered test_build k (delivery_new UniformTotalOrder);
     Some (\<not> is_next_in_order ds k [k])
   }"

section \<open>\<^verbatim>\<open>recovery.rs\<close>\<close>

definition pl :: "proc_id \<Rightarrow> nat \<Rightarrow> byte list \<Rightarrow> payload" where
  "pl s n bs = \<lparr>sender = s, seq = n, data = bs\<rparr>"

definition seenv :: "tick list \<Rightarrow> tick list" where
  "seenv vals = vals @ replicate (RING_SIZE test_build - length vals) 0"

definition test_report :: "tick list \<Rightarrow> clock_key list \<Rightarrow> (clock_key \<times> payload list) list \<Rightarrow> recovery_report" where
  "test_report sn dn hv = \<lparr>rr_seen = sn, rr_issued = replicate (RING_SIZE test_build) 0, rr_done = set dn,
     rr_have = fold (\<lambda>(k, ps). btm_insert k ps) hv []\<rparr>"

definition report_issued :: "tick list \<Rightarrow> tick list \<Rightarrow> clock_key list \<Rightarrow> recovery_report" where
  "report_issued sn iss dn = \<lparr>rr_seen = sn, rr_issued = iss, rr_done = set dn, rr_have = []\<rparr>"

definition test_empty_gap_is_skipped :: "bool option" where
  "test_empty_gap_is_skipped = do {
     let r0 = test_report (seenv [5, 0]) [ClockKey 1 0, ClockKey 2 0, ClockKey 3 0] [];
     let plan = compute_recovery_plan test_build [r0, r0];
     Some (boundary plan ! 0 = 5 \<and> btm_get (actions plan) (ClockKey 4 0) = Some RA_Skip \<and>
       btm_get (actions plan) (ClockKey 5 0) = Some RA_Skip \<and>
       btm_get (actions plan) (ClockKey 1 0) = None \<and> btm_get (actions plan) (ClockKey 3 0) = None)
   }"

definition test_delivered_by_some_is_retransmitted :: "bool option" where
  "test_delivered_by_some_is_retransmitted = do {
     let key = ClockKey 3 0;
     let a = test_report (seenv [3, 0]) [ClockKey 1 0, ClockKey 2 0, key] [(key, [pl 0 7 [112, 97, 121, 108, 111, 97, 100]])];
     let b = test_report (seenv [2, 0]) [ClockKey 1 0, ClockKey 2 0] [];
     let plan = compute_recovery_plan test_build [a, b];
     case btm_get (actions plan) key of
       Some (RA_Deliver ps) \<Rightarrow> Some (length ps = 1 \<and> data (ps ! 0) = [112, 97, 121, 108, 111, 97, 100])
     | _ \<Rightarrow> None
   }"

definition test_parked_payload_contributes_to_union :: "bool option" where
  "test_parked_payload_contributes_to_union = do {
     let key = ClockKey 3 0;
     let a = test_report (seenv [3, 0]) [ClockKey 1 0, ClockKey 2 0] [];
     let b = test_report (seenv [3, 0]) [ClockKey 1 0, ClockKey 2 0] [(key, [pl 1 2 [112, 97, 114, 107, 101, 100]])];
     let plan = compute_recovery_plan test_build [a, b];
     case btm_get (actions plan) key of
       Some (RA_Deliver ps) \<Rightarrow> Some (data (ps ! 0) = [112, 97, 114, 107, 101, 100])
     | _ \<Rightarrow> None
   }"

definition test_union_dedups_payloads :: "bool option" where
  "test_union_dedups_payloads = do {
     let key = ClockKey 2 1;
     let p = pl 1 9 [100, 117, 112];
     let a = test_report (seenv [0, 2]) [ClockKey 1 1] [(key, [p])];
     let b = test_report (seenv [0, 2]) [ClockKey 1 1] [(key, [p])];
     let plan = compute_recovery_plan test_build [a, b];
     case btm_get (actions plan) key of Some (RA_Deliver ps) \<Rightarrow> Some (length ps = 1) | _ \<Rightarrow> None
   }"

definition test_boundary_is_max_seen :: "bool option" where
  "test_boundary_is_max_seen = do {
     let plan = compute_recovery_plan test_build [test_report (seenv [7, 3]) [] [], test_report (seenv [4, 9]) [] []];
     r0 \<leftarrow> reissue_clock plan 0;
     r1 \<leftarrow> reissue_clock plan 1;
     Some (boundary plan ! 0 = 7 \<and> boundary plan ! 1 = 9 \<and> r0 = 8 \<and> r1 = 10)
   }"

definition test_in_flight_issued_clock :: "bool option" where
  "test_in_flight_issued_clock = do {
     let dn = map (\<lambda>cl. ClockKey cl 1) [1..<5];
     let r_self = report_issued (seenv [0, 4]) (seenv [0, 5]) dn;
     let r_peer = report_issued (seenv [0, 4]) (seenv [0, 0]) dn;
     let plan = compute_recovery_plan test_build [r_self, r_peer];
     r1 \<leftarrow> reissue_clock plan 1;
     Some (boundary plan ! 1 = 5 \<and> r1 = 6 \<and> btm_get (actions plan) (ClockKey 5 1) = Some RA_Skip)
   }"

definition test_fully_delivered_history :: "bool option" where
  "test_fully_delivered_history = do {
     let dn = map (\<lambda>cl. ClockKey cl 0) [1..<4];
     let a = test_report (seenv [3, 0]) dn [];
     Some (actions (compute_recovery_plan test_build [a, a]) = [])
   }"

section \<open>The property test of the merge\<close>

text \<open>\<open>arb_report\<close> builds a report from drawn vectors; the payload loop raises \<open>seen\<close> so that a report
  holds payloads only for clocks it has seen. \<open>merge_assertions\<close> are the test's assertions in its order,
  except the repetition of the call, which returns the same value for every HOL function.\<close>

definition arb_have :: "(nat \<times> proc_id) \<times> (proc_id \<times> nat) list \<Rightarrow>
    tick list \<times> (clock_key, payload list) btm \<Rightarrow> tick list \<times> (clock_key, payload list) btm" where
  "arb_have = (\<lambda>((cl, q), ps) (sn, hv).
     (if cl > sn ! q then sn[q := cl] else sn,
      btm_insert (ClockKey cl q) (map (\<lambda>(s, sq). pl s sq [word_of_nat s, word_of_nat sq]) ps) hv))"

definition arb_report :: "tick list \<Rightarrow> tick list \<Rightarrow> (nat \<times> proc_id) list \<Rightarrow>
    ((nat \<times> proc_id) \<times> (proc_id \<times> nat) list) list \<Rightarrow> recovery_report" where
  "arb_report seen_v issued_v done_v have_v =
     (let (sn, hv) = fold arb_have have_v (seen_v, [])
      in \<lparr>rr_seen = sn, rr_issued = issued_v, rr_done = set (map (\<lambda>(cl, q). ClockKey cl q) done_v), rr_have = hv\<rparr>)"

definition held_key_assertion :: "recovery_report list \<Rightarrow> recovery_plan \<Rightarrow> clock_key \<times> payload list \<Rightarrow> bool" where
  "held_key_assertion reports plan = (\<lambda>(k, ps). ps = [] \<or>
     ck_clock k \<le> boundary plan ! ck_issuer k \<and>
     (case btm_get (actions plan) k of
        Some (RA_Deliver out) \<Rightarrow> list_all (\<lambda>p. list_ex (\<lambda>o'. payload_id o' = payload_id p) out) ps
      | Some RA_Skip \<Rightarrow> False
      | None \<Rightarrow> list_all (\<lambda>rr. k \<in> rr_done rr) reports))"

definition merge_preserves_uniform_agreement :: "config \<Rightarrow> recovery_report list \<Rightarrow> bool" where
  "merge_preserves_uniform_agreement c reports =
     (let plan = compute_recovery_plan c reports
      in list_all (\<lambda>q. boundary plan ! q = Max (set (map (\<lambda>r. max (rr_seen r ! q) (rr_issued r ! q)) reports)))
           [0..<RING_SIZE c] \<and>
         list_all (\<lambda>r. list_all (held_key_assertion reports plan) (rr_have r)) reports)"

text \<open>What the generator draws, for a ring of any size: vectors of the ring's length and keys of ring
  positions with positive clocks; and what the payload loop makes of them.\<close>

definition drawn :: "config \<Rightarrow> tick list \<times> tick list \<times> (nat \<times> proc_id) list \<times>
    ((nat \<times> proc_id) \<times> (proc_id \<times> nat) list) list \<Rightarrow> bool" where
  "drawn c = (\<lambda>(seen_v, issued_v, done_v, have_v). length seen_v = RING_SIZE c \<and> length issued_v = RING_SIZE c \<and>
     list_all (\<lambda>((cl, q), ps). 1 \<le> cl \<and> q < RING_SIZE c) have_v)"

definition arb_ok :: "config \<Rightarrow> tick list \<times> (clock_key, payload list) btm \<Rightarrow> bool" where
  "arb_ok c = (\<lambda>(sn, hv). length sn = RING_SIZE c \<and> btm_ok hv \<and>
     (\<forall>k\<in>set (btm_keys hv). ck_issuer k < RING_SIZE c \<and> 1 \<le> ck_clock k \<and> ck_clock k \<le> sn ! ck_issuer k))"

lemma arb_have_ok:
  assumes "arb_ok c (sn, hv)" and "1 \<le> cl" and "q < RING_SIZE c"
  shows "arb_ok c (arb_have ((cl, q), ps) (sn, hv))"
proof -
  have "ck_clock k \<le> (if cl > sn ! q then sn[q := cl] else sn) ! ck_issuer k" if "k \<in> set (btm_keys hv)" for k
  proof -
    have "ck_issuer k < length sn" "ck_clock k \<le> sn ! ck_issuer k" using assms(1) that by (auto simp: arb_ok_def)
    then show ?thesis by (cases "ck_issuer k = q") auto
  qed
  moreover have "ck_issuer k < RING_SIZE c \<and> 1 \<le> ck_clock k" if "k \<in> set (btm_keys hv)" for k
    using assms(1) that by (auto simp: arb_ok_def)
  moreover have "cl \<le> (if cl > sn ! q then sn[q := cl] else sn) ! q" "length sn = RING_SIZE c" "btm_ok hv"
    using assms by (auto simp: arb_ok_def)
  ultimately show ?thesis
    using assms(2,3) unfolding arb_ok_def arb_have_def prod.case set_keys_btm_insert
    by (auto simp del: set_map intro!: inv_intros)
qed

lemma fold_arb_have_ok:
  "arb_ok c acc \<Longrightarrow> list_all (\<lambda>((cl, q), ps). 1 \<le> cl \<and> q < RING_SIZE c) hs \<Longrightarrow> arb_ok c (fold arb_have hs acc)"
proof (induction hs arbitrary: acc)
  case (Cons h hs)
  obtain cl q ps where h: "h = ((cl, q), ps)" by (metis surj_pair)
  obtain sn hv where acc: "acc = (sn, hv)" by (cases acc)
  have "arb_ok c (arb_have h acc)" using Cons.prems arb_have_ok by (simp add: h acc)
  then show ?case using Cons by simp
qed simp

lemma arb_report_ok:
  assumes "drawn c (sn, iss, dn, hv)" and "r = arb_report sn iss dn hv"
  shows "length (rr_issued r) = RING_SIZE c" and "arb_ok c (rr_seen r, rr_have r)"
  using assms fold_arb_have_ok [of c "(sn, [])" hv]
  by (auto simp: drawn_def arb_report_def arb_ok_def split: prod.splits)

lemma held_key_assertion_holds:
  assumes "r \<in> set reports" and "arb_ok c (rr_seen r, rr_have r)" and "(k, ps) \<in> set (rr_have r)"
  shows "held_key_assertion reports (compute_recovery_plan c reports) (k, ps)"
proof (cases "ps = []")
  case False
  have k: "ck_issuer k < RING_SIZE c" "1 \<le> ck_clock k" "ck_clock k \<le> rr_seen r ! ck_issuer k" and ok: "btm_ok (rr_have r)"
    using assms(2,3) by (force simp: arb_ok_def)+
  then have b: "ck_clock k \<le> merge_boundary c reports ! ck_issuer k"
    using merge_boundary_ge(1) [OF k(1) assms(1)] by linarith
  have hv: "have_of k r = ps" using btm_mem_get [OF ok] assms(3) by (simp add: have_of_def)
  have "payload_id p \<in> payload_id ` set (union_payloads k reports)" if "p \<in> set ps" for p
    unfolding union_payloads_set(3) using that hv assms(1) by blast
  then have "list_all (\<lambda>p. list_ex (\<lambda>o'. payload_id o' = payload_id p) (union_payloads k reports)) ps"
    by (fastforce simp: list_all_iff list_ex_iff)
  moreover have "\<not> (\<forall>r\<in>set reports. have_of k r = [])" using hv False assms(1) by blast
  ultimately show ?thesis using k b by (auto simp: held_key_assertion_def plan_lookup list_all_iff)
qed (simp add: held_key_assertion_def)

text \<open>The property test \<^verbatim>\<open>merge_preserves_uniform_agreement\<close> passes on every non-empty list of reports its
  generator can draw, for every ring size: the boundary is the survivors' maximum, and a key for which any survivor
  holds payloads is within it and is delivered with all of them, or was processed by every survivor; it is never skipped.\<close>

theorem merge_test_passes:
  assumes "draws \<noteq> []" and "list_all (drawn c) draws"
  shows "merge_preserves_uniform_agreement c (map (\<lambda>(sn, iss, dn, hv). arb_report sn iss dn hv) draws)"
proof -
  define reports where "reports = map (\<lambda>(sn, iss, dn, hv). arb_report sn iss dn hv) draws"
  have ok: "arb_ok c (rr_seen r, rr_have r)" if "r \<in> set reports" for r
    using that assms(2) arb_report_ok(2) by (fastforce simp: reports_def list_all_iff)
  have "reports \<noteq> []" using assms(1) by (simp add: reports_def)
  then have "merge_boundary c reports ! q = Max ((\<lambda>r. max (rr_seen r ! q) (rr_issued r ! q)) ` set reports)"
    if "q < RING_SIZE c" for q
    unfolding merge_boundary_nth [OF that] by (subst Max_insert) auto
  moreover have "list_all (held_key_assertion reports (compute_recovery_plan c reports)) (rr_have r)"
    if "r \<in> set reports" for r
    using held_key_assertion_holds [OF that ok [OF that]] by (auto simp: list_all_iff)
  ultimately show ?thesis
    unfolding reports_def [symmetric] by (simp add: merge_preserves_uniform_agreement_def list_all_iff)
qed

definition small_core_tests :: "bool option list" where
  "small_core_tests =
     [test_normal_progression, test_gap_detection, test_duplicate_ignored, test_uto_requires_full_ack, test_to_ignores_crashed,
      test_ordering_blocks_until_prior_delivered, test_double_delivery_blocked, test_empty_gap_is_skipped,
      test_delivered_by_some_is_retransmitted, test_parked_payload_contributes_to_union, test_union_dedups_payloads,
      test_boundary_is_max_seen, test_in_flight_issued_clock, test_fully_delivered_history]"

lemma small_core_tests_pass: "list_all (\<lambda>t. t = Some True) small_core_tests"
  by code_simp

end
