(* ===== verification/Node_Tests.thy ===== *)
theory Node_Tests
  imports Core_Tests
begin

text \<open>The unit tests of \<^verbatim>\<open>node.rs\<close> on the model, for the default build with debug assertions.\<close>

definition fully_acked_train :: "proc_id \<Rightarrow> tick \<Rightarrow> payload list \<Rightarrow> train" where
  "fully_acked_train i cl ps = \<lparr>issuer = i, clock = cl, payloads = ps, ack_bits = full\<rparr>"

definition empty_train :: "proc_id \<Rightarrow> tick \<Rightarrow> ack_bits \<Rightarrow> train" where
  "empty_train i cl b = \<lparr>issuer = i, clock = cl, payloads = [], ack_bits = b\<rparr>"

abbreviation arrives :: "train \<Rightarrow> trains_node \<Rightarrow> (trains_node \<times> node_output list) option" where
  "arrives t n \<equiv> step test_build (TrainReceived t) n"

definition deliveries :: "node_output list \<Rightarrow> nat" where
  "deliveries outs = length (batches outs)"

definition test_broadcast_queues_payload :: "bool option" where
  "test_broadcast_queues_payload = do {
     node \<leftarrow> node_new test_build 0 UniformTotalOrder;
     (node, out) \<leftarrow> step test_build (LocalBroadcast [104, 101, 108, 108, 111]) node;
     Some (out = [] \<and> length (pending node) = 1)
   }"

text \<open>Node 0 has issued its first train and has it back.\<close>

definition issued_node :: "delivery_mode \<Rightarrow> trains_node option" where
  "issued_node m = do {
     node \<leftarrow> node_new test_build 0 m;
     (node, _) \<leftarrow> issue_initial_train test_build node;
     (node, _) \<leftarrow> arrives (empty_train 0 1 full) node;
     Some node
   }"

definition primed_node :: "delivery_mode \<Rightarrow> trains_node option" where
  "primed_node m = do {
     node \<leftarrow> issued_node m;
     (node, _) \<leftarrow> arrives (empty_train 1 1 3) node;
     Some node
   }"

definition test_lap2_delivers :: "bool option" where
  "test_lap2_delivers = do {
     node \<leftarrow> issued_node UniformTotalOrder;
     let t = fully_acked_train 1 1 [pl 1 0 [109, 115, 103]];
     (node, outs1) \<leftarrow> arrives t node;
     (node, outs2) \<leftarrow> arrives t node;
     Some (deliveries outs1 = 0 \<and> deliveries outs2 = 1)
   }"

text \<open>The train of issuer 1 that nodes 0 and 1 have acknowledged.\<close>

definition two_acks :: train where
  "two_acks = \<lparr>issuer = 1, clock = 1, payloads = [pl 1 0 [109, 115, 103]], ack_bits = 3\<rparr>"

definition test_confirm_crash_recovers_delivery :: "bool option" where
  "test_confirm_crash_recovers_delivery = do {
     node \<leftarrow> primed_node TotalOrder;
     (node, pre) \<leftarrow> arrives two_acks node;
     (node, _) \<leftarrow> confirm_crash test_build 2 node;
     (node, post) \<leftarrow> arrives two_acks node;
     Some (deliveries pre = 0 \<and> deliveries post = 1)
   }"

definition test_readmit_node_restores_membership :: "bool option" where
  "test_readmit_node_restores_membership = do {
     excluded \<leftarrow> primed_node TotalOrder;
     (excluded, _) \<leftarrow> confirm_crash test_build 2 excluded;
     (_, outs1) \<leftarrow> arrives two_acks excluded;
     readmitted \<leftarrow> primed_node TotalOrder;
     (readmitted, _) \<leftarrow> confirm_crash test_build 2 readmitted;
     readmitted \<leftarrow> readmit_node test_build 2 readmitted;
     (_, outs2) \<leftarrow> arrives two_acks readmitted;
     Some (deliveries outs1 = 1 \<and> deliveries outs2 = 0)
   }"

definition test_state_transfer_makes_joiner_consistent :: "bool option" where
  "test_state_transfer_makes_joiner_consistent = do {
     a \<leftarrow> issued_node UniformTotalOrder;
     let t = fully_acked_train 1 1 [pl 1 0 [109]];
     (a, _) \<leftarrow> arrives t a;
     (a, outs) \<leftarrow> arrives t a;
     snap \<leftarrow> export_state test_build a;
     b \<leftarrow> node_new test_build 0 UniformTotalOrder;
     b \<leftarrow> import_state snap b;
     snap' \<leftarrow> export_state test_build b;
     l \<leftarrow> last_seen (clocks b) 1;
     (_, again) \<leftarrow> arrives t b;
     Some (deliveries outs = 1 \<and> snap' = snap \<and> ClockKey 1 1 \<in> done_keys (delivery b) \<and> l = 1 \<and>
       next_issue_clock b \<ge> 2 \<and> deliveries again = 0)
   }"

definition test_freeze_suspends_delivery :: "bool option" where
  "test_freeze_suspends_delivery = do {
     node \<leftarrow> primed_node UniformTotalOrder;
     let t = fully_acked_train 1 1 [pl 1 0 [109]];
     let node = set_frozen True node;
     let was_frozen = frozen node;
     (node, _) \<leftarrow> arrives t node;
     (node, outs1) \<leftarrow> arrives t node;
     let node = set_frozen False node;
     (node, outs2) \<leftarrow> arrives t node;
     Some (was_frozen \<and> deliveries outs1 = 0 \<and> deliveries outs2 = 1)
   }"

definition test_apply_recovery_records_skips_and_delivers :: "bool option" where
  "test_apply_recovery_records_skips_and_delivers = do {
     node \<leftarrow> node_new test_build 0 TotalOrder;
     (node, _) \<leftarrow> confirm_crash test_build 2 node;
     let acts = btm_insert (ClockKey 2 0) (RA_Deliver [pl 0 5 [82]]) (btm_insert (ClockKey 1 0) RA_Skip []);
     let plan = \<lparr>actions = acts, boundary = [2, 0, 0]\<rparr>;
     (node, outs) \<leftarrow> apply_recovery test_build plan node;
     let checks1 = (length (batches outs) = 1 \<and> data (batches outs ! 0 ! 0) = [82] \<and> ClockKey 1 0 \<in> done_keys (delivery node) \<and>
       ClockKey 2 0 \<in> done_keys (delivery node) \<and> next_issue_clock node \<ge> 3);
     (node, outs2) \<leftarrow> apply_recovery test_build plan node;
     Some (checks1 \<and> deliveries outs2 = 0)
   }"

definition test_partial_ack_no_delivery_but_forwarded :: "bool option" where
  "test_partial_ack_no_delivery_but_forwarded = do {
     node \<leftarrow> node_new test_build 0 UniformTotalOrder;
     (node, outs) \<leftarrow> arrives \<lparr>issuer = 1, clock = 1, payloads = [pl 1 0 [120]], ack_bits = 3\<rparr> node;
     Some (deliveries outs = 0 \<and> sends outs \<noteq> [])
   }"

definition test_clock_gap_triggers_declare_crash :: "bool option" where
  "test_clock_gap_triggers_declare_crash = do {
     node \<leftarrow> node_new test_build 0 UniformTotalOrder;
     (node, _) \<leftarrow> arrives (fully_acked_train 1 1 [pl 1 0 [97]]) node;
     (node, outs) \<leftarrow> arrives (fully_acked_train 1 3 [pl 1 1 [98]]) node;
     Some (1 \<in> set (declared outs))
   }"

definition test_pending_loaded_onto_foreign_train :: "bool option" where
  "test_pending_loaded_onto_foreign_train = do {
     node \<leftarrow> node_new test_build 0 UniformTotalOrder;
     (node, _) \<leftarrow> step test_build (LocalBroadcast [113, 117, 101, 117, 101, 100]) node;
     let queued = length (pending node);
     (node, outs) \<leftarrow> arrives (empty_train 1 1 3) node;
     case sends outs of
       [] \<Rightarrow> None
     | fwd # _ \<Rightarrow> Some (queued = 1 \<and> pending node = [] \<and> length (payloads fwd) = 1 \<and> ack_bits fwd AND 1 = 1)
   }"

definition test_returning_train_two_lap_then_recycle :: "bool option" where
  "test_returning_train_two_lap_then_recycle = do {
     node \<leftarrow> node_new test_build 0 UniformTotalOrder;
     (node, initial) \<leftarrow> issue_initial_train test_build node;
     (node, _) \<leftarrow> arrives (empty_train 1 1 full) node;
     let returned = \<lparr>issuer = 0, clock = 1, payloads = [pl 2 0 [104, 105]], ack_bits = full\<rparr>;
     (node, outs1) \<leftarrow> arrives returned node;
     (node, outs2) \<leftarrow> arrives returned node;
     let fwd1 = sends outs1;
     let fwd2 = sends outs2;
     Some (clock initial = 1 \<and> issuer initial = 0 \<and> ack_bits initial = 1 \<and>
       length (batches outs1) = 1 \<and> data (batches outs1 ! 0 ! 0) = [104, 105] \<and>
       length fwd1 = 1 \<and> clock (fwd1 ! 0) = 1 \<and> length (payloads (fwd1 ! 0)) = 1 \<and>
       deliveries outs2 = 0 \<and> length fwd2 = 1 \<and> clock (fwd2 ! 0) = 2 \<and> issuer (fwd2 ! 0) = 0 \<and>
       payloads (fwd2 ! 0) = [] \<and> ack_bits (fwd2 ! 0) = 1)
   }"

definition test_out_of_order_arrival_parks :: "bool option" where
  "test_out_of_order_arrival_parks = do {
     node \<leftarrow> node_new test_build 0 UniformTotalOrder;
     let t_31 = fully_acked_train 1 3 [pl 1 2 [66]];
     let t_22 = fully_acked_train 2 2 [pl 2 1 [65]];
     (node, _) \<leftarrow> arrives t_31 node;
     (node, _) \<leftarrow> arrives t_22 node;
     l1 \<leftarrow> last_seen (clocks node) 1;
     l2 \<leftarrow> last_seen (clocks node) 2;
     (node, outs1) \<leftarrow> arrives t_31 node;
     let p1 = length (parked node);
     (node, outs2) \<leftarrow> arrives t_22 node;
     Some (l1 = 3 \<and> l2 = 2 \<and> deliveries outs1 = 0 \<and> p1 = 1 \<and> deliveries outs2 = 0 \<and> length (parked node) = 2)
   }"

definition test_duplicate_train_not_redelivered :: "bool option" where
  "test_duplicate_train_not_redelivered = do {
     node \<leftarrow> issued_node UniformTotalOrder;
     let t = fully_acked_train 1 1 [pl 1 0 [120]];
     (node, o1) \<leftarrow> arrives t node;
     (node, o2) \<leftarrow> arrives t node;
     (node, o3) \<leftarrow> arrives t node;
     Some (deliveries o1 = 0 \<and> deliveries o2 = 1 \<and> deliveries o3 = 0)
   }"

definition node_tests :: "bool option list" where
  "node_tests =
     [test_broadcast_queues_payload, test_lap2_delivers, test_confirm_crash_recovers_delivery, test_readmit_node_restores_membership,
      test_state_transfer_makes_joiner_consistent, test_freeze_suspends_delivery, test_apply_recovery_records_skips_and_delivers,
      test_partial_ack_no_delivery_but_forwarded, test_clock_gap_triggers_declare_crash, test_pending_loaded_onto_foreign_train,
      test_returning_train_two_lap_then_recycle, test_out_of_order_arrival_parks, test_duplicate_train_not_redelivered]"

lemma node_tests_pass: "list_all (\<lambda>t. t = Some True) node_tests"
  by code_simp

end
