(* ===== verification/Recovery_Tests.thy ===== *)
theory Recovery_Tests
  imports View_Change Failure_Detector Core_Tests
begin

text \<open>
  The unit tests of \<^verbatim>\<open>trains-recovery\<close> (\<^verbatim>\<open>failure_detector.rs\<close>, \<^verbatim>\<open>view_change.rs\<close>) and of the tokens of \<^verbatim>\<open>wire.rs\<close> on the model.
  The encoding of the tokens, which is \<^verbatim>\<open>bincode\<close>'s, is left out of the last one.
\<close>

section \<open>\<^verbatim>\<open>failure_detector.rs\<close>\<close>

definition test_single_gap_hint :: "bool option" where
  "test_single_gap_hint = do {
     fd \<leftarrow> fd_new 3 3;
     let (fd, r) = record_gap_hint 2 fd;
     Some (r = None \<and> suspicion fd 2 = 1 \<and> \<not> is_confirmed fd 2)
   }"

definition test_n_strikes_confirm :: "bool option" where
  "test_n_strikes_confirm = do {
     fd \<leftarrow> fd_new 3 3;
     let (fd, r1) = record_gap_hint 2 fd;
     let (fd, r2) = record_gap_hint 2 fd;
     let (fd, r3) = record_gap_hint 2 fd;
     Some (r1 = None \<and> r2 = None \<and> r3 = Some 2 \<and> is_confirmed fd 2)
   }"

definition test_note_alive_resets_suspicion :: "bool option" where
  "test_note_alive_resets_suspicion = do {
     fd \<leftarrow> fd_new 3 3;
     let (fd, _) = record_gap_hint 2 fd;
     let (fd, _) = record_gap_hint 2 fd;
     let s1 = suspicion fd 2;
     let fd = note_alive 2 fd;
     let s2 = suspicion fd 2;
     let (fd, r1) = record_gap_hint 2 fd;
     let (fd, r2) = record_gap_hint 2 fd;
     Some (s1 = 2 \<and> s2 = 0 \<and> r1 = None \<and> r2 = None \<and> \<not> is_confirmed fd 2)
   }"

definition test_disconnect_confirms_immediately :: "bool option" where
  "test_disconnect_confirms_immediately = do {
     fd \<leftarrow> fd_new 3 3;
     let (fd, r) = record_disconnect 1 fd;
     Some (r = Some 1 \<and> is_confirmed fd 1)
   }"

definition test_disconnect_accrues :: "bool option" where
  "test_disconnect_accrues = do {
     fd \<leftarrow> fd_new 5 2;
     let (fd, r1) = record_disconnect 1 fd;
     let (fd, r2) = record_disconnect 1 fd;
     let (fd, r3) = record_disconnect 1 fd;
     Some (r1 = None \<and> r2 = None \<and> r3 = Some 1)
   }"

definition test_confirmation_is_idempotent :: "bool option" where
  "test_confirmation_is_idempotent = do {
     fd \<leftarrow> fd_new 1 1;
     let (fd, r1) = record_gap_hint 2 fd;
     let (fd, r2) = record_gap_hint 2 fd;
     let (fd, r3) = record_disconnect 2 fd;
     Some (r1 = Some 2 \<and> r2 = None \<and> r3 = None \<and> is_confirmed fd 2)
   }"

definition test_note_alive_does_not_unconfirm :: "bool option" where
  "test_note_alive_does_not_unconfirm = do {
     fd \<leftarrow> fd_new 1 1;
     let (fd, _) = record_gap_hint 2 fd;
     let b1 = is_confirmed fd 2;
     let fd = note_alive 2 fd;
     Some (b1 \<and> is_confirmed fd 2)
   }"

definition test_independent_victims :: "bool option" where
  "test_independent_victims = do {
     fd \<leftarrow> fd_new 2 2;
     let (fd, r1) = record_gap_hint 1 fd;
     let (fd, r2) = record_gap_hint 2 fd;
     let fd = note_alive 1 fd;
     let (fd, r3) = record_gap_hint 2 fd;
     Some (r1 = None \<and> r2 = None \<and> r3 = Some 2 \<and> \<not> is_confirmed fd 1)
   }"

section \<open>\<^verbatim>\<open>view_change.rs\<close>: exclusion\<close>

definition blank_report :: recovery_report where
  "blank_report = \<lparr>rr_seen = replicate (RING_SIZE test_build) 0, rr_issued = replicate (RING_SIZE test_build) 0, rr_done = {}, rr_have = []\<rparr>"

fun applies :: "vc_action \<Rightarrow> bool" where
  "applies (Apply _) = True"
| "applies (Send _) = False"

definition test_coordinator_initiates_gather :: "bool option" where
  "test_coordinator_initiates_gather = do {
     (vc, acts) \<leftarrow> on_confirm test_build 2 blank_report (vc_new 0 3);
     case acts of
       [Send (Gather v k x reports)] \<Rightarrow>
         Some (v = 1 \<and> k = 0 \<and> x = 2 \<and> length reports = 1 \<and> fst (reports ! 0) = 0 \<and> is_dead vc 2)
     | _ \<Rightarrow> None
   }"

definition test_detector_initiates_routing_gather :: "bool option" where
  "test_detector_initiates_routing_gather = do {
     (vc, acts) \<leftarrow> on_confirm test_build 2 blank_report (vc_new 1 3);
     case acts of
       [Send (Gather v k x reports)] \<Rightarrow> Some (k = 0 \<and> fst (reports ! 0) = 1 \<and> is_dead vc 2)
     | _ \<Rightarrow> None
   }"

definition test_coordinator_forwards_incomplete_gather :: "bool option" where
  "test_coordinator_forwards_incomplete_gather =
     (let (vc, acts) = on_gather test_build (Gather 1 0 4 [(3, blank_report)]) blank_report (vc_new 0 5)
      in case acts of
           [Send (Gather v k x reports)] \<Rightarrow>
             Some (0 \<in> set (map fst reports) \<and> 3 \<in> set (map fst reports) \<and> 1 \<notin> set (map fst reports) \<and> installed_view vc = 0)
         | _ \<Rightarrow> None)"

definition test_non_coordinator_forwards_gather :: "bool option" where
  "test_non_coordinator_forwards_gather =
     (let (vc, acts) = on_gather test_build (Gather 1 0 2 [(0, blank_report)]) blank_report (vc_new 1 3)
      in case acts of [Send (Gather v k x reports)] \<Rightarrow> Some (map fst reports = [0, 1]) | _ \<Rightarrow> None)"

definition test_coordinator_completes_gather :: "bool option" where
  "test_coordinator_completes_gather = do {
     (vc, _) \<leftarrow> on_confirm test_build 2 blank_report (vc_new 0 3);
     let (vc, acts) = on_gather test_build (Gather 1 0 2 [(0, blank_report), (1, blank_report)]) blank_report vc;
     case acts of
       [act, Send (Install v k x plan)] \<Rightarrow> Some (applies act \<and> v = 1 \<and> installed_view vc = 1)
     | _ \<Rightarrow> None
   }"

definition test_install_applies_forwards_drops :: "bool option" where
  "test_install_applies_forwards_drops =
     (let plan = compute_recovery_plan test_build [blank_report, blank_report];
          install = Install 1 0 2 plan;
          (vc, acts) = on_install install (vc_new 1 3);
          (vc', acts') = on_install install vc
      in case acts of
           [act, Send (Install _ _ _ _)] \<Rightarrow> Some (applies act \<and> installed_view vc = 1 \<and> acts' = [])
         | _ \<Rightarrow> None)"

definition test_stale_gather_is_fenced :: "bool option" where
  "test_stale_gather_is_fenced =
     (let (vc, _) = on_install (Install 1 0 2 (compute_recovery_plan test_build [blank_report])) (vc_new 1 3);
          (vc', acts) = on_gather test_build (Gather 1 0 2 [(0, blank_report)]) blank_report vc
      in Some (installed_view vc = 1 \<and> acts = []))"

section \<open>\<^verbatim>\<open>view_change.rs\<close>: re-admission\<close>

definition test_rejoiner_requests_readmit :: "bool option" where
  "test_rejoiner_requests_readmit = do {
     (vc, acts) \<leftarrow> on_request_readmit test_build blank_report (adopt_view 1 [2] (vc_new 2 3));
     case acts of
       [Send (ReAdmitGather v k q reports)] \<Rightarrow> Some (v = 2 \<and> k = 0 \<and> q = 2 \<and> fst (reports ! 0) = 2)
     | _ \<Rightarrow> None
   }"

definition test_non_coordinator_forwards_readmit_gather :: "bool option" where
  "test_non_coordinator_forwards_readmit_gather =
     (let (vc, acts) = on_readmit_gather test_build (ReAdmitGather 2 0 2 [(2, blank_report)]) blank_report (adopt_view 1 [2] (vc_new 1 3))
      in case acts of
           [Send (ReAdmitGather _ _ _ reports)] \<Rightarrow> Some (map fst reports = [2, 1] \<and> is_dead vc 2)
         | _ \<Rightarrow> None)"

definition test_coordinator_completes_readmit_gather :: "bool option" where
  "test_coordinator_completes_readmit_gather =
     (let vc0 = adopt_view 1 [2] (vc_new 0 3);
          (vc, acts) = on_readmit_gather test_build (ReAdmitGather 2 0 2 [(2, blank_report), (1, blank_report)]) blank_report vc0
      in case acts of
           [act, Send (ReAdmitInstall v _ q _ _)] \<Rightarrow>
             Some (is_dead vc0 2 \<and> applies act \<and> v = 2 \<and> q = 2 \<and> installed_view vc = 2 \<and> \<not> is_dead vc 2)
         | _ \<Rightarrow> None)"

definition test_coordinator_forwards_incomplete_readmit_gather :: "bool option" where
  "test_coordinator_forwards_incomplete_readmit_gather =
     (let (vc, acts) = on_readmit_gather test_build (ReAdmitGather 2 0 4 [(4, blank_report)]) blank_report (adopt_view 1 [4] (vc_new 0 5))
      in case acts of
           [Send (ReAdmitGather _ _ _ _)] \<Rightarrow> Some (installed_view vc = 1 \<and> is_dead vc 4)
         | _ \<Rightarrow> None)"

definition test_readmit_install_grows_membership :: "bool option" where
  "test_readmit_install_grows_membership =
     (let install = ReAdmitInstall 2 0 2 (compute_recovery_plan test_build [blank_report, blank_report]) 0;
          (vc, acts) = on_readmit_install install (adopt_view 1 [2] (vc_new 1 3));
          (vc', acts') = on_readmit_install install vc
      in case acts of
           [act, Send (ReAdmitInstall _ _ _ _ _)] \<Rightarrow>
             Some (applies act \<and> installed_view vc = 2 \<and> \<not> is_dead vc 2 \<and> acts' = [])
         | _ \<Rightarrow> None)"

definition test_stale_readmit_gather_is_fenced :: "bool option" where
  "test_stale_readmit_gather_is_fenced =
     (let (vc, acts) = on_readmit_gather test_build (ReAdmitGather 2 0 2 [(2, blank_report)]) blank_report (adopt_view 2 [] (vc_new 1 3))
      in Some (acts = []))"

text \<open>The two loops of the ring test: the gather until an install comes out, the install until it is dropped.\<close>

fun readmit_install_of :: "vc_action list \<Rightarrow> view_change_msg option" where
  "readmit_install_of [] = None"
| "readmit_install_of (Send (ReAdmitInstall v k q p src) # acts) = Some (ReAdmitInstall v k q p src)"
| "readmit_install_of (_ # acts) = readmit_install_of acts"

fun readmit_gather_of :: "vc_action list \<Rightarrow> view_change_msg option" where
  "readmit_gather_of [] = None"
| "readmit_gather_of (Send (ReAdmitGather v k q R) # acts) = Some (ReAdmitGather v k q R)"
| "readmit_gather_of (_ # acts) = readmit_gather_of acts"

fun sent_of :: "vc_action list \<Rightarrow> view_change_msg option" where
  "sent_of [] = None"
| "sent_of (Send m # acts) = Some m"
| "sent_of (Apply p # acts) = sent_of acts"

fun gather_loop :: "nat \<Rightarrow> proc_id \<Rightarrow> view_change_msg \<Rightarrow> view_change list \<Rightarrow> (view_change list \<times> view_change_msg) option" where
  "gather_loop 0 i token vc = None"
| "gather_loop (Suc f) i token vc =
     (let (v, acts) = on_readmit_gather test_build token blank_report (vc ! i);
          vc1 = vc[i := v]
      in case readmit_install_of acts of
           Some m \<Rightarrow> Some (vc1, m)
         | None \<Rightarrow> do { next_token \<leftarrow> readmit_gather_of acts; gather_loop f ((i + 1) mod 3) next_token vc1 })"

fun install_loop :: "nat \<Rightarrow> proc_id \<Rightarrow> view_change_msg \<Rightarrow> view_change list \<Rightarrow> view_change list" where
  "install_loop 0 i token vc = vc"
| "install_loop (Suc f) i token vc =
     (let (v, acts) = on_readmit_install token (vc ! i);
          vc1 = vc[i := v]
      in case sent_of acts of Some m \<Rightarrow> install_loop f ((i + 1) mod 3) m vc1 | None \<Rightarrow> vc1)"

definition test_readmit_converges_across_the_ring :: "bool option" where
  "test_readmit_converges_across_the_ring = do {
     let vc = map (\<lambda>i. adopt_view 1 [2] (vc_new i 3)) [0..<3];
     (v2, seeded) \<leftarrow> on_request_readmit test_build blank_report (vc ! 2);
     case seeded of
       [Send token] \<Rightarrow> do {
         (vc, install) \<leftarrow> gather_loop 9 0 token (vc[2 := v2]);
         let vc = install_loop 9 1 install vc;
         Some (list_all (\<lambda>v. installed_view v = 2 \<and> \<not> is_dead v 2) vc)
       }
     | _ \<Rightarrow> None
   }"

section \<open>\<^verbatim>\<open>wire.rs\<close>\<close>

definition test_readmit_token_accessors :: "bool option" where
  "test_readmit_token_accessors =
     (let gather = ReAdmitGather 7 0 2 [(0, blank_report)];
          install = ReAdmitInstall 7 0 2 (compute_recovery_plan test_build [blank_report]) 0;
          excl = Gather 1 0 2 []
      in Some (msg_view_id gather = 7 \<and> msg_rejoiner gather = Some 2 \<and> msg_victim gather = None \<and>
           msg_rejoiner install = Some 2 \<and> msg_victim excl = Some 2 \<and> msg_rejoiner excl = None))"

definition recovery_tests :: "bool option list" where
  "recovery_tests =
     [test_single_gap_hint, test_n_strikes_confirm, test_note_alive_resets_suspicion, test_disconnect_confirms_immediately,
      test_disconnect_accrues, test_confirmation_is_idempotent, test_note_alive_does_not_unconfirm, test_independent_victims,
      test_coordinator_initiates_gather, test_detector_initiates_routing_gather, test_coordinator_forwards_incomplete_gather,
      test_non_coordinator_forwards_gather, test_coordinator_completes_gather, test_install_applies_forwards_drops,
      test_stale_gather_is_fenced, test_rejoiner_requests_readmit, test_non_coordinator_forwards_readmit_gather,
      test_coordinator_completes_readmit_gather, test_coordinator_forwards_incomplete_readmit_gather,
      test_readmit_install_grows_membership, test_stale_readmit_gather_is_fenced, test_readmit_converges_across_the_ring,
      test_readmit_token_accessors]"

lemma recovery_tests_pass: "list_all (\<lambda>t. t = Some True) recovery_tests"
  by code_simp

end
