(* ===== verification/Unicode_Text.thy ===== *)
theory Unicode_Text
  imports Types
begin

text \<open>
  The string functions of the Rust standard library that the code outside the protocol core uses:
  trimming, splitting at a character, parsing an unsigned integer, reading lines. Text is
  a list of Unicode scalar values.
\<close>

type_synonym utext = "nat list"

text \<open>\<^verbatim>\<open>char::is_whitespace\<close>: the characters with the property \<open>White_Space\<close>.\<close>

definition is_whitespace :: "nat \<Rightarrow> bool" where
  "is_whitespace ch \<longleftrightarrow> 9 \<le> ch \<and> ch \<le> 13 \<or> ch \<in> {32, 133, 160, 5760, 8232, 8233, 8239, 8287, 12288} \<or>
     8192 \<le> ch \<and> ch \<le> 8202"

definition trim :: "utext \<Rightarrow> utext" where
  "trim s = rev (dropWhile is_whitespace (rev (dropWhile is_whitespace s)))"

text \<open>\<^verbatim>\<open>str::as_bytes\<close> and \<^verbatim>\<open>str::len\<close>: the UTF-8 bytes and their number.\<close>

definition utf8_char :: "nat \<Rightarrow> byte list" where
  "utf8_char ch =
     (if ch < 128 then [of_nat ch]
      else if ch < 2048 then [of_nat (192 + ch div 64), of_nat (128 + ch mod 64)]
      else if ch < 65536 then
        [of_nat (224 + ch div 4096), of_nat (128 + ch div 64 mod 64), of_nat (128 + ch mod 64)]
      else [of_nat (240 + ch div 262144), of_nat (128 + ch div 4096 mod 64),
            of_nat (128 + ch div 64 mod 64), of_nat (128 + ch mod 64)])"

definition utf8_bytes :: "utext \<Rightarrow> byte list" where
  "utf8_bytes s = concat (map utf8_char s)"

definition utf8_len :: "utext \<Rightarrow> nat" where
  "utf8_len s = length (utf8_bytes s)"

text \<open>\<^verbatim>\<open>str::split\<close> and \<^verbatim>\<open>str::split_once\<close> at a character.\<close>

fun split_at :: "nat \<Rightarrow> utext \<Rightarrow> utext list" where
  "split_at d [] = [[]]"
| "split_at d (ch # cs) =
     (if ch = d then [] # split_at d cs
      else case split_at d cs of [] \<Rightarrow> [[ch]] | w # ws \<Rightarrow> (ch # w) # ws)"

fun split_once :: "nat \<Rightarrow> utext \<Rightarrow> (utext \<times> utext) option" where
  "split_once d [] = None"
| "split_once d (ch # cs) =
     (if ch = d then Some ([], cs)
      else map_option (\<lambda>(a, b). (ch # a, b)) (split_once d cs))"

text \<open>\<^verbatim>\<open>str::parse\<close> for an unsigned integer type with the given maximum.\<close>

definition parse_unsigned :: "nat \<Rightarrow> utext \<Rightarrow> nat option" where
  "parse_unsigned bound s =
     (if list_all (\<lambda>ch. ch < 128) s then parse_uint bound (map char_of s) else None)"

text \<open>\<^verbatim>\<open>BufRead::lines\<close>: a line ends at a newline, which is dropped together with a carriage
  return before it; text after the last newline is a line of its own.\<close>

definition strip_cr :: "utext \<Rightarrow> utext" where
  "strip_cr l = (if l \<noteq> [] \<and> last l = 13 then butlast l else l)"

fun split_lines :: "utext \<Rightarrow> utext \<Rightarrow> utext list" where
  "split_lines acc [] = (if acc = [] then [] else [acc])"
| "split_lines acc (ch # cs) =
     (if ch = 10 then strip_cr acc # split_lines [] cs else split_lines (acc @ [ch]) cs)"

section \<open>Lemmas\<close>

lemma dropWhile_all: "\<forall>x\<in>set xs. P x \<Longrightarrow> dropWhile P (xs @ ys) = dropWhile P ys"
  by (induction xs) auto

text \<open>Trimming removes the white space around a text that neither starts nor ends with any.\<close>

lemma trim_padded:
  assumes "\<forall>x\<in>set a. is_whitespace x" and "\<forall>x\<in>set b. is_whitespace x"
    and "s = [] \<or> \<not> is_whitespace (hd s) \<and> \<not> is_whitespace (last s)"
  shows "trim (a @ s @ b) = s"
proof (cases s rule: rev_cases)
  case Nil
  then have "\<forall>x\<in>set (a @ s @ b). is_whitespace x" using assms(1,2) by auto
  then have "dropWhile is_whitespace (a @ s @ b) = []" by (simp only: dropWhile_eq_Nil_conv)
  then show ?thesis using Nil unfolding trim_def by (simp only: rev.simps dropWhile.simps)
next
  case (snoc ys y)
  then have "\<not> is_whitespace (hd s)" "s \<noteq> []" using assms(3) by auto
  then have "dropWhile is_whitespace (a @ s @ b) = s @ b"
    by (cases s) (simp_all add: dropWhile_all [OF assms(1)])
  moreover have "dropWhile is_whitespace (rev (s @ b)) = rev s"
    using snoc assms(2,3) dropWhile_all [of "rev b" is_whitespace "rev s"] by simp
  ultimately show ?thesis by (simp add: trim_def)
qed

lemma trim_clean: "\<forall>x\<in>set s. \<not> is_whitespace x \<Longrightarrow> trim s = s"
  using trim_padded [of "[]" "[]" s] by (metis append.left_neutral append.right_neutral hd_in_set last_in_set list.set(1) empty_iff)

lemma trim_ends:
  assumes ne: "trim s \<noteq> []"
  shows "\<not> is_whitespace (hd (trim s))" "\<not> is_whitespace (last (trim s))"
proof -
  let ?u = "dropWhile is_whitespace s"
  have ne': "dropWhile is_whitespace (rev ?u) \<noteq> []" using ne by (simp add: trim_def)
  then have "\<not> is_whitespace (hd (dropWhile is_whitespace (rev ?u)))" by (rule hd_dropWhile)
  then show "\<not> is_whitespace (last (trim s))" by (simp add: trim_def last_rev)
  obtain zs where "rev ?u = zs @ dropWhile is_whitespace (rev ?u)" by (metis takeWhile_dropWhile_id)
  then have "?u = trim s @ rev zs" unfolding trim_def by (metis rev_append rev_rev_ident)
  then have "hd (trim s) = hd ?u" "?u \<noteq> []" using ne by (simp_all add: hd_append)
  then show "\<not> is_whitespace (hd (trim s))" using hd_dropWhile by metis
qed

lemma trim_idem: "trim (trim s) = trim s"
  using trim_padded [of "[]" "[]" "trim s"] trim_ends [of s] by auto

lemma trim_eq_Nil: "trim s = [] \<longleftrightarrow> (\<forall>x\<in>set s. is_whitespace x)"
proof
  assume "trim s = []"
  then have "\<forall>x\<in>set (dropWhile is_whitespace s). is_whitespace x"
    by (simp add: trim_def dropWhile_eq_Nil_conv)
  then have "dropWhile is_whitespace s = []" using hd_dropWhile hd_in_set by blast
  then show "\<forall>x\<in>set s. is_whitespace x" by (simp only: dropWhile_eq_Nil_conv)
next
  assume "\<forall>x\<in>set s. is_whitespace x"
  then have "dropWhile is_whitespace s = []" by (simp only: dropWhile_eq_Nil_conv)
  then show "trim s = []" unfolding trim_def by (simp only: rev.simps dropWhile.simps)
qed

lemma split_once_eq: "d \<notin> set a \<Longrightarrow> split_once d (a @ d # b) = Some (a, b)"
  by (induction a) auto

lemma split_once_None: "split_once d s = None \<longleftrightarrow> d \<notin> set s"
  by (induction s) auto

lemma split_at_ne: "split_at d s \<noteq> []"
  by (cases s) (auto split: list.split)

lemma split_at_word: "d \<notin> set w \<Longrightarrow> split_at d w = [w]"
  by (induction w) auto

lemma split_at_app: "d \<notin> set w \<Longrightarrow> split_at d (w @ d # s) = w # split_at d s"
  by (induction w) auto

text \<open>Joining words that do not contain the separator, and splitting them again.\<close>

fun join_with :: "nat \<Rightarrow> utext list \<Rightarrow> utext" where
  "join_with d [] = []"
| "join_with d [w] = w"
| "join_with d (w # ws) = w @ d # join_with d ws"

lemma split_at_join: "ws \<noteq> [] \<Longrightarrow> \<forall>w\<in>set ws. d \<notin> set w \<Longrightarrow> split_at d (join_with d ws) = ws"
  by (induction d ws rule: join_with.induct) (simp_all add: split_at_word split_at_app)

lemma split_lines_line:
  assumes "10 \<notin> set l" and "13 \<notin> set (acc @ l)"
  shows "split_lines acc (l @ 10 # cs) = (acc @ l) # split_lines [] cs"
  using assms
proof (induction l arbitrary: acc)
  case Nil
  then have "\<not> (acc \<noteq> [] \<and> last acc = 13)" using last_in_set by fastforce
  then have "strip_cr acc = acc" by (simp only: strip_cr_def if_False)
  then show ?case by simp
qed auto

lemma utf8_len_ascii: "\<forall>ch\<in>set s. ch < 128 \<Longrightarrow> utf8_len s = length s"
  by (induction s) (auto simp: utf8_len_def utf8_bytes_def utf8_char_def)

end
