(* ===== verification/Ao.thy ===== *)
theory Ao
  imports Soup_Safety Unicode_Text
begin

text \<open>
  \<^verbatim>\<open>crates/trains-ao/src\<close>: the envelopes of an AO host (\<^verbatim>\<open>envelope.rs\<close>) and the adapter that feeds them to
  a node (\<^verbatim>\<open>adapter.rs\<close>). The JSON values come from \<^verbatim>\<open>serde_json\<close>, so their type is a parameter
  and the operations the code uses on them are the fields of \<open>json_ops\<close>; \<open>json_ops_ok\<close> says what
  the code relies on. Adapters whose host passes their envelopes on are then a network as in \<open>Soup\<close>.
\<close>

section \<open>Envelopes\<close>

datatype envelope_kind =
    EK_AppBroadcast | EK_TrainArrived | EK_Tick | EK_ForwardTrain | EK_Deliver | EK_DeclareCrash

record 'v envelope =
  kind :: envelope_kind
  env_from :: "proc_id option"
  env_data :: 'v

record 'v json_ops =
  json_null :: 'v
  json_bytes :: "byte list \<Rightarrow> 'v"
  json_get_bytes :: "'v \<Rightarrow> 'v option"
  json_as_array :: "'v \<Rightarrow> 'v list option"
  json_as_u64 :: "'v \<Rightarrow> nat option"
  json_of_train :: "train \<Rightarrow> 'v"
  json_to_train :: "'v \<Rightarrow> train option"
  json_of_payloads :: "payload list \<Rightarrow> 'v"

definition app_broadcast_env :: "'v json_ops \<Rightarrow> byte list \<Rightarrow> 'v envelope" where
  "app_broadcast_env J bytes = \<lparr>kind = EK_AppBroadcast, env_from = None, env_data = json_bytes J bytes\<rparr>"

definition train_arrived_env :: "'v json_ops \<Rightarrow> train \<Rightarrow> 'v envelope" where
  "train_arrived_env J t = \<lparr>kind = EK_TrainArrived, env_from = Some (issuer t), env_data = json_of_train J t\<rparr>"

definition forward_train_env :: "'v json_ops \<Rightarrow> train \<Rightarrow> 'v envelope" where
  "forward_train_env J t = \<lparr>kind = EK_ForwardTrain, env_from = Some (issuer t), env_data = json_of_train J t\<rparr>"

definition deliver_env :: "'v json_ops \<Rightarrow> payload list \<Rightarrow> 'v envelope" where
  "deliver_env J ps = \<lparr>kind = EK_Deliver, env_from = None, env_data = json_of_payloads J ps\<rparr>"

definition declare_crash_env :: "'v json_ops \<Rightarrow> proc_id \<Rightarrow> 'v envelope" where
  "declare_crash_env J v = \<lparr>kind = EK_DeclareCrash, env_from = Some v, env_data = json_null J\<rparr>"

definition tick_env :: "'v json_ops \<Rightarrow> 'v envelope" where
  "tick_env J = \<lparr>kind = EK_Tick, env_from = None, env_data = json_null J\<rparr>"

text \<open>\<^verbatim>\<open>for v in arr { out.push(v.as_u64()? as u8) }\<close>; the cast keeps the low eight bits.\<close>

fun array_bytes :: "'v json_ops \<Rightarrow> 'v list \<Rightarrow> byte list option" where
  "array_bytes J [] = Some []"
| "array_bytes J (v # vs) = do {
     n \<leftarrow> json_as_u64 J v;
     out \<leftarrow> array_bytes J vs;
     Some (of_nat n # out)
   }"

definition as_app_broadcast_bytes :: "'v json_ops \<Rightarrow> 'v envelope \<Rightarrow> byte list option" where
  "as_app_broadcast_bytes J env =
     (if kind env \<noteq> EK_AppBroadcast then None
      else do {
        b \<leftarrow> json_get_bytes J (env_data env);
        arr \<leftarrow> json_as_array J b;
        array_bytes J arr
      })"

definition as_train :: "'v json_ops \<Rightarrow> 'v envelope \<Rightarrow> train option" where
  "as_train J env = (if kind env \<noteq> EK_TrainArrived then None else json_to_train J (env_data env))"

section \<open>The adapter\<close>

datatype adapter_error = NotAnInputKind envelope_kind | BadPayload envelope_kind

record ao_trains_node =
  ao_inner :: trains_node
  ao_id :: proc_id

definition ao_new :: "config \<Rightarrow> proc_id \<Rightarrow> delivery_mode \<Rightarrow> ao_trains_node option" where
  "ao_new c i m = map_option (\<lambda>n. \<lparr>ao_inner = n, ao_id = i\<rparr>) (node_new c i m)"

definition ao_issue_initial ::
    "config \<Rightarrow> 'v json_ops \<Rightarrow> ao_trains_node \<Rightarrow> (ao_trains_node \<times> 'v envelope) option" where
  "ao_issue_initial c J a = do {
     (n, t) \<leftarrow> issue_initial_train c (ao_inner a);
     Some (a\<lparr>ao_inner := n\<rparr>, forward_train_env J t)
   }"

fun out_env :: "'v json_ops \<Rightarrow> node_output \<Rightarrow> 'v envelope" where
  "out_env J (ForwardTrain t) = forward_train_env J t"
| "out_env J (Deliver ps) = deliver_env J ps"
| "out_env J (DeclareCrash v) = declare_crash_env J v"

definition env_input :: "'v json_ops \<Rightarrow> 'v envelope \<Rightarrow> adapter_error + node_input" where
  "env_input J env =
     (case kind env of
        EK_AppBroadcast \<Rightarrow>
          (case as_app_broadcast_bytes J env of
             None \<Rightarrow> Inl (BadPayload (kind env)) | Some bytes \<Rightarrow> Inr (LocalBroadcast bytes))
      | EK_TrainArrived \<Rightarrow>
          (case as_train J env of
             None \<Rightarrow> Inl (BadPayload (kind env)) | Some t \<Rightarrow> Inr (TrainReceived t))
      | EK_Tick \<Rightarrow> Inr Tick
      | other \<Rightarrow> Inl (NotAnInputKind other))"

definition feed ::
    "config \<Rightarrow> 'v json_ops \<Rightarrow> 'v envelope \<Rightarrow> ao_trains_node \<Rightarrow>
     (ao_trains_node \<times> (adapter_error + 'v envelope list)) option" where
  "feed c J env a =
     (case env_input J env of
        Inl e \<Rightarrow> Some (a, Inl e)
      | Inr inp \<Rightarrow> do {
          (n, outs) \<leftarrow> step c inp (ao_inner a);
          Some (a\<lparr>ao_inner := n\<rparr>, Inr (map (out_env J) outs))
        })"

section \<open>What the envelopes carry\<close>

text \<open>What \<^verbatim>\<open>serde_json\<close> promises: byte arrays and trains convert back.\<close>

definition json_ops_ok :: "'v json_ops \<Rightarrow> bool" where
  "json_ops_ok J \<longleftrightarrow>
     (\<forall>bs. \<exists>b vs. json_get_bytes J (json_bytes J bs) = Some b \<and> json_as_array J b = Some vs \<and>
        map (json_as_u64 J) vs = map (\<lambda>x. Some (unat x)) bs) \<and>
     (\<forall>t. json_to_train J (json_of_train J t) = Some t)"

fun input_env :: "'v json_ops \<Rightarrow> node_input \<Rightarrow> 'v envelope" where
  "input_env J (LocalBroadcast bs) = app_broadcast_env J bs"
| "input_env J (TrainReceived t) = train_arrived_env J t"
| "input_env J Tick = tick_env J"

lemma array_bytes_map:
  "map (json_as_u64 J) vs = map (\<lambda>x. Some (unat x)) bs \<Longrightarrow> array_bytes J vs = Some bs"
proof (induction vs arbitrary: bs)
  case (Cons v vs)
  then obtain b bs' where "bs = b # bs'" by (cases bs) auto
  with Cons show ?case by simp
qed simp

lemma env_input_encode:
  assumes "json_ops_ok J"
  shows "env_input J (input_env J inp) = Inr inp"
proof (cases inp)
  case (LocalBroadcast bs)
  obtain b vs where "json_get_bytes J (json_bytes J bs) = Some b" "json_as_array J b = Some vs"
      "map (json_as_u64 J) vs = map (\<lambda>x. Some (unat x)) bs"
    using assms unfolding json_ops_ok_def by blast
  then show ?thesis
    using LocalBroadcast array_bytes_map [of J vs bs]
    by (simp add: env_input_def app_broadcast_env_def as_app_broadcast_bytes_def)
qed (use assms in \<open>simp_all add: env_input_def train_arrived_env_def as_train_def tick_env_def json_ops_ok_def\<close>)

text \<open>A byte that does not fit is cut to its low eight bits.\<close>

lemma oversized_byte_is_cut:
  assumes "json_as_u64 J v = Some (256 + k)"
  shows "array_bytes J [v] = Some [of_nat k]"
proof -
  have "(of_nat (256 + k) :: byte) = of_nat k" by simp
  then show ?thesis using assms by simp
qed

text \<open>An instance of the JSON values: trees with the constructors the code meets.\<close>

datatype jv = JNull | JInt nat | JArray "jv list" | JTrain train | JPayloads "payload list"

definition demo_ops :: "jv json_ops" where
  "demo_ops = \<lparr>json_null = JNull, json_bytes = (\<lambda>bs. JArray [JArray (map (\<lambda>b. JInt (unat b)) bs)]),
     json_get_bytes = (\<lambda>v. case v of JArray [x] \<Rightarrow> Some x | _ \<Rightarrow> None),
     json_as_array = (\<lambda>v. case v of JArray xs \<Rightarrow> Some xs | _ \<Rightarrow> None),
     json_as_u64 = (\<lambda>v. case v of JInt n \<Rightarrow> Some n | _ \<Rightarrow> None), json_of_train = JTrain,
     json_to_train = (\<lambda>v. case v of JTrain t \<Rightarrow> Some t | _ \<Rightarrow> None), json_of_payloads = JPayloads\<rparr>"

lemma demo_ops_ok: "json_ops_ok demo_ops"
  by (simp add: json_ops_ok_def demo_ops_def)

section \<open>Adapters in a host\<close>

text \<open>The environment of the adapters: the AO runtime owns the transport. It hands over what applications
  and the watchdog put into the inboxes, and the data of any forwarded train to any adapter, as
  often as it likes or never; other envelopes are refused by an adapter. \<open>asked\<close> are the broadcasts put into
  the inbox of an adapter, \<open>handed\<close> the data of its Deliver envelopes.\<close>

record 'v ao_net =
  adapters :: "proc_id \<Rightarrow> ao_trains_node"
  posted :: "'v envelope list"
  asked :: "proc_id \<Rightarrow> byte list list"
  handed :: "proc_id \<Rightarrow> 'v list"

definition ao_init :: "config \<Rightarrow> delivery_mode \<Rightarrow> 'v ao_net \<Rightarrow> bool" where
  "ao_init c m s \<longleftrightarrow> valid_config c \<and> (\<forall>i<RING_SIZE c. ao_new c i m = Some (adapters s i)) \<and> posted s = [] \<and>
     asked s = (\<lambda>_. []) \<and> handed s = (\<lambda>_. [])"

definition answered :: "proc_id \<Rightarrow> ao_trains_node \<Rightarrow> 'v envelope list \<Rightarrow> 'v ao_net \<Rightarrow> 'v ao_net" where
  "answered i a outs s = s\<lparr>adapters := (adapters s)(i := a), posted := posted s @ outs,
     handed := (handed s)(i := handed s i @ map env_data (filter (\<lambda>e. kind e = EK_Deliver) outs))\<rparr>"

definition arrival :: "'v envelope \<Rightarrow> 'v envelope" where
  "arrival e = e\<lparr>kind := EK_TrainArrived\<rparr>"

inductive ao_step :: "config \<Rightarrow> 'v json_ops \<Rightarrow> 'v ao_net \<Rightarrow> 'v ao_net \<Rightarrow> bool" for c J where
  ao_bcast: "i < RING_SIZE c \<Longrightarrow> feed c J (app_broadcast_env J bs) (adapters s i) = Some (a, Inr outs) \<Longrightarrow>
    ao_step c J s ((answered i a outs s)\<lparr>asked := (asked s)(i := asked s i @ [bs])\<rparr>)"
| ao_tick: "i < RING_SIZE c \<Longrightarrow> feed c J (tick_env J) (adapters s i) = Some (a, Inr outs) \<Longrightarrow>
    ao_step c J s (answered i a outs s)"
| ao_train: "i < RING_SIZE c \<Longrightarrow> e \<in> set (posted s) \<Longrightarrow> kind e = EK_ForwardTrain \<Longrightarrow>
    feed c J (arrival e) (adapters s i) = Some (a, Inr outs) \<Longrightarrow> ao_step c J s (answered i a outs s)"
| ao_issue: "i < NUM_TRAINS c \<Longrightarrow> ao_issue_initial c J (adapters s i) = Some (a, e) \<Longrightarrow> ao_step c J s (answered i a [e] s)"
| ao_refused: "i < RING_SIZE c \<Longrightarrow> feed c J e (adapters s i) = Some (a, Inl err) \<Longrightarrow> ao_step c J s (answered i a [] s)"

abbreviation ao_reach :: "config \<Rightarrow> delivery_mode \<Rightarrow> 'v json_ops \<Rightarrow> 'v ao_net \<Rightarrow> bool" where
  "ao_reach c m J \<equiv> reach (ao_init c m) (ao_step c J)"

definition ao_sim :: "config \<Rightarrow> 'v json_ops \<Rightarrow> 'v ao_net \<Rightarrow> net \<Rightarrow> bool" where
  "ao_sim c J s x \<longleftrightarrow> (\<forall>i<RING_SIZE c. ao_inner (adapters s i) = nodes x i) \<and>
     (\<forall>e\<in>set (posted s). kind e = EK_ForwardTrain \<longrightarrow> (\<exists>t\<in>sent x. env_data e = json_of_train J t)) \<and>
     (\<forall>i. handed s i = map (json_of_payloads J) (dlog x i)) \<and> asked s = submitted x"

lemma out_envs:
  "map env_data (filter (\<lambda>e. kind e = EK_Deliver) (map (out_env J) outs)) = map (json_of_payloads J) (batches outs)"
  "e \<in> set (map (out_env J) outs) \<Longrightarrow> kind e = EK_ForwardTrain \<Longrightarrow> \<exists>t\<in>set (sends outs). env_data e = json_of_train J t"
proof (induction outs)
  case (Cons out outs)
  {
    case 1
    then show ?case using Cons.IH(1) by (cases out) (simp_all add: forward_train_env_def deliver_env_def declare_crash_env_def)
  next
    case 2
    then show ?case using Cons.IH(2) by (cases out) (auto simp: forward_train_env_def deliver_env_def declare_crash_env_def)
  }
qed simp_all

lemma feed_input:
  assumes "env_input J env = Inr inp" and "feed c J env a = Some (a', Inr envs)"
  obtains n outs where "step c inp (ao_inner a) = Some (n, outs)" "a' = a\<lparr>ao_inner := n\<rparr>" "envs = map (out_env J) outs"
  using assms by (auto simp: feed_def split: bind_splits)

lemma ao_sim_answered:
  assumes "ao_sim c J s x"
  shows "ao_sim c J (answered i ((adapters s i)\<lparr>ao_inner := n\<rparr>) (map (out_env J) outs) s) (net_apply i (n, outs) x)"
proof -
  have "\<forall>e\<in>set (posted s) \<union> set (map (out_env J) outs). kind e = EK_ForwardTrain \<longrightarrow>
      (\<exists>t\<in>sent x \<union> set (sends outs). env_data e = json_of_train J t)"
    using assms out_envs(2) [of _ J outs] unfolding ao_sim_def by blast
  then show ?thesis
    using assms out_envs(1) [of J outs] by (simp add: ao_sim_def answered_def net_apply_def del: map_map)
qed

lemma ao_sim_asked:
  "ao_sim c J s x \<Longrightarrow> asked s' = asked s \<Longrightarrow> ao_sim c J (s\<lparr>asked := (asked s')(i := asked s' i @ [bs])\<rparr>) (submit i bs x)"
  by (simp add: ao_sim_def submit_def)

lemma ao_sim_step:
  assumes c: "valid_config c" and J: "json_ops_ok J" and sim: "ao_sim c J s x" and st: "ao_step c J s s'"
  shows "\<exists>x'. (soup_step c)\<^sup>*\<^sup>* x x' \<and> ao_sim c J s' x'"
proof -
  have nodes: "ao_inner (adapters s i) = nodes x i" if "i < RING_SIZE c" for i using sim that by (simp add: ao_sim_def)
  from st show ?thesis
  proof (cases rule: ao_step.cases)
    case (ao_bcast i bs a envs)
    have "env_input J (app_broadcast_env J bs) = Inr (LocalBroadcast bs)" using env_input_encode [OF J, of "LocalBroadcast bs"] by simp
    then obtain n outs where r: "step c (LocalBroadcast bs) (nodes x i) = Some (n, outs)" "a = (adapters s i)\<lparr>ao_inner := n\<rparr>"
        "envs = map (out_env J) outs" using feed_input ao_bcast(3) nodes [OF ao_bcast(2)] by metis
    have "soup_step c x (submit i bs (net_apply i (n, outs) x))" by (rule soup_bcast [OF ao_bcast(2) r(1)])
    moreover have "ao_sim c J s' (submit i bs (net_apply i (n, outs) x))"
      unfolding ao_bcast(1) r(2,3) by (intro ao_sim_asked ao_sim_answered [OF sim]) (simp add: answered_def)
    ultimately show ?thesis by blast
  next
    case (ao_tick i a envs)
    have "env_input J (tick_env J) = Inr Tick" using env_input_encode [OF J, of Tick] by simp
    then obtain n outs where r: "step c Tick (nodes x i) = Some (n, outs)" "a = (adapters s i)\<lparr>ao_inner := n\<rparr>"
        "envs = map (out_env J) outs" using feed_input ao_tick(3) nodes [OF ao_tick(2)] by metis
    have "soup_step c x (net_apply i (n, outs) x)" by (rule soup_tick [OF ao_tick(2) r(1)])
    then show ?thesis using ao_sim_answered [OF sim] ao_tick(1) r(2,3) by blast
  next
    case (ao_train i e a envs)
    obtain t where t: "t \<in> sent x" "env_data e = json_of_train J t" using sim ao_train(3,4) by (auto simp: ao_sim_def)
    have "env_input J (arrival e) = Inr (TrainReceived t)"
      using J t(2) by (simp add: arrival_def env_input_def as_train_def json_ops_ok_def)
    then obtain n outs where r: "step c (TrainReceived t) (nodes x i) = Some (n, outs)" "a = (adapters s i)\<lparr>ao_inner := n\<rparr>"
        "envs = map (out_env J) outs" using feed_input ao_train(5) nodes [OF ao_train(2)] by metis
    have "soup_step c x (net_apply i (n, outs) x)" by (rule soup_recv [OF ao_train(2) t(1) r(1)])
    then show ?thesis using ao_sim_answered [OF sim] ao_train(1) r(2,3) by blast
  next
    case (ao_issue i a e)
    then have i: "i < RING_SIZE c" using valid_configD(5) [OF c] by simp
    obtain n t where t: "issue_initial_train c (nodes x i) = Some (n, t)" "a = (adapters s i)\<lparr>ao_inner := n\<rparr>"
        "[e] = map (out_env J) [ForwardTrain t]"
      using ao_issue(3) nodes [OF i] by (auto simp: ao_issue_initial_def split: bind_splits)
    have "soup_step c x (net_apply i (n, [ForwardTrain t]) x)" by (rule soup_issue [OF ao_issue(2) t(1)])
    moreover have "ao_sim c J s' (net_apply i (n, [ForwardTrain t]) x)"
      unfolding ao_issue(1) t(2,3) by (rule ao_sim_answered [OF sim])
    ultimately show ?thesis by blast
  next
    case (ao_refused i e a err)
    then have "a = adapters s i" by (auto simp: feed_def split: sum.splits bind_splits)
    then have "s' = s" using ao_refused(1) by (simp add: answered_def)
    then show ?thesis using sim by blast
  qed
qed

text \<open>The promise of \<^verbatim>\<open>serde_json\<close> is part of the configuration, so that the simulation has a law to rest on.\<close>

interpretation ao: simulation_system "\<lambda>s. json_ops_ok J \<and> ao_init c m s" "ao_step c J" "soup_init c m" "soup_step c"
  "\<lambda>s x. valid_config c \<and> json_ops_ok J \<and> ao_sim c J s x"
  for c m and J :: "'v json_ops"
proof
  fix s :: "'v ao_net"
  assume s: "json_ops_ok J \<and> ao_init c m s"
  define x where "x = \<lparr>nodes = (\<lambda>i. ao_inner (adapters s i)), sent = {}, dlog = (\<lambda>_. []), submitted = (\<lambda>_. [])\<rparr>"
  have "node_new c i m = Some (ao_inner a)" if "ao_new c i m = Some a" for i a using that by (auto simp: ao_new_def)
  then have "soup_init c m x" using s by (simp add: x_def soup_init_def ao_init_def)
  moreover have "ao_sim c J s x" using s by (simp add: x_def ao_sim_def ao_init_def)
  ultimately show "\<exists>x. soup_init c m x \<and> valid_config c \<and> json_ops_ok J \<and> ao_sim c J s x"
    using s by (auto simp: ao_init_def)
next
  fix s s' x assume "valid_config c \<and> json_ops_ok J \<and> ao_sim c J s x" "ao_step c J s s'"
  then show "\<exists>x'. (soup_step c)\<^sup>*\<^sup>* x x' \<and> valid_config c \<and> json_ops_ok J \<and> ao_sim c J s' x'"
    using ao_sim_step by blast
qed

section \<open>Executing a host\<close>

datatype ao_move = AM_Bcast proc_id "byte list" | AM_Issue proc_id | AM_Train proc_id nat

text \<open>\<open>AM_Train i k\<close> hands the \<open>k\<close>-th posted envelope to adapter \<open>i\<close>.\<close>

definition answered_ok :: "proc_id \<Rightarrow> (ao_trains_node \<times> (adapter_error + 'v envelope list)) option \<Rightarrow> 'v ao_net \<Rightarrow> 'v ao_net option" where
  "answered_ok i r s = (case r of Some (a, Inr outs) \<Rightarrow> Some (answered i a outs s) | _ \<Rightarrow> None)"

fun ao_exec :: "config \<Rightarrow> 'v json_ops \<Rightarrow> ao_move \<Rightarrow> 'v ao_net \<Rightarrow> 'v ao_net option" where
  "ao_exec c J (AM_Bcast i bs) s =
     (if i < RING_SIZE c then
        map_option (\<lambda>s'. s'\<lparr>asked := (asked s)(i := asked s i @ [bs])\<rparr>)
          (answered_ok i (feed c J (app_broadcast_env J bs) (adapters s i)) s)
      else None)"
| "ao_exec c J (AM_Issue i) s =
     (if i < NUM_TRAINS c then map_option (\<lambda>(a, e). answered i a [e] s) (ao_issue_initial c J (adapters s i)) else None)"
| "ao_exec c J (AM_Train i k) s =
     (if i < RING_SIZE c \<and> k < length (posted s) \<and> kind (posted s ! k) = EK_ForwardTrain
      then answered_ok i (feed c J (arrival (posted s ! k)) (adapters s i)) s else None)"

lemma answered_okD: "answered_ok i r s = Some s' \<Longrightarrow> \<exists>a outs. r = Some (a, Inr outs) \<and> s' = answered i a outs s"
  by (auto simp: answered_ok_def split: option.splits sum.splits)

lemma ao_exec_step: "ao_exec c J mv s = Some s' \<Longrightarrow> ao_step c J s s'"
  by (cases mv) (auto split: if_splits dest!: answered_okD intro: ao_step.intros ao_train [OF _ nth_mem])

definition ao_start :: "config \<Rightarrow> delivery_mode \<Rightarrow> 'v ao_net" where
  "ao_start c m = \<lparr>adapters = (\<lambda>i. the (ao_new c i m)), posted = [], asked = (\<lambda>_. []), handed = (\<lambda>_. [])\<rparr>"

definition demo_host :: "ao_move list" where
  "demo_host = [AM_Bcast 0 [7], AM_Issue 0, AM_Train 1 0, AM_Train 0 1, AM_Train 1 1]"

definition demo_ao :: "jv ao_net" where
  "demo_ao = the (fold_opt (ao_exec cfg2 demo_ops) demo_host (ao_start cfg2 UniformTotalOrder))"

lemma demo_ao_facts:
  "fold_opt (ao_exec cfg2 demo_ops) demo_host (ao_start cfg2 UniformTotalOrder) \<noteq> None \<and>
   handed demo_ao 0 = [JPayloads [demo_payload]] \<and> handed demo_ao 1 = [JPayloads [demo_payload]] \<and>
   list_all (\<lambda>k. next_issue_clock (ao_inner (adapters demo_ao k)) < u64_max) [0, 1]"
  by code_simp

section \<open>Properties\<close>



end
