(* ===== verification/Reference.thy ===== *)
theory Reference
  imports Node_Steps "HOL-Library.List_Lexorder"
begin

text \<open>
  \<^verbatim>\<open>verification/reference/src/lib.rs\<close>, the reference implementation the differential tests of
  \<^verbatim>\<open>verification/drt\<close> compare the core with, and the comparison itself. The reference keeps
  plain pairs for keys and a vector of parked trains. The theory proves what the tests
  sample: on the same inputs the two produce the same outputs, step by step.
\<close>

record reference_node =
  r_id :: proc_id
  seen_clk :: "tick list"
  iss_clk :: tick
  r_next_seq :: nat
  r_pending :: "payload list"
  r_done_keys :: "(tick \<times> proc_id) set"
  r_delivered :: "payload list"
  r_parked :: "train list"
  r_broadcast_seen :: "(proc_id \<times> nat) set"
  r_mode :: delivery_mode

text \<open>Indexing a \<^verbatim>\<open>Vec\<close> or an array panics out of range.\<close>

definition index_opt :: "'a list \<Rightarrow> nat \<Rightarrow> 'a option" where
  "index_opt xs i = (if i < length xs then Some (xs ! i) else None)"

definition ref_new :: "config \<Rightarrow> proc_id \<Rightarrow> delivery_mode \<Rightarrow> reference_node option" where
  "ref_new c i m =
     (if i < RING_SIZE c then
        Some \<lparr>r_id = i, seen_clk = replicate (RING_SIZE c) 0, iss_clk = 1, r_next_seq = 0, r_pending = [],
              r_done_keys = {}, r_delivered = [], r_parked = [], r_broadcast_seen = {}, r_mode = m\<rparr>
      else None)"

definition ref_note :: "payload list \<Rightarrow> reference_node \<Rightarrow> reference_node" where
  "ref_note ps r = r\<lparr>r_broadcast_seen := r_broadcast_seen r \<union> payload_id ` set ps\<rparr>"

definition app_broadcast ::
    "config \<Rightarrow> byte list \<Rightarrow> reference_node \<Rightarrow> (reference_node \<times> node_output list) option" where
  "app_broadcast c bytes r =
     (let key = (r_id r, r_next_seq r)
      in if key \<in> r_broadcast_seen r then Some (r, [])
         else do {
           s \<leftarrow> add64 (checks c) (r_next_seq r) 1;
           Some (r\<lparr>r_broadcast_seen := insert key (r_broadcast_seen r),
                   r_pending := r_pending r @ [\<lparr>sender = r_id r, seq = r_next_seq r, data = bytes\<rparr>],
                   r_next_seq := s\<rparr>, [])
         })"

definition ref_issue_new_train :: "config \<Rightarrow> reference_node \<Rightarrow> (reference_node \<times> train) option" where
  "ref_issue_new_train c r = do {
     let tk = sort_payloads (r_pending r);
     let r1 = ref_note tk (r\<lparr>iss_clk := sat_add64 (iss_clk r) 1, r_pending := []\<rparr>);
     t \<leftarrow> add_ack c (r_id r) \<lparr>issuer = r_id r, clock = iss_clk r, payloads = tk, ack_bits = 0\<rparr>;
     Some (r1, t)
   }"

definition ref_issue_initial_train :: "config \<Rightarrow> reference_node \<Rightarrow> (reference_node \<times> train) option" where
  "ref_issue_initial_train c r = ref_issue_new_train c r"

definition ref_ready_to_deliver :: "config \<Rightarrow> ack_bits \<Rightarrow> delivery_mode \<Rightarrow> bool" where
  "ref_ready_to_deliver c acks m = (case m of
       UniformTotalOrder \<Rightarrow> acks = push_bit (RING_SIZE c) 1 - 1
     | TotalOrder \<Rightarrow> acks = push_bit (RING_SIZE c) 1 - 1
     | CausalOrder \<Rightarrow> acks = push_bit (RING_SIZE c) 1 - 1)"

definition ref_is_deliverable :: "config \<Rightarrow> reference_node \<Rightarrow> tick \<times> proc_id \<Rightarrow> bool option" where
  "ref_is_deliverable c r key =
     (if list_ex (\<lambda>t. clock_key_pair t < key) (r_parked r) then Some False
      else do {
        known_done \<leftarrow> all_opt (\<lambda>q. do {
          q_seen \<leftarrow> index_opt (seen_clk r) q;
          if q_seen = 0 then Some True
          else Some (list_all (\<lambda>cl. \<not> ((cl, q) < key \<and> (cl, q) \<notin> r_done_keys r)) [1..<Suc q_seen])
        }) [0..<RING_SIZE c];
        if \<not> known_done then Some False
        else all_opt (\<lambda>q. do { s \<leftarrow> index_opt (seen_clk r) q; Some (\<not> s < fst key) }) [0..<NUM_TRAINS c]
      })"

text \<open>Recording a delivery, as both \<^verbatim>\<open>try_deliver\<close> and \<^verbatim>\<open>drain_parked\<close> do it.\<close>

definition ref_deliver ::
    "tick \<times> proc_id \<Rightarrow> payload list \<Rightarrow> reference_node \<Rightarrow> node_output list \<Rightarrow> reference_node \<times> node_output list" where
  "ref_deliver key ps r outs =
     (let r1 = r\<lparr>r_done_keys := insert key (r_done_keys r)\<rparr>
      in if ps = [] then (r1, outs)
         else let sp = sort_payloads ps
              in (r1\<lparr>r_delivered := r_delivered r1 @ sp\<rparr>, outs @ [Deliver sp]))"

definition ref_try_deliver ::
    "config \<Rightarrow> train \<Rightarrow> reference_node \<Rightarrow> node_output list \<Rightarrow> (reference_node \<times> node_output list) option" where
  "ref_try_deliver c t r outs =
     (if \<not> ref_ready_to_deliver c (ack_bits t) (r_mode r) then Some (r, outs)
      else let key = clock_key_pair t
           in if key \<in> r_done_keys r then Some (r, outs)
              else do {
                ok \<leftarrow> ref_is_deliverable c r key;
                if \<not> ok then
                  Some (if list_ex (\<lambda>s. clock_key_pair s = key) (r_parked r) then r
                        else r\<lparr>r_parked := r_parked r @ [t]\<rparr>, outs)
                else Some (ref_deliver key (payloads t) r outs)
              })"

text \<open>\<^verbatim>\<open>iter().position(..)\<close>, \<^verbatim>\<open>Vec::remove\<close>.\<close>

definition position_of :: "('a \<Rightarrow> bool) \<Rightarrow> 'a list \<Rightarrow> nat option" where
  "position_of P xs = (if list_ex P xs then Some (length (takeWhile (\<lambda>x. \<not> P x) xs)) else None)"

definition vec_remove :: "nat \<Rightarrow> 'a list \<Rightarrow> 'a list" where
  "vec_remove i xs = take i xs @ drop (Suc i) xs"

lemma position_of_Some:
  assumes "position_of P xs = Some i"
  shows "i < length xs" "P (xs ! i)" "xs = take i xs @ xs ! i # drop (Suc i) xs"
proof -
  have i: "i = length (takeWhile (\<lambda>x. \<not> P x) xs)" "\<exists>x\<in>set xs. P x"
    using assms by (auto simp: position_of_def list_ex_iff split: if_splits)
  then have "takeWhile (\<lambda>x. \<not> P x) xs \<noteq> xs" by (auto simp: takeWhile_eq_all_conv)
  then show "i < length xs" using i(1) by (metis leI take_all takeWhile_eq_take)
  then show "P (xs ! i)" using i(1) nth_length_takeWhile by blast
  show "xs = take i xs @ xs ! i # drop (Suc i) xs" using \<open>i < length xs\<close> by (rule id_take_nth_drop)
qed

lemma ref_deliver_parked [simp]: "r_parked (fst (ref_deliver k ps r outs)) = r_parked r"
  by (simp add: ref_deliver_def Let_def)

function ref_drain_parked ::
    "config \<Rightarrow> reference_node \<Rightarrow> node_output list \<Rightarrow> (reference_node \<times> node_output list) option" where
  "ref_drain_parked c r outs = (case iter_min (map clock_key_pair (r_parked r)) of
       None \<Rightarrow> Some (r, outs)
     | Some key \<Rightarrow> do {
         ok \<leftarrow> ref_is_deliverable c r key;
         if \<not> ok then Some (r, outs)
         else do {
           idx \<leftarrow> position_of (\<lambda>t. clock_key_pair t = key) (r_parked r);
           let t = r_parked r ! idx;
           let res = ref_deliver key (payloads t) (r\<lparr>r_parked := vec_remove idx (r_parked r)\<rparr>) outs;
           ref_drain_parked c (fst res) (snd res)
         }
       })"
  by pat_completeness auto
termination
  by (relation "measure (\<lambda>(c, r, outs). length (r_parked r))")
    (auto simp: vec_remove_def case_prod_beta dest: position_of_Some(1))

declare ref_drain_parked.simps [simp del]

definition handle_foreign ::
    "config \<Rightarrow> train \<Rightarrow> reference_node \<Rightarrow> (reference_node \<times> node_output list) option" where
  "handle_foreign c t r = do {
     prev \<leftarrow> index_opt (seen_clk r) (issuer t);
     if prev \<ge> clock t \<and> prev > 0 then do {
       (r1, outs) \<leftarrow> ref_try_deliver c t (ref_note (payloads t) r) [];
       ref_drain_parked c r1 (outs @ [ForwardTrain t])
     }
     else do {
       let outs = (if clock t > sat_add64 prev 1 then [DeclareCrash (issuer t)] else []);
       let tk = sort_payloads (r_pending r);
       let r1 = ref_note tk (r\<lparr>seen_clk := (seen_clk r)[issuer t := clock t], r_pending := []\<rparr>);
       let t1 = t\<lparr>payloads := payloads t @ tk\<rparr>;
       let r2 = ref_note (payloads t1) r1;
       t2 \<leftarrow> add_ack c (r_id r2) t1;
       ref_drain_parked c r2 (outs @ [ForwardTrain t2])
     }
   }"

definition handle_returning ::
    "config \<Rightarrow> train \<Rightarrow> reference_node \<Rightarrow> (reference_node \<times> node_output list) option" where
  "handle_returning c t r = do {
     s \<leftarrow> index_opt (seen_clk r) (r_id r);
     let r1 = (if clock t > s then r\<lparr>seen_clk := (seen_clk r)[r_id r := clock t]\<rparr> else r);
     if clock_key_pair t \<in> r_done_keys r1 then do {
       (r2, t') \<leftarrow> ref_issue_new_train c r1;
       Some (r2, [ForwardTrain t'])
     }
     else do {
       (r2, outs) \<leftarrow> ref_try_deliver c t r1 [];
       (r3, outs') \<leftarrow> ref_drain_parked c r2 outs;
       Some (r3, outs' @ [ForwardTrain t])
     }
   }"

definition ref_handle_train ::
    "config \<Rightarrow> train \<Rightarrow> reference_node \<Rightarrow> (reference_node \<times> node_output list) option" where
  "ref_handle_train c t r = (if issuer t = r_id r then handle_returning c t r else handle_foreign c t r)"

fun ref_step :: "config \<Rightarrow> node_input \<Rightarrow> reference_node \<Rightarrow> (reference_node \<times> node_output list) option" where
  "ref_step c (LocalBroadcast bytes) r = app_broadcast c bytes r"
| "ref_step c (TrainReceived t) r = ref_handle_train c t r"
| "ref_step c Tick r = Some (r, [])"

section \<open>The differential test\<close>

record step_outputs =
  so_forwarded :: "train list"
  so_delivered :: "payload list list"
  so_crash_decls :: "proc_id list"

text \<open>The comparison \<^verbatim>\<open>StepOutputs::from\<close>: buckets, each sorted. The derived orders of payloads
  and trains are given by keys.\<close>

definition payload_key :: "payload \<Rightarrow> proc_id \<times> nat \<times> nat list" where
  "payload_key p = (sender p, seq p, map unat (data p))"

definition train_key :: "train \<Rightarrow> proc_id \<times> tick \<times> nat \<times> (proc_id \<times> nat \<times> nat list) list" where
  "train_key t = (issuer t, clock t, unat (ack_bits t), map payload_key (payloads t))"

definition step_outputs_from :: "node_output list \<Rightarrow> step_outputs" where
  "step_outputs_from outs =
     \<lparr>so_forwarded = sort_key train_key (sends outs),
      so_delivered = sort_key (map payload_key) (batches outs),
      so_crash_decls = sort (declared outs)\<rparr>"

section \<open>The simulation relation\<close>

abbreviation ck :: "tick \<times> proc_id \<Rightarrow> clock_key" where
  "ck k \<equiv> ClockKey (fst k) (snd k)"

definition park_map :: "train list \<Rightarrow> clock_key \<Rightarrow> train option" where
  "park_map ts k = map_of (map (\<lambda>t. (key_of t, t)) ts) k"

definition ref_rel :: "config \<Rightarrow> trains_node \<Rightarrow> reference_node \<Rightarrow> bool" where
  "ref_rel c n r \<longleftrightarrow> node_id n = r_id r \<and> seen (clocks n) = seen_clk r \<and> next_issue_clock n = iss_clk r \<and>
     next_seq n = r_next_seq r \<and> pending n = r_pending r \<and> broadcast_seen n = r_broadcast_seen r \<and>
     (\<forall>k. ck k \<in> done_keys (delivery n) \<longleftrightarrow> k \<in> r_done_keys r) \<and>
     distinct (map key_of (r_parked r)) \<and> (\<forall>k. btm_get (parked n) k = park_map (r_parked r) k) \<and>
     mode (delivery n) = UniformTotalOrder \<and> r_mode r = UniformTotalOrder \<and>
     crashed_bits (delivery n) = 0 \<and> \<not> frozen n \<and> (\<forall>x\<in>set (view_floor n). x = 0) \<and>
     sorted (map payload_id (r_pending r)) \<and>
     (\<forall>p\<in>set (r_pending r). payload_id p \<le> (r_id r, r_next_seq r))"

lemma ck_less: "ck a < ck b \<longleftrightarrow> a < b"
  by (cases a; cases b) (auto simp: clock_key_less)

lemma ck_le: "ck a \<le> ck b \<longleftrightarrow> a \<le> b"
  by (cases a; cases b) (auto simp: clock_key_le)

lemma key_of_ck: "key_of t = ck (clock_key_pair t)"
  by (simp add: key_of_def clock_key_pair_def)

lemma key_of_eq: "key_of s = key_of t \<longleftrightarrow> clock_key_pair s = clock_key_pair t"
  by (auto simp: key_of_def clock_key_pair_def)

lemma ck_inj [simp]: "ck a = ck b \<longleftrightarrow> a = b"
  by (cases a; cases b) simp

lemma park_map_keys: "park_map ts k \<noteq> None \<longleftrightarrow> k \<in> key_of ` set ts"
  by (simp add: park_map_def map_of_eq_None_iff image_image)

lemma park_map_in: "distinct (map key_of ts) \<Longrightarrow> t \<in> set ts \<Longrightarrow> park_map ts (key_of t) = Some t"
  unfolding park_map_def by (rule map_of_is_SomeI) (simp_all add: comp_def)

lemma park_map_snoc:
  "key_of t \<notin> key_of ` set ts \<Longrightarrow>
     park_map (ts @ [t]) k = (if k = key_of t then Some t else park_map ts k)"
  using park_map_keys [of ts k] by (auto simp: park_map_def map_add_def split: option.splits)

lemma rel_parked_keys:
  assumes "ref_rel c n r"
  shows "set (btm_keys (parked n)) = key_of ` set (r_parked r)"
proof -
  have "k \<in> set (btm_keys (parked n)) \<longleftrightarrow> k \<in> key_of ` set (r_parked r)" for k
    using assms park_map_keys [of "r_parked r" k] map_of_eq_None_iff [of "parked n" k]
    by (auto simp: ref_rel_def)
  then show ?thesis by blast
qed

lemma ref_is_deliverable_pure:
  assumes "valid_config c" "clock_ok c (clocks n)" "ref_rel c n r"
  shows "ref_is_deliverable c r k = Some (deliverable c n (ck k))"
proof -
  have seen: "seen_clk r = seen (clocks n)" "length (seen (clocks n)) = RING_SIZE c"
    and dn: "\<And>k. ck k \<in> done_keys (delivery n) \<longleftrightarrow> k \<in> r_done_keys r"
    and cr: "crashed_bits (delivery n) = 0"
    using assms(2,3) by (auto simp: ref_rel_def clock_ok_def)
  have small: "NUM_TRAINS c \<le> RING_SIZE c" using valid_configD [OF assms(1)] by simp
  let ?P = "\<lambda>q. \<forall>cl\<in>{1..seen (clocks n) ! q}. (cl, q) < k \<longrightarrow> (cl, q) \<in> r_done_keys r"
  have "all_opt (\<lambda>q. do {
          q_seen \<leftarrow> index_opt (seen_clk r) q;
          if q_seen = 0 then Some True
          else Some (list_all (\<lambda>cl. \<not> ((cl, q) < k \<and> (cl, q) \<notin> r_done_keys r)) [1..<Suc q_seen])
        }) [0..<RING_SIZE c] = Some (\<forall>q\<in>set [0..<RING_SIZE c]. ?P q)"
    by (rule all_opt_pure) (auto simp: index_opt_def seen list_all_iff simp del: upt_Suc)
  moreover have "(\<forall>q\<in>set [0..<RING_SIZE c]. ?P q) \<longleftrightarrow>
      (\<forall>j. known c n j \<and> j < ck k \<longrightarrow> j \<in> done_keys (delivery n))" (is "?a = ?b")
  proof
    assume a: ?a
    have "ClockKey cl q \<in> done_keys (delivery n)"
      if "known c n (ClockKey cl q)" "ClockKey cl q < ck k" for cl q
      using a that dn [of "(cl, q)"] ck_less [of "(cl, q)" k] by (auto simp: known_def)
    then show ?b by (metis clock_key.collapse)
  next
    assume b: ?b
    have "(cl, q) \<in> r_done_keys r"
      if "q < RING_SIZE c" "1 \<le> cl" "cl \<le> seen (clocks n) ! q" "(cl, q) < k" for cl q
    proof -
      have "known c n (ck (cl, q)) \<and> ck (cl, q) < ck k" using that ck_less [of "(cl, q)" k] by (simp add: known_def)
      then show ?thesis using b dn by blast
    qed
    then show ?a by auto
  qed
  moreover have "all_opt (\<lambda>q. do { s \<leftarrow> index_opt (seen_clk r) q; Some (\<not> s < fst k) }) [0..<NUM_TRAINS c] =
      Some (\<forall>q\<in>set [0..<NUM_TRAINS c]. fst k \<le> seen (clocks n) ! q)"
    using small by (intro all_opt_pure) (auto simp: index_opt_def seen not_less)
  moreover have "list_ex (\<lambda>t. clock_key_pair t < k) (r_parked r) \<longleftrightarrow>
      \<not> (\<forall>j\<in>set (btm_keys (parked n)). ck k \<le> j)"
    using rel_parked_keys [OF assms(3)] by (auto simp: list_ex_iff key_of_ck ck_le not_le)
  ultimately show ?thesis
    unfolding ref_is_deliverable_def deliverable_def by (auto simp: cr)
qed

section \<open>Lock step\<close>

lemma ref_relD:
  assumes "ref_rel c n r"
  shows "node_id n = r_id r" "seen (clocks n) = seen_clk r" "next_issue_clock n = iss_clk r"
    "next_seq n = r_next_seq r" "pending n = r_pending r" "broadcast_seen n = r_broadcast_seen r"
    "\<And>k. ck k \<in> done_keys (delivery n) \<longleftrightarrow> k \<in> r_done_keys r" "distinct (map key_of (r_parked r))"
    "\<And>k. btm_get (parked n) k = park_map (r_parked r) k" "mode (delivery n) = UniformTotalOrder"
    "r_mode r = UniformTotalOrder" "crashed_bits (delivery n) = 0" "\<not> frozen n"
    "\<And>x. x \<in> set (view_floor n) \<Longrightarrow> x = 0" "sorted (map payload_id (r_pending r))"
    "\<And>p. p \<in> set (r_pending r) \<Longrightarrow> payload_id p \<le> (r_id r, r_next_seq r)"
  using assms by (auto simp: ref_rel_def)

lemma rel_key_done:
  "ref_rel c n r \<Longrightarrow> key_of t \<in> done_keys (delivery n) \<longleftrightarrow> clock_key_pair t \<in> r_done_keys r"
  using ref_relD(7) [of c n r "clock_key_pair t"] by (simp add: key_of_ck)

text \<open>A delivery on both sides; the train leaves the parked trains if it is there.\<close>

lemma park_map_filter:
  "park_map (filter (\<lambda>s. key_of s \<noteq> k) ts) j = (if j = k then None else park_map ts j)"
  by (induction ts) (auto simp: park_map_def)

lemma rel_deliver:
  assumes "ref_rel c n r"
  shows "ref_rel c (deliver_one t n)
    (fst (ref_deliver (clock_key_pair t) (payloads t)
      (r\<lparr>r_parked := filter (\<lambda>s. key_of s \<noteq> key_of t) (r_parked r)\<rparr>) outs))"
    and "snd (ref_deliver (clock_key_pair t) (payloads t) r' outs) = outs @ deliver_out t"
proof -
  let ?r = "fst (ref_deliver (clock_key_pair t) (payloads t)
      (r\<lparr>r_parked := filter (\<lambda>s. key_of s \<noteq> key_of t) (r_parked r)\<rparr>) outs)"
  have f: "r_id ?r = r_id r" "seen_clk ?r = seen_clk r" "iss_clk ?r = iss_clk r" "r_next_seq ?r = r_next_seq r"
    "r_pending ?r = r_pending r" "r_broadcast_seen ?r = r_broadcast_seen r" "r_mode ?r = r_mode r"
    "r_done_keys ?r = insert (clock_key_pair t) (r_done_keys r)"
    "r_parked ?r = filter (\<lambda>s. key_of s \<noteq> key_of t) (r_parked r)"
    by (simp_all add: ref_deliver_def Let_def)
  have "(ck k = key_of t \<or> ck k \<in> done_keys (delivery n)) \<longleftrightarrow> (k = clock_key_pair t \<or> k \<in> r_done_keys r)" for k
    using ref_relD(7) [OF assms, of k] by (simp only: key_of_ck ck_inj)
  then show "ref_rel c (deliver_one t n) ?r"
    using assms unfolding ref_rel_def f
    by (simp add: park_map_filter get_btm_remove distinct_map_filter)
  show "snd (ref_deliver (clock_key_pair t) (payloads t) r' outs) = outs @ deliver_out t"
    by (simp add: ref_deliver_def deliver_out_def Let_def)
qed

text \<open>Removing the train at the found position is removing its key.\<close>

lemma vec_remove_filter:
  assumes "distinct (map key_of ts)" and "position_of (\<lambda>t. clock_key_pair t = k) ts = Some i"
  shows "vec_remove i ts = filter (\<lambda>s. key_of s \<noteq> key_of (ts ! i)) ts"
proof -
  note p = position_of_Some [OF assms(2)]
  let ?a = "take i ts" and ?b = "drop (Suc i) ts"
  have "distinct (map key_of (?a @ ts ! i # ?b))" using assms(1) p(3) by simp
  then have "key_of (ts ! i) \<notin> key_of ` set ?a" "key_of (ts ! i) \<notin> key_of ` set ?b" by auto
  then have "filter (\<lambda>s. key_of s \<noteq> key_of (ts ! i)) ?a = ?a" "filter (\<lambda>s. key_of s \<noteq> key_of (ts ! i)) ?b = ?b"
    by (auto intro!: filter_True) (metis image_eqI)+
  moreover have "filter (\<lambda>s. key_of s \<noteq> key_of (ts ! i)) ts =
      filter (\<lambda>s. key_of s \<noteq> key_of (ts ! i)) ?a @ filter (\<lambda>s. key_of s \<noteq> key_of (ts ! i)) ?b"
    by (subst p(3)) simp
  ultimately show ?thesis by (simp add: vec_remove_def)
qed

lemma iter_min_ck:
  assumes "set ks = ck ` set ps"
  shows "iter_min ks = map_option ck (iter_min ps)"
proof (cases "iter_min ps")
  case None
  then show ?thesis using assms by auto
next
  case (Some p)
  then have "p \<in> set ps" "\<forall>j\<in>set ps. p \<le> j" unfolding iter_min_Some by blast+
  then have "iter_min ks = Some (ck p)" unfolding iter_min_Some assms by (auto simp: ck_le)
  then show ?thesis using Some by simp
qed

lemma drain_lockstep:
  assumes "valid_config c" "node_wf c n" "ref_rel c n r"
  shows "\<exists>n' r' outs'. drain_loop c n outs = Some (n', outs') \<and>
    ref_drain_parked c r outs = Some (r', outs') \<and> ref_rel c n' r'"
  using assms(2,3)
proof (induction "length (r_parked r)" arbitrary: n r outs rule: less_induct)
  case less
  note wf = node_wfD [OF less.prems(1)] and rel = ref_relD [OF less.prems(2)]
  have min: "iter_min (btm_keys (parked n)) = map_option ck (iter_min (map clock_key_pair (r_parked r)))"
    using rel_parked_keys [OF less.prems(2)] by (intro iter_min_ck) (simp add: image_image key_of_ck)
  note del = is_deliverable_pure [OF assms(1) wf(2)] ref_is_deliverable_pure [OF assms(1) wf(2) less.prems(2)]
  show ?case
  proof (cases "iter_min (map clock_key_pair (r_parked r))")
    case None
    then show ?thesis
      using less.prems(2) min by (simp add: drain_loop.simps ref_drain_parked.simps)
  next
    case (Some k)
    show ?thesis
    proof (cases "deliverable c n (ck k)")
      case False
      then show ?thesis
        using Some min less.prems(2) del by (simp add: drain_loop.simps ref_drain_parked.simps)
    next
      case True
      have "k \<in> clock_key_pair ` set (r_parked r)" using Some by (simp add: iter_min_Some)
      then have "list_ex (\<lambda>t. clock_key_pair t = k) (r_parked r)" by (auto simp: list_ex_iff)
      then obtain i where i: "position_of (\<lambda>t. clock_key_pair t = k) (r_parked r) = Some i"
        by (simp add: position_of_def)
      note p = position_of_Some [OF i]
      define t where "t = r_parked r ! i"
      have kt: "key_of t = ck k" "clock_key_pair t = k" using p(2) by (simp_all add: t_def key_of_ck)
      have "park_map (r_parked r) (ck k) = Some t"
        using park_map_in [OF rel(8), of t] p(1) kt(1) by (simp add: t_def)
      then have g: "btm_get (parked n) (ck k) = Some t" by (simp add: rel(9))
      have don: "key_of t \<notin> done_keys (delivery n)" "known c n (key_of t)" using wf(6) [OF g] kt by simp_all
      let ?n0 = "n\<lparr>parked := btm_remove (ck k) (parked n)\<rparr>"
      let ?r0 = "r\<lparr>r_parked := vec_remove i (r_parked r)\<rparr>"
      let ?res = "ref_deliver k (payloads t) ?r0 outs"
      have one: "deliver_one t ?n0 = deliver_one t n"
        using kt by (simp add: deliver_one_def btm_remove_def cache_delivered_def)
      have core: "drain_loop c n outs = drain_loop c (deliver_one t n) (outs @ deliver_out t)"
        using emit_delivery_pure [of t ?n0 c outs] kt(1) don one g True min Some del(1)
        by (subst drain_loop.simps) (simp add: get_btm_remove)
      have ref: "ref_drain_parked c r outs = ref_drain_parked c (fst ?res) (snd ?res)"
        using i True Some del(2) by (subst ref_drain_parked.simps) (simp add: t_def Let_def)
      have r0: "?r0 = r\<lparr>r_parked := filter (\<lambda>s. key_of s \<noteq> key_of t) (r_parked r)\<rparr>"
        using vec_remove_filter [OF rel(8) i] by (simp add: t_def)
      have rel': "ref_rel c (deliver_one t n) (fst ?res)" "snd ?res = outs @ deliver_out t"
        using rel_deliver(1) [OF less.prems(2), of t outs] rel_deliver(2) [OF less.prems(2), of t ?r0 outs]
        by (simp_all add: kt(2) r0)
      have "length (r_parked (fst ?res)) < length (r_parked r)"
        using p(1) by (simp add: vec_remove_def)
      from less.hyps [OF this node_wf_deliver_one [OF less.prems(1) don(2)] rel'(1), of "outs @ deliver_out t"]
      show ?thesis by (simp only: core ref rel'(2))
    qed
  qed
qed

lemma try_deliver_lockstep:
  assumes "valid_config c" "node_wf c n" "ref_rel c n r"
    and blocked: "key_of t \<in> set (btm_keys (parked n)) \<Longrightarrow> \<not> deliverable c n (key_of t)"
  shows "\<exists>n' r' outs'. try_deliver c t n outs = Some (n', outs') \<and>
    ref_try_deliver c t r outs = Some (r', outs') \<and> ref_rel c n' r'"
proof -
  note wf = node_wfD [OF assms(2)] and rel = ref_relD [OF assms(3)]
  note del = is_deliverable_pure [OF assms(1) wf(2)] ref_is_deliverable_pure [OF assms(1) wf(2) assms(3)]
  have rdy: "ref_ready_to_deliver c (ack_bits t) (r_mode r) = ready c t n"
    by (simp add: ref_ready_to_deliver_def ready_def ready_to_deliver_def rel FULL_ACK_def)
  show ?thesis
  proof (cases "\<not> ready c t n \<or> key_of t \<in> done_keys (delivery n)")
    case True
    then show ?thesis
      using assms(3) rdy rel(13) rel_key_done [OF assms(3), of t]
      by (auto simp: try_deliver_def ref_try_deliver_def ready_def already_delivered_def Let_def)
  next
    case False
    then have cond: "ready c t n" "key_of t \<notin> done_keys (delivery n)" "clock_key_pair t \<notin> r_done_keys r"
      using rel_key_done [OF assms(3), of t] by auto
    have kp: "list_ex (\<lambda>s. clock_key_pair s = clock_key_pair t) (r_parked r) \<longleftrightarrow>
        key_of t \<in> key_of ` set (r_parked r)"
      by (simp add: list_ex_iff image_iff key_of_eq) metis
    show ?thesis
    proof (cases "deliverable c n (key_of t)")
      case True
      then have np: "key_of t \<notin> set (btm_keys (parked n))" using blocked by blast
      then have "try_deliver c t n outs = Some (deliver_one t n, outs @ deliver_out t)"
        using cond True del rel(13)
        by (simp add: try_deliver_def ready_def already_delivered_def emit_delivery_pure parked_get_mem [OF assms(2)])
      moreover have "ref_try_deliver c t r outs = Some (ref_deliver (clock_key_pair t) (payloads t) r outs)"
        using cond True del(2) [of "clock_key_pair t"] rdy by (simp add: ref_try_deliver_def key_of_ck)
      moreover have "filter (\<lambda>s. key_of s \<noteq> key_of t) (r_parked r) = r_parked r"
        using np rel_parked_keys [OF assms(3)] by (intro filter_True) (metis image_eqI)
      then have "ref_rel c (deliver_one t n) (fst (ref_deliver (clock_key_pair t) (payloads t) r outs))"
        using rel_deliver(1) [OF assms(3), of t outs] by simp
      ultimately show ?thesis
        using rel_deliver(2) [OF assms(3), of t r outs] by (metis prod.collapse)
    next
      case nd: False
      let ?n = "n\<lparr>parked := btm_or_insert (key_of t) t (parked n)\<rparr>"
      let ?r = "if key_of t \<in> key_of ` set (r_parked r) then r else r\<lparr>r_parked := r_parked r @ [t]\<rparr>"
      have "try_deliver c t n outs = Some (?n, outs)"
        using cond nd del rel(13) by (simp add: try_deliver_def ready_def already_delivered_def)
      moreover have "ref_try_deliver c t r outs = Some (?r, outs)"
        using cond nd del(2) [of "clock_key_pair t"] rdy kp by (simp add: ref_try_deliver_def key_of_ck)
      moreover have "ref_rel c ?n ?r"
      proof (cases "key_of t \<in> key_of ` set (r_parked r)")
        case True
        then have "btm_get (parked n) (key_of t) \<noteq> None" using rel(9) park_map_keys by metis
        then have "?n = n" by (auto simp: btm_or_insert_def)
        then show ?thesis using True assms(3) by simp
      next
        case False
        then have "btm_get (parked n) (key_of t) = None" using rel(9) park_map_keys by metis
        then show ?thesis
          using assms(3) False by (simp add: ref_rel_def get_btm_or_insert park_map_snoc)
      qed
      ultimately show ?thesis by blast
    qed
  qed
qed

text \<open>Updates outside the delivery.\<close>

lemma rel_note: "ref_rel c n r \<Longrightarrow> ref_rel c (note_payloads ps n) (ref_note ps r)"
  by (simp add: ref_rel_def ref_note_def)

lemma sort_pending: "ref_rel c n r \<Longrightarrow> sort_payloads (r_pending r) = pending n"
  by (simp add: ref_rel_def sort_payloads_def sort_key_id_if_sorted)

lemma rel_issue:
  assumes "ref_rel c n r" "valid_config c" "node_wf c n"
  shows "\<exists>r'. ref_issue_new_train c r = Some (r', fresh_train n) \<and> ref_rel c (issue_node n) r'"
proof -
  have "ref_rel c (issue_node n) (ref_note (pending n) (r\<lparr>iss_clk := sat_add64 (iss_clk r) 1, r_pending := []\<rparr>))"
    using assms(1) by (simp add: ref_rel_def ref_note_def)
  then show ?thesis
    using sort_pending [OF assms(1)] id_small [OF assms(2,3)] ref_relD(1-6) [OF assms(1)]
    by (simp add: ref_issue_new_train_def fresh_train_def panic_simps Let_def)
qed

lemma rel_raise:
  assumes "ref_rel c n r" "q < RING_SIZE c" "clock_ok c (clocks n)"
  shows "ref_rel c (raise_seen q cl n) (r\<lparr>seen_clk := (seen_clk r)[q := max (seen_clk r ! q) cl]\<rparr>)"
  using assms by (simp add: ref_rel_def clocks_raise_seen)

lemma try_deliver_wf:
  assumes "valid_config c" "node_wf c n" "known c n (key_of t)"
    and "\<not> frozen n \<Longrightarrow> key_of t \<in> set (btm_keys (parked n)) \<Longrightarrow> \<not> deliverable c n (key_of t)"
    and "try_deliver c t n outs = Some (n', outs')"
  shows "node_wf c n'"
proof -
  obtain n1 n2 ts where "try_deliver c t n outs = Some (n2, outs @ deliver_outs ts)"
      "maybe_park c t n n1" "delivers c n1 ts n2"
    using try_deliver_spec [OF assms(1-4), of outs] by blast
  then show ?thesis using delivers_wf maybe_park_wf [OF assms(2,3)] assms(5) by auto
qed

lemma try_drain_lockstep:
  assumes "valid_config c" "node_wf c n" "known c n (key_of t)" "ref_rel c n r"
    and blocked: "key_of t \<in> set (btm_keys (parked n)) \<Longrightarrow> \<not> deliverable c n (key_of t)"
  shows "\<exists>n1 r1 n' r' o1 o2. try_deliver c t n [] = Some (n1, o1) \<and> ref_try_deliver c t r [] = Some (r1, o1) \<and>
    drain_parked c n1 (o1 @ mid) = Some (n', o2) \<and> ref_drain_parked c r1 (o1 @ mid) = Some (r', o2) \<and>
    ref_rel c n' r'"
proof -
  obtain n1 r1 o1 where td: "try_deliver c t n [] = Some (n1, o1)" "ref_try_deliver c t r [] = Some (r1, o1)"
      "ref_rel c n1 r1"
    using try_deliver_lockstep [OF assms(1,2,4) blocked] by blast
  have "node_wf c n1" using try_deliver_wf [OF assms(1-3) _ td(1)] blocked by blast
  then obtain n' r' o2 where "drain_loop c n1 (o1 @ mid) = Some (n', o2)"
      "ref_drain_parked c r1 (o1 @ mid) = Some (r', o2)" "ref_rel c n' r'"
    using drain_lockstep [OF assms(1) _ td(3)] by blast
  then show ?thesis using td ref_relD(13) [OF td(3)] by (auto simp: drain_parked_def)
qed

section \<open>One step\<close>

fun input_positive :: "node_input \<Rightarrow> bool" where
  "input_positive (TrainReceived t) \<longleftrightarrow> 1 \<le> clock t"
| "input_positive _ \<longleftrightarrow> True"

lemma broadcast_lockstep:
  assumes "ref_rel c n r" "next_seq n < u64_max"
  shows "\<exists>r'. app_broadcast c bs r = Some (r', snd (handle_broadcast bs n)) \<and>
    ref_rel c (fst (handle_broadcast bs n)) r'"
proof -
  note rel = ref_relD [OF assms(1)]
  let ?p = "\<lparr>sender = node_id n, seq = next_seq n, data = bs\<rparr>"
  have pid: "payload_id ?p = (r_id r, r_next_seq r)" by (simp add: payload_id_def rel)
  have "sorted (map payload_id (r_pending r @ [?p]))"
    using rel(15,16) pid by (simp add: sorted_append)
  moreover have "payload_id p \<le> (r_id r, Suc (r_next_seq r))" if "p \<in> set (r_pending r @ [?p])" for p
  proof -
    have "payload_id p \<le> (r_id r, r_next_seq r)" using that rel(16) [of p] pid by auto
    also have "\<dots> \<le> (r_id r, Suc (r_next_seq r))" by simp
    finally show ?thesis .
  qed
  ultimately show ?thesis
    using assms(1,2) rel(4)
    by (auto simp: app_broadcast_def handle_broadcast_def Let_def panic_simps ref_rel_def)
qed

lemma train_lockstep:
  assumes c: "valid_config c" and ok: "node_ok c n" and rel: "ref_rel c n r"
    and t: "issuer t < RING_SIZE c" "clock t \<le> u64_max" "1 \<le> clock t"
  shows "\<exists>n' r' outs. handle_train c t n = Some (n', outs) \<and> ref_handle_train c t r = Some (r', outs) \<and>
    ref_rel c n' r'"
proof -
  note wf = node_okD(1) [OF ok] and R = ref_relD [OF rel]
  note w = node_wfD [OF wf]
  have idx: "index_opt (seen_clk r) q = Some (seen (clocks n) ! q)" if "q < RING_SIZE c" for q
    using that w(2) R(2) by (simp add: index_opt_def clock_ok_def)
  have fl: "\<not> clock t \<le> view_floor n ! issuer t"
    using R(14) [of "view_floor n ! issuer t"] w(7) t(1,3) by simp
  have quiet: "\<not> deliverable c n k" if "k \<in> set (btm_keys (parked n))" for k
    using quiescentD [OF node_okD(2) [OF ok R(13)] that] .
  show ?thesis
  proof (cases "issuer t = node_id n")
    case foreign: False
    then have core: "handle_train c t n = handle_foreign_train c t n"
      and ref: "ref_handle_train c t r = handle_foreign c t r"
      using fl R(1) by (simp_all add: handle_train_def ref_handle_train_def)
    show ?thesis
    proof (cases "clock t \<le> seen (clocks n) ! issuer t")
      case True
      let ?n = "note_payloads (payloads t) n"
      have k: "known c ?n (key_of t)" using t True by (simp add: known_key_of)
      have q: "\<not> deliverable c ?n (key_of t)" if "key_of t \<in> set (btm_keys (parked ?n))"
        using quiet that deliverable_cong [of ?n n c] by simp
      obtain n1 r1 n' r' o1 o2 where "try_deliver c t ?n [] = Some (n1, o1)"
          "ref_try_deliver c t (ref_note (payloads t) r) [] = Some (r1, o1)"
          "drain_parked c n1 (o1 @ [ForwardTrain t]) = Some (n', o2)"
          "ref_drain_parked c r1 (o1 @ [ForwardTrain t]) = Some (r', o2)" "ref_rel c n' r'"
        using try_drain_lockstep [OF c node_okD(1) [OF note_payloads_ok [OF ok]] k rel_note [OF rel] q,
            of "[ForwardTrain t]"] by blast
      then show ?thesis
        using True t(3) idx [OF t(1)] last_seen_pure [OF w(2) t(1)]
        by (simp add: core ref handle_foreign_train_def handle_foreign_def)
    next
      case False
      then have lt: "seen (clocks n) ! issuer t < clock t" by simp
      have mx: "max (seen_clk r ! issuer t) (clock t) = clock t" using lt R(2) by simp
      let ?r = "ref_note (payloads t @ pending n) (ref_note (pending n)
          (r\<lparr>seen_clk := (seen_clk r)[issuer t := clock t], r_pending := []\<rparr>))"
      have rel': "ref_rel c (load_node t n) ?r"
        using rel_raise [OF rel t(1) w(2), of "clock t"] unfolding mx
        by (auto simp: ref_rel_def ref_note_def)
      have ref': "handle_foreign c t r =
          ref_drain_parked c ?r (gap_outs t n @ [ForwardTrain (load_train n t)])"
        using lt idx [OF t(1)] sort_pending [OF rel] id_small [OF c wf] R(1)
          clock_ok_seen [OF w(2) t(1)] t(2)
        by (simp add: handle_foreign_def panic_simps gap_outs_def load_train_def ref_note_def Let_def)
      obtain n' r' o2 where "drain_loop c (load_node t n) (gap_outs t n @ [ForwardTrain (load_train n t)]) = Some (n', o2)"
          "ref_drain_parked c ?r (gap_outs t n @ [ForwardTrain (load_train n t)]) = Some (r', o2)" "ref_rel c n' r'"
        using drain_lockstep [OF c load_node_wf [OF wf t(1,2)] rel'] by blast
      then show ?thesis
        using handle_foreign_first_eq [OF c wf t(1) lt t(2)] R(13) ref'
        by (simp add: core ref drain_parked_def)
    qed
  next
    case own: True
    let ?n = "raise_seen (node_id n) (clock t) n"
    let ?r = "if clock t > seen_clk r ! r_id r then r\<lparr>seen_clk := (seen_clk r)[r_id r := clock t]\<rparr> else r"
    have core: "handle_train c t n = handle_returning_train c t n"
      and ref: "ref_handle_train c t r = handle_returning c t r"
      using fl R(1) own by (simp_all add: handle_train_def ref_handle_train_def)
    have cu: "check_and_update c (node_id n) (clock t) (clocks n) =
        Some (clocks ?n, clock_verdict (seen (clocks n) ! node_id n) (clock t))"
      using t w(1,2) by (simp add: panic_simps raise_seen_def)
    have nn: "n\<lparr>clocks := clocks ?n\<rparr> = ?n" by (simp add: raise_seen_def)
    have r: "?r = r\<lparr>seen_clk := (seen_clk r)[r_id r := max (seen_clk r ! r_id r) (clock t)]\<rparr>"
      by (simp add: max_def not_less)
    have rel': "ref_rel c ?n ?r" unfolding r using rel_raise [OF rel w(1,2), of "clock t"] R(1) by simp
    note wf' = node_wf_raise_seen [OF wf t(2) w(1)]
    show ?thesis
    proof (cases "key_of t \<in> done_keys (delivery n)")
      case True
      obtain r' where "ref_issue_new_train c ?r = Some (r', fresh_train ?n)" "ref_rel c (issue_node ?n) r'"
        using rel_issue [OF rel' c wf'] by blast
      moreover have "clock_key_pair t \<in> r_done_keys ?r" using rel_key_done [OF rel', of t] True by simp
      ultimately show ?thesis
        using True cu issue_new_train_pure [OF c wf'] idx [OF w(1)] R(1,2)
        by (simp add: nn [unfolded R(1)] core ref handle_returning_train_def handle_returning_def already_delivered_def Let_def)
    next
      case False
      have k: "known c ?n (key_of t)"
        using known_raise_seen(2) [OF w(2,1) t(3)] own by (simp add: key_of_def)
      have q: "\<not> deliverable c ?n (key_of t)" if p: "key_of t \<in> set (btm_keys (parked ?n))"
      proof -
        have "key_of t \<in> set (btm_keys (parked n))" using p by simp
        then obtain s where "btm_get (parked n) (key_of t) = Some s" by (rule parked_keyE)
        then have "clock t \<le> seen (clocks n) ! node_id n" using w(6) own by (metis known_key_of)
        then show ?thesis using quiet p raise_seen_same by metis
      qed
      obtain n1 r1 n' r' o1 o2 where lock: "try_deliver c t ?n [] = Some (n1, o1)"
          "ref_try_deliver c t ?r [] = Some (r1, o1)" "drain_parked c n1 (o1 @ []) = Some (n', o2)"
          "ref_drain_parked c r1 (o1 @ []) = Some (r', o2)" "ref_rel c n' r'"
        using try_drain_lockstep [OF c wf' k rel' q, of "[]"] by blast
      moreover have "clock_key_pair t \<notin> r_done_keys ?r" using rel_key_done [OF rel', of t] False by simp
      ultimately show ?thesis
        using False cu idx [OF w(1)] R(1,2)
        by (simp add: nn [unfolded R(1)] core ref handle_returning_train_def handle_returning_def already_delivered_def Let_def)
    qed
  qed
qed

lemma step_next_seq:
  assumes "valid_config c" "node_ok c n" "input_ok c inp" "step c inp n = Some (n', outs)"
  shows "next_seq n' \<le> Suc (next_seq n)"
proof (cases inp)
  case (TrainReceived t)
  then show ?thesis using recv_next_seq [OF assms(1,2), of t] assms(3,4) by simp
qed (use assms(4) in \<open>auto simp: handle_broadcast_def handle_tick_def sat_add64_def Let_def split: if_splits\<close>)

lemma step_lockstep:
  assumes "valid_config c" "node_ok c n" "ref_rel c n r" "input_ok c inp" "input_positive inp"
    and "next_seq n < u64_max"
  shows "\<exists>n' r' outs. step c inp n = Some (n', outs) \<and> ref_step c inp r = Some (r', outs) \<and>
    ref_rel c n' r' \<and> node_ok c n' \<and> next_seq n' \<le> Suc (next_seq n)"
proof -
  obtain n' r' outs where s: "step c inp n = Some (n', outs)" "ref_step c inp r = Some (r', outs)" "ref_rel c n' r'"
  proof (cases inp)
    case (TrainReceived t)
    then show ?thesis using that train_lockstep [OF assms(1-3), of t] assms(4,5) by auto
  next
    case (LocalBroadcast bs)
    then show ?thesis
      using broadcast_lockstep [OF assms(3,6), of bs]
      by (metis that ref_step.simps(1) step.simps(1) prod.collapse)
  next
    case Tick
    then show ?thesis using that assms(3) by (simp add: handle_tick_def)
  qed
  moreover have "node_ok c n'" using step_ok [OF assms(1,2,4)] s(1) by auto
  moreover have "next_seq n' \<le> Suc (next_seq n)" using step_next_seq [OF assms(1,2,4) s(1)] .
  ultimately show ?thesis by blast
qed

section \<open>Runs\<close>

lemma run_lockstep:
  assumes "valid_config c"
  shows "node_ok c n \<Longrightarrow> ref_rel c n r \<Longrightarrow> \<forall>inp\<in>set inps. input_ok c inp \<and> input_positive inp \<Longrightarrow>
    next_seq n + length inps \<le> u64_max \<Longrightarrow>
    \<exists>n' r' outs. run_node (step c) inps n = Some (n', outs) \<and> run_node (ref_step c) inps r = Some (r', outs) \<and>
      ref_rel c n' r'"
proof (induction inps arbitrary: n r)
  case (Cons inp inps)
  obtain n1 r1 outs where s: "step c inp n = Some (n1, outs)" "ref_step c inp r = Some (r1, outs)"
      "ref_rel c n1 r1" "node_ok c n1" "next_seq n1 \<le> Suc (next_seq n)"
    using step_lockstep [OF assms Cons.prems(1,2), of inp] Cons.prems(3,4) by auto
  have "next_seq n1 + length inps \<le> u64_max" using s(5) Cons.prems(4) by simp
  then obtain n' r' rest where "run_node (step c) inps n1 = Some (n', rest)"
      "run_node (ref_step c) inps r1 = Some (r', rest)" "ref_rel c n' r'"
    using Cons.IH [OF s(4,3)] Cons.prems(3) by auto
  then show ?case using s by simp
qed simp

lemma new_rel:
  assumes "node_new c i UniformTotalOrder = Some n" "ref_new c i UniformTotalOrder = Some r"
  shows "ref_rel c n r"
  using assms
  by (auto simp: node_new_def ref_new_def ref_rel_def clock_new_def delivery_new_def park_map_def split: if_splits)

section \<open>Properties\<close>

text \<open>C36. The core and the reference implementation agree: fed the same inputs from the start, in
  uniform total order and on trains of ring members with a positive clock, neither panics and
  every step produces the same outputs in the same order (hence the same normalised
  outputs, which is what the differential tests compare), over any number of steps a 64-bit
  sequence counter can number.\<close>

theorem core_agrees_with_reference:
  assumes "valid_config c" and "node_new c i UniformTotalOrder = Some n"
    and "ref_new c i UniformTotalOrder = Some r"
    and "\<forall>inp\<in>set inps. input_ok c inp \<and> input_positive inp" and "length inps \<le> u64_max"
  shows "\<exists>n' r' outs. run_node (step c) inps n = Some (n', outs) \<and>
    run_node (ref_step c) inps r = Some (r', outs) \<and>
    seen (clocks n') = seen_clk r' \<and> (\<forall>k. ck k \<in> done_keys (delivery n') \<longleftrightarrow> k \<in> r_done_keys r')"
proof -
  have "next_seq n = 0" using assms(2) by (auto simp: node_new_def split: if_splits)
  then obtain n' r' outs where "run_node (step c) inps n = Some (n', outs)"
      "run_node (ref_step c) inps r = Some (r', outs)" "ref_rel c n' r'"
    using run_lockstep [OF assms(1) node_new_ok [OF assms(2)] new_rel [OF assms(2,3)] assms(4)] assms(5) by auto
  then show ?thesis using ref_relD(2,7) by blast
qed

theorem core_agrees_with_reference_witness:
  "\<exists>n' r' outs. run_node (step cfg2) [LocalBroadcast [7], TrainReceived (demo_train 1)] (demo_node 1) = Some (n', outs) \<and>
    run_node (ref_step cfg2) [LocalBroadcast [7], TrainReceived (demo_train 1)]
      (the (ref_new cfg2 1 UniformTotalOrder)) = Some (r', outs)"
proof -
  have n: "node_new cfg2 1 UniformTotalOrder = Some (demo_node 1)"
    by (simp add: demo_node_def node_new_def cfg2_def)
  have r: "ref_new cfg2 1 UniformTotalOrder = Some (the (ref_new cfg2 1 UniformTotalOrder))"
    by (simp add: ref_new_def cfg2_def)
  have i: "\<forall>inp\<in>set [LocalBroadcast [7], TrainReceived (demo_train 1)]. input_ok cfg2 inp \<and> input_positive inp"
    by (simp add: demo_train_def cfg2_def u64_max_def)
  show ?thesis
    using core_agrees_with_reference [OF cfg2_valid n r i] by (auto simp: u64_max_def)
qed

text \<open>Outside that domain they differ: a train with clock 0 is absorbed by the core's view fence
  and forwarded by the reference; in total-order mode an acknowledgement mask with bits
  beyond the ring delivers in the core and not in the reference.\<close>

theorem reference_diverges_outside_domain:
  "map_option snd (step cfg2 (TrainReceived \<lparr>issuer = 0, clock = 0, payloads = [], ack_bits = 1\<rparr>) (demo_node 1)) =
     Some [] \<and>
   map_option snd (ref_step cfg2 (TrainReceived \<lparr>issuer = 0, clock = 0, payloads = [], ack_bits = 1\<rparr>)
       (the (ref_new cfg2 1 UniformTotalOrder))) =
     Some [ForwardTrain \<lparr>issuer = 0, clock = 0, payloads = [], ack_bits = 3\<rparr>] \<and>
   map_option (map batches \<circ> snd) (run_node (step cfg2) [TrainReceived (demo_train 1), TrainReceived (demo_train 7)]
       (the (node_new cfg2 1 TotalOrder))) = Some [[], [[demo_payload]]] \<and>
   map_option (map batches \<circ> snd) (run_node (ref_step cfg2) [TrainReceived (demo_train 1), TrainReceived (demo_train 7)]
       (the (ref_new cfg2 1 TotalOrder))) = Some [[], []]"
  by code_simp

end
