(* ===== verification/Drt.thy ===== *)
theory Drt
  imports Reference
begin

text \<open>
  \<^verbatim>\<open>verification/drt/src/lib.rs\<close>, the differential random test: a schedule of events is fed to the core and to the
  reference implementation, and the normalised outputs of every step are compared. The generators draw trains of
  other issuers with clocks from 1; here any clock a 64-bit tick can hold is allowed, and any schedule length the
  sequence counter can number.
\<close>

datatype ev = Ev_Broadcast "byte list" | Ev_Receive train | Ev_Tick

fun ev_input :: "ev \<Rightarrow> node_input" where
  "ev_input (Ev_Broadcast d) = LocalBroadcast d"
| "ev_input (Ev_Receive t) = TrainReceived t"
| "ev_input Ev_Tick = Tick"

text \<open>The loop: \<^term>\<open>None\<close> is a panic of either implementation, \<open>Inl idx\<close> a divergence at event \<open>idx\<close>.\<close>

fun drt_loop :: "config \<Rightarrow> nat \<Rightarrow> ev list \<Rightarrow> trains_node \<Rightarrow> reference_node \<Rightarrow> (nat + unit) option" where
  "drt_loop c idx [] n r = Some (Inr ())"
| "drt_loop c idx (e # evs) n r = do {
     (n1, prod_outs) \<leftarrow> step c (ev_input e) n;
     (r1, refn_outs) \<leftarrow> ref_step c (ev_input e) r;
     if step_outputs_from prod_outs \<noteq> step_outputs_from refn_outs then Some (Inl idx)
     else drt_loop c (Suc idx) evs n1 r1
   }"

definition run_drt :: "config \<Rightarrow> proc_id \<Rightarrow> ev list \<Rightarrow> (nat + unit) option" where
  "run_drt c i evs = do {
     n \<leftarrow> node_new c i UniformTotalOrder;
     r \<leftarrow> ref_new c i UniformTotalOrder;
     if i < NUM_TRAINS c then do {
       (n1, _) \<leftarrow> issue_initial_train c n;
       (r1, _) \<leftarrow> ref_issue_initial_train c r;
       drt_loop c 0 evs n1 r1
     }
     else drt_loop c 0 evs n r
   }"

text \<open>What \<^verbatim>\<open>arb_ev\<close> can draw for node \<open>i\<close>, with wider bounds.\<close>

fun arb_ev :: "config \<Rightarrow> proc_id \<Rightarrow> ev \<Rightarrow> bool" where
  "arb_ev c i (Ev_Receive t) \<longleftrightarrow> issuer t < RING_SIZE c \<and> issuer t \<noteq> i \<and> 1 \<le> clock t \<and> clock t \<le> u64_max"
| "arb_ev c i _ \<longleftrightarrow> True"

lemma arb_ev_input: "arb_ev c i e \<Longrightarrow> input_ok c (ev_input e) \<and> input_positive (ev_input e)"
  by (cases e) auto

lemma drt_loop_ok:
  assumes "valid_config c"
  shows "node_ok c n \<Longrightarrow> ref_rel c n r \<Longrightarrow> \<forall>e\<in>set evs. arb_ev c i e \<Longrightarrow> next_seq n + length evs \<le> u64_max \<Longrightarrow>
    drt_loop c idx evs n r = Some (Inr ())"
proof (induction evs arbitrary: n r idx)
  case (Cons e evs)
  obtain n1 r1 outs where s: "step c (ev_input e) n = Some (n1, outs)" "ref_step c (ev_input e) r = Some (r1, outs)"
      "ref_rel c n1 r1" "node_ok c n1" "next_seq n1 \<le> Suc (next_seq n)"
    using step_lockstep [OF assms Cons.prems(1,2), of "ev_input e"] arb_ev_input [of c i e] Cons.prems(3,4) by auto
  then have "drt_loop c (Suc idx) evs n1 r1 = Some (Inr ())"
    using Cons.prems(3,4) by (intro Cons.IH) auto
  then show ?case using s(1,2) by simp
qed simp

text \<open>The differential test succeeds on every schedule its generator can draw, at every node of every ring: neither
  implementation panics and no step diverges.\<close>

theorem run_drt_succeeds:
  assumes "valid_config c" and "i < RING_SIZE c" and "\<forall>e\<in>set evs. arb_ev c i e" and "length evs \<le> u64_max"
  shows "run_drt c i evs = Some (Inr ())"
proof -
  obtain n r where n: "node_new c i UniformTotalOrder = Some n" and r: "ref_new c i UniformTotalOrder = Some r"
    using assms(1,2) by (auto simp: node_new_def ref_new_def)
  note ok = node_new_ok [OF n] and rel = new_rel [OF n r]
  have z: "next_seq n = 0" using n by (auto simp: node_new_def split: if_splits)
  show ?thesis
  proof (cases "i < NUM_TRAINS c")
    case True
    obtain r1 where r1: "ref_issue_new_train c r = Some (r1, fresh_train n)" "ref_rel c (issue_node n) r1"
      using rel_issue [OF rel assms(1) node_okD(1) [OF ok]] by blast
    have "drt_loop c 0 evs (issue_node n) r1 = Some (Inr ())"
      using assms(3,4) z by (intro drt_loop_ok [OF assms(1) issue_node_ok [OF ok] r1(2)]) (auto simp: issue_node_def note_payloads_def)
    then show ?thesis
      using True n r r1(1) issue_new_train_pure [OF assms(1) node_okD(1) [OF ok]]
      by (simp add: run_drt_def issue_initial_train_def ref_issue_initial_train_def)
  next
    case False
    then show ?thesis using drt_loop_ok [OF assms(1) ok rel assms(3)] assms(4) z n r by (simp add: run_drt_def)
  qed
qed

section \<open>The unit tests of the reference implementation\<close>

definition ref_build :: config where
  "ref_build = \<lparr>RING_SIZE = 3, NUM_TRAINS = 2, checks = True\<rparr>"

definition ref_test_issue_initial :: "bool option" where
  "ref_test_issue_initial = do {
     n \<leftarrow> ref_new ref_build 0 UniformTotalOrder;
     (n, t) \<leftarrow> ref_issue_initial_train ref_build n;
     Some (clock t = 1 \<and> issuer t = 0 \<and> ack_bits t = 1)
   }"

definition ref_test_broadcast_queues_payload :: "bool option" where
  "ref_test_broadcast_queues_payload = do {
     n \<leftarrow> ref_new ref_build 0 UniformTotalOrder;
     (n, _) \<leftarrow> ref_step ref_build (LocalBroadcast [104, 105]) n;
     Some (length (r_pending n) = 1)
   }"

definition ref_test_lap1_foreign :: "bool option" where
  "ref_test_lap1_foreign = do {
     n \<leftarrow> ref_new ref_build 0 UniformTotalOrder;
     (n, _) \<leftarrow> ref_issue_initial_train ref_build n;
     (n, outs) \<leftarrow> ref_step ref_build
       (TrainReceived \<lparr>issuer = 1, clock = 1, payloads = [\<lparr>sender = 1, seq = 0, data = [120]\<rparr>], ack_bits = 7\<rparr>) n;
     Some (batches outs = [])
   }"

lemma reference_tests_pass:
  "list_all (\<lambda>t. t = Some True) [ref_test_issue_initial, ref_test_broadcast_queues_payload, ref_test_lap1_foreign]"
  by code_simp

end
