(* ===== verification/Net_Tests.thy ===== *)
theory Net_Tests
  imports Codec Ao Drt
begin

text \<open>
  The unit tests of \<^verbatim>\<open>codec.rs\<close> (\<^verbatim>\<open>trains-net\<close>) and of \<^verbatim>\<open>adapter.rs\<close> and \<^verbatim>\<open>envelope.rs\<close> (\<^verbatim>\<open>trains-ao\<close>) on the model. The
  codec tests are functions of the bincode operations and the frame bound and are proved for every one the crate's
  promises allow; the adapter tests run on the instance of the JSON operations.
\<close>

section \<open>\<^verbatim>\<open>codec.rs\<close>\<close>

definition sample_train :: train where
  "sample_train = \<lparr>issuer = 1, clock = 42,
     payloads = [\<lparr>sender = 1, seq = 0, data = [104, 101, 108, 108, 111]\<rparr>, \<lparr>sender = 2, seq = 7, data = [119, 111, 114, 108, 100]\<rparr>],
     ack_bits = 5\<rparr>"

definition test_roundtrip :: "train bincode_enc \<Rightarrow> train bincode_dec \<Rightarrow> nat \<Rightarrow> bool" where
  "test_roundtrip enc dec mx =
     (case encode_train enc mx sample_train of
        Inl _ \<Rightarrow> False
      | Inr bs \<Rightarrow> (case read_train dec mx UnexpectedEof bs of Inl _ \<Rightarrow> False | Inr (decoded, _) \<Rightarrow> sample_train = decoded))"

definition test_frame_includes_length_prefix :: "train bincode_enc \<Rightarrow> nat \<Rightarrow> bool" where
  "test_frame_includes_length_prefix enc mx =
     (case encode_train enc mx sample_train of
        Inl _ \<Rightarrow> False
      | Inr bs \<Rightarrow> length bs > 4 \<and> from_be (take 4 bs) = length bs - 4)"

definition test_wire_msg_roundtrip :: "wire_msg bincode_enc \<Rightarrow> wire_msg bincode_dec \<Rightarrow> nat \<Rightarrow> wire_msg \<Rightarrow> bool" where
  "test_wire_msg_roundtrip enc dec mx msg =
     (case encode_msg enc mx msg of
        Inl _ \<Rightarrow> False
      | Inr bs \<Rightarrow> (case read_msg dec mx UnexpectedEof bs of Inl _ \<Rightarrow> False | Inr (decoded, _) \<Rightarrow> msg = decoded))"

text \<open>\<^verbatim>\<open>MAX_FRAME_LEN.saturating_add(1)\<close> on \<^verbatim>\<open>u32\<close>.\<close>

definition oversize :: "nat \<Rightarrow> nat" where
  "oversize mx = min (mx + 1) u32_max"

definition test_oversize_train :: "train bincode_dec \<Rightarrow> nat \<Rightarrow> bool" where
  "test_oversize_train dec mx \<longleftrightarrow>
     (case read_train dec mx UnexpectedEof (be_bytes 4 (oversize mx)) of Inl (CE_FrameTooLarge n) \<Rightarrow> n = oversize mx | _ \<Rightarrow> False)"

definition test_oversize_wire_msg :: "wire_msg bincode_dec \<Rightarrow> nat \<Rightarrow> bool" where
  "test_oversize_wire_msg dec mx \<longleftrightarrow>
     (case read_msg dec mx UnexpectedEof (be_bytes 4 (oversize mx)) of Inl (CE_FrameTooLarge n) \<Rightarrow> n = oversize mx | _ \<Rightarrow> False)"

definition test_exactly_max_frame_len :: "wire_msg bincode_dec \<Rightarrow> nat \<Rightarrow> bool" where
  "test_exactly_max_frame_len dec mx \<longleftrightarrow>
     (case read_msg dec mx UnexpectedEof (be_bytes 4 mx) of Inl (CE_Io k) \<Rightarrow> k = UnexpectedEof | _ \<Rightarrow> False)"

text \<open>They pass for every codec that inverts itself and every frame bound the build accepts; the last three
  depend on the bound alone.\<close>

lemma codec_roundtrip_tests_pass:
  assumes "bincode_ok enc dec" "frame_fits enc mx sample_train" "mx \<le> u32_max" "enc sample_train \<noteq> Some []"
    and "bincode_ok wenc wdec" "frame_fits wenc mx msg"
  shows "test_roundtrip enc dec mx" and "test_frame_includes_length_prefix enc mx" and "test_wire_msg_roundtrip wenc wdec mx msg"
proof -
  have e: "encode_frame enc mx sample_train = Inr (frame_of enc sample_train)" "encode_frame wenc mx msg = Inr (frame_of wenc msg)"
    using assms(2,6) by (simp_all add: encode_frame_Inr [OF assms(3)])
  have r: "read_frame dec mx UnexpectedEof (frame_of enc sample_train) = Inr (sample_train, [])"
      "read_frame wdec mx UnexpectedEof (frame_of wenc msg) = Inr (msg, [])"
    using read_frame_back [OF assms(1,3,2), of UnexpectedEof "[]"] read_frame_back [OF assms(5,3,6), of UnexpectedEof "[]"] by simp_all
  show "test_roundtrip enc dec mx" using e(1) r(1) by (simp add: test_roundtrip_def encode_train_def read_train_def)
  show "test_wire_msg_roundtrip wenc wdec mx msg"
    using e(2) r(2) by (simp add: test_wire_msg_roundtrip_def encode_msg_def read_msg_def)
  obtain body where b: "enc sample_train = Some body" "length body \<le> mx" "body \<noteq> []"
    using assms(2,4) by (cases "enc sample_train") (auto simp: frame_fits_def)
  have "from_be (be_bytes 4 (length body)) = length body"
    using b(2) assms(3) u32_max_eq by (simp add: from_be_bytes_exact)
  then show "test_frame_includes_length_prefix enc mx"
    using e(1) b by (simp add: test_frame_includes_length_prefix_def encode_train_def frame_of_def)
qed

lemma codec_bound_tests_pass:
  assumes "mx < u32_max"
  shows "test_oversize_train dec mx" and "test_oversize_wire_msg wdec mx" and "0 < mx \<Longrightarrow> test_exactly_max_frame_len wdec mx"
  using assms u32_max_eq
  by (simp_all add: test_oversize_train_def test_oversize_wire_msg_def test_exactly_max_frame_len_def oversize_def
      read_train_def read_msg_def read_frame_def read_exact_def from_be_bytes_exact Let_def)

section \<open>\<^verbatim>\<open>adapter.rs\<close>, \<^verbatim>\<open>envelope.rs\<close>\<close>

definition test_broadcast_envelope :: "bool option" where
  "test_broadcast_envelope = do {
     n \<leftarrow> ao_new ref_build 0 UniformTotalOrder;
     (n, r) \<leftarrow> feed ref_build demo_ops (app_broadcast_env demo_ops [104, 105]) n;
     Some (r = Inr [])
   }"

definition test_issue_initial_envelope :: "bool option" where
  "test_issue_initial_envelope = do {
     n \<leftarrow> ao_new ref_build 0 UniformTotalOrder;
     (n, env) \<leftarrow> ao_issue_initial ref_build demo_ops n;
     Some (kind env = EK_ForwardTrain)
   }"

definition test_train_arrival_round_trips :: "bool option" where
  "test_train_arrival_round_trips = do {
     n \<leftarrow> ao_new ref_build 0 UniformTotalOrder;
     (n, _) \<leftarrow> ao_issue_initial ref_build demo_ops n;
     (n, _) \<leftarrow> feed ref_build demo_ops (train_arrived_env demo_ops \<lparr>issuer = 0, clock = 1, payloads = [], ack_bits = FULL_ACK ref_build\<rparr>) n;
     let t = \<lparr>issuer = 1, clock = 1, payloads = [\<lparr>sender = 1, seq = 0, data = [120]\<rparr>], ack_bits = FULL_ACK ref_build\<rparr>;
     (n, _) \<leftarrow> feed ref_build demo_ops (train_arrived_env demo_ops t) n;
     (n, r) \<leftarrow> feed ref_build demo_ops (train_arrived_env demo_ops t) n;
     case r of
       Inl _ \<Rightarrow> None
     | Inr outs \<Rightarrow> Some (EK_Deliver \<in> set (map kind outs) \<and> EK_ForwardTrain \<in> set (map kind outs))
   }"

definition test_unsupported_kind_errors :: "bool option" where
  "test_unsupported_kind_errors = do {
     n \<leftarrow> ao_new ref_build 0 UniformTotalOrder;
     (n, r) \<leftarrow> feed ref_build demo_ops (deliver_env demo_ops []) n;
     Some (case r of Inl (NotAnInputKind _) \<Rightarrow> True | _ \<Rightarrow> False)
   }"

definition test_unknown_kind_extractors :: "bool option" where
  "test_unknown_kind_extractors =
     Some (as_train demo_ops (tick_env demo_ops) = None \<and> as_app_broadcast_bytes demo_ops (tick_env demo_ops) = None)"

lemma adapter_tests_pass:
  "list_all (\<lambda>t. t = Some True) [test_broadcast_envelope, test_issue_initial_envelope, test_train_arrival_round_trips,
     test_unsupported_kind_errors, test_unknown_kind_extractors]"
  by code_simp

end
