(* ===== verification/Transport.thy ===== *)
theory Transport
  imports Codec
begin

text \<open>
  \<^verbatim>\<open>crates/trains-net/src/transport.rs\<close>: the multiplexer of the outgoing channels, the connector
  task that owns the link to the successor, and the listener's receive loop. The connector is
  a step function on a record: one event per completed \<^verbatim>\<open>await\<close> (a message or an address from a
  channel, the outcome of a connect, a handshake or a write, the end of a sleep, the peer
  closing), and a \<open>phase\<close> that says at which \<^verbatim>\<open>await\<close> the task is. An event that the current
  \<^verbatim>\<open>await\<close> cannot produce is \<^term>\<open>None\<close>, as is a panic. The bytes of every connection, the
  messages taken from the channel and the messages written are kept as histories. Durations
  are milliseconds; addresses and messages are of any type.
\<close>

definition RECONNECT_BACKOFF :: nat where
  "RECONNECT_BACKOFF = 500"

definition RECONNECT_MAX_BACKOFF :: nat where
  "RECONNECT_MAX_BACKOFF = 5000"

definition UNREACHABLE_FAILURES :: nat where
  "UNREACHABLE_FAILURES = 5"

definition UNREACHABLE_CAP :: nat where
  "UNREACHABLE_CAP = 8"

text \<open>The operator \<^verbatim>\<open>+=\<close> on \<^verbatim>\<open>u32\<close>.\<close>

definition add32 :: "bool \<Rightarrow> nat \<Rightarrow> nat \<Rightarrow> nat option" where
  "add32 chk a b =
     (if a + b \<le> u32_max then Some (a + b)
      else if chk then None else Some ((a + b) mod (u32_max + 1)))"

section \<open>Multiplexer and demultiplexer\<close>

text \<open>The mux task: \<^verbatim>\<open>select!\<close> takes from either channel; it stops when a channel closes.\<close>

inductive mux :: "train list \<Rightarrow> view_change_msg list \<Rightarrow> wire_msg list \<Rightarrow> bool" where
  mux_close: "mux ts vs []"
| mux_train: "mux ts vs ws \<Longrightarrow> mux (t # ts) vs (Train_Msg t # ws)"
| mux_vc: "mux ts vs ws \<Longrightarrow> mux ts (v # vs) (View_Change_Msg v # ws)"

definition trains_of :: "wire_msg list \<Rightarrow> train list" where
  "trains_of ws = concat (map (\<lambda>w. case w of Train_Msg t \<Rightarrow> [t] | View_Change_Msg _ \<Rightarrow> []) ws)"

definition tokens_of :: "wire_msg list \<Rightarrow> view_change_msg list" where
  "tokens_of ws = concat (map (\<lambda>w. case w of Train_Msg _ \<Rightarrow> [] | View_Change_Msg v \<Rightarrow> [v]) ws)"

text \<open>One accepted connection of the listener: the bytes received on it and the condition it ends
  with; what reaches \<^verbatim>\<open>inbox\<close> and \<^verbatim>\<open>vc_inbox\<close>, and the error that closed it.\<close>

definition listen_connection ::
    "wire_msg bincode_dec \<Rightarrow> nat \<Rightarrow> bool \<Rightarrow> bool \<Rightarrow> io_kind \<Rightarrow> byte list \<Rightarrow>
     train list \<times> view_change_msg list \<times> codec_error option" where
  "listen_connection dec mx inbox_open vc_open e bs =
     (let hand_over = (\<lambda>w. case w of Train_Msg _ \<Rightarrow> inbox_open | View_Change_Msg _ \<Rightarrow> vc_open);
          (ws, err) = read_loop dec mx e hand_over bs
      in (trains_of ws, tokens_of ws, err))"

text \<open>The multiplexer keeps the order of each channel.\<close>

lemma mux_keeps_order:
  "mux ts vs ws \<Longrightarrow> prefix (trains_of ws) ts \<and> prefix (tokens_of ws) vs"
  by (induction rule: mux.induct) (simp_all add: trains_of_def tokens_of_def)

section \<open>The connector\<close>

datatype 'm phase =
    Idle                      \<comment> \<open>waiting for a message or a retarget\<close>
  | Connecting "'m option"    \<comment> \<open>\<^verbatim>\<open>TcpStream::connect\<close>, with the message in hand\<close>
  | Backoff                   \<comment> \<open>sleeping after a failed connect, retarget honoured\<close>
  | Handshake "'m option"
  | Tls_Backoff               \<comment> \<open>sleeping after a failed handshake\<close>
  | Writing 'm                \<comment> \<open>\<^verbatim>\<open>write_msg\<close>, the first or a later message\<close>
  | Streaming                 \<comment> \<open>connected, waiting for the next message\<close>
  | Stopped

datatype ('a, 'm) conn_event =
    Recv "'m option" | Retarget 'a | Connect_Ok | Connect_Err | Slept | Tls_Ok | Tls_Err
  | Write "nat option" | Peer_Close | Report_Taken

record ('a, 'm) connector =
  c_addr :: 'a
  backoff :: nat
  fail_streak :: nat
  notified :: bool
  c_pending :: "'m option"
  force_reconnect :: bool
  phase :: "'m phase"
  unreachable :: "'a list"
  streams :: "('m list \<times> byte list) list"
  taken :: "'m list"

definition connector_new :: "'a \<Rightarrow> ('a, 'm) connector" where
  "connector_new a = \<lparr>c_addr = a, backoff = RECONNECT_BACKOFF, fail_streak = 0, notified = False,
     c_pending = None, force_reconnect = False, phase = Idle, unreachable = [], streams = [], taken = []\<rparr>"

text \<open>The top of the outer loop: a probe, the retained message, or the wait for a new one.\<close>

definition acquire :: "('a, 'm) connector \<Rightarrow> ('a, 'm) connector" where
  "acquire s =
     (if force_reconnect s then s\<lparr>force_reconnect := False, phase := Connecting None\<rparr>
      else case c_pending s of
          Some m \<Rightarrow> s\<lparr>c_pending := None, phase := Connecting (Some m)\<rparr>
        | None \<Rightarrow> s\<lparr>phase := Idle\<rparr>)"

definition retarget :: "'a \<Rightarrow> ('a, 'm) connector \<Rightarrow> ('a, 'm) connector" where
  "retarget a s =
     (if a \<noteq> c_addr s
      then s\<lparr>c_addr := a, backoff := RECONNECT_BACKOFF, fail_streak := 0, notified := False\<rparr>
      else s)"

definition lengthen_backoff :: "('a, 'm) connector \<Rightarrow> ('a, 'm) connector" where
  "lengthen_backoff s = s\<lparr>backoff := min (backoff s * 2) RECONNECT_MAX_BACKOFF\<rparr>"

definition keep_pending :: "'m option \<Rightarrow> ('a, 'm) connector \<Rightarrow> ('a, 'm) connector" where
  "keep_pending mo s = (case mo of Some m \<Rightarrow> s\<lparr>c_pending := Some m\<rparr> | None \<Rightarrow> s)"

definition connect_failed :: "bool \<Rightarrow> 'm option \<Rightarrow> ('a, 'm) connector \<Rightarrow> ('a, 'm) connector option" where
  "connect_failed chk mo s = do {
     let s1 = keep_pending mo s;
     let s2 = (if mo = None then s1\<lparr>force_reconnect := True\<rparr> else s1);
     n \<leftarrow> add32 chk (fail_streak s2) 1;
     let s3 = s2\<lparr>fail_streak := n\<rparr>;
     let s4 = (if n \<ge> UNREACHABLE_FAILURES \<and> \<not> notified s3
               then s3\<lparr>unreachable := (if length (unreachable s3) < UNREACHABLE_CAP
                                        then unreachable s3 @ [c_addr s3] else unreachable s3),
                       notified := True\<rparr>
               else s3);
     Some (s4\<lparr>phase := Backoff\<rparr>)
   }"

text \<open>\<^verbatim>\<open>write_msg\<close> on the current connection.\<close>

definition write_current ::
    "'m bincode_enc \<Rightarrow> nat \<Rightarrow> nat option \<Rightarrow> 'm \<Rightarrow> ('a, 'm) connector \<Rightarrow> ('a, 'm) connector" where
  "write_current enc mx fault m s =
     (let (ws, wire) = last (streams s)
      in case write_frame enc mx fault m wire of
          (wire', None) \<Rightarrow> s\<lparr>streams := butlast (streams s) @ [(ws @ [m], wire')], phase := Streaming\<rparr>
        | (wire', Some _) \<Rightarrow>
            acquire (s\<lparr>streams := butlast (streams s) @ [(ws, wire')], c_pending := Some m\<rparr>))"

fun connector_step ::
    "'m bincode_enc \<Rightarrow> nat \<Rightarrow> bool \<Rightarrow> ('a, 'm) conn_event \<Rightarrow> ('a, 'm) connector \<Rightarrow> ('a, 'm) connector option" where
  "connector_step enc mx chk (Recv mo) s = (case (phase s, mo) of
       (Idle, Some m) \<Rightarrow> Some (s\<lparr>taken := taken s @ [m], phase := Connecting (Some m)\<rparr>)
     | (Streaming, Some m) \<Rightarrow> Some (s\<lparr>taken := taken s @ [m], phase := Writing m\<rparr>)
     | (Idle, None) \<Rightarrow> Some (s\<lparr>phase := Stopped\<rparr>)
     | (Streaming, None) \<Rightarrow> Some (s\<lparr>phase := Stopped\<rparr>)
     | _ \<Rightarrow> None)"
| "connector_step enc mx chk (Retarget a) s = (case phase s of
       Idle \<Rightarrow> Some (acquire (retarget a s))
     | Backoff \<Rightarrow> Some (acquire (retarget a s))
     | Streaming \<Rightarrow> Some (if a \<noteq> c_addr s then acquire (retarget a s) else s)
     | _ \<Rightarrow> None)"
| "connector_step enc mx chk Connect_Ok s = (case phase s of
       Connecting mo \<Rightarrow> Some (s\<lparr>fail_streak := 0, notified := False, phase := Handshake mo\<rparr>)
     | _ \<Rightarrow> None)"
| "connector_step enc mx chk Connect_Err s = (case phase s of
       Connecting mo \<Rightarrow> connect_failed chk mo s
     | _ \<Rightarrow> None)"
| "connector_step enc mx chk Slept s = (case phase s of
       Backoff \<Rightarrow> Some (acquire (lengthen_backoff s))
     | Tls_Backoff \<Rightarrow> Some (acquire (lengthen_backoff s))
     | _ \<Rightarrow> None)"
| "connector_step enc mx chk Tls_Ok s = (case phase s of
       Handshake mo \<Rightarrow>
         Some (s\<lparr>backoff := RECONNECT_BACKOFF, streams := streams s @ [([], [])],
                 phase := (case mo of Some m \<Rightarrow> Writing m | None \<Rightarrow> Streaming)\<rparr>)
     | _ \<Rightarrow> None)"
| "connector_step enc mx chk Tls_Err s = (case phase s of
       Handshake mo \<Rightarrow> Some ((keep_pending mo s)\<lparr>phase := Tls_Backoff\<rparr>)
     | _ \<Rightarrow> None)"
| "connector_step enc mx chk (Write fault) s = (case phase s of
       Writing m \<Rightarrow> Some (write_current enc mx fault m s)
     | _ \<Rightarrow> None)"
| "connector_step enc mx chk Peer_Close s = (case phase s of
       Streaming \<Rightarrow> Some (acquire (s\<lparr>force_reconnect := True\<rparr>))
     | _ \<Rightarrow> None)"
| "connector_step enc mx chk Report_Taken s = (case unreachable s of
       [] \<Rightarrow> None
     | _ # rest \<Rightarrow> Some (s\<lparr>unreachable := rest\<rparr>))"

section \<open>Senders that retain their message\<close>

text \<open>
  The contract both connectors give the node: what was taken from the channel is what was
  written, in order, followed by at most one message still held. From it: nothing taken is
  lost, skipped or reordered over any sequence of events.
\<close>

locale retaining_sender =
  fixes step :: "'e \<Rightarrow> 's \<Rightarrow> 's option"
    and taken_by :: "'s \<Rightarrow> 'm list"
    and written_by :: "'s \<Rightarrow> 'm list"
    and held_by :: "'s \<Rightarrow> 'm list"
    and ok :: "'s \<Rightarrow> bool"
  assumes step_ok: "ok s \<Longrightarrow> step e s = Some s' \<Longrightarrow> ok s'"
    and balance: "ok s \<Longrightarrow> taken_by s = written_by s @ held_by s"
    and held_one: "ok s \<Longrightarrow> length (held_by s) \<le> 1"
    and written_grows: "ok s \<Longrightarrow> step e s = Some s' \<Longrightarrow> prefix (written_by s) (written_by s')"
    and taken_grows: "ok s \<Longrightarrow> step e s = Some s' \<Longrightarrow> prefix (taken_by s) (taken_by s')"
begin

lemma run_ok: "fold_opt step evs s = Some s' \<Longrightarrow> ok s \<Longrightarrow> ok s'"
  by (induction evs arbitrary: s) (auto split: bind_splits dest: step_ok)

lemma run_grows:
  "fold_opt step evs s = Some s' \<Longrightarrow> ok s \<Longrightarrow>
     prefix (written_by s) (written_by s') \<and> prefix (taken_by s) (taken_by s')"
proof (induction evs arbitrary: s)
  case (Cons e evs)
  then obtain s1 where s1: "step e s = Some s1" "fold_opt step evs s1 = Some s'"
    by (auto split: bind_splits)
  show ?case
    using Cons.IH [OF s1(2) step_ok [OF Cons.prems(2) s1(1)]]
      written_grows [OF Cons.prems(2) s1(1)] taken_grows [OF Cons.prems(2) s1(1)]
    by (meson prefix_order.trans)
qed simp

text \<open>Every message taken is written, except possibly the last one, which is then held.\<close>

lemma nothing_lost:
  assumes "fold_opt step evs s = Some s'" and "ok s"
  shows "written_by s' = taken_by s' \<or>
    (\<exists>m. held_by s' = [m] \<and> taken_by s' = written_by s' @ [m])"
proof -
  have "ok s'" by (rule run_ok [OF assms])
  then show ?thesis using balance [of s'] held_one [of s'] by (cases "held_by s'") auto
qed

end

section \<open>The invariant of the connector\<close>

text \<open>The message in hand: in the current phase or retained for the next attempt.\<close>

definition held :: "('a, 'm) connector \<Rightarrow> 'm list" where
  "held s = (case phase s of
       Connecting (Some m) \<Rightarrow> [m]
     | Handshake (Some m) \<Rightarrow> [m]
     | Writing m \<Rightarrow> [m]
     | _ \<Rightarrow> (case c_pending s of Some m \<Rightarrow> [m] | None \<Rightarrow> []))"

definition written :: "('a, 'm) connector \<Rightarrow> 'm list" where
  "written s = concat (map fst (streams s))"

text \<open>A connection carries the frames of the messages written on it, then at most a part of the
  frame whose write failed.\<close>

definition stream_ok :: "'m bincode_enc \<Rightarrow> nat \<Rightarrow> 'm list \<times> byte list \<Rightarrow> bool" where
  "stream_ok enc mx st \<longleftrightarrow> (\<forall>m\<in>set (fst st). frame_fits enc mx m) \<and>
     (snd st = concat (map (frame_of enc) (fst st)) \<or>
      (\<exists>m k. frame_fits enc mx m \<and>
         snd st = concat (map (frame_of enc) (fst st)) @ take k (frame_of enc m)))"

fun connected :: "'m phase \<Rightarrow> bool" where
  "connected (Writing m) = True"
| "connected Streaming = True"
| "connected _ = False"

definition hand_ok :: "('a, 'm) connector \<Rightarrow> bool" where
  "hand_ok s \<longleftrightarrow> taken s = written s @ held s \<and>
     (case phase s of Backoff \<Rightarrow> True | Tls_Backoff \<Rightarrow> \<not> force_reconnect s
        | _ \<Rightarrow> c_pending s = None \<and> \<not> force_reconnect s) \<and>
     (force_reconnect s \<longrightarrow> c_pending s = None)"

definition streams_ok :: "'m bincode_enc \<Rightarrow> nat \<Rightarrow> ('a, 'm) connector \<Rightarrow> bool" where
  "streams_ok enc mx s \<longleftrightarrow> (\<forall>st\<in>set (streams s). stream_ok enc mx st) \<and>
     (connected (phase s) \<longrightarrow> streams s \<noteq> [] \<and>
        snd (last (streams s)) = concat (map (frame_of enc) (fst (last (streams s)))))"

definition counters_ok :: "('a, 'm) connector \<Rightarrow> bool" where
  "counters_ok s \<longleftrightarrow> RECONNECT_BACKOFF \<le> backoff s \<and> backoff s \<le> RECONNECT_MAX_BACKOFF \<and>
     fail_streak s \<le> u32_max \<and> notified s = (UNREACHABLE_FAILURES \<le> fail_streak s) \<and>
     length (unreachable s) \<le> UNREACHABLE_CAP"

definition connector_ok :: "'m bincode_enc \<Rightarrow> nat \<Rightarrow> ('a, 'm) connector \<Rightarrow> bool" where
  "connector_ok enc mx s \<longleftrightarrow> hand_ok s \<and> streams_ok enc mx s"

lemmas loop_defs = acquire_def retarget_def lengthen_backoff_def keep_pending_def

lemma streams_ok_cong:
  "streams_ok enc mx s \<Longrightarrow> streams s' = streams s \<Longrightarrow> (connected (phase s') \<Longrightarrow> connected (phase s)) \<Longrightarrow>
     streams_ok enc mx s'"
  by (simp add: streams_ok_def)

lemma acquire_not_connected [simp]: "\<not> connected (phase (acquire s))"
  by (simp add: acquire_def split: option.splits)

lemma acquire_counters [simp]:
  "backoff (acquire s) = backoff s" "fail_streak (acquire s) = fail_streak s"
  "notified (acquire s) = notified s" "unreachable (acquire s) = unreachable s"
  "c_addr (acquire s) = c_addr s" "taken (acquire s) = taken s"
  by (simp_all add: acquire_def split: option.splits)

lemma streams_simps [simp]:
  "streams (acquire s) = streams s" "streams (retarget a s) = streams s"
  "streams (lengthen_backoff s) = streams s" "streams (keep_pending mo s) = streams s"
  by (simp_all add: loop_defs split: option.splits)

text \<open>A message in hand goes back to the loop.\<close>

lemma acquire_hand_ok:
  assumes "taken s = written s @ (case c_pending s of Some m \<Rightarrow> [m] | None \<Rightarrow> [])"
    and "force_reconnect s \<Longrightarrow> c_pending s = None"
  shows "hand_ok (acquire s)"
  using assms
  by (cases "force_reconnect s"; cases "c_pending s") (simp_all add: hand_ok_def held_def written_def acquire_def)

lemma acquire_counters_ok: "counters_ok s \<Longrightarrow> counters_ok (acquire s)"
  by (simp add: counters_ok_def acquire_def split: option.splits)

lemma retarget_counters_ok: "counters_ok s \<Longrightarrow> counters_ok (retarget a s)"
  by (simp add: counters_ok_def retarget_def RECONNECT_BACKOFF_def RECONNECT_MAX_BACKOFF_def
      UNREACHABLE_FAILURES_def)

lemma lengthen_counters_ok: "counters_ok s \<Longrightarrow> counters_ok (lengthen_backoff s)"
  by (simp add: counters_ok_def lengthen_backoff_def RECONNECT_BACKOFF_def RECONNECT_MAX_BACKOFF_def)

lemma connect_failed_cases:
  assumes "connect_failed chk mo s = Some s'"
  obtains n where "add32 chk (fail_streak s) 1 = Some n"
    "s' = s\<lparr>c_pending := (case mo of Some m \<Rightarrow> Some m | None \<Rightarrow> c_pending s),
      force_reconnect := (mo = None \<or> force_reconnect s), fail_streak := n,
      notified := (notified s \<or> UNREACHABLE_FAILURES \<le> n),
      unreachable := unreachable s @
        (if UNREACHABLE_FAILURES \<le> n \<and> \<not> notified s \<and> length (unreachable s) < UNREACHABLE_CAP
         then [c_addr s] else []),
      phase := Backoff\<rparr>"
  using assms
  by (auto simp: connect_failed_def keep_pending_def Let_def split: bind_splits option.splits if_splits
      intro!: that)

lemma write_current_cases:
  assumes "mx \<le> u32_max"
  obtains ws wire where "last (streams s) = (ws, wire)" "fault = None" "frame_fits enc mx m"
      "write_current enc mx fault m s =
         s\<lparr>streams := butlast (streams s) @ [(ws @ [m], wire @ frame_of enc m)], phase := Streaming\<rparr>"
    | ws wire k where "last (streams s) = (ws, wire)" "fault = Some k" "frame_fits enc mx m"
      "write_current enc mx fault m s =
         acquire (s\<lparr>streams := butlast (streams s) @ [(ws, wire @ take k (frame_of enc m))], c_pending := Some m\<rparr>)"
    | ws wire where "last (streams s) = (ws, wire)" "\<not> frame_fits enc mx m"
      "write_current enc mx fault m s =
         acquire (s\<lparr>streams := butlast (streams s) @ [(ws, wire)], c_pending := Some m\<rparr>)"
proof -
  obtain ws wire where l: "last (streams s) = (ws, wire)" by (cases "last (streams s)")
  show ?thesis
  proof (cases "encode_frame enc mx m")
    case (Inl err)
    then have "\<not> frame_fits enc mx m"
      using encode_frame_Inr [OF assms, of enc m "frame_of enc m"] by auto
    then show ?thesis
      using l Inl by (intro that(3)) (auto simp: write_current_def write_frame_def)
  next
    case (Inr f)
    then have f: "frame_fits enc mx m" "f = frame_of enc m"
      using encode_frame_Inr [OF assms, of enc m f] by auto
    show ?thesis
      by (cases fault) (use l Inr f in \<open>auto intro: that(1,2) simp: write_current_def write_frame_def\<close>)
  qed
qed

lemma hand_okD:
  assumes "hand_ok s"
  shows "taken s = written s @ held s" "force_reconnect s \<Longrightarrow> c_pending s = None"
    "phase s \<noteq> Backoff \<Longrightarrow> \<not> force_reconnect s"
    "phase s \<noteq> Backoff \<Longrightarrow> phase s \<noteq> Tls_Backoff \<Longrightarrow> c_pending s = None"
  using assms by (auto simp: hand_ok_def split: phase.splits)

lemma written_snoc:
  assumes "streams s \<noteq> []" and "last (streams s) = (ws, wire)"
  shows "concat (map fst (butlast (streams s) @ [(ws @ xs, w)])) = written s @ xs"
proof -
  have "streams s = butlast (streams s) @ [(ws, wire)]" using assms by (metis append_butlast_last_id)
  then have "written s = concat (map fst (butlast (streams s) @ [(ws, wire)]))"
    by (simp add: written_def)
  then show ?thesis by simp
qed

lemma write_hand_ok:
  assumes "hand_ok s" "phase s = Writing m" "streams s \<noteq> []" "mx \<le> u32_max"
  shows "hand_ok (write_current enc mx fault m s)"
proof -
  note h = hand_okD [OF assms(1)]
  have t: "taken s = written s @ [m]" using h(1) assms(2) by (simp add: held_def)
  have f: "\<not> force_reconnect s" "c_pending s = None" using h(3,4) assms(2) by simp_all
  show ?thesis
  proof (cases rule: write_current_cases [OF assms(4), of s fault enc m])
    case (1 ws wire)
    then show ?thesis
      using t f written_snoc [OF assms(3) 1(1), of "[m]"]
      by (simp add: hand_ok_def held_def written_def [where s = "s\<lparr>streams := _, phase := _\<rparr>"])
  next
    case (2 ws wire k)
    show ?thesis
      unfolding 2(4) using t f written_snoc [OF assms(3) 2(1), of "[]"]
      by (intro acquire_hand_ok) (simp_all add: written_def [where s = "s\<lparr>streams := _, c_pending := _\<rparr>"])
  next
    case (3 ws wire)
    show ?thesis
      unfolding 3(3) using t f written_snoc [OF assms(3) 3(1), of "[]"]
      by (intro acquire_hand_ok) (simp_all add: written_def [where s = "s\<lparr>streams := _, c_pending := _\<rparr>"])
  qed
qed

lemma step_hand_ok:
  assumes "hand_ok s" "streams_ok enc mx s" "mx \<le> u32_max" "connector_step enc mx chk e s = Some s'"
  shows "hand_ok s'"
proof -
  note h = hand_okD [OF assms(1)]
  show ?thesis
  proof (cases e)
    case (Recv mo)
    then show ?thesis
      using assms(1,4) by (cases mo; cases "phase s") (auto simp: hand_ok_def held_def written_def)
  next
    case (Retarget a)
    have "hand_ok (acquire (retarget a s))"
      if "phase s = Idle \<or> phase s = Backoff \<or> phase s = Streaming"
      using that h(1,2) by (intro acquire_hand_ok) (auto simp: retarget_def held_def written_def)
    then show ?thesis
      using assms(1,4) Retarget by (cases "phase s") (auto split: if_splits)
  next
    case Connect_Ok
    then show ?thesis
      using assms(1,4) by (cases "phase s") (auto simp: hand_ok_def held_def written_def split: option.splits)
  next
    case Connect_Err
    then obtain mo where mo: "phase s = Connecting mo" "connect_failed chk mo s = Some s'"
      using assms(4) by (cases "phase s") auto
    show ?thesis
      using mo(1) h(1) h(3,4)
      by (cases rule: connect_failed_cases [OF mo(2)]; cases mo) (simp_all add: hand_ok_def held_def written_def)
  next
    case Slept
    have "hand_ok (acquire (lengthen_backoff s))" if "phase s = Backoff \<or> phase s = Tls_Backoff"
      using that h(1,2) by (intro acquire_hand_ok) (auto simp: lengthen_backoff_def held_def written_def)
    then show ?thesis using assms(4) Slept by (cases "phase s") auto
  next
    case Tls_Ok
    then show ?thesis
      using assms(1,4) by (cases "phase s") (auto simp: hand_ok_def held_def written_def split: option.splits)
  next
    case Tls_Err
    then show ?thesis
      using assms(1,4)
      by (cases "phase s") (auto simp: hand_ok_def held_def written_def keep_pending_def split: option.splits)
  next
    case (Write fault)
    then obtain m where "phase s = Writing m" "s' = write_current enc mx fault m s"
      using assms(4) by (cases "phase s") auto
    then show ?thesis using write_hand_ok [OF assms(1)] assms(2,3) by (auto simp: streams_ok_def)
  next
    case Peer_Close
    have "hand_ok (acquire (s\<lparr>force_reconnect := True\<rparr>))" if "phase s = Streaming"
      using that h(1,4) by (intro acquire_hand_ok) (auto simp: held_def written_def)
    then show ?thesis using assms(4) Peer_Close by (cases "phase s") auto
  next
    case Report_Taken
    then show ?thesis
      using assms(1,4)
      by (cases "phase s") (auto simp: hand_ok_def held_def written_def split: list.splits option.splits)
  qed
qed

lemma streams_ok_replace:
  assumes "streams_ok enc mx s" "streams s \<noteq> []" "stream_ok enc mx st"
    and "connected (phase s') \<Longrightarrow> snd st = concat (map (frame_of enc) (fst st))"
    and "streams s' = butlast (streams s) @ [st]"
  shows "streams_ok enc mx s'"
  using assms by (auto simp: streams_ok_def dest: in_set_butlastD)

lemma step_streams_ok:
  assumes "streams_ok enc mx s" "mx \<le> u32_max" "connector_step enc mx chk e s = Some s'"
  shows "streams_ok enc mx s'"
proof (cases "\<exists>fault. e = Write fault")
  case True
  then obtain fault m where w: "phase s = Writing m" "s' = write_current enc mx fault m s"
    using assms(3) by (cases "phase s") auto
  have ne: "streams s \<noteq> []" and last: "snd (last (streams s)) = concat (map (frame_of enc) (fst (last (streams s))))"
    using assms(1) w(1) by (simp_all add: streams_ok_def)
  have "stream_ok enc mx (last (streams s))" using assms(1) ne by (simp add: streams_ok_def)
  then have fits: "\<forall>m\<in>set (fst (last (streams s))). frame_fits enc mx m" by (simp add: stream_ok_def)
  show ?thesis
  proof (cases rule: write_current_cases [OF assms(2), of s fault enc m])
    case (1 ws wire)
    then show ?thesis
      using w(2) last fits by (intro streams_ok_replace [OF assms(1) ne]) (auto simp: stream_ok_def)
  next
    case (2 ws wire k)
    then show ?thesis
      using w(2) last fits by (intro streams_ok_replace [OF assms(1) ne]) (auto simp: stream_ok_def)
  next
    case (3 ws wire)
    then show ?thesis
      using w(2) last fits by (intro streams_ok_replace [OF assms(1) ne]) (auto simp: stream_ok_def)
  qed
next
  case False
  show ?thesis
  proof (cases "e = Tls_Ok")
    case True
    then show ?thesis
      using assms(1,3) by (cases "phase s") (auto simp: streams_ok_def stream_ok_def)
  next
    case nt: False
    have "streams s' = streams s \<and> (connected (phase s') \<longrightarrow> connected (phase s))"
    proof (cases "e = Connect_Err")
      case True
      then obtain mo where "connect_failed chk mo s = Some s'"
        using assms(3) by (cases "phase s") auto
      then show ?thesis by (cases rule: connect_failed_cases) simp_all
    next
      case ne: False
      show ?thesis
        using assms(3) False nt ne
        by (cases e; cases "phase s") (auto split: option.splits list.splits if_splits)
    qed
    then show ?thesis using streams_ok_cong [OF assms(1)] by blast
  qed
qed

lemma step_counters_ok:
  assumes "counters_ok s" "mx \<le> u32_max" "connector_step enc mx chk e s = Some s'"
    and "fail_streak s < u32_max"
  shows "counters_ok s'"
proof (cases e)
  case Connect_Err
  then obtain mo where "connect_failed chk mo s = Some s'"
    using assms(3) by (cases "phase s") auto
  then show ?thesis
    using assms(1,4) by (cases rule: connect_failed_cases) (auto simp: counters_ok_def add32_def)
next
  case (Write fault)
  then obtain m where w: "s' = write_current enc mx fault m s" using assms(3) by (cases "phase s") auto
  show ?thesis
    unfolding w using assms(1)
    by (cases rule: write_current_cases [OF assms(2), of s fault enc m])
      (simp_all add: counters_ok_def)
next
  case (Retarget a)
  then show ?thesis
    using assms(1,3)
    by (cases "phase s") (auto intro: acquire_counters_ok retarget_counters_ok split: if_splits)
next
  case Slept
  then show ?thesis
    using assms(1,3)
    by (cases "phase s") (auto intro: acquire_counters_ok lengthen_counters_ok)
next
  case Peer_Close
  have "counters_ok (acquire (s\<lparr>force_reconnect := True\<rparr>))" using assms(1) by (simp add: counters_ok_def)
  then show ?thesis using assms(3) Peer_Close by (cases "phase s") auto
next
  case Report_Taken
  then show ?thesis using assms(1,3) by (auto simp: counters_ok_def split: list.splits)
next
  case (Recv mo)
  then show ?thesis using assms(1,3) by (cases "phase s"; cases mo) (auto simp: counters_ok_def)
next
  case Tls_Err
  then show ?thesis
    using assms(1,3) by (cases "phase s") (auto simp: counters_ok_def keep_pending_def split: option.splits)
qed (use assms(1,3) in \<open>cases "phase s"; auto simp: counters_ok_def RECONNECT_BACKOFF_def
      RECONNECT_MAX_BACKOFF_def UNREACHABLE_FAILURES_def\<close>)+

lemma step_histories:
  assumes "streams_ok enc mx s" "mx \<le> u32_max" "connector_step enc mx chk e s = Some s'"
  shows "prefix (taken s) (taken s')" "prefix (written s) (written s')"
proof -
  have "prefix (taken s) (taken s') \<and> prefix (written s) (written s')"
  proof (cases e)
    case Connect_Err
    then obtain mo where "connect_failed chk mo s = Some s'"
      using assms(3) by (cases "phase s") auto
    then show ?thesis by (cases rule: connect_failed_cases) (simp add: written_def)
  next
    case (Write fault)
    then obtain m where w: "phase s = Writing m" "s' = write_current enc mx fault m s"
      using assms(3) by (cases "phase s") auto
    have ne: "streams s \<noteq> []" using assms(1) w(1) by (simp add: streams_ok_def)
    show ?thesis
    proof (cases rule: write_current_cases [OF assms(2), of s fault enc m])
      case (1 ws wire)
      then show ?thesis
        using w(2) written_snoc [OF ne 1(1), of "[m]"]
        by (simp add: written_def [where s = "s\<lparr>streams := _, phase := _\<rparr>"]) (metis append_assoc prefixI)
    next
      case (2 ws wire k)
      then show ?thesis
        using w(2) written_snoc [OF ne 2(1), of "[]"] by (simp add: written_def [where s = "acquire _"])
    next
      case (3 ws wire)
      then show ?thesis
        using w(2) written_snoc [OF ne 3(1), of "[]"] by (simp add: written_def [where s = "acquire _"])
    qed
  qed (use assms(3) in \<open>cases "phase s"; auto simp: written_def retarget_def lengthen_backoff_def
        keep_pending_def split: option.splits list.splits if_splits\<close>)+
  then show "prefix (taken s) (taken s')" "prefix (written s) (written s')" by simp_all
qed

lemma held_length: "length (held s) \<le> 1"
  by (simp add: held_def split: phase.splits option.splits)

interpretation tls_link:
  retaining_sender "connector_step enc mx chk" taken written held
    "\<lambda>s. mx \<le> u32_max \<and> connector_ok enc mx s" for enc mx chk
proof
  show "taken s = written s @ held s" if "mx \<le> u32_max \<and> connector_ok enc mx s" for s
    using that hand_okD(1) [of s] by (simp add: connector_ok_def)
  show "length (held s) \<le> 1" for s :: "('b, 'a) connector" by (rule held_length)
qed (auto simp: connector_ok_def dest: step_hand_ok step_streams_ok step_histories)

section \<open>What the listener reads\<close>

lemma frame_nonempty: "length (frame_of enc m) > 0"
  by (simp add: frame_of_def)

lemma read_loop_cut:
  assumes "bincode_ok enc dec" and "mx \<le> u32_max"
  shows "\<forall>m\<in>set ms. frame_fits enc mx m \<and> hand_over m \<Longrightarrow>
    \<exists>j. read_loop dec mx e hand_over (take n (concat (map (frame_of enc) ms))) = (take j ms, Some (CE_Io e)) \<and>
      (\<forall>i\<le>length ms. length (concat (map (frame_of enc) (take i ms))) \<le> n \<longrightarrow> i \<le> j)"
proof (induction ms arbitrary: n)
  case Nil
  then show ?case by (auto simp: read_loop.simps read_frame_def read_exact_def)
next
  case (Cons m ms)
  have m: "frame_fits enc mx m" "hand_over m" using Cons.prems by auto
  show ?case
  proof (cases "n < length (frame_of enc m)")
    case True
    then have "read_loop dec mx e hand_over (take n (concat (map (frame_of enc) (m # ms)))) =
        (take 0 (m # ms), Some (CE_Io e))"
      by (subst read_loop.simps) (simp add: read_frame_cut [OF assms(2) m(1)])
    moreover have "i \<le> 0" if "length (concat (map (frame_of enc) (take i (m # ms)))) \<le> n" for i
      using that True by (cases i) auto
    ultimately show ?thesis by blast
  next
    case False
    let ?l = "length (frame_of enc m)"
    obtain j where j: "read_loop dec mx e hand_over (take (n - ?l) (concat (map (frame_of enc) ms))) =
        (take j ms, Some (CE_Io e))"
      "\<forall>i\<le>length ms. length (concat (map (frame_of enc) (take i ms))) \<le> n - ?l \<longrightarrow> i \<le> j"
      using Cons by force
    have "read_loop dec mx e hand_over (take n (concat (map (frame_of enc) (m # ms)))) =
        (take (Suc j) (m # ms), Some (CE_Io e))"
      using False j(1) m by (subst read_loop.simps) (simp add: read_frame_back [OF assms])
    moreover have "i \<le> Suc j"
      if "i \<le> length (m # ms)" "length (concat (map (frame_of enc) (take i (m # ms)))) \<le> n" for i
      using that j(2) by (cases i) auto
    ultimately show ?thesis by blast
  qed
qed

lemma stream_ok_prefix:
  assumes "stream_ok enc mx (ws, bs)"
  obtains rs where "length rs \<le> 1" "\<forall>m\<in>set (ws @ rs). frame_fits enc mx m"
    "bs = take (length bs) (concat (map (frame_of enc) (ws @ rs)))"
    "length (concat (map (frame_of enc) ws)) \<le> length bs"
proof (cases "bs = concat (map (frame_of enc) ws)")
  case True
  then show ?thesis using assms by (intro that [of "[]"]) (auto simp: stream_ok_def)
next
  case False
  then obtain m k where "frame_fits enc mx m" "bs = concat (map (frame_of enc) ws) @ take k (frame_of enc m)"
    using assms by (auto simp: stream_ok_def)
  moreover have "\<forall>m\<in>set ws. frame_fits enc mx m" using assms by (simp add: stream_ok_def)
  ultimately show ?thesis by (intro that [of "[m]"]) (auto simp: min_def)
qed

text \<open>Reading any prefix of a connection.\<close>

lemma read_stream_prefix:
  assumes "bincode_ok enc dec" and "mx \<le> u32_max" and "stream_ok enc mx (ws, bs)" and "\<And>m. hand_over m"
  shows "\<exists>rs. length rs \<le> 1 \<and> (\<forall>n. \<exists>j. read_loop dec mx e hand_over (take n bs) =
      (take j (ws @ rs), Some (CE_Io e)) \<and> (length bs \<le> n \<longrightarrow> length ws \<le> j))"
proof -
  obtain rs where rs: "length rs \<le> 1" "\<forall>m\<in>set (ws @ rs). frame_fits enc mx m"
      "bs = take (length bs) (concat (map (frame_of enc) (ws @ rs)))"
      "length (concat (map (frame_of enc) ws)) \<le> length bs"
    by (rule stream_ok_prefix [OF assms(3)])
  have h: "\<forall>m\<in>set (ws @ rs). frame_fits enc mx m \<and> hand_over m" using rs(2) assms(4) by blast
  have "\<exists>j. read_loop dec mx e hand_over (take n bs) = (take j (ws @ rs), Some (CE_Io e)) \<and>
      (length bs \<le> n \<longrightarrow> length ws \<le> j)" for n
  proof -
    let ?n = "min n (length bs)"
    obtain j where j: "read_loop dec mx e hand_over (take ?n (concat (map (frame_of enc) (ws @ rs)))) =
        (take j (ws @ rs), Some (CE_Io e))"
      "\<forall>i\<le>length (ws @ rs). length (concat (map (frame_of enc) (take i (ws @ rs)))) \<le> ?n \<longrightarrow> i \<le> j"
      using read_loop_cut [OF assms(1,2) h, of e ?n] by blast
    have "take n bs = take ?n (concat (map (frame_of enc) (ws @ rs)))"
      by (subst rs(3)) (simp only: take_take)
    moreover have "length ws \<le> j" if "length bs \<le> n"
      using j(2) rs(4) that by (auto dest: spec [of _ "length ws"])
    ultimately show ?thesis using j(1) by auto
  qed
  then show ?thesis using rs(1) by blast
qed

lemma listen_stream:
  assumes "bincode_ok enc dec" and "mx \<le> u32_max" and "stream_ok enc mx (ws, bs)"
  shows "\<exists>rs. length rs \<le> 1 \<and> (\<forall>n. \<exists>j. listen_connection dec mx True True e (take n bs) =
      (trains_of (take j (ws @ rs)), tokens_of (take j (ws @ rs)), Some (CE_Io e)) \<and>
      (length bs \<le> n \<longrightarrow> length ws \<le> j))"
proof -
  let ?h = "\<lambda>w. case w of Train_Msg _ \<Rightarrow> True | View_Change_Msg _ \<Rightarrow> True"
  have "?h w" for w by (cases w) simp_all
  then obtain rs where rs: "length rs \<le> 1" "\<And>n. \<exists>j. read_loop dec mx e ?h (take n bs) =
      (take j (ws @ rs), Some (CE_Io e)) \<and> (length bs \<le> n \<longrightarrow> length ws \<le> j)"
    using read_stream_prefix [OF assms, of ?h e] by blast
  have "\<exists>j. listen_connection dec mx True True e (take n bs) =
      (trains_of (take j (ws @ rs)), tokens_of (take j (ws @ rs)), Some (CE_Io e)) \<and>
      (length bs \<le> n \<longrightarrow> length ws \<le> j)" for n
  proof -
    obtain j where "read_loop dec mx e ?h (take n bs) = (take j (ws @ rs), Some (CE_Io e))"
        "length bs \<le> n \<longrightarrow> length ws \<le> j" using rs(2) by blast
    then show ?thesis by (intro exI [of _ j]) (simp add: listen_connection_def)
  qed
  then show ?thesis using rs(1) by blast
qed

section \<open>Runs\<close>

definition connector_run ::
    "'m bincode_enc \<Rightarrow> nat \<Rightarrow> bool \<Rightarrow> ('a, 'm) conn_event list \<Rightarrow> 'a \<Rightarrow> ('a, 'm) connector option" where
  "connector_run enc mx chk evs a = fold_opt (connector_step enc mx chk) evs (connector_new a)"

lemma connector_new_ok: "connector_ok enc mx (connector_new a)" "counters_ok (connector_new a)"
  by (simp_all add: connector_ok_def hand_ok_def held_def written_def streams_ok_def counters_ok_def
      connector_new_def RECONNECT_BACKOFF_def RECONNECT_MAX_BACKOFF_def UNREACHABLE_FAILURES_def)

lemma connector_run_ok:
  "mx \<le> u32_max \<Longrightarrow> connector_run enc mx chk evs a = Some s \<Longrightarrow> connector_ok enc mx s"
  unfolding connector_run_def by (drule tls_link.run_ok) (simp_all add: connector_new_ok)

lemma rounds_Suc: "concat (replicate (Suc n) xs) = concat (replicate n xs) @ xs"
  by (simp flip: replicate_append_same)

text \<open>One failed attempt: the message in hand (or the probe) is tried again.\<close>

lemma failed_round:
  assumes "phase s = Connecting mo" "\<not> force_reconnect s" "c_pending s = None" "fail_streak s < u32_max"
  obtains s' where "fold_opt (connector_step enc mx chk) [Connect_Err, Slept] s = Some s'"
    "phase s' = Connecting mo" "\<not> force_reconnect s'" "c_pending s' = None"
    "fail_streak s' = Suc (fail_streak s)" "c_addr s' = c_addr s" "taken s' = taken s"
    "notified s' = (notified s \<or> UNREACHABLE_FAILURES \<le> Suc (fail_streak s))"
    "unreachable s' = unreachable s @
       (if UNREACHABLE_FAILURES \<le> Suc (fail_streak s) \<and> \<not> notified s \<and> length (unreachable s) < UNREACHABLE_CAP
        then [c_addr s] else [])"
proof -
  have n: "add32 chk (fail_streak s) 1 = Some (Suc (fail_streak s))" using assms(4) by (simp add: add32_def)
  then obtain s1 where s1: "connect_failed chk mo s = Some s1" by (cases mo) (auto simp: connect_failed_def keep_pending_def Let_def)
  have run: "fold_opt (connector_step enc mx chk) [Connect_Err, Slept] s =
      connector_step enc mx chk Slept s1"
    using assms(1) s1 by (cases "connector_step enc mx chk Slept s1") simp_all
  show ?thesis
  proof (cases rule: connect_failed_cases [OF s1])
    case (1 k)
    then have "k = Suc (fail_streak s)" using n by simp
    then show ?thesis
      using 1(2) assms(2,3) run
      by (intro that [of "acquire (lengthen_backoff s1)"])
        (cases mo; simp add: lengthen_backoff_def acquire_def)+
  qed
qed

lemma held_refused_step:
  assumes "mx \<le> u32_max" "connector_ok enc mx s" "held s = [m]" "\<not> frame_fits enc mx m"
    and "connector_step enc mx chk e s = Some s'"
  shows "held s' = [m] \<and> taken s' = taken s \<and> written s' = written s"
proof -
  have h: "hand_ok s" "streams_ok enc mx s" using assms(2) by (simp_all add: connector_ok_def)
  have bal: "taken s = written s @ [m]" "taken s' = written s' @ held s'"
    using hand_okD(1) [OF h(1)] assms(3) hand_okD(1) [OF step_hand_ok [OF h assms(1,5)]] by simp_all
  have "taken s' = taken s \<and> written s' = written s"
  proof (cases e)
    case (Recv mo)
    then show ?thesis
      using assms(3,5) hand_okD(4) [OF h(1)] by (cases mo; cases "phase s") (auto simp: held_def)
  next
    case Connect_Err
    then obtain mo where "connect_failed chk mo s = Some s'"
      using assms(5) by (cases "phase s") auto
    then show ?thesis by (cases rule: connect_failed_cases) (simp add: written_def)
  next
    case (Write fault)
    then obtain m' where w: "phase s = Writing m'" "s' = write_current enc mx fault m' s"
      using assms(5) by (cases "phase s") auto
    then have [simp]: "m' = m" using assms(3) by (simp add: held_def)
    have ne: "streams s \<noteq> []" using h(2) w(1) by (simp add: streams_ok_def)
    show ?thesis
    proof (cases rule: write_current_cases [OF assms(1), of s fault enc m])
      case (3 ws wire)
      then show ?thesis
        using w(2) written_snoc [OF ne 3(1), of "[]"] by (simp add: written_def [where s = "acquire _"])
    qed (use assms(4) in simp_all)
  qed (use assms(5) in \<open>cases "phase s"; auto simp: written_def retarget_def lengthen_backoff_def
        keep_pending_def split: option.splits list.splits if_splits\<close>)+
  then show ?thesis using bal by (metis same_append_eq)
qed

section \<open>Properties\<close>

text \<open>C24. The link to the successor over any sequence of connects, handshakes, failed writes,
  retargets and closed connections: the messages taken from the channel are, in order, those
  written and at most one more, which the connector holds; and on every connection the
  listener hands over the messages written on it in order, trains to the inbox and tokens to
  the view-change inbox, from any received prefix of the bytes a prefix of them, from all
  bytes all of them, plus at most the one message whose write was reported as failed.\<close>

theorem ring_link_end_to_end:
  assumes "bincode_ok enc dec" and "mx \<le> u32_max" and "connector_run enc mx chk evs a = Some s"
    and "mux ts vs (taken s)"
  shows "prefix (trains_of (taken s)) ts \<and> prefix (tokens_of (taken s)) vs \<and>
    taken s = concat (map fst (streams s)) @ held s \<and> length (held s) \<le> 1 \<and>
    (\<forall>(ws, bs)\<in>set (streams s). \<exists>rs. length rs \<le> 1 \<and>
       (\<forall>n. \<exists>j. listen_connection dec mx True True e (take n bs) =
          (trains_of (take j (ws @ rs)), tokens_of (take j (ws @ rs)), Some (CE_Io e)) \<and>
          (length bs \<le> n \<longrightarrow> length ws \<le> j)))"
proof -
  have ok: "connector_ok enc mx s" by (rule connector_run_ok [OF assms(2,3)])
  have "\<forall>(ws, bs)\<in>set (streams s). \<exists>rs. length rs \<le> 1 \<and>
      (\<forall>n. \<exists>j. listen_connection dec mx True True e (take n bs) =
         (trains_of (take j (ws @ rs)), tokens_of (take j (ws @ rs)), Some (CE_Io e)) \<and>
         (length bs \<le> n \<longrightarrow> length ws \<le> j))"
  proof clarify
    fix ws bs
    assume "(ws, bs) \<in> set (streams s)"
    then have "stream_ok enc mx (ws, bs)" using ok by (auto simp: connector_ok_def streams_ok_def)
    then show "\<exists>rs. length rs \<le> 1 \<and>
      (\<forall>n. \<exists>j. listen_connection dec mx True True e (take n bs) =
         (trains_of (take j (ws @ rs)), tokens_of (take j (ws @ rs)), Some (CE_Io e)) \<and>
         (length bs \<le> n \<longrightarrow> length ws \<le> j))"
      by (rule listen_stream [OF assms(1,2)])
  qed
  moreover have "taken s = concat (map fst (streams s)) @ held s"
    using hand_okD(1) [of s] ok by (simp add: connector_ok_def written_def)
  ultimately show ?thesis using held_length [of s] mux_keeps_order [OF assms(4)] by blast
qed

text \<open>A run in which the second message is cut after three bytes and written again.\<close>

definition demo_train_msg :: wire_msg where
  "demo_train_msg = Train_Msg \<lparr>issuer = 1, clock = 7, payloads = [], ack_bits = 3\<rparr>"

definition demo_token_msg :: wire_msg where
  "demo_token_msg = View_Change_Msg (Gather 5 0 2 [])"

definition demo_events :: "(nat, wire_msg) conn_event list" where
  "demo_events = [Recv (Some demo_train_msg), Connect_Err, Slept, Connect_Ok, Tls_Ok, Write None,
     Recv (Some demo_token_msg), Write (Some 3), Connect_Ok, Tls_Ok, Write None]"

definition demo_link :: "(nat, wire_msg) connector" where
  "demo_link = \<lparr>c_addr = 4, backoff = 500, fail_streak = 0, notified = False, c_pending = None,
     force_reconnect = False, phase = Streaming, unreachable = [],
     streams = [([demo_train_msg], [0, 0, 0, 3, 0, 1, 7, 0, 0, 0]), ([demo_token_msg], [0, 0, 0, 4, 1, 5, 0, 2])],
     taken = [demo_train_msg, demo_token_msg]\<rparr>"

lemma be_bytes_small:
  assumes "n < 256"
  shows "be_bytes 4 n = [0, 0, 0, word_of_nat n]"
proof -
  have "be_bytes (Suc (Suc (Suc (Suc 0)))) n = [0, 0, 0, word_of_nat n]" using assms by simp
  moreover have "Suc (Suc (Suc (Suc 0))) = 4" by simp
  ultimately show ?thesis by (simp only:)
qed

lemma demo_frames:
  "encode_frame demo_enc 100 demo_train_msg = Inr [0, 0, 0, 3, 0, 1, 7]"
  "encode_frame demo_enc 100 demo_token_msg = Inr [0, 0, 0, 4, 1, 5, 0, 2]"
  by (simp_all add: encode_frame_def demo_enc_def demo_train_msg_def demo_token_msg_def be_bytes_small u32_max_def)

lemma demo_link_run: "connector_run demo_enc 100 True demo_events 4 = Some demo_link"
  by (simp add: connector_run_def demo_events_def connector_new_def connect_failed_def keep_pending_def
      lengthen_backoff_def acquire_def write_current_def write_frame_def demo_frames demo_link_def add32_def
      u32_max_def RECONNECT_BACKOFF_def RECONNECT_MAX_BACKOFF_def UNREACHABLE_FAILURES_def)

theorem ring_link_end_to_end_witness:
  "taken demo_link = concat (map fst (streams demo_link)) @ held demo_link \<and>
   prefix (trains_of (taken demo_link)) [\<lparr>issuer = 1, clock = 7, payloads = [], ack_bits = 3\<rparr>]"
proof -
  have "mux [\<lparr>issuer = 1, clock = 7, payloads = [], ack_bits = 3\<rparr>] [Gather 5 0 2 []] (taken demo_link)"
    by (auto simp: demo_link_def demo_train_msg_def demo_token_msg_def intro!: mux.intros)
  then show ?thesis
    using ring_link_end_to_end [OF demo_bincode _ demo_link_run] by (simp add: u32_max_def)
qed

text \<open>C25. A dead successor is reported: a connector that tries to connect, with a message in hand or
  probing after the peer closed, and whose attempts keep failing, has reported the
  successor's address exactly once after five attempts, and still holds what it held.\<close>

theorem dead_successor_reported:
  assumes "connector_ok enc mx s" and "phase s = Connecting mo" and "fail_streak s = 0"
    and "\<not> notified s" and "unreachable s = []" and "5 \<le> n" and "n < u32_max"
  shows "\<exists>s'. fold_opt (connector_step enc mx chk) (concat (replicate n [Connect_Err, Slept])) s = Some s' \<and>
    unreachable s' = [c_addr s] \<and> phase s' = Connecting mo \<and> taken s' = taken s"
proof -
  have hand: "\<not> force_reconnect s" "c_pending s = None"
    using hand_okD [of s] assms(1,2) by (simp_all add: connector_ok_def)
  have "\<exists>s'. fold_opt (connector_step enc mx chk) (concat (replicate n [Connect_Err, Slept])) s = Some s' \<and>
      phase s' = Connecting mo \<and> \<not> force_reconnect s' \<and> c_pending s' = None \<and> fail_streak s' = n \<and>
      c_addr s' = c_addr s \<and> taken s' = taken s \<and> notified s' = (5 \<le> n) \<and>
      unreachable s' = (if 5 \<le> n then [c_addr s] else [])"
    using assms(7)
  proof (induction n)
    case 0
    then show ?case using assms hand by simp
  next
    case (Suc n)
    then obtain s1 where s1:
      "fold_opt (connector_step enc mx chk) (concat (replicate n [Connect_Err, Slept])) s = Some s1"
      "phase s1 = Connecting mo" "\<not> force_reconnect s1" "c_pending s1 = None" "fail_streak s1 = n"
      "c_addr s1 = c_addr s" "taken s1 = taken s" "notified s1 = (5 \<le> n)"
      "unreachable s1 = (if 5 \<le> n then [c_addr s] else [])" by auto
    obtain s2 where s2: "fold_opt (connector_step enc mx chk) [Connect_Err, Slept] s1 = Some s2"
        "phase s2 = Connecting mo" "\<not> force_reconnect s2" "c_pending s2 = None"
        "fail_streak s2 = Suc (fail_streak s1)" "c_addr s2 = c_addr s1" "taken s2 = taken s1"
        "notified s2 = (notified s1 \<or> UNREACHABLE_FAILURES \<le> Suc (fail_streak s1))"
        "unreachable s2 = unreachable s1 @
           (if UNREACHABLE_FAILURES \<le> Suc (fail_streak s1) \<and> \<not> notified s1 \<and> length (unreachable s1) < UNREACHABLE_CAP
            then [c_addr s1] else [])"
      using failed_round [OF s1(2-4)] s1(5) Suc.prems by (metis Suc_lessD)
    have "fold_opt (connector_step enc mx chk) (concat (replicate (Suc n) [Connect_Err, Slept])) s = Some s2"
      using s1(1) s2(1) by (simp only: rounds_Suc fold_opt_append bind.bind_lunit)
    moreover have "notified s2 = (5 \<le> Suc n)"
      using s1(5,8) s2(8) by (auto simp: UNREACHABLE_FAILURES_def)
    moreover have "unreachable s2 = (if 5 \<le> Suc n then [c_addr s] else [])"
      using s1(5,6,8,9) s2(9) by (auto simp: UNREACHABLE_FAILURES_def UNREACHABLE_CAP_def)
    ultimately show ?case using s1(5-7) s2(2-7) by simp
  qed
  then show ?thesis using assms(6) by auto
qed

text \<open>C26. A message whose encoding exceeds the frame bound stops the link for good: whatever happens,
  the connector goes on holding it and takes and writes nothing else.\<close>

theorem oversized_message_blocks_link:
  assumes "mx \<le> u32_max" and "connector_ok enc mx s" and "held s = [m]" and "\<not> frame_fits enc mx m"
    and "fold_opt (connector_step enc mx chk) evs s = Some s'"
  shows "held s' = [m] \<and> taken s' = taken s \<and> written s' = written s"
  using assms(2,3,5)
proof (induction evs arbitrary: s)
  case (Cons e evs)
  then obtain s1 where s1: "connector_step enc mx chk e s = Some s1"
      "fold_opt (connector_step enc mx chk) evs s1 = Some s'" by (auto split: bind_splits)
  have "connector_ok enc mx s1"
    using tls_link.step_ok [of mx enc s chk e s1] assms(1) Cons.prems(1) s1(1) by simp
  then show ?case
    using Cons.IH [of s1] s1(2) held_refused_step [OF assms(1) Cons.prems(1,2) assms(4) s1(1)] by simp
qed simp

theorem dead_successor_reported_witness:
  "\<exists>s'. fold_opt (connector_step demo_enc 100 True) (concat (replicate 5 [Connect_Err, Slept]))
      ((connector_new (4::nat))\<lparr>taken := [demo_train_msg], phase := Connecting (Some demo_train_msg)\<rparr>) = Some s' \<and>
    unreachable s' = [4]"
proof -
  let ?s = "(connector_new (4::nat))\<lparr>taken := [demo_train_msg], phase := Connecting (Some demo_train_msg)\<rparr>"
  have "connector_ok demo_enc 100 ?s"
    by (simp add: connector_ok_def hand_ok_def held_def written_def streams_ok_def connector_new_def)
  then have "\<exists>s'. fold_opt (connector_step demo_enc 100 True) (concat (replicate 5 [Connect_Err, Slept])) ?s = Some s' \<and>
      unreachable s' = [c_addr ?s] \<and> phase s' = Connecting (Some demo_train_msg) \<and> taken s' = taken ?s"
    by (rule dead_successor_reported) (simp_all add: connector_new_def u32_max_def)
  then show ?thesis by (auto simp: connector_new_def)
qed

theorem oversized_message_blocks_link_witness:
  "held (the (fold_opt (connector_step demo_enc 3 True) [Connect_Ok, Tls_Ok, Write None]
      ((connector_new (4::nat))\<lparr>taken := [demo_token_msg], phase := Connecting (Some demo_token_msg)\<rparr>))) =
    [demo_token_msg]"
proof -
  let ?s = "(connector_new (4::nat))\<lparr>taken := [demo_token_msg], phase := Connecting (Some demo_token_msg)\<rparr>"
  let ?s1 = "?s\<lparr>streams := [([], [])]\<rparr>"
  have run: "fold_opt (connector_step demo_enc 3 True) [Connect_Ok, Tls_Ok, Write None] ?s = Some ?s1"
    by (simp add: connector_new_def write_current_def write_frame_def encode_frame_def demo_enc_def
        demo_token_msg_def acquire_def u32_max_def)
  have "held ?s1 = [demo_token_msg] \<and> taken ?s1 = taken ?s \<and> written ?s1 = written ?s"
    by (rule oversized_message_blocks_link [OF _ _ _ _ run])
      (simp_all add: connector_ok_def hand_ok_def held_def written_def streams_ok_def connector_new_def
        frame_fits_def demo_enc_def demo_token_msg_def u32_max_def)
  then show ?thesis using run by simp
qed

end
