(* ===== verification/Quic.thy ===== *)
theory Quic
  imports Transport
begin

text \<open>
  \<^verbatim>\<open>crates/trains-net/src/quic_transport.rs\<close>: the QUIC variant of the ring link. It carries trains
  only, has a fixed successor, opens one send stream per connection, and keeps a train over
  failed attempts as the TLS connector does; it gives the node the same contract.
\<close>

datatype quic_phase =
  Q_Idle | Q_Connecting train | Q_Backoff | Q_Opening train | Q_Writing train | Q_Streaming | Q_Stopped

datatype quic_event =
  Q_Recv "train option" | Q_Connect bool | Q_Open bool | Q_Slept | Q_Write "nat option"

record quic_connector =
  q_backoff :: nat
  q_pending :: "train option"
  q_phase :: quic_phase
  q_streams :: "(train list \<times> byte list) list"
  q_taken :: "train list"

definition quic_new :: quic_connector where
  "quic_new = \<lparr>q_backoff = RECONNECT_BACKOFF, q_pending = None, q_phase = Q_Idle, q_streams = [], q_taken = []\<rparr>"

definition quic_acquire :: "quic_connector \<Rightarrow> quic_connector" where
  "quic_acquire s = (case q_pending s of
       Some t \<Rightarrow> s\<lparr>q_pending := None, q_phase := Q_Connecting t\<rparr>
     | None \<Rightarrow> s\<lparr>q_phase := Q_Idle\<rparr>)"

definition quic_write :: "train bincode_enc \<Rightarrow> nat \<Rightarrow> nat option \<Rightarrow> train \<Rightarrow> quic_connector \<Rightarrow> quic_connector" where
  "quic_write enc mx fault t s =
     (let (ws, wire) = last (q_streams s)
      in case write_train enc mx fault t wire of
          (wire', None) \<Rightarrow> s\<lparr>q_streams := butlast (q_streams s) @ [(ws @ [t], wire')], q_phase := Q_Streaming\<rparr>
        | (wire', Some _) \<Rightarrow>
            quic_acquire (s\<lparr>q_streams := butlast (q_streams s) @ [(ws, wire')], q_pending := Some t\<rparr>))"

fun quic_step :: "train bincode_enc \<Rightarrow> nat \<Rightarrow> quic_event \<Rightarrow> quic_connector \<Rightarrow> quic_connector option" where
  "quic_step enc mx (Q_Recv to) s = (case (q_phase s, to) of
       (Q_Idle, Some t) \<Rightarrow> Some (s\<lparr>q_taken := q_taken s @ [t], q_phase := Q_Connecting t\<rparr>)
     | (Q_Streaming, Some t) \<Rightarrow> Some (s\<lparr>q_taken := q_taken s @ [t], q_phase := Q_Writing t\<rparr>)
     | (Q_Idle, None) \<Rightarrow> Some (s\<lparr>q_phase := Q_Stopped\<rparr>)
     | (Q_Streaming, None) \<Rightarrow> Some (s\<lparr>q_phase := Q_Stopped\<rparr>)
     | _ \<Rightarrow> None)"
| "quic_step enc mx (Q_Connect good) s = (case q_phase s of
       Q_Connecting t \<Rightarrow>
         Some (if good then s\<lparr>q_backoff := RECONNECT_BACKOFF, q_phase := Q_Opening t\<rparr>
               else s\<lparr>q_pending := Some t, q_phase := Q_Backoff\<rparr>)
     | _ \<Rightarrow> None)"
| "quic_step enc mx (Q_Open good) s = (case q_phase s of
       Q_Opening t \<Rightarrow>
         Some (if good then s\<lparr>q_streams := q_streams s @ [([], [])], q_phase := Q_Writing t\<rparr>
               else s\<lparr>q_pending := Some t, q_phase := Q_Backoff\<rparr>)
     | _ \<Rightarrow> None)"
| "quic_step enc mx Q_Slept s = (case q_phase s of
       Q_Backoff \<Rightarrow>
         Some (quic_acquire (s\<lparr>q_backoff := min (q_backoff s * 2) RECONNECT_MAX_BACKOFF\<rparr>))
     | _ \<Rightarrow> None)"
| "quic_step enc mx (Q_Write fault) s = (case q_phase s of
       Q_Writing t \<Rightarrow> Some (quic_write enc mx fault t s)
     | _ \<Rightarrow> None)"

text \<open>The receive loop of the listener: trains to the inbox until an error or a closed inbox.\<close>

definition quic_listen ::
    "train bincode_dec \<Rightarrow> nat \<Rightarrow> bool \<Rightarrow> io_kind \<Rightarrow> byte list \<Rightarrow> train list \<times> codec_error option" where
  "quic_listen dec mx inbox_open e bs = read_loop dec mx e (\<lambda>_. inbox_open) bs"

section \<open>The invariant\<close>

definition q_held :: "quic_connector \<Rightarrow> train list" where
  "q_held s = (case q_phase s of
       Q_Connecting t \<Rightarrow> [t]
     | Q_Opening t \<Rightarrow> [t]
     | Q_Writing t \<Rightarrow> [t]
     | _ \<Rightarrow> (case q_pending s of Some t \<Rightarrow> [t] | None \<Rightarrow> []))"

definition q_written :: "quic_connector \<Rightarrow> train list" where
  "q_written s = concat (map fst (q_streams s))"

fun q_connected :: "quic_phase \<Rightarrow> bool" where
  "q_connected (Q_Writing t) = True"
| "q_connected Q_Streaming = True"
| "q_connected _ = False"

definition quic_ok :: "train bincode_enc \<Rightarrow> nat \<Rightarrow> quic_connector \<Rightarrow> bool" where
  "quic_ok enc mx s \<longleftrightarrow> q_taken s = q_written s @ q_held s \<and>
     (q_phase s \<noteq> Q_Backoff \<longrightarrow> q_pending s = None) \<and>
     (\<forall>st\<in>set (q_streams s). stream_ok enc mx st) \<and>
     (q_connected (q_phase s) \<longrightarrow> q_streams s \<noteq> [] \<and>
        snd (last (q_streams s)) = concat (map (frame_of enc) (fst (last (q_streams s)))))"

lemma quic_new_ok: "quic_ok enc mx quic_new"
  by (simp add: quic_ok_def quic_new_def q_written_def q_held_def)

lemma quic_write_cases:
  assumes "mx \<le> u32_max"
  obtains ws wire where "last (q_streams s) = (ws, wire)" "frame_fits enc mx t"
      "quic_write enc mx fault t s =
         s\<lparr>q_streams := butlast (q_streams s) @ [(ws @ [t], wire @ frame_of enc t)], q_phase := Q_Streaming\<rparr>"
    | ws wire f where "last (q_streams s) = (ws, wire)"
      "f = [] \<or> frame_fits enc mx t \<and> (\<exists>k. f = take k (frame_of enc t))"
      "quic_write enc mx fault t s =
         s\<lparr>q_streams := butlast (q_streams s) @ [(ws, wire @ f)], q_pending := None, q_phase := Q_Connecting t\<rparr>"
proof -
  obtain ws wire where l: "last (q_streams s) = (ws, wire)" by (cases "last (q_streams s)")
  show ?thesis
  proof (cases "encode_frame enc mx t")
    case (Inl err)
    then show ?thesis
      using l by (intro that(2) [of ws wire "[]"])
        (auto simp: quic_write_def write_train_def write_frame_def quic_acquire_def)
  next
    case (Inr f)
    then have f: "frame_fits enc mx t" "f = frame_of enc t"
      using encode_frame_Inr [OF assms, of enc t f] by auto
    show ?thesis
    proof (cases fault)
      case None
      then show ?thesis
        using l Inr f by (intro that(1) [of ws wire]) (auto simp: quic_write_def write_train_def write_frame_def)
    next
      case (Some k)
      then show ?thesis
        using l Inr f by (intro that(2) [of ws wire "take k f"])
          (auto simp: quic_write_def write_train_def write_frame_def quic_acquire_def)
    qed
  qed
qed

lemma q_written_snoc:
  assumes "q_streams s \<noteq> []" and "last (q_streams s) = (ws, wire)"
  shows "concat (map fst (butlast (q_streams s) @ [(ws @ xs, w)])) = q_written s @ xs"
proof -
  have "q_streams s = butlast (q_streams s) @ [(ws, wire)]" using assms by (metis append_butlast_last_id)
  then have "q_written s = concat (map fst (butlast (q_streams s) @ [(ws, wire)]))"
    by (simp add: q_written_def)
  then show ?thesis by simp
qed

lemma quic_write_ok:
  assumes "mx \<le> u32_max" "quic_ok enc mx s" "q_phase s = Q_Writing t"
  shows "quic_ok enc mx (quic_write enc mx fault t s) \<and>
    prefix (q_written s) (q_written (quic_write enc mx fault t s)) \<and>
    q_taken (quic_write enc mx fault t s) = q_taken s"
proof -
  have ne: "q_streams s \<noteq> []" and t: "q_taken s = q_written s @ [t]" and p: "q_pending s = None"
    and l: "snd (last (q_streams s)) = concat (map (frame_of enc) (fst (last (q_streams s))))"
    and all: "\<forall>st\<in>set (q_streams s). stream_ok enc mx st"
    using assms(2,3) by (simp_all add: quic_ok_def q_held_def)
  have fits: "\<forall>m\<in>set (fst (last (q_streams s))). frame_fits enc mx m"
    using bspec [OF all last_in_set [OF ne]] by (simp add: stream_ok_def)
  have old: "\<forall>st\<in>set (butlast (q_streams s)). stream_ok enc mx st"
    using all by (auto dest: in_set_butlastD)
  show ?thesis
  proof (cases rule: quic_write_cases [OF assms(1), of s enc t fault])
    case (1 ws wire)
    let ?s = "s\<lparr>q_streams := butlast (q_streams s) @ [(ws @ [t], wire @ frame_of enc t)], q_phase := Q_Streaming\<rparr>"
    have "q_written ?s = q_written s @ [t]"
      using q_written_snoc [OF ne 1(1), of "[t]"] by (simp add: q_written_def [of ?s])
    then show ?thesis
      unfolding 1(3) using 1(1,2) t p l fits old by (simp add: quic_ok_def q_held_def stream_ok_def)
  next
    case (2 ws wire f)
    let ?s = "s\<lparr>q_streams := butlast (q_streams s) @ [(ws, wire @ f)], q_pending := None, q_phase := Q_Connecting t\<rparr>"
    have "q_written ?s = q_written s"
      using q_written_snoc [OF ne 2(1), of "[]"] by (simp add: q_written_def [of ?s])
    moreover have "stream_ok enc mx (ws, wire @ f)" using 2(1,2) l fits by (auto simp: stream_ok_def)
    ultimately show ?thesis unfolding 2(3) using t old by (simp add: quic_ok_def q_held_def)
  qed
qed

lemma quic_step_ok:
  assumes "mx \<le> u32_max" "quic_ok enc mx s" "quic_step enc mx e s = Some s'"
  shows "quic_ok enc mx s' \<and> prefix (q_written s) (q_written s') \<and> prefix (q_taken s) (q_taken s')"
proof (cases e)
  case (Q_Write fault)
  then obtain t where "q_phase s = Q_Writing t" "s' = quic_write enc mx fault t s"
    using assms(3) by (cases "q_phase s") auto
  then show ?thesis using quic_write_ok [OF assms(1,2)] by simp
next
  case (Q_Recv to)
  then show ?thesis
    using assms(2,3) by (cases to; cases "q_phase s") (auto simp: quic_ok_def q_held_def q_written_def)
next
  case Q_Slept
  then show ?thesis
    using assms(2,3)
    by (cases "q_phase s"; cases "q_pending s") (auto simp: quic_ok_def q_held_def q_written_def quic_acquire_def)
next
  case (Q_Connect good)
  then show ?thesis
    using assms(2,3) by (cases "q_phase s"; cases good) (auto simp: quic_ok_def q_held_def q_written_def)
next
  case (Q_Open good)
  then show ?thesis
    using assms(2,3)
    by (cases "q_phase s"; cases good) (auto simp: quic_ok_def q_held_def q_written_def stream_ok_def)
qed

interpretation quic_link:
  retaining_sender "quic_step enc mx" q_taken q_written q_held
    "\<lambda>s. mx \<le> u32_max \<and> quic_ok enc mx s" for enc mx
proof
  show "length (q_held s) \<le> 1" for s by (simp add: q_held_def split: quic_phase.splits option.splits)
  show "q_taken s = q_written s @ q_held s" if "mx \<le> u32_max \<and> quic_ok enc mx s" for s
    using that by (simp add: quic_ok_def)
qed (use quic_step_ok in blast)+

section \<open>Properties\<close>

text \<open>C29. The QUIC link gives the same contract as the TLS one: the trains taken from the outbox are,
  in order, those written and at most one that is held; the listener on the other side of a
  stream hands over the trains written on it in order, all of them once all bytes arrived,
  plus at most one whose write was reported as failed.\<close>

theorem quic_link_end_to_end:
  assumes "bincode_ok enc dec" and "mx \<le> u32_max" and "fold_opt (quic_step enc mx) evs quic_new = Some s"
  shows "q_taken s = concat (map fst (q_streams s)) @ q_held s \<and> length (q_held s) \<le> 1 \<and>
    (\<forall>(ws, bs)\<in>set (q_streams s). \<exists>rs. length rs \<le> 1 \<and>
       (\<forall>n. \<exists>j. quic_listen dec mx True e (take n bs) = (take j (ws @ rs), Some (CE_Io e)) \<and>
          (length bs \<le> n \<longrightarrow> length ws \<le> j)))"
proof -
  have ok: "quic_ok enc mx s"
    using quic_link.run_ok [OF assms(3)] assms(2) quic_new_ok by simp
  have "\<forall>(ws, bs)\<in>set (q_streams s). \<exists>rs. length rs \<le> 1 \<and>
       (\<forall>n. \<exists>j. quic_listen dec mx True e (take n bs) = (take j (ws @ rs), Some (CE_Io e)) \<and>
          (length bs \<le> n \<longrightarrow> length ws \<le> j))"
  proof clarify
    fix ws bs
    assume "(ws, bs) \<in> set (q_streams s)"
    then have "stream_ok enc mx (ws, bs)" using ok by (auto simp: quic_ok_def)
    then show "\<exists>rs. length rs \<le> 1 \<and>
       (\<forall>n. \<exists>j. quic_listen dec mx True e (take n bs) = (take j (ws @ rs), Some (CE_Io e)) \<and>
          (length bs \<le> n \<longrightarrow> length ws \<le> j))"
      unfolding quic_listen_def by (rule read_stream_prefix [OF assms(1,2)]) simp
  qed
  then show ?thesis
    using ok quic_link.held_one [of mx enc s] assms(2) by (simp add: quic_ok_def q_written_def)
qed

definition demo_quic_enc :: "train bincode_enc" where
  "demo_quic_enc t = demo_enc (Train_Msg t)"

definition demo_quic_dec :: "train bincode_dec" where
  "demo_quic_dec bs = (case demo_dec bs of Some (Train_Msg t, n) \<Rightarrow> Some (t, n) | _ \<Rightarrow> None)"

theorem quic_link_end_to_end_witness:
  "q_taken (the (fold_opt (quic_step demo_quic_enc 100)
     [Q_Recv (Some \<lparr>issuer = 1, clock = 7, payloads = [], ack_bits = 3\<rparr>), Q_Connect False, Q_Slept, Q_Connect True]
     quic_new)) = [\<lparr>issuer = 1, clock = 7, payloads = [], ack_bits = 3\<rparr>]"
proof -
  let ?t = "\<lparr>issuer = 1, clock = 7, payloads = [], ack_bits = 3\<rparr>"
  let ?s = "quic_new\<lparr>q_taken := [?t], q_phase := Q_Opening ?t\<rparr>"
  have run: "fold_opt (quic_step demo_quic_enc 100)
      [Q_Recv (Some ?t), Q_Connect False, Q_Slept, Q_Connect True] quic_new = Some ?s"
    by (simp add: quic_new_def quic_acquire_def)
  have "bincode_ok demo_quic_enc demo_quic_dec"
    using demo_bincode by (simp add: bincode_ok_def demo_quic_enc_def demo_quic_dec_def)
  then have "q_taken ?s = concat (map fst (q_streams ?s)) @ q_held ?s"
    using quic_link_end_to_end [OF _ _ run] by (simp add: u32_max_def)
  then show ?thesis by (simp only: run option.sel) (simp add: quic_new_def q_held_def)
qed

end
