(* ===== verification/Snapshot.thy ===== *)
theory Snapshot
  imports Codec
begin

text \<open>
  \<^verbatim>\<open>crates/trains-net/src/snapshot.rs\<close>: one request and one response over a connection of their
  own. The owner of the state, whom the server asks over a channel, is the function \<open>provider\<close>
  from the requester's index to a transfer (\<^term>\<open>None\<close> when the owner has gone away). The TLS
  session is the byte streams of its two directions.
\<close>

definition REQ_MARKER :: byte where
  "REQ_MARKER = 0x53"

definition MAX_SNAPSHOT_LEN :: nat where
  "MAX_SNAPSHOT_LEN = 2 ^ 30"

definition MAX_TAIL_FRAME_LEN :: nat where
  "MAX_TAIL_FRAME_LEN = 2 ^ 26"

definition MAX_TAIL_FRAMES :: nat where
  "MAX_TAIL_FRAMES = 2 ^ 24"

record state_transfer =
  st_snapshot :: "byte list"
  st_tail :: "byte list list"

datatype snapshot_error =
    SE_Io io_kind | SE_TlsConfig | SE_TooLarge nat | SE_FrameTooLarge nat | SE_TooManyFrames nat
  | SE_ProviderGone

section \<open>Reading\<close>

definition read_u64 :: "io_kind \<Rightarrow> byte list \<Rightarrow> snapshot_error + (nat \<times> byte list)" where
  "read_u64 e bs = (case read_exact 8 bs of
       None \<Rightarrow> Inl (SE_Io e)
     | Some (b, rest) \<Rightarrow> Inr (from_be b, rest))"

definition read_lp_blob ::
    "nat \<Rightarrow> (nat \<Rightarrow> snapshot_error) \<Rightarrow> io_kind \<Rightarrow> byte list \<Rightarrow> snapshot_error + (byte list \<times> byte list)" where
  "read_lp_blob mx too_large e bs = (case read_u64 e bs of
       Inl err \<Rightarrow> Inl err
     | Inr (len, rest) \<Rightarrow>
         if len > mx then Inl (too_large len)
         else (case read_exact len rest of
             None \<Rightarrow> Inl (SE_Io e)
           | Some (buf, rest') \<Rightarrow> Inr (buf, rest')))"

section \<open>The client\<close>

definition fetch_request :: "nat \<Rightarrow> byte list" where
  "fetch_request have = REQ_MARKER # be_bytes 8 have"

definition fetch_response :: "io_kind \<Rightarrow> byte list \<Rightarrow> snapshot_error + state_transfer" where
  "fetch_response e bs = (case read_lp_blob MAX_SNAPSHOT_LEN SE_TooLarge e bs of
       Inl err \<Rightarrow> Inl err
     | Inr (snapshot, bs1) \<Rightarrow> (case read_u64 e bs1 of
           Inl err \<Rightarrow> Inl err
         | Inr (n_tail, bs2) \<Rightarrow>
             if n_tail > MAX_TAIL_FRAMES then Inl (SE_TooManyFrames n_tail)
             else (case read_n (read_lp_blob MAX_TAIL_FRAME_LEN SE_FrameTooLarge e) n_tail bs2 of
                 Inl err \<Rightarrow> Inl err
               | Inr (tail, _) \<Rightarrow> Inr \<lparr>st_snapshot = snapshot, st_tail = tail\<rparr>)))"

text \<open>The client over a session in which the peer answers the request bytes with \<open>peer\<close>.\<close>

definition fetch_state ::
    "(byte list \<Rightarrow> byte list) \<Rightarrow> io_kind \<Rightarrow> nat \<Rightarrow> snapshot_error + state_transfer" where
  "fetch_state peer e have = fetch_response e (peer (fetch_request have))"

definition fetch_snapshot ::
    "(byte list \<Rightarrow> byte list) \<Rightarrow> io_kind \<Rightarrow> snapshot_error + byte list" where
  "fetch_snapshot peer e = (case fetch_state peer e 0 of
       Inl err \<Rightarrow> Inl err | Inr t \<Rightarrow> Inr (st_snapshot t))"

section \<open>The server\<close>

definition lp_blob :: "byte list \<Rightarrow> byte list" where
  "lp_blob b = be_bytes 8 (length b) @ b"

definition transfer_bytes :: "state_transfer \<Rightarrow> byte list" where
  "transfer_bytes t =
     lp_blob (st_snapshot t) @ be_bytes 8 (length (st_tail t)) @ concat (map lp_blob (st_tail t))"

text \<open>The bytes the server writes in answer to the bytes it reads, or its error.\<close>

definition handle_one ::
    "(nat \<Rightarrow> state_transfer option) \<Rightarrow> io_kind \<Rightarrow> byte list \<Rightarrow> snapshot_error + byte list" where
  "handle_one provider e bs = (case read_exact 1 bs of
       None \<Rightarrow> Inl (SE_Io e)
     | Some (marker, bs1) \<Rightarrow>
         if marker \<noteq> [REQ_MARKER] then Inr []
         else (case read_u64 e bs1 of
             Inl err \<Rightarrow> Inl err
           | Inr (have, _) \<Rightarrow> (case provider have of
                 None \<Rightarrow> Inl SE_ProviderGone
               | Some t \<Rightarrow> Inr (transfer_bytes t))))"

text \<open>A connection on which \<^verbatim>\<open>handle_one\<close> fails is dropped without an answer.\<close>

definition serve_one :: "(nat \<Rightarrow> state_transfer option) \<Rightarrow> io_kind \<Rightarrow> byte list \<Rightarrow> byte list" where
  "serve_one provider e bs = (case handle_one provider e bs of Inl _ \<Rightarrow> [] | Inr out \<Rightarrow> out)"

section \<open>Blobs form a framing\<close>

lemma u64_bound: "n \<le> u64_max \<Longrightarrow> n < 256 ^ 8"
  by (simp add: u64_max_def)

lemma read_u64_back [simp]: "n \<le> u64_max \<Longrightarrow> read_u64 e (be_bytes 8 n @ rest) = Inr (n, rest)"
  by (simp add: read_u64_def from_be_bytes_exact [OF u64_bound])

lemma read_u64_short: "length bs < 8 \<Longrightarrow> read_u64 e bs = Inl (SE_Io e)"
  by (simp add: read_u64_def read_exact_def)

lemma read_lp_blob_back:
  assumes "length b \<le> u64_max"
  shows "read_lp_blob mx big e (lp_blob b @ rest) =
    (if length b > mx then Inl (big (length b)) else Inr (b, rest))"
  using assms by (simp add: read_lp_blob_def lp_blob_def)

lemma read_lp_blob_cut:
  assumes "length b \<le> mx" and "mx \<le> u64_max" and "k < length (lp_blob b)"
  shows "read_lp_blob mx big e (take k (lp_blob b)) = Inl (SE_Io e)"
proof (cases "k < 8")
  case True
  then show ?thesis by (simp add: read_lp_blob_def read_u64_short)
next
  case False
  then have "take k (lp_blob b) = be_bytes 8 (length b) @ take (k - 8) b"
    by (simp add: lp_blob_def)
  then show ?thesis
    using assms False by (simp add: read_lp_blob_def lp_blob_def) (auto simp: read_exact_def)
qed

lemma blob_framing:
  assumes "mx \<le> u64_max"
  shows "framing (\<lambda>b. length b \<le> mx) lp_blob (read_lp_blob mx big e) (SE_Io e)"
proof
  show "read_lp_blob mx big e [] = Inl (SE_Io e)" by (simp add: read_lp_blob_def read_u64_short)
qed (use assms in \<open>simp_all add: read_lp_blob_back read_lp_blob_cut\<close>)

lemma caps [simp]: "MAX_SNAPSHOT_LEN \<le> u64_max" "MAX_TAIL_FRAME_LEN \<le> u64_max" "MAX_TAIL_FRAMES \<le> u64_max"
  by (simp_all add: MAX_SNAPSHOT_LEN_def MAX_TAIL_FRAME_LEN_def MAX_TAIL_FRAMES_def u64_max_def)

interpretation tail_frames:
  framing "\<lambda>b. length b \<le> MAX_TAIL_FRAME_LEN" lp_blob
    "read_lp_blob MAX_TAIL_FRAME_LEN SE_FrameTooLarge e" "SE_Io e" for e
  by (rule blob_framing) simp

interpretation snapshot_blob:
  framing "\<lambda>b. length b \<le> MAX_SNAPSHOT_LEN" lp_blob
    "read_lp_blob MAX_SNAPSHOT_LEN SE_TooLarge e" "SE_Io e" for e
  by (rule blob_framing) simp

text \<open>A tail with an oversized frame fails at the first such frame.\<close>

lemma read_tail:
  assumes "\<forall>f\<in>set fs. length f \<le> u64_max"
  shows "read_n (read_lp_blob MAX_TAIL_FRAME_LEN SE_FrameTooLarge e) (length fs) (concat (map lp_blob fs)) =
    (case filter (\<lambda>f. length f > MAX_TAIL_FRAME_LEN) fs of
       [] \<Rightarrow> Inr (fs, []) | f # _ \<Rightarrow> Inl (SE_FrameTooLarge (length f)))"
  using assms by (induction fs) (auto simp: read_lp_blob_back split: list.splits)

definition transfer_sane :: "state_transfer \<Rightarrow> bool" where
  "transfer_sane t \<longleftrightarrow> length (st_snapshot t) \<le> u64_max \<and> length (st_tail t) \<le> u64_max \<and>
     (\<forall>f\<in>set (st_tail t). length f \<le> u64_max)"

definition transfer_fits :: "state_transfer \<Rightarrow> bool" where
  "transfer_fits t \<longleftrightarrow> length (st_snapshot t) \<le> MAX_SNAPSHOT_LEN \<and> length (st_tail t) \<le> MAX_TAIL_FRAMES \<and>
     (\<forall>f\<in>set (st_tail t). length f \<le> MAX_TAIL_FRAME_LEN)"

lemma serve_request:
  assumes "have \<le> u64_max" and "provider have = Some t"
  shows "serve_one provider e (fetch_request have) = transfer_bytes t"
proof -
  have "read_exact 1 (fetch_request have) = Some ([REQ_MARKER], be_bytes 8 have @ [])"
    by (simp add: fetch_request_def read_exact_def)
  then show ?thesis using assms by (simp add: serve_one_def handle_one_def del: append_Nil2)
qed

lemma serve_refused:
  assumes "have \<le> u64_max" and "provider have = None"
  shows "serve_one provider e (fetch_request have) = []"
proof -
  have "read_exact 1 (fetch_request have) = Some ([REQ_MARKER], be_bytes 8 have @ [])"
    by (simp add: fetch_request_def read_exact_def)
  then show ?thesis using assms by (simp add: serve_one_def handle_one_def del: append_Nil2)
qed

lemma fetch_transfer:
  assumes "transfer_sane t"
  shows "fetch_response e (transfer_bytes t) =
    (if length (st_snapshot t) > MAX_SNAPSHOT_LEN then Inl (SE_TooLarge (length (st_snapshot t)))
     else if length (st_tail t) > MAX_TAIL_FRAMES then Inl (SE_TooManyFrames (length (st_tail t)))
     else case filter (\<lambda>f. length f > MAX_TAIL_FRAME_LEN) (st_tail t) of
         [] \<Rightarrow> Inr t
       | f # _ \<Rightarrow> Inl (SE_FrameTooLarge (length f)))"
  using assms
  by (simp add: fetch_response_def transfer_bytes_def transfer_sane_def read_lp_blob_back read_tail split: list.splits)

section \<open>Properties\<close>

text \<open>C31. State transfer end to end: the client obtains exactly the transfer the survivor's owner
  provided for its index; if the transfer exceeds one of the caps, the client reports the
  first violation in the order of the wire format (snapshot length, number of tail frames,
  first oversized frame) with the offending size.\<close>

theorem fetch_state_outcome:
  assumes "have \<le> u64_max" and "provider have = Some t" and "transfer_sane t"
  shows "fetch_state (serve_one provider e) e' have =
    (if length (st_snapshot t) > MAX_SNAPSHOT_LEN then Inl (SE_TooLarge (length (st_snapshot t)))
     else if length (st_tail t) > MAX_TAIL_FRAMES then Inl (SE_TooManyFrames (length (st_tail t)))
     else case filter (\<lambda>f. length f > MAX_TAIL_FRAME_LEN) (st_tail t) of
         [] \<Rightarrow> Inr t
       | f # _ \<Rightarrow> Inl (SE_FrameTooLarge (length f)))"
  using fetch_transfer [OF assms(3)]
  by (simp add: fetch_state_def serve_request [where provider = provider, OF assms(1,2)])

definition demo_transfer :: state_transfer where
  "demo_transfer = \<lparr>st_snapshot = [1, 2, 3], st_tail = [[4], [], [5, 6]]\<rparr>"

theorem fetch_state_outcome_witness:
  "fetch_state (serve_one (\<lambda>h. if h = 9 then Some demo_transfer else None) UnexpectedEof) UnexpectedEof 9 =
     Inr demo_transfer"
  using fetch_state_outcome [of 9 "\<lambda>h. if h = 9 then Some demo_transfer else None" demo_transfer
      UnexpectedEof UnexpectedEof]
  by (simp add: demo_transfer_def transfer_sane_def u64_max_def MAX_SNAPSHOT_LEN_def MAX_TAIL_FRAMES_def
      MAX_TAIL_FRAME_LEN_def)

text \<open>A response that breaks off, at any byte, is never taken for a transfer: the client reports
  the I/O error.\<close>

theorem truncated_transfer_is_error:
  assumes "transfer_fits t" and "k < length (transfer_bytes t)"
  shows "fetch_response e (take k (transfer_bytes t)) = Inl (SE_Io e)"
proof -
  let ?S = "lp_blob (st_snapshot t)" and ?T = "concat (map lp_blob (st_tail t))"
  have fits: "length (st_snapshot t) \<le> MAX_SNAPSHOT_LEN" "length (st_tail t) \<le> MAX_TAIL_FRAMES"
      "\<forall>f\<in>set (st_tail t). length f \<le> MAX_TAIL_FRAME_LEN"
    using assms(1) by (simp_all add: transfer_fits_def)
  consider "k < length ?S" | "length ?S \<le> k" "k - length ?S < 8" | "length ?S + 8 \<le> k" by linarith
  then show ?thesis
  proof cases
    case 1
    then show ?thesis
      using snapshot_blob.read_cut [OF fits(1) 1]
      by (simp add: fetch_response_def transfer_bytes_def)
  next
    case 2
    then have "take k (transfer_bytes t) = ?S @ take (k - length ?S) (be_bytes 8 (length (st_tail t)))"
      by (simp add: transfer_bytes_def)
    then show ?thesis
      using 2 by (simp add: fetch_response_def snapshot_blob.read_back fits(1) read_u64_short)
  next
    case 3
    let ?k = "k - length ?S - 8"
    have "take k (transfer_bytes t) = ?S @ be_bytes 8 (length (st_tail t)) @ take ?k ?T"
      using 3 by (simp add: transfer_bytes_def)
    moreover have "?k < length ?T" using assms(2) 3 by (simp add: transfer_bytes_def)
    ultimately show ?thesis
      using tail_frames.read_stream_cut [OF fits(3), of ?k] fits(2) order_trans [OF fits(2) caps(3)]
      by (simp add: fetch_response_def snapshot_blob.read_back fits(1))
  qed
qed

end
