(* ===== verification/Tls.thy ===== *)
theory Tls
  imports Unicode_Text
begin

text \<open>
  \<^verbatim>\<open>crates/trains-net/src/tls.rs\<close>: fingerprints, node identities on disk and the certificate
  verifier that both ends of a ring link install. SHA-256, the \<^verbatim>\<open>hex\<close> and \<^verbatim>\<open>serde_json\<close> crates,
  the certificate generator and the file system are arguments; \<open>hex_ok\<close>, \<open>stored_ok\<close> and \<open>files_ok\<close>
  say what the code relies on them for.
\<close>

section \<open>Fingerprints\<close>

text \<open>\<^verbatim>\<open>rustls::Error::General\<close> with the fingerprint its message prints.\<close>

datatype rustls_error = Not_Pinned utext

datatype ('r, 'h) tls_error = TE_Rcgen 'r | TE_Rustls rustls_error | TE_InvalidFingerprint utext | TE_Hex 'h

datatype spki_fingerprint = SpkiFingerprint (as_bytes: "byte list")

type_synonym hex_enc = "byte list \<Rightarrow> utext"
type_synonym 'h hex_dec = "utext \<Rightarrow> 'h + byte list"
type_synonym digest = "byte list \<Rightarrow> byte list"

definition to_hex :: "hex_enc \<Rightarrow> spki_fingerprint \<Rightarrow> utext" where
  "to_hex encode fp = encode (as_bytes fp)"

text \<open>\<^term>\<open>None\<close> is the panic of \<^verbatim>\<open>copy_from_slice\<close> on a slice of another length.\<close>

definition from_hex :: "'h hex_dec \<Rightarrow> utext \<Rightarrow> (('r, 'h) tls_error + spki_fingerprint) option" where
  "from_hex decode s0 =
     (let s = trim s0
      in if utf8_len s \<noteq> 64 then Some (Inl (TE_InvalidFingerprint s))
         else case decode s of
             Inl e \<Rightarrow> Some (Inl (TE_Hex e))
           | Inr bytes \<Rightarrow> if length bytes \<noteq> 32 then None else Some (Inr (SpkiFingerprint bytes)))"

definition from_cert_der :: "digest \<Rightarrow> byte list \<Rightarrow> spki_fingerprint" where
  "from_cert_der sha256 cert = SpkiFingerprint (sha256 cert)"

section \<open>Identities\<close>

datatype private_key_der = Pkcs1 "byte list" | Sec1 "byte list" | Pkcs8 "byte list"

record node_identity =
  cert_chain :: "byte list list"
  id_key :: private_key_der
  fingerprint :: spki_fingerprint

record stored_identity =
  st_cert_der :: utext
  st_key_der :: utext

datatype ('j, 'h, 'e) identity_error = IE_KeyKind private_key_der | IE_Json 'j | IE_Hex 'h | IE_Io 'e

definition generate ::
    "(utext list \<Rightarrow> 'r + byte list \<times> byte list) \<Rightarrow> digest \<Rightarrow> utext list \<Rightarrow>
     ('r, 'h) tls_error + node_identity" where
  "generate self_signed sha256 names =
     (case self_signed names of
        Inl e \<Rightarrow> Inl (TE_Rcgen e)
      | Inr (cert, key) \<Rightarrow>
          Inr \<lparr>cert_chain = [cert], id_key = Pkcs8 key, fingerprint = from_cert_der sha256 cert\<rparr>)"

text \<open>\<^verbatim>\<open>NodeIdentity::save\<close>: the new file system or an error; \<^term>\<open>None\<close> is the panic of indexing an
  empty chain.\<close>

definition save ::
    "hex_enc \<Rightarrow> (stored_identity \<Rightarrow> 'j + byte list) \<Rightarrow> ('p \<Rightarrow> byte list \<Rightarrow> 'fs \<Rightarrow> 'e + 'fs) \<Rightarrow>
     node_identity \<Rightarrow> 'p \<Rightarrow> 'fs \<Rightarrow> (('j, 'h, 'e) identity_error + 'fs) option" where
  "save encode to_vec write_file idt path fs =
     (case id_key idt of
        Pkcs8 k \<Rightarrow>
          (case cert_chain idt of
             [] \<Rightarrow> None
           | cert # _ \<Rightarrow>
               (case to_vec \<lparr>st_cert_der = encode cert, st_key_der = encode k\<rparr> of
                  Inl e \<Rightarrow> Some (Inl (IE_Json e))
                | Inr json \<Rightarrow> (case write_file path json fs of
                      Inl e \<Rightarrow> Some (Inl (IE_Io e))
                    | Inr fs' \<Rightarrow> Some (Inr fs'))))
      | other \<Rightarrow> Some (Inl (IE_KeyKind other)))"

definition load ::
    "'h hex_dec \<Rightarrow> (byte list \<Rightarrow> 'j + stored_identity) \<Rightarrow> ('p \<Rightarrow> 'fs \<Rightarrow> 'e + byte list) \<Rightarrow> digest \<Rightarrow>
     'p \<Rightarrow> 'fs \<Rightarrow> ('j, 'h, 'e) identity_error + node_identity" where
  "load decode from_slice read_file sha256 path fs =
     (case read_file path fs of
        Inl e \<Rightarrow> Inl (IE_Io e)
      | Inr bytes \<Rightarrow> (case from_slice bytes of
            Inl e \<Rightarrow> Inl (IE_Json e)
          | Inr stored \<Rightarrow> (case decode (st_cert_der stored) of
                Inl e \<Rightarrow> Inl (IE_Hex e)
              | Inr cert_bytes \<Rightarrow> (case decode (st_key_der stored) of
                    Inl e \<Rightarrow> Inl (IE_Hex e)
                  | Inr key_bytes \<Rightarrow>
                      Inr \<lparr>cert_chain = [cert_bytes], id_key = Pkcs8 key_bytes,
                           fingerprint = from_cert_der sha256 cert_bytes\<rparr>))))"

section \<open>The certificate verifier\<close>

record pinned_verifier =
  pinned :: "spki_fingerprint list"

datatype signature_scheme =
    ECDSA_NISTP256_SHA256 | ECDSA_NISTP384_SHA384 | ED25519 | RSA_PSS_SHA256 | RSA_PSS_SHA384
  | RSA_PSS_SHA512 | RSA_PKCS1_SHA256 | RSA_PKCS1_SHA384 | RSA_PKCS1_SHA512

definition verifier_new :: "spki_fingerprint list \<Rightarrow> pinned_verifier" where
  "verifier_new ps = \<lparr>pinned = ps\<rparr>"

definition check_pinned ::
    "digest \<Rightarrow> hex_enc \<Rightarrow> pinned_verifier \<Rightarrow> byte list \<Rightarrow> rustls_error + unit" where
  "check_pinned sha256 encode v end_entity =
     (let actual = from_cert_der sha256 end_entity
      in if actual \<in> set (pinned v) then Inr () else Inl (Not_Pinned (to_hex encode actual)))"

definition supported_schemes :: "signature_scheme list" where
  "supported_schemes = [ECDSA_NISTP256_SHA256, ECDSA_NISTP384_SHA384, ED25519, RSA_PSS_SHA256,
     RSA_PSS_SHA384, RSA_PSS_SHA512, RSA_PKCS1_SHA256, RSA_PKCS1_SHA384, RSA_PKCS1_SHA512]"

text \<open>The callbacks of both verifier traits. The intermediates, the server name, the OCSP response
  and the time are ignored, as in the source.\<close>

definition verify_server_cert ::
    "digest \<Rightarrow> hex_enc \<Rightarrow> pinned_verifier \<Rightarrow> byte list \<Rightarrow> rustls_error + unit" where
  "verify_server_cert sha256 encode v end_entity =
     (case check_pinned sha256 encode v end_entity of Inl e \<Rightarrow> Inl e | Inr _ \<Rightarrow> Inr ())"

definition verify_client_cert ::
    "digest \<Rightarrow> hex_enc \<Rightarrow> pinned_verifier \<Rightarrow> byte list \<Rightarrow> rustls_error + unit" where
  "verify_client_cert sha256 encode v end_entity =
     (case check_pinned sha256 encode v end_entity of Inl e \<Rightarrow> Inl e | Inr _ \<Rightarrow> Inr ())"

definition verify_tls12_signature ::
    "pinned_verifier \<Rightarrow> byte list \<Rightarrow> byte list \<Rightarrow> 'd \<Rightarrow> rustls_error + unit" where
  "verify_tls12_signature v msg cert dss = Inr ()"

definition verify_tls13_signature ::
    "pinned_verifier \<Rightarrow> byte list \<Rightarrow> byte list \<Rightarrow> 'd \<Rightarrow> rustls_error + unit" where
  "verify_tls13_signature v msg cert dss = Inr ()"

text \<open>A handshake admits the peer when the certificate and the signature callbacks of the protocol
  version in use succeed; the other end of the link does the same with the server's ones.\<close>

definition client_admitted ::
    "digest \<Rightarrow> hex_enc \<Rightarrow> pinned_verifier \<Rightarrow> bool \<Rightarrow> byte list \<Rightarrow> byte list \<Rightarrow> 'd \<Rightarrow> bool" where
  "client_admitted sha256 encode v tls13 cert msg dss \<longleftrightarrow>
     verify_client_cert sha256 encode v cert = Inr () \<and>
     (if tls13 then verify_tls13_signature v msg cert dss else verify_tls12_signature v msg cert dss) = Inr ()"

definition server_admitted ::
    "digest \<Rightarrow> hex_enc \<Rightarrow> pinned_verifier \<Rightarrow> bool \<Rightarrow> byte list \<Rightarrow> byte list \<Rightarrow> 'd \<Rightarrow> bool" where
  "server_admitted sha256 encode v tls13 cert msg dss \<longleftrightarrow>
     verify_server_cert sha256 encode v cert = Inr () \<and>
     (if tls13 then verify_tls13_signature v msg cert dss else verify_tls12_signature v msg cert dss) = Inr ()"

section \<open>What the libraries promise\<close>

text \<open>\<^verbatim>\<open>hex\<close>: encoding gives two lower-case digits per byte, decoding inverts it and halves the length.\<close>

definition hex_digit :: "nat \<Rightarrow> bool" where
  "hex_digit ch \<longleftrightarrow> 48 \<le> ch \<and> ch \<le> 57 \<or> 97 \<le> ch \<and> ch \<le> 102"

definition hex_ok :: "hex_enc \<Rightarrow> 'h hex_dec \<Rightarrow> bool" where
  "hex_ok encode decode \<longleftrightarrow>
     (\<forall>bs. length (encode bs) = 2 * length bs \<and> list_all hex_digit (encode bs) \<and> decode (encode bs) = Inr bs) \<and>
     (\<forall>s bs. decode s = Inr bs \<longrightarrow> utf8_len s = 2 * length bs)"

definition stored_ok :: "(stored_identity \<Rightarrow> 'j + byte list) \<Rightarrow> (byte list \<Rightarrow> 'j + stored_identity) \<Rightarrow> bool" where
  "stored_ok to_vec from_slice \<longleftrightarrow> (\<forall>st bs. to_vec st = Inr bs \<longrightarrow> from_slice bs = Inr st)"

definition files_ok :: "('p \<Rightarrow> byte list \<Rightarrow> 'fs \<Rightarrow> 'e + 'fs) \<Rightarrow> ('p \<Rightarrow> 'fs \<Rightarrow> 'e + byte list) \<Rightarrow> bool" where
  "files_ok write_file read_file \<longleftrightarrow> (\<forall>p bs fs fs'. write_file p bs fs = Inr fs' \<longrightarrow> read_file p fs' = Inr bs)"

section \<open>Lemmas\<close>

lemma hex_digit_plain: "hex_digit ch \<Longrightarrow> \<not> is_whitespace ch \<and> ch < 128 \<and> ch \<noteq> 44"
  by (auto simp: hex_digit_def is_whitespace_def)

lemma hex_okD:
  assumes "hex_ok encode decode"
  shows "length (encode bs) = 2 * length bs" "\<And>ch. ch \<in> set (encode bs) \<Longrightarrow> hex_digit ch"
    "decode (encode bs) = Inr bs" "decode s = Inr bs' \<Longrightarrow> utf8_len s = 2 * length bs'"
  using assms by (auto simp: hex_ok_def list_all_iff)

lemma utf8_len_encode: "hex_ok encode decode \<Longrightarrow> utf8_len (encode bs) = 2 * length bs"
  using hex_okD(1,2) hex_digit_plain utf8_len_ascii by metis

text \<open>A printed fingerprint reads back, with any white space around it.\<close>

lemma from_hex_padded:
  assumes h: "hex_ok encode decode" and fp: "length (as_bytes fp) = 32"
    and a: "\<forall>x\<in>set a. is_whitespace x" and b: "\<forall>x\<in>set b. is_whitespace x"
  shows "from_hex decode (a @ to_hex encode fp @ b) = Some (Inr fp)"
proof -
  have "to_hex encode fp = [] \<or> \<not> is_whitespace (hd (to_hex encode fp)) \<and> \<not> is_whitespace (last (to_hex encode fp))"
    using hex_okD(2) [OF h] hex_digit_plain unfolding to_hex_def by (metis hd_in_set last_in_set)
  then have "trim (a @ to_hex encode fp @ b) = to_hex encode fp" by (rule trim_padded [OF a b])
  then show ?thesis
    using utf8_len_encode [OF h] hex_okD(3) [OF h] fp by (simp add: from_hex_def to_hex_def Let_def)
qed

lemma from_hex_total: "hex_ok encode decode \<Longrightarrow> from_hex decode s \<noteq> None"
  using hex_okD(4) by (fastforce simp: from_hex_def Let_def split: sum.splits)

lemma client_admitted_iff:
  "client_admitted sha256 encode v tls13 cert msg dss \<longleftrightarrow> from_cert_der sha256 cert \<in> set (pinned v)"
  by (auto simp: client_admitted_def verify_client_cert_def check_pinned_def Let_def
      verify_tls13_signature_def verify_tls12_signature_def split: sum.splits)

lemma server_admitted_iff:
  "server_admitted sha256 encode v tls13 cert msg dss \<longleftrightarrow> from_cert_der sha256 cert \<in> set (pinned v)"
  by (auto simp: server_admitted_def verify_server_cert_def check_pinned_def Let_def
      verify_tls13_signature_def verify_tls12_signature_def split: sum.splits)

section \<open>Instances of the library functions\<close>

definition hex_char :: "nat \<Rightarrow> nat" where
  "hex_char d = (if d < 10 then 48 + d else 87 + d)"

definition hex_val :: "nat \<Rightarrow> nat option" where
  "hex_val ch = (if 48 \<le> ch \<and> ch \<le> 57 then Some (ch - 48)
     else if 97 \<le> ch \<and> ch \<le> 102 then Some (ch - 87) else None)"

definition demo_hex_enc :: hex_enc where
  "demo_hex_enc bs = concat (map (\<lambda>b. [hex_char (unat b div 16), hex_char (unat b mod 16)]) bs)"

fun demo_hex_dec :: "unit hex_dec" where
  "demo_hex_dec [] = Inr []"
| "demo_hex_dec [x] = Inl ()"
| "demo_hex_dec (x # y # s) =
     (case (hex_val x, hex_val y, demo_hex_dec s) of
        (Some a, Some b, Inr bs) \<Rightarrow> Inr (of_nat (16 * a + b) # bs)
      | _ \<Rightarrow> Inl ())"

lemma hex_val_char: "d < 16 \<Longrightarrow> hex_val (hex_char d) = Some d"
  by (simp add: hex_val_def hex_char_def)

lemma hex_char_digit: "d < 16 \<Longrightarrow> hex_digit (hex_char d)"
  by (simp add: hex_digit_def hex_char_def)

lemma byte_split: "unat (b :: byte) div 16 < 16" "unat b mod 16 < 16"
    "(of_nat (16 * (unat b div 16) + unat b mod 16) :: byte) = b"
proof -
  have "unat b < 256" using unsigned_less [of b, where ?'a = nat] by simp
  then show "unat b div 16 < 16" by simp
  show "(of_nat (16 * (unat b div 16) + unat b mod 16) :: byte) = b" by (simp only: mult_div_mod_eq unsigned_of_nat) simp
qed simp

lemma demo_hex_ok: "hex_ok demo_hex_enc demo_hex_dec"
proof -
  have "demo_hex_dec (demo_hex_enc bs) = Inr bs" for bs
  proof (induction bs)
    case (Cons b bs)
    then show ?case using byte_split [of b] by (simp add: demo_hex_enc_def hex_val_char)
  qed (simp add: demo_hex_enc_def)
  moreover have "length (demo_hex_enc bs) = 2 * length bs" for bs
    by (induction bs) (simp_all add: demo_hex_enc_def)
  moreover have "list_all hex_digit (demo_hex_enc bs)" for bs
    by (auto simp: demo_hex_enc_def list_all_iff hex_char_digit byte_split)
  moreover have "utf8_len s = 2 * length bs" if "demo_hex_dec s = Inr bs" for s bs
    using that
  proof (induction s arbitrary: bs rule: demo_hex_dec.induct)
    case (3 x y s)
    then obtain a b bs' where d: "hex_val x = Some a" "hex_val y = Some b" "demo_hex_dec s = Inr bs'" "bs = of_nat (16 * a + b) # bs'"
      by (auto split: option.splits sum.splits)
    then have "x < 128" "y < 128" by (auto simp: hex_val_def split: if_splits)
    then show ?case using 3(1) [OF d(3)] d(4) by (simp add: utf8_len_def utf8_bytes_def utf8_char_def)
  qed (simp_all add: utf8_len_def utf8_bytes_def)
  ultimately show ?thesis by (auto simp: hex_ok_def)
qed

definition demo_files_write :: "nat \<Rightarrow> byte list \<Rightarrow> (nat \<rightharpoonup> byte list) \<Rightarrow> unit + (nat \<rightharpoonup> byte list)" where
  "demo_files_write p bs fs = Inr (fs(p \<mapsto> bs))"

definition demo_files_read :: "nat \<Rightarrow> (nat \<rightharpoonup> byte list) \<Rightarrow> unit + byte list" where
  "demo_files_read p fs = (case fs p of None \<Rightarrow> Inl () | Some bs \<Rightarrow> Inr bs)"

text \<open>The stored identity as the byte 34, its two texts and a length byte (texts of less than 256
  characters below 256; the instance refuses any other).\<close>

definition demo_to_vec :: "stored_identity \<Rightarrow> unit + byte list" where
  "demo_to_vec st =
     (if length (st_cert_der st) < 256 \<and> list_all (\<lambda>ch. ch < 256) (st_cert_der st @ st_key_der st)
      then Inr (of_nat (length (st_cert_der st)) # map of_nat (st_cert_der st @ st_key_der st))
      else Inl ())"

definition demo_from_slice :: "byte list \<Rightarrow> unit + stored_identity" where
  "demo_from_slice bs =
     (case bs of [] \<Rightarrow> Inl ()
      | b # xs \<Rightarrow> Inr \<lparr>st_cert_der = take (unat b) (map unat xs), st_key_der = drop (unat b) (map unat xs)\<rparr>)"

lemma demo_stored_ok: "stored_ok demo_to_vec demo_from_slice"
proof -
  have "unat (of_nat n :: byte) = n" if "n < 256" for n
    using that by (simp add: unsigned_of_nat take_bit_nat_eq_self)
  moreover from this have "map (unat \<circ> (of_nat :: nat \<Rightarrow> byte)) xs = xs" if "\<forall>ch\<in>set xs. ch < 256" for xs
    using that by (simp add: map_idI)
  ultimately show ?thesis
    by (auto simp: stored_ok_def demo_to_vec_def demo_from_slice_def list_all_iff split: if_splits)
qed

lemma demo_files_ok: "files_ok demo_files_write demo_files_read"
  by (auto simp: files_ok_def demo_files_write_def demo_files_read_def)

section \<open>Properties\<close>

text \<open>An identity survives its file: what \<^verbatim>\<open>generate\<close> makes and \<^verbatim>\<open>save\<close> writes, \<^verbatim>\<open>load\<close> reads back with
  the same certificate, key and fingerprint, and its printed fingerprint parses to itself
  with any white space around it.\<close>

theorem identity_roundtrip:
  assumes "hex_ok encode decode" and "stored_ok to_vec from_slice" and "files_ok write_file read_file"
    and "length (sha256 (hd (cert_chain idt))) = 32"
    and "generate self_signed sha256 names = Inr idt"
    and "save encode to_vec write_file idt path fs = Some (Inr fs')"
    and "\<forall>x\<in>set (a @ b). is_whitespace x"
  shows "load decode from_slice read_file sha256 path fs' = Inr idt \<and>
    from_hex decode (a @ to_hex encode (fingerprint idt) @ b) = Some (Inr (fingerprint idt))"
proof -
  obtain cert key where idt: "idt = \<lparr>cert_chain = [cert], id_key = Pkcs8 key, fingerprint = from_cert_der sha256 cert\<rparr>"
    using assms(5) by (auto simp: generate_def split: sum.splits)
  obtain json where j: "to_vec \<lparr>st_cert_der = encode cert, st_key_der = encode key\<rparr> = Inr json"
      "write_file path json fs = Inr fs'"
    using assms(6) by (auto simp: save_def idt split: sum.splits)
  have "read_file path fs' = Inr json" using assms(3) j(2) unfolding files_ok_def by blast
  moreover have "from_slice json = Inr \<lparr>st_cert_der = encode cert, st_key_der = encode key\<rparr>"
    using assms(2) j(1) unfolding stored_ok_def by blast
  ultimately have "load decode from_slice read_file sha256 path fs' = Inr idt"
    using hex_okD(3) [OF assms(1)] by (simp add: load_def idt)
  moreover have "from_hex decode (a @ to_hex encode (fingerprint idt) @ b) = Some (Inr (fingerprint idt))"
    using assms(4,7) by (intro from_hex_padded [OF assms(1)]) (auto simp: idt from_cert_der_def)
  ultimately show ?thesis by blast
qed

definition demo_sha :: digest where
  "demo_sha cert = take 32 (cert @ replicate 32 0)"

definition demo_identity :: node_identity where
  "demo_identity = \<lparr>cert_chain = [[1, 2]], id_key = Pkcs8 [255], fingerprint = SpkiFingerprint (demo_sha [1, 2])\<rparr>"

definition demo_save :: "((unit, unit, unit) identity_error + (nat \<rightharpoonup> byte list)) option" where
  "demo_save = save demo_hex_enc demo_to_vec demo_files_write demo_identity 5 Map.empty"

theorem identity_roundtrip_witness:
  "\<exists>fs'. demo_save = Some (Inr fs') \<and>
    load demo_hex_dec demo_from_slice demo_files_read demo_sha 5 fs' = Inr demo_identity \<and>
    from_hex demo_hex_dec ([32] @ to_hex demo_hex_enc (fingerprint demo_identity) @ [10]) =
      (Some (Inr (fingerprint demo_identity)) :: ((unit, unit) tls_error + _) option)"
proof -
  have "hex_char 0 = 48" "hex_char 1 = 49" "hex_char 2 = 50" "hex_char 15 = 102" by (simp_all add: hex_char_def)
  then have "demo_hex_enc [1, 2] = [48, 49, 48, 50]" "demo_hex_enc [255] = [102, 102]"
    by (simp_all add: demo_hex_enc_def)
  then obtain fs' where fs: "demo_save = Some (Inr fs')"
    by (simp add: demo_save_def save_def demo_identity_def demo_to_vec_def demo_files_write_def)
  have gen: "generate (\<lambda>_. Inr ([1, 2], [255])) demo_sha [] = (Inr demo_identity :: (unit, unit) tls_error + _)"
    by (simp add: generate_def demo_identity_def from_cert_der_def)
  have len: "length (demo_sha (hd (cert_chain demo_identity))) = 32"
    by (simp add: demo_identity_def demo_sha_def)
  have ws: "\<forall>x\<in>set ([32] @ [10]). is_whitespace x" by (simp add: is_whitespace_def)
  show ?thesis
    using identity_roundtrip [OF demo_hex_ok demo_stored_ok demo_files_ok len gen fs [unfolded demo_save_def] ws] fs
    by blast
qed

text \<open>Possession of a certificate is enough: both ends admit a peer exactly when the digest of the
  certificate it shows is pinned, in TLS 1.2 and 1.3, whatever signature it presents and
  over whatever transcript, since the signature callbacks accept everything.\<close>

lemma admission_ignores_signature:
  "(client_admitted sha256 encode (verifier_new ps) tls13 cert msg dss \<longleftrightarrow> from_cert_der sha256 cert \<in> set ps) \<and>
   (server_admitted sha256 encode (verifier_new ps) tls13 cert msg dss \<longleftrightarrow> from_cert_der sha256 cert \<in> set ps)"
  by (simp_all add: client_admitted_iff server_admitted_iff verifier_new_def)

end
