(* ===== verification/Endpoint.thy ===== *)
theory Endpoint
  imports Transport Quic Snapshot Tls
begin

text \<open>
  The ends of the links: the TLS configurations that \<^verbatim>\<open>RingTransport::spawn\<close> (\<^verbatim>\<open>transport.rs\<close>),
  \<^verbatim>\<open>QuicRingTransport::spawn\<close> (\<^verbatim>\<open>quic_transport.rs\<close>) and the state transfer (\<^verbatim>\<open>snapshot.rs\<close>) build, the order of
  their start-up steps with the tasks already running when one fails, and the admission of peers.
  \<^verbatim>\<open>rustls\<close>, the QUIC library and the operating system are arguments: which certificate and key a configuration
  accepts, the outcome of binding and starting, and the handshake. \<open>handshake_ok\<close> says what the code relies on
  the handshake for: it completes only after the callbacks of the installed verifiers have accepted the
  peer's certificate and signature, and with a common application protocol if both ends name some.
\<close>

section \<open>Configurations\<close>

text \<open>One end of a TLS session: its verifier, the certificate chain and key it shows, its ALPN labels.\<close>

record tls_end =
  te_verifier :: pinned_verifier
  te_chain :: "byte list list"
  te_key :: private_key_der
  te_alpn :: "byte list list"

type_synonym cert_check = "byte list list \<Rightarrow> private_key_der \<Rightarrow> utext option"

text \<open>\<^verbatim>\<open>with_client_cert_verifier(..).with_single_cert(..)\<close> and
  \<^verbatim>\<open>with_custom_certificate_verifier(..).with_client_auth_cert(..)\<close>: an end, or the printed error.\<close>

definition tls_config :: "cert_check \<Rightarrow> node_identity \<Rightarrow> spki_fingerprint list \<Rightarrow> utext + tls_end" where
  "tls_config chk idt ps =
     (case chk (cert_chain idt) (id_key idt) of
        Some e \<Rightarrow> Inl e
      | None \<Rightarrow> Inr \<lparr>te_verifier = verifier_new ps, te_chain = cert_chain idt, te_key = id_key idt, te_alpn = []\<rparr>)"

definition TRAINS_ALPN :: "byte list" where
  "TRAINS_ALPN = [116, 114, 97, 105, 110, 115, 45, 49]"

record 'a ring_config =
  rc_identity :: node_identity
  rc_listen_addr :: 'a
  rc_successor_addr :: 'a
  rc_pinned :: "spki_fingerprint list"

section \<open>Start-up\<close>

datatype 'i transport_error = TrE_Io 'i | TrE_Codec codec_error | TrE_Rustls rustls_error | TrE_TlsConfig utext

datatype 'i quic_error = QE_Io 'i | QE_Codec codec_error | QE_Rustls rustls_error | QE_TlsConfig utext | QE_Quic utext

text \<open>The tasks a start-up has spawned so far; a dropped \<^verbatim>\<open>JoinHandle\<close> leaves its task running.\<close>

datatype 'a ring_task = Listener_Task tls_end 'a | Mux_Task | Connector_Task tls_end 'a

text \<open>\<^verbatim>\<open>RingTransport::spawn\<close>: the tasks running when it returns, and its result.\<close>

definition ring_spawn ::
    "cert_check \<Rightarrow> cert_check \<Rightarrow> ('a \<Rightarrow> 'i option) \<Rightarrow> 'a ring_config \<Rightarrow>
     'a ring_task list \<times> ('i transport_error + ('a, wire_msg) connector)" where
  "ring_spawn srv_check cl_check bind_addr cfg =
     (case tls_config srv_check (rc_identity cfg) (rc_pinned cfg) of
        Inl e \<Rightarrow> ([], Inl (TrE_TlsConfig e))
      | Inr srv \<Rightarrow> (case bind_addr (rc_listen_addr cfg) of
            Some e \<Rightarrow> ([], Inl (TrE_Io e))
          | None \<Rightarrow>
              let up = [Listener_Task srv (rc_listen_addr cfg), Mux_Task]
              in case tls_config cl_check (rc_identity cfg) (rc_pinned cfg) of
                   Inl e \<Rightarrow> (up, Inl (TrE_TlsConfig e))
                 | Inr cl \<Rightarrow> (up @ [Connector_Task cl (rc_successor_addr cfg)],
                              Inr (connector_new (rc_successor_addr cfg)))))"

text \<open>\<^verbatim>\<open>Server::builder()\<close> and \<^verbatim>\<open>Client::builder()\<close> of the QUIC library: \<^verbatim>\<open>with_tls\<close>, \<^verbatim>\<open>with_io\<close>, \<^verbatim>\<open>start\<close>, each of
  which may fail with a printed error.\<close>

record 'a quic_ops =
  qo_with_tls :: "tls_end \<Rightarrow> utext option"
  qo_with_io :: "'a \<Rightarrow> utext option"
  qo_start :: "tls_end \<Rightarrow> 'a \<Rightarrow> utext option"

definition quic_endpoint :: "'a quic_ops \<Rightarrow> tls_end \<Rightarrow> 'a \<Rightarrow> utext option" where
  "quic_endpoint ops e a =
     (case qo_with_tls ops e of Some x \<Rightarrow> Some x
      | None \<Rightarrow> (case qo_with_io ops a of Some x \<Rightarrow> Some x | None \<Rightarrow> qo_start ops e a))"

definition quic_spawn ::
    "cert_check \<Rightarrow> cert_check \<Rightarrow> 'a quic_ops \<Rightarrow> 'a quic_ops \<Rightarrow> 'a \<Rightarrow> 'a ring_config \<Rightarrow>
     'a ring_task list \<times> ('i quic_error + quic_connector)" where
  "quic_spawn srv_check cl_check server client any_addr cfg =
     (case tls_config srv_check (rc_identity cfg) (rc_pinned cfg) of
        Inl e \<Rightarrow> ([], Inl (QE_TlsConfig e))
      | Inr srv0 \<Rightarrow>
          let srv = srv0\<lparr>te_alpn := [TRAINS_ALPN]\<rparr>
          in case quic_endpoint server srv (rc_listen_addr cfg) of
               Some e \<Rightarrow> ([], Inl (QE_Quic e))
             | None \<Rightarrow>
                 let up = [Listener_Task srv (rc_listen_addr cfg)]
                 in case tls_config cl_check (rc_identity cfg) (rc_pinned cfg) of
                      Inl e \<Rightarrow> (up, Inl (QE_TlsConfig e))
                    | Inr cl0 \<Rightarrow>
                        let cl = cl0\<lparr>te_alpn := [TRAINS_ALPN]\<rparr>
                        in case quic_endpoint client cl any_addr of
                             Some e \<Rightarrow> (up, Inl (QE_Quic e))
                           | None \<Rightarrow> (up @ [Connector_Task cl (rc_successor_addr cfg)], Inr quic_new))"

section \<open>The state transfer\<close>

definition snapshot_config :: "cert_check \<Rightarrow> node_identity \<Rightarrow> spki_fingerprint list \<Rightarrow> snapshot_error + tls_end" where
  "snapshot_config chk idt ps = (case tls_config chk idt ps of Inl _ \<Rightarrow> Inl SE_TlsConfig | Inr e \<Rightarrow> Inr e)"

text \<open>The server's end of a listening address: what a TCP connect finds there.\<close>

record snapshot_server =
  sv_end :: tls_end
  sv_provider :: "nat \<Rightarrow> state_transfer option"

text \<open>\<^verbatim>\<open>serve_snapshots\<close>: the configuration, the bind, then the accept loop over the outcomes of
  \<^verbatim>\<open>accept\<close>; each connection gets a task of its own, and the first failing accept ends the server.
  The connections that were handed to a task are returned with the error, if any.\<close>

fun accept_loop :: "(io_kind + 'c) list \<Rightarrow> 'c list \<times> snapshot_error option" where
  "accept_loop [] = ([], None)"
| "accept_loop (Inl e # _) = ([], Some (SE_Io e))"
| "accept_loop (Inr conn # rest) = (let (cs, err) = accept_loop rest in (conn # cs, err))"

definition serve_snapshots ::
    "cert_check \<Rightarrow> io_kind option \<Rightarrow> node_identity \<Rightarrow> spki_fingerprint list \<Rightarrow> (nat \<Rightarrow> state_transfer option) \<Rightarrow>
     (io_kind + 'c) list \<Rightarrow> (snapshot_server \<times> 'c list) option \<times> snapshot_error option" where
  "serve_snapshots chk bound idt ps provider accepts =
     (case snapshot_config chk idt ps of
        Inl e \<Rightarrow> (None, Some e)
      | Inr srv \<Rightarrow> (case bound of
            Some e \<Rightarrow> (None, Some (SE_Io e))
          | None \<Rightarrow> let (cs, err) = accept_loop accepts
                    in (Some (\<lparr>sv_end = srv, sv_provider = provider\<rparr>, cs), err)))"

text \<open>\<^verbatim>\<open>fetch_state\<close> from its arguments on: configuration, connect, handshake, then the exchange. A failed
  handshake is an I/O error at the client and ends \<^verbatim>\<open>handle_one\<close> at the server before a byte is read.\<close>

definition fetch_over ::
    "(tls_end \<Rightarrow> tls_end \<Rightarrow> bool) \<Rightarrow> cert_check \<Rightarrow> (io_kind + snapshot_server) \<Rightarrow> io_kind \<Rightarrow> io_kind \<Rightarrow> io_kind \<Rightarrow>
     node_identity \<Rightarrow> spki_fingerprint list \<Rightarrow> nat \<Rightarrow> snapshot_error + state_transfer" where
  "fetch_over hs chk conn tls_fault e e' idt ps have =
     (case snapshot_config chk idt ps of
        Inl err \<Rightarrow> Inl err
      | Inr cl \<Rightarrow> (case conn of
            Inl k \<Rightarrow> Inl (SE_Io k)
          | Inr sv \<Rightarrow>
              if hs cl (sv_end sv) then fetch_state (serve_one (sv_provider sv) e) e' have
              else Inl (SE_Io tls_fault)))"

section \<open>Admission\<close>

definition leaf_of :: "byte list list \<Rightarrow> byte list" where
  "leaf_of chain = (case chain of [] \<Rightarrow> [] | c # _ \<Rightarrow> c)"

definition leaf :: "tls_end \<Rightarrow> byte list" where
  "leaf e = leaf_of (te_chain e)"

definition handshake_ok ::
    "digest \<Rightarrow> hex_enc \<Rightarrow> (tls_end \<Rightarrow> tls_end \<Rightarrow> bool) \<Rightarrow> bool" where
  "handshake_ok sha256 encode hs \<longleftrightarrow> (\<forall>cl sv. hs cl sv \<longrightarrow>
     (\<exists>tls13 msg (dss :: unit). client_admitted sha256 encode (te_verifier sv) tls13 (leaf cl) msg dss) \<and>
     (\<exists>tls13 msg (dss :: unit). server_admitted sha256 encode (te_verifier cl) tls13 (leaf sv) msg dss) \<and>
     (te_alpn cl = [] \<or> te_alpn sv = [] \<or> set (te_alpn cl) \<inter> set (te_alpn sv) \<noteq> {}))"

lemma handshake_pinned:
  assumes "handshake_ok sha256 encode hs" and "hs cl sv"
  shows "from_cert_der sha256 (leaf cl) \<in> set (pinned (te_verifier sv))"
    and "from_cert_der sha256 (leaf sv) \<in> set (pinned (te_verifier cl))"
  using assms unfolding handshake_ok_def client_admitted_iff server_admitted_iff by blast+

lemma tls_config_Inr:
  "tls_config chk idt ps = Inr e \<longleftrightarrow> chk (cert_chain idt) (id_key idt) = None \<and>
     e = \<lparr>te_verifier = verifier_new ps, te_chain = cert_chain idt, te_key = id_key idt, te_alpn = []\<rparr>"
  by (auto simp: tls_config_def split: option.splits)

section \<open>Start-up is all or nothing when both builders accept the same certificates\<close>

text \<open>A started ring link: both ends pin the configured fingerprints and show the node's identity, and exactly the
  three tasks run.\<close>

lemma ring_spawn_ok:
  assumes "ring_spawn srv_check cl_check bind_addr cfg = (tasks, Inr conn)"
  shows "\<exists>e. te_verifier e = verifier_new (rc_pinned cfg) \<and> te_chain e = cert_chain (rc_identity cfg) \<and>
    tasks = [Listener_Task e (rc_listen_addr cfg), Mux_Task, Connector_Task e (rc_successor_addr cfg)] \<and>
    conn = connector_new (rc_successor_addr cfg)"
  using assms by (auto simp: ring_spawn_def Let_def tls_config_def split: sum.splits option.splits)

lemma ring_spawn_fails_clean:
  assumes "ring_spawn chk chk bind_addr cfg = (tasks, Inl err)"
  shows "tasks = []"
  using assms by (auto simp: ring_spawn_def Let_def tls_config_def split: sum.splits option.splits)

text \<open>The QUIC start-up is not: when its client endpoint cannot be started, the call fails and its listener goes on
  accepting connections on the ring's address.\<close>

lemma quic_spawn_leaves_listener:
  assumes "chk (cert_chain (rc_identity cfg)) (id_key (rc_identity cfg)) = None"
    and "\<And>e. quic_endpoint server e (rc_listen_addr cfg) = None" and "\<And>e. quic_endpoint client e any_addr = Some x"
  shows "\<exists>e. quic_spawn chk chk server client any_addr cfg = ([Listener_Task e (rc_listen_addr cfg)], Inl (QE_Quic x))"
  using assms by (simp add: quic_spawn_def tls_config_def Let_def)

section \<open>State transfer between members only\<close>

lemma snapshot_config_Inr:
  "snapshot_config chk idt ps = Inr e \<longleftrightarrow> chk (cert_chain idt) (id_key idt) = None \<and>
     e = \<lparr>te_verifier = verifier_new ps, te_chain = cert_chain idt, te_key = id_key idt, te_alpn = []\<rparr>"
  by (auto simp: snapshot_config_def tls_config_def split: sum.splits option.splits)

lemma accept_loop_prefix: "\<exists>rest. accepts = map Inr (fst (accept_loop accepts)) @ rest"
  by (induction accepts rule: accept_loop.induct) (auto split: prod.splits)

text \<open>A state transfer happens between two nodes that pin each other, and brings what the owner provided.\<close>

lemma state_transfer_between_members:
  assumes "handshake_ok sha256 encode hs"
    and "serve_snapshots srv_check None sidt sps provider accepts = (Some (sv, conns), err)"
    and "fetch_over hs cl_check (Inr sv) tls_fault e e' cidt cps have = Inr t"
    and "have \<le> u64_max" and "\<And>t. provider have = Some t \<Longrightarrow> transfer_sane t"
  shows "provider have = Some t \<and>
    from_cert_der sha256 (leaf_of (cert_chain cidt)) \<in> set sps \<and>
    from_cert_der sha256 (leaf_of (cert_chain sidt)) \<in> set cps"
proof -
  have sv: "sv_provider sv = provider" "te_verifier (sv_end sv) = verifier_new sps" "te_chain (sv_end sv) = cert_chain sidt"
    using assms(2) snapshot_config_Inr by (auto simp: serve_snapshots_def Let_def split: sum.splits prod.splits)
  obtain cl where cl: "snapshot_config cl_check cidt cps = Inr cl" "hs cl (sv_end sv)"
      "fetch_state (serve_one provider e) e' have = Inr t"
    using assms(3) sv(1) by (auto simp: fetch_over_def split: sum.splits if_splits)
  have "provider have = Some t"
  proof (cases "provider have")
    case None
    then have "serve_one provider e (fetch_request have) = []"
      by (rule serve_refused [OF assms(4)])
    then show ?thesis using cl(3) by (simp add: fetch_state_def fetch_response_def read_lp_blob_def read_u64_def read_exact_def)
  next
    case (Some t0)
    then show ?thesis
      using cl(3) fetch_transfer [OF assms(5) [OF Some], of e'] serve_request [where provider = provider, OF assms(4) Some]
      by (auto simp: fetch_state_def split: if_splits list.splits)
  qed
  moreover note handshake_pinned [OF assms(1) cl(2)]
  ultimately show ?thesis using cl(1) sv(2,3) snapshot_config_Inr by (auto simp: leaf_def verifier_new_def)
qed

end
