(* ===== verification/Endpoint_Tasks.thy ===== *)
theory Endpoint_Tasks
  imports Endpoint Systems
begin

text \<open>
  The tasks of one \<^verbatim>\<open>RingTransport\<close> (\<^verbatim>\<open>transport.rs\<close>): the listener, which spawns a task per accepted connection and
  pushes its handle to \<^verbatim>\<open>conn_tasks\<close>, those connection tasks, and \<^verbatim>\<open>abort\<close>, which requests the cancellation of every
  task it knows. A task is parked at an \<^verbatim>\<open>await\<close>, being polled, or finished; a cancelled task ends when it is next
  polled, and until then a poll that has already begun runs on to the next \<^verbatim>\<open>await\<close> that has to wait. An event that
  the state does not allow is \<^term>\<open>None\<close>. What the connections hand to the inboxes is kept as a history.
\<close>

datatype run = Parked | Polled | Finished

record conn_task =
  cn_peer :: tls_end
  cn_session :: bool
  cn_run :: run
  cn_cancel :: bool

record ring_tasks =
  l_run :: run
  l_cancel :: bool
  l_hand :: "nat option"
  conns :: "conn_task list"
  conn_tasks :: "nat list"
  scan_due :: bool
  connector_cancel :: bool
  mux_cancel :: bool
  handed :: "(nat \<times> wire_msg) list"

datatype task_event =
    Poll_Listener | Accept tls_end | Push | Listener_Waits
  | Poll_Conn nat | Tls_Done nat | Msg nat wire_msg | Conn_Waits nat | Conn_Ends nat
  | Abort_Tasks | Abort_Scan

definition tasks_new :: ring_tasks where
  "tasks_new = \<lparr>l_run = Parked, l_cancel = False, l_hand = None, conns = [], conn_tasks = [], scan_due = False,
     connector_cancel = False, mux_cancel = False, handed = []\<rparr>"

text \<open>The runtime polls a parked task, or ends it when its cancellation has been requested.\<close>

definition polled :: "bool \<Rightarrow> run" where
  "polled cancelled = (if cancelled then Finished else Polled)"

definition on_conn :: "nat \<Rightarrow> (conn_task \<Rightarrow> conn_task option) \<Rightarrow> ring_tasks \<Rightarrow> ring_tasks option" where
  "on_conn i f s =
     (if i < length (conns s)
      then case f (conns s ! i) of None \<Rightarrow> None | Some k \<Rightarrow> Some (s\<lparr>conns := (conns s)[i := k]\<rparr>)
      else None)"

fun task_step :: "(tls_end \<Rightarrow> tls_end \<Rightarrow> bool) \<Rightarrow> tls_end \<Rightarrow> task_event \<Rightarrow> ring_tasks \<Rightarrow> ring_tasks option" where
  "task_step hs srv Poll_Listener s =
     (if l_run s = Parked then Some (s\<lparr>l_run := polled (l_cancel s)\<rparr>) else None)"
| "task_step hs srv (Accept peer) s =
     (if l_run s = Polled \<and> l_hand s = None
      then Some (s\<lparr>conns := conns s @ [\<lparr>cn_peer = peer, cn_session = False, cn_run = Parked, cn_cancel = False\<rparr>],
                   l_hand := Some (length (conns s))\<rparr>)
      else None)"
| "task_step hs srv Push s =
     (case l_hand s of
        Some i \<Rightarrow> Some (s\<lparr>conn_tasks := conn_tasks s @ [i], l_hand := None\<rparr>)
      | None \<Rightarrow> None)"
| "task_step hs srv Listener_Waits s =
     (if l_run s = Polled \<and> l_hand s = None then Some (s\<lparr>l_run := Parked\<rparr>) else None)"
| "task_step hs srv (Poll_Conn i) s =
     on_conn i (\<lambda>k. if cn_run k = Parked then Some (k\<lparr>cn_run := polled (cn_cancel k)\<rparr>) else None) s"
| "task_step hs srv (Tls_Done i) s =
     on_conn i (\<lambda>k. if cn_run k = Polled \<and> \<not> cn_session k
       then Some (if hs (cn_peer k) srv then k\<lparr>cn_session := True\<rparr> else k\<lparr>cn_run := Finished\<rparr>)
       else None) s"
| "task_step hs srv (Msg i w) s =
     (if i < length (conns s) \<and> cn_run (conns s ! i) = Polled \<and> cn_session (conns s ! i)
      then Some (s\<lparr>handed := handed s @ [(i, w)]\<rparr>) else None)"
| "task_step hs srv (Conn_Waits i) s =
     on_conn i (\<lambda>k. if cn_run k = Polled then Some (k\<lparr>cn_run := Parked\<rparr>) else None) s"
| "task_step hs srv (Conn_Ends i) s =
     on_conn i (\<lambda>k. if cn_run k = Polled \<and> cn_session k then Some (k\<lparr>cn_run := Finished\<rparr>) else None) s"
| "task_step hs srv Abort_Tasks s =
     Some (s\<lparr>l_cancel := True, connector_cancel := True, mux_cancel := True, scan_due := True\<rparr>)"
| "task_step hs srv Abort_Scan s =
     (if scan_due s
      then Some (s\<lparr>scan_due := False,
                   conns := map (\<lambda>i. if i \<in> set (conn_tasks s) then (conns s ! i)\<lparr>cn_cancel := True\<rparr> else conns s ! i)
                              [0..<length (conns s)]\<rparr>)
      else None)"

definition connection_task_count :: "ring_tasks \<Rightarrow> nat" where
  "connection_task_count s = length (conn_tasks s)"

section \<open>The invariant\<close>

text \<open>Every spawned connection task is tracked, the one in the listener's hand apart; a session is open only to a
  peer the handshake let in; what was handed over came by such a session.\<close>

definition tasks_ok :: "(tls_end \<Rightarrow> tls_end \<Rightarrow> bool) \<Rightarrow> tls_end \<Rightarrow> ring_tasks \<Rightarrow> bool" where
  "tasks_ok hs srv s \<longleftrightarrow>
     (\<forall>k\<in>set (conns s). cn_session k \<longrightarrow> hs (cn_peer k) srv) \<and>
     (\<forall>(i, w)\<in>set (handed s). i < length (conns s) \<and> cn_session (conns s ! i)) \<and>
     (l_run s \<noteq> Polled \<longrightarrow> l_hand s = None) \<and>
     (case l_hand s of
        None \<Rightarrow> conn_tasks s = [0..<length (conns s)]
      | Some i \<Rightarrow> length (conns s) = Suc i \<and> conn_tasks s = [0..<i])"

abbreviation tasks_next :: "(tls_end \<Rightarrow> tls_end \<Rightarrow> bool) \<Rightarrow> tls_end \<Rightarrow> ring_tasks \<Rightarrow> ring_tasks \<Rightarrow> bool" where
  "tasks_next hs srv \<equiv> (\<lambda>s s'. \<exists>ev. task_step hs srv ev s = Some s')"

lemma on_conn_cases:
  assumes "on_conn i f s = Some s'"
  obtains k where "i < length (conns s)" and "f (conns s ! i) = Some k" and "s' = s\<lparr>conns := (conns s)[i := k]\<rparr>"
  using assms by (auto simp: on_conn_def split: if_splits option.splits)

lemma on_conn_ok:
  assumes "tasks_ok hs srv s" and "on_conn i f s = Some s'"
    and "\<And>k k'. f k = Some k' \<Longrightarrow> (cn_session k \<longrightarrow> hs (cn_peer k) srv) \<Longrightarrow>
      (cn_session k' \<longrightarrow> hs (cn_peer k') srv) \<and> (cn_session k \<longrightarrow> cn_session k')"
  shows "tasks_ok hs srv s'"
proof -
  obtain k where k: "i < length (conns s)" "f (conns s ! i) = Some k" "s' = s\<lparr>conns := (conns s)[i := k]\<rparr>"
    using assms(2) by (rule on_conn_cases)
  have "(cn_session k \<longrightarrow> hs (cn_peer k) srv) \<and> (cn_session (conns s ! i) \<longrightarrow> cn_session k)"
    using assms(1) k(1) by (intro assms(3) [OF k(2)]) (auto simp: tasks_ok_def)
  moreover have "set ((conns s)[i := k]) \<subseteq> insert k (set (conns s))" by (rule set_update_subset_insert)
  moreover have "cn_session ((conns s)[i := k] ! j)" if "cn_session (conns s ! j)" "j < length (conns s)" for j
    using that calculation(1) by (cases "j = i") auto
  ultimately show ?thesis using assms(1) by (fastforce simp: tasks_ok_def k(3) split: option.splits)
qed

lemma task_step_ok: "tasks_ok hs srv s \<Longrightarrow> task_step hs srv ev s = Some s' \<Longrightarrow> tasks_ok hs srv s'"
proof (induction hs srv ev s rule: task_step.induct)
  case (2 hs srv peer s)
  then show ?case by (fastforce simp: tasks_ok_def nth_append split: if_splits)
next
  case (3 hs srv s)
  then show ?case by (auto simp: tasks_ok_def split: option.splits)
next
  case (11 hs srv s)
  let ?f = "\<lambda>i. if i \<in> set (conn_tasks s) then (conns s ! i)\<lparr>cn_cancel := True\<rparr> else conns s ! i"
  have s': "s' = s\<lparr>scan_due := False, conns := map ?f [0..<length (conns s)]\<rparr>" using 11(2) by (simp split: if_splits)
  have f: "cn_session (?f i) = cn_session (conns s ! i)" "cn_peer (?f i) = cn_peer (conns s ! i)" for i by auto
  have "\<forall>i<length (conns s). cn_session (conns s ! i) \<longrightarrow> hs (cn_peer (conns s ! i)) srv"
    using 11(1) by (auto simp: tasks_ok_def)
  then have "\<forall>k\<in>set (conns s'). cn_session k \<longrightarrow> hs (cn_peer k) srv" using f by (auto simp: s')
  moreover have "cn_session (conns s' ! i) = cn_session (conns s ! i)" if "i < length (conns s)" for i
    using that f(1) by (simp add: s')
  then have "(i < length (conns s') \<and> cn_session (conns s' ! i)) = (i < length (conns s) \<and> cn_session (conns s ! i))" for i
    by (auto simp: s')
  moreover have "l_run s' = l_run s" "l_hand s' = l_hand s" "conn_tasks s' = conn_tasks s" "handed s' = handed s"
      "length (conns s') = length (conns s)" by (simp_all add: s')
  ultimately show ?case using 11(1) unfolding tasks_ok_def by (simp split: option.splits)
next
  case (5 hs srv i s)
  from 5(1) 5(2) [unfolded task_step.simps] show ?case
    by (rule on_conn_ok) (auto split: if_splits)
next
  case (6 hs srv i s)
  from 6(1) 6(2) [unfolded task_step.simps] show ?case
    by (rule on_conn_ok) (auto split: if_splits)
next
  case (8 hs srv i s)
  from 8(1) 8(2) [unfolded task_step.simps] show ?case
    by (rule on_conn_ok) (auto split: if_splits)
next
  case (9 hs srv i s)
  from 9(1) 9(2) [unfolded task_step.simps] show ?case
    by (rule on_conn_ok) (auto split: if_splits)
qed (auto simp: tasks_ok_def polled_def split: if_splits option.splits)

lemma tasks_new_ok: "tasks_ok hs srv tasks_new"
  by (simp add: tasks_ok_def tasks_new_def)

interpretation ring_tasks: invariant_system "\<lambda>s. s = tasks_new" "tasks_next hs srv" "tasks_ok hs srv" for hs srv
  by unfold_locales (auto simp: tasks_new_ok intro: task_step_ok)

section \<open>After an abort\<close>

text \<open>The listener has been cancelled while parked and every connection task has been cancelled: this lasts.\<close>

definition closing :: "nat \<Rightarrow> ring_tasks \<Rightarrow> bool" where
  "closing n s \<longleftrightarrow> l_cancel s \<and> l_run s \<noteq> Polled \<and> length (conns s) = n \<and> connector_cancel s \<and> mux_cancel s"

definition all_cancelled :: "ring_tasks \<Rightarrow> bool" where
  "all_cancelled s \<longleftrightarrow> (\<forall>k\<in>set (conns s). cn_cancel k)"

definition conns_settled :: "ring_tasks \<Rightarrow> bool" where
  "conns_settled s \<longleftrightarrow> (\<forall>k\<in>set (conns s). cn_run k \<noteq> Polled)"

lemma closing_step:
  assumes "closing n s" and "tasks_ok hs srv s" and "task_step hs srv ev s = Some s'"
  shows "closing n s'"
  using assms
  by (cases ev) (auto simp: closing_def tasks_ok_def polled_def elim!: on_conn_cases split: if_splits option.splits)

lemma on_conn_all:
  assumes "on_conn i f s = Some s'" and "\<forall>k\<in>set (conns s). P k" and "\<And>k k'. f k = Some k' \<Longrightarrow> P k \<Longrightarrow> P k'"
  shows "\<forall>k\<in>set (conns s'). P k"
  using assms(1)
proof (rule on_conn_cases)
  fix k
  assume k: "i < length (conns s)" "f (conns s ! i) = Some k" "s' = s\<lparr>conns := (conns s)[i := k]\<rparr>"
  then have "P k" using assms(2,3) by auto
  then show ?thesis using assms(2) set_update_subset_insert [of "conns s" i k] by (auto simp: k(3))
qed

text \<open>The events that change no connection task, or only one of them.\<close>

lemma task_step_all:
  assumes "task_step hs srv ev s = Some s'" and "\<forall>k\<in>set (conns s). P k" and "closing n s"
    and poll: "\<And>k. P k \<Longrightarrow> cn_run k = Parked \<Longrightarrow> P (k\<lparr>cn_run := polled (cn_cancel k)\<rparr>)"
    and live: "\<And>k k'. P k \<Longrightarrow> cn_run k = Polled \<Longrightarrow> cn_cancel k' = cn_cancel k \<Longrightarrow> P k'"
    and scan: "\<And>k. P k \<Longrightarrow> P (k\<lparr>cn_cancel := True\<rparr>)"
  shows "\<forall>k\<in>set (conns s'). P k"
proof (cases ev)
  case (Poll_Conn i)
  with assms(1) have "on_conn i (\<lambda>k. if cn_run k = Parked then Some (k\<lparr>cn_run := polled (cn_cancel k)\<rparr>) else None) s = Some s'"
    by simp
  then show ?thesis using assms(2) by (rule on_conn_all) (auto intro: poll split: if_splits)
next
  case (Tls_Done i)
  with assms(1) have "on_conn i (\<lambda>k. if cn_run k = Polled \<and> \<not> cn_session k
       then Some (if hs (cn_peer k) srv then k\<lparr>cn_session := True\<rparr> else k\<lparr>cn_run := Finished\<rparr>) else None) s = Some s'"
    by simp
  then show ?thesis using assms(2) by (rule on_conn_all) (auto elim: live split: if_splits)
next
  case (Conn_Waits i)
  with assms(1) have "on_conn i (\<lambda>k. if cn_run k = Polled then Some (k\<lparr>cn_run := Parked\<rparr>) else None) s = Some s'"
    by simp
  then show ?thesis using assms(2) by (rule on_conn_all) (auto elim: live split: if_splits)
next
  case (Conn_Ends i)
  with assms(1) have "on_conn i (\<lambda>k. if cn_run k = Polled \<and> cn_session k then Some (k\<lparr>cn_run := Finished\<rparr>) else None) s = Some s'"
    by simp
  then show ?thesis using assms(2) by (rule on_conn_all) (auto elim: live split: if_splits)
qed (use assms(1-3) scan in \<open>auto simp: closing_def split: if_splits option.splits\<close>)

lemma all_cancelled_step:
  assumes "closing n s" and "all_cancelled s" and "task_step hs srv ev s = Some s'"
  shows "all_cancelled s'"
  using assms(2) unfolding all_cancelled_def
  by (rule task_step_all [OF assms(3) _ assms(1)]) auto

lemma conns_settled_step:
  assumes "closing n s" and "all_cancelled s" and "conns_settled s" and "task_step hs srv ev s = Some s'"
  shows "conns_settled s' \<and> handed s' = handed s"
proof -
  have "\<forall>k\<in>set (conns s). cn_cancel k \<and> cn_run k \<noteq> Polled" using assms(2,3) by (auto simp: all_cancelled_def conns_settled_def)
  then have "\<forall>k\<in>set (conns s'). cn_cancel k \<and> cn_run k \<noteq> Polled"
    by (rule task_step_all [OF assms(4) _ assms(1)]) (auto simp: polled_def)
  moreover have "handed s' = handed s"
    using assms(3,4) by (cases ev) (auto simp: conns_settled_def elim!: on_conn_cases split: if_splits option.splits)
  ultimately show ?thesis by (auto simp: conns_settled_def)
qed

lemma run_closing:
  assumes "fold_opt (task_step hs srv) evs s = Some s'" and "tasks_ok hs srv s" and "closing n s"
  shows "tasks_ok hs srv s' \<and> closing n s' \<and> (all_cancelled s \<longrightarrow> all_cancelled s' \<and>
    (conns_settled s \<longrightarrow> conns_settled s' \<and> handed s' = handed s))"
  using assms
proof (induction evs arbitrary: s)
  case (Cons ev evs)
  then obtain s1 where s1: "task_step hs srv ev s = Some s1" "fold_opt (task_step hs srv) evs s1 = Some s'"
    by (auto simp: bind_eq_Some_conv)
  have "tasks_ok hs srv s1" "closing n s1"
    using Cons.prems s1(1) by (auto intro: task_step_ok closing_step)
  moreover have "all_cancelled s \<longrightarrow> all_cancelled s1 \<and> (conns_settled s \<longrightarrow> conns_settled s1 \<and> handed s1 = handed s)"
    using all_cancelled_step [OF Cons.prems(3) _ s1(1)] conns_settled_step [OF Cons.prems(3) _ _ s1(1)] by blast
  ultimately show ?case using Cons.IH [OF s1(2)] by auto
qed auto

text \<open>The scan reaches every connection task, since a listener that is not being polled has none in hand.\<close>

lemma abort_scan_cancels:
  assumes "task_step hs srv Abort_Scan s = Some s'" and "tasks_ok hs srv s" and "closing n s"
  shows "all_cancelled s'"
  using assms by (auto simp: all_cancelled_def closing_def tasks_ok_def split: if_splits)

lemma parked_cancelled_ends:
  assumes "all_cancelled s" and "i < length (conns s)" and "cn_run (conns s ! i) = Parked"
  shows "task_step hs srv (Poll_Conn i) s = Some (s\<lparr>conns := (conns s)[i := (conns s ! i)\<lparr>cn_run := Finished\<rparr>]\<rparr>)"
  using assms by (auto simp: all_cancelled_def on_conn_def polled_def)

definition demo_end :: tls_end where
  "demo_end = \<lparr>te_verifier = verifier_new [SpkiFingerprint (demo_sha [1, 2])], te_chain = [[1, 2]], te_key = Pkcs8 [255], te_alpn = []\<rparr>"

definition demo_handshake :: "tls_end \<Rightarrow> tls_end \<Rightarrow> bool" where
  "demo_handshake cl sv \<longleftrightarrow> from_cert_der demo_sha (leaf cl) \<in> set (pinned (te_verifier sv)) \<and>
     from_cert_der demo_sha (leaf sv) \<in> set (pinned (te_verifier cl)) \<and> te_alpn cl = te_alpn sv"

definition demo_open :: "task_event list" where
  "demo_open = [Poll_Listener, Accept demo_end, Push, Listener_Waits, Poll_Conn 0, Tls_Done 0,
     Msg 0 (Train_Msg \<lparr>issuer = 1, clock = 1, payloads = [], ack_bits = 2\<rparr>), Conn_Waits 0]"

definition demo_open_state :: ring_tasks where
  "demo_open_state = \<lparr>l_run = Parked, l_cancel = False, l_hand = None,
     conns = [\<lparr>cn_peer = demo_end, cn_session = True, cn_run = Parked, cn_cancel = False\<rparr>], conn_tasks = [0],
     scan_due = False, connector_cancel = False, mux_cancel = False,
     handed = [(0, Train_Msg \<lparr>issuer = 1, clock = 1, payloads = [], ack_bits = 2\<rparr>)]\<rparr>"

lemma demo_handshake_ok: "handshake_ok demo_sha demo_hex_enc demo_handshake"
  unfolding handshake_ok_def client_admitted_iff server_admitted_iff by (auto simp: demo_handshake_def)

lemma demo_open_run: "fold_opt (task_step demo_handshake demo_end) demo_open tasks_new = Some demo_open_state"
  by (simp add: demo_open_def demo_open_state_def tasks_new_def on_conn_def polled_def demo_handshake_def demo_end_def
      from_cert_der_def leaf_def leaf_of_def verifier_new_def)

lemma demo_open_reach: "reach (\<lambda>s. s = tasks_new) (tasks_next demo_handshake demo_end) demo_open_state"
  by (rule fold_opt_reach [OF _ reach_init demo_open_run]) auto

text \<open>C27. \<^verbatim>\<open>RingTransport::abort\<close> on a transport whose listener waits: after the call no connection is accepted
  any more and every connection task ever spawned has been cancelled, with the connector and the multiplexer,
  whatever the tasks do between and after the two parts of the call; and as soon as no connection task is in the
  middle of a poll, none of them hands over another message.\<close>

theorem abort_closes_connections:
  assumes "reach (\<lambda>s. s = tasks_new) (tasks_next hs srv) s" and "l_run s = Parked"
    and "fold_opt (task_step hs srv) (Abort_Tasks # evs1 @ [Abort_Scan] @ evs2) s = Some s1"
    and "fold_opt (task_step hs srv) evs3 s1 = Some s2"
  shows "length (conns s2) = length (conns s) \<and> (\<forall>k\<in>set (conns s2). cn_cancel k) \<and>
    connection_task_count s2 = length (conns s) \<and> l_cancel s2 \<and> l_run s2 \<noteq> Polled \<and> connector_cancel s2 \<and> mux_cancel s2 \<and>
    ((\<forall>k\<in>set (conns s1). cn_run k \<noteq> Polled) \<longrightarrow> handed s2 = handed s1)"
proof -
  let ?n = "length (conns s)"
  obtain s0 sm sa where run: "task_step hs srv Abort_Tasks s = Some s0" "fold_opt (task_step hs srv) evs1 s0 = Some sm"
      "task_step hs srv Abort_Scan sm = Some sa" "fold_opt (task_step hs srv) evs2 sa = Some s1"
    using assms(3) by (auto simp: fold_opt_append bind_eq_Some_conv simp del: task_step.simps)
  have ok: "tasks_ok hs srv s" using assms(1) by (rule ring_tasks.reach_inv)
  then have s0: "tasks_ok hs srv s0" using run(1) by (rule task_step_ok)
  have c0: "closing ?n s0" using run(1) assms(2) by (auto simp: closing_def)
  have sm: "tasks_ok hs srv sm" "closing ?n sm" using run_closing [OF run(2) s0 c0] by blast+
  have sa: "tasks_ok hs srv sa" "closing ?n sa" "all_cancelled sa"
    using sm task_step_ok [OF sm(1) run(3)] closing_step [OF sm(2,1) run(3)] abort_scan_cancels [OF run(3) sm] by blast+
  have s1: "tasks_ok hs srv s1" "closing ?n s1" "all_cancelled s1" using run_closing [OF run(4) sa(1,2)] sa(3) by blast+
  have s2: "tasks_ok hs srv s2" "closing ?n s2" "all_cancelled s2" "conns_settled s1 \<longrightarrow> handed s2 = handed s1"
    using run_closing [OF assms(4) s1(1,2)] s1(3) by blast+
  then have "connection_task_count s2 = ?n" by (auto simp: closing_def tasks_ok_def connection_task_count_def)
  with s2 show ?thesis unfolding closing_def all_cancelled_def conns_settled_def by blast
qed

theorem abort_closes_connections_witness:
  "l_run demo_open_state = Parked \<and>
   (\<exists>s1 s2. fold_opt (task_step demo_handshake demo_end) (Abort_Tasks # [Poll_Listener] @ [Abort_Scan] @ []) demo_open_state = Some s1 \<and>
     fold_opt (task_step demo_handshake demo_end) [Poll_Conn 0] s1 = Some s2 \<and>
     length (conns s2) = 1 \<and> (\<forall>k\<in>set (conns s2). cn_cancel k) \<and> handed s2 = handed s1)"
proof -
  have p: "l_run demo_open_state = Parked" by (simp add: demo_open_state_def)
  obtain s1 where s1: "fold_opt (task_step demo_handshake demo_end) (Abort_Tasks # [Poll_Listener] @ [Abort_Scan] @ []) demo_open_state = Some s1"
      "\<forall>k\<in>set (conns s1). cn_run k \<noteq> Polled" "\<exists>s2. fold_opt (task_step demo_handshake demo_end) [Poll_Conn 0] s1 = Some s2"
    by (simp add: demo_open_state_def on_conn_def polled_def)
  then obtain s2 where s2: "fold_opt (task_step demo_handshake demo_end) [Poll_Conn 0] s1 = Some s2" by blast
  show ?thesis
    using abort_closes_connections [OF demo_open_reach p s1(1) s2] s1 s2 p by (auto simp: demo_open_state_def)
qed

text \<open>A connection accepted while \<^verbatim>\<open>abort\<close> runs is missed by its scan: its handle is pushed afterwards, and its task
  goes on handing over messages although every task the scan saw is gone.\<close>

lemma late_connection_survives_abort:
  "\<exists>s. fold_opt (task_step demo_handshake demo_end)
      [Poll_Listener, Accept demo_end, Abort_Tasks, Abort_Scan, Push, Listener_Waits, Poll_Listener, Poll_Conn 0, Tls_Done 0,
       Msg 0 (Train_Msg \<lparr>issuer = 1, clock = 1, payloads = [], ack_bits = 2\<rparr>)] tasks_new = Some s \<and>
    l_run s = Finished \<and> connection_task_count s = 1 \<and> \<not> cn_cancel (conns s ! 0) \<and> handed s \<noteq> []"
  by (simp add: tasks_new_def on_conn_def polled_def demo_handshake_def demo_end_def from_cert_der_def leaf_def leaf_of_def
      verifier_new_def connection_task_count_def)

text \<open>C28. Only members are heard: whatever a ring node's listener hands to \<^verbatim>\<open>inbox\<close> or \<^verbatim>\<open>vc_inbox\<close> came over a
  connection whose client certificate has a fingerprint that the node's configuration pins.\<close>

theorem handed_messages_from_pinned_peers:
  assumes "handshake_ok sha256 encode hs" and "ring_spawn srv_check cl_check bind_addr cfg = (Listener_Task srv a # tasks, Inr conn)"
    and "reach (\<lambda>s. s = tasks_new) (tasks_next hs srv) s" and "(i, w) \<in> set (handed s)"
  shows "i < length (conns s) \<and> from_cert_der sha256 (leaf (cn_peer (conns s ! i))) \<in> set (rc_pinned cfg)"
proof -
  have "tasks_ok hs srv s" using assms(3) by (rule ring_tasks.reach_inv)
  with assms(4) have i: "i < length (conns s)" "hs (cn_peer (conns s ! i)) srv"
    unfolding tasks_ok_def by fastforce+
  have "te_verifier srv = verifier_new (rc_pinned cfg)" using ring_spawn_ok [OF assms(2)] by auto
  then show ?thesis using handshake_pinned(1) [OF assms(1) i(2)] i(1) by (simp add: verifier_new_def)
qed

definition demo_ring_config :: "nat ring_config" where
  "demo_ring_config = \<lparr>rc_identity = demo_identity, rc_listen_addr = 1, rc_successor_addr = 2,
     rc_pinned = [SpkiFingerprint (demo_sha [1, 2])]\<rparr>"

theorem handed_messages_from_pinned_peers_witness:
  "from_cert_der demo_sha (leaf (cn_peer (conns demo_open_state ! 0))) \<in> set (rc_pinned demo_ring_config)"
proof -
  have sp: "ring_spawn (\<lambda>_ _. None) (\<lambda>_ _. None) (\<lambda>_. None :: unit option) demo_ring_config =
      (Listener_Task demo_end 1 # [Mux_Task, Connector_Task demo_end 2], Inr (connector_new 2))"
    by (simp add: ring_spawn_def tls_config_def demo_ring_config_def demo_identity_def demo_end_def)
  have "(0, Train_Msg \<lparr>issuer = 1, clock = 1, payloads = [], ack_bits = 2\<rparr>) \<in> set (handed demo_open_state)"
    by (simp add: demo_open_state_def)
  then show ?thesis
    using handed_messages_from_pinned_peers [OF demo_handshake_ok sp demo_open_reach] by blast
qed

end
