(* ===== verification/Ring_Setup.thy ===== *)
theory Ring_Setup
  imports Ring Endpoint
begin

text \<open>
  \<^verbatim>\<open>crates/trains-cli/src/ring.rs\<close>, what \<^verbatim>\<open>run\<close> does around the node tasks: one fresh identity per node, one bound
  ephemeral port per node, the successor's address, the allow-list of all fingerprints, and the routing of the
  broadcasts of the command line to the nodes. The certificate generator returns another certificate for each call
  and so takes the number of the call; binding a port may fail.
\<close>

text \<open>\<^verbatim>\<open>collect::<Result<_, _>>\<close> over calls that do not panic.\<close>

fun collect_ok :: "('e + 'a) list \<Rightarrow> 'e + 'a list" where
  "collect_ok [] = Inr []"
| "collect_ok (Inl e # _) = Inl e"
| "collect_ok (Inr x # xs) = (case collect_ok xs of Inl e \<Rightarrow> Inl e | Inr ys \<Rightarrow> Inr (x # ys))"

datatype ('r, 'h, 'i) ring_error =
    RE_Ring_Size | RE_Num_Trains | RE_Identity "('r, 'h) tls_error" | RE_Bind 'i

definition localhost :: utext where
  "localhost = [108, 111, 99, 97, 108, 104, 111, 115, 116]"

definition ring_identities ::
    "(nat \<Rightarrow> utext list \<Rightarrow> 'r + byte list \<times> byte list) \<Rightarrow> digest \<Rightarrow> nat \<Rightarrow> ('r, 'h) tls_error + node_identity list" where
  "ring_identities self_signed sha256 n = collect_ok (map (\<lambda>k. generate (self_signed k) sha256 [localhost]) [0..<n])"

text \<open>The configuration of node \<open>i\<close>, from the identities, the fingerprints and the addresses of all nodes.\<close>

definition node_config :: "config \<Rightarrow> node_identity list \<Rightarrow> 'a list \<Rightarrow> nat \<Rightarrow> 'a ring_config" where
  "node_config c idts addrs i =
     \<lparr>rc_identity = idts ! i, rc_listen_addr = addrs ! i, rc_successor_addr = addrs ! successor c i,
      rc_pinned = map fingerprint idts\<rparr>"

definition ring_setup ::
    "config \<Rightarrow> (nat \<Rightarrow> utext list \<Rightarrow> 'r + byte list \<times> byte list) \<Rightarrow> digest \<Rightarrow> (nat \<Rightarrow> 'i + 'a) \<Rightarrow> nat \<Rightarrow> nat \<Rightarrow>
     ('r, 'h, 'i) ring_error + 'a ring_config list" where
  "ring_setup c self_signed sha256 bind_port num num_trains =
     (if num \<noteq> RING_SIZE c then Inl RE_Ring_Size
      else if num_trains > num then Inl RE_Num_Trains
      else case ring_identities self_signed sha256 num of
          Inl e \<Rightarrow> Inl (RE_Identity e)
        | Inr idts \<Rightarrow> (case collect_ok (map bind_port [0..<num]) of
              Inl e \<Rightarrow> Inl (RE_Bind e)
            | Inr addrs \<Rightarrow> Inr (map (node_config c idts addrs) [0..<num])))"

text \<open>The broadcasts of the command line: those for a node of the ring go into its channel, in order; the others
  are reported and skipped.\<close>

definition route_broadcasts :: "nat \<Rightarrow> (nat \<times> byte list) list \<Rightarrow> (nat \<Rightarrow> byte list list) \<times> nat list" where
  "route_broadcasts num bcs = fold (\<lambda>(i, msg) (chans, warns).
     if i \<ge> num then (chans, warns @ [i]) else (chans(i := chans i @ [msg]), warns)) bcs (\<lambda>_. [], [])"

section \<open>Lemmas\<close>

lemma collect_ok_Inr: "collect_ok xs = Inr ys \<Longrightarrow> xs = map Inr ys"
  by (induction xs arbitrary: ys rule: collect_ok.induct) (auto split: sum.splits)

lemma ring_setup_args:
  "ring_setup c self_signed sha256 bind_port num num_trains = Inr cfgs \<Longrightarrow> ring_args_ok c num num_trains"
  by (auto simp: ring_setup_def ring_args_ok_def split: if_splits)

lemma ring_identities_nth:
  assumes "ring_identities self_signed sha256 n = (Inr idts :: ('r, 'h) tls_error + node_identity list)" and "i < n"
  shows "length idts = n" and "\<exists>cert. cert_chain (idts ! i) = [cert] \<and> fingerprint (idts ! i) = from_cert_der sha256 cert"
proof -
  have m: "(map (\<lambda>k. generate (self_signed k) sha256 [localhost]) [0..<n] :: (('r, 'h) tls_error + node_identity) list) = map Inr idts"
    using assms(1) unfolding ring_identities_def by (rule collect_ok_Inr)
  from arg_cong [OF m, of length] show l: "length idts = n" by simp
  from arg_cong [OF m, of "\<lambda>xs. xs ! i"] have "(generate (self_signed i) sha256 [localhost] :: ('r, 'h) tls_error + _) = Inr (idts ! i)"
    using assms(2) l by simp
  then show "\<exists>cert. cert_chain (idts ! i) = [cert] \<and> fingerprint (idts ! i) = from_cert_der sha256 cert"
    by (cases "idts ! i") (auto simp: generate_def split: sum.splits)
qed

text \<open>The ring that \<^verbatim>\<open>run\<close> sets up is closed and its links are admitted: each node forwards to the address its
  successor listens on, and the verifiers at both ends of every link accept the certificate of the other end.\<close>

lemma ring_setup_links:
  assumes "ring_setup c self_signed sha256 bind_port num num_trains = (Inr cfgs :: ('r, 'h, 'i) ring_error + 'a ring_config list)"
    and "i < num"
  shows "length cfgs = num \<and> rc_successor_addr (cfgs ! i) = rc_listen_addr (cfgs ! successor c i) \<and>
    client_admitted sha256 encode (verifier_new (rc_pinned (cfgs ! successor c i))) tls13
      (leaf_of (cert_chain (rc_identity (cfgs ! i)))) msg dss \<and>
    server_admitted sha256 encode (verifier_new (rc_pinned (cfgs ! i))) tls13
      (leaf_of (cert_chain (rc_identity (cfgs ! successor c i)))) msg dss"
proof -
  obtain idts addrs where s: "ring_identities self_signed sha256 num = (Inr idts :: ('r, 'h) tls_error + _)" "num = RING_SIZE c"
      "cfgs = map (node_config c idts addrs) [0..<num]"
    using assms(1) by (auto simp: ring_setup_def split: if_splits sum.splits)
  have j: "successor c i < num" using assms(2) s(2) by (simp add: successor_def)
  have fp: "from_cert_der sha256 (leaf_of (cert_chain (idts ! k))) \<in> set (map fingerprint idts)" if k: "k < num" for k
  proof -
    obtain cert where "cert_chain (idts ! k) = [cert]" "fingerprint (idts ! k) = from_cert_der sha256 cert"
      using ring_identities_nth(2) [OF s(1) k] by blast
    moreover have "fingerprint (idts ! k) \<in> set (map fingerprint idts)"
      using ring_identities_nth(1) [OF s(1) k] k by simp
    ultimately show ?thesis by (simp add: leaf_of_def)
  qed
  from fp [OF assms(2)] fp [OF j] show ?thesis
    unfolding client_admitted_iff server_admitted_iff
    using assms(2) j by (simp add: s(3) node_config_def verifier_new_def)
qed

lemma route_broadcasts_nth:
  "route_broadcasts num bcs = (chans, warns) \<Longrightarrow>
     chans i = (if i < num then map snd (filter (\<lambda>b. fst b = i) bcs) else []) \<and> warns = filter (\<lambda>i. i \<ge> num) (map fst bcs)"
proof (induction bcs arbitrary: chans warns rule: rev_induct)
  case (snoc b bcs)
  obtain ch wn where r: "route_broadcasts num bcs = (ch, wn)" by (cases "route_broadcasts num bcs")
  show ?case using snoc.IH [OF r] snoc.prems r by (cases b) (auto simp: route_broadcasts_def split: if_splits)
qed (simp add: route_broadcasts_def)

end
