(* ===== verification/Trace.thy ===== *)
theory Trace
  imports Ring Unicode_Text
begin

text \<open>
  \<^verbatim>\<open>crates/trains-core/src/trace.rs\<close>: the records a node writes about its steps, and the
  JSON-Lines file they are kept in; and the two functions of \<^verbatim>\<open>crates/trains-cli/src/ring.rs\<close>
  that produce them, \<^verbatim>\<open>emit_trace\<close> and \<^verbatim>\<open>trace_writer_task\<close>. \<^verbatim>\<open>serde_json\<close> is not part of the
  repository: its \<^verbatim>\<open>to_string\<close> and \<^verbatim>\<open>from_str\<close> are arguments of the definitions that use them.
\<close>

section \<open>Records\<close>

record train_summary =
  ts_issuer :: proc_id
  ts_clock :: tick
  ts_ack_bits :: ack_bits
  payload_keys :: "(proc_id \<times> nat) list"

definition summary_of :: "train \<Rightarrow> train_summary" where
  "summary_of t = \<lparr>ts_issuer = issuer t, ts_clock = clock t, ts_ack_bits = ack_bits t,
     payload_keys = map (\<lambda>p. (sender p, seq p)) (payloads t)\<rparr>"

record trace_payload_key =
  pk_sender :: proc_id
  pk_seq :: nat

definition payload_key_of :: "payload \<Rightarrow> trace_payload_key" where
  "payload_key_of p = \<lparr>pk_sender = sender p, pk_seq = seq p\<rparr>"

datatype trace_action =
    TA_Broadcast nat
  | TA_TrainArrived train_summary
  | TA_Tick
  | TA_Initial train_summary

datatype trace_output =
    TO_Forward train_summary
  | TO_Deliver "trace_payload_key list"
  | TO_DeclareCrash proc_id

fun trace_output_of :: "node_output \<Rightarrow> trace_output" where
  "trace_output_of (ForwardTrain t) = TO_Forward (summary_of t)"
| "trace_output_of (Deliver ps) = TO_Deliver (map payload_key_of ps)"
| "trace_output_of (DeclareCrash v) = TO_DeclareCrash v"

record node_state =
  st_id :: proc_id
  seen_clk :: "tick list"
  iss_clk :: tick
  pending_count :: nat
  done_keys_count :: nat
  delivered_len :: nat

record trace_record =
  rec_seq :: nat
  rec_node :: proc_id
  rec_action :: trace_action
  rec_outputs :: "trace_output list"
  rec_state :: node_state

section \<open>Emission\<close>

text \<open>\<^verbatim>\<open>emit_trace\<close>: nothing for a step that is not interesting or when there is no trace
  channel; otherwise the next sequence number (the atomic counter wraps) and the record to
  send. \<^term>\<open>None\<close> is a panic of \<^verbatim>\<open>seen_clocks\<close>.\<close>

definition emit_trace ::
    "config \<Rightarrow> bool \<Rightarrow> nat \<Rightarrow> proc_id \<Rightarrow> trains_node \<Rightarrow> payload list \<Rightarrow> trace_action \<Rightarrow>
     trace_output list \<Rightarrow> bool \<Rightarrow> (nat \<times> trace_record option) option" where
  "emit_trace c tx trace_seq i core lg action outputs interesting =
     (if \<not> interesting then Some (trace_seq, None)
      else if \<not> tx then Some (trace_seq, None)
      else do {
        s \<leftarrow> seen_clocks c core;
        let st = \<lparr>st_id = i, seen_clk = s, iss_clk = next_issue_clock core,
                   pending_count = length (pending core),
                   done_keys_count = card (done_keys (delivery core)),
                   delivered_len = length lg\<rparr>;
        Some ((trace_seq + 1) mod (u64_max + 1),
              Some \<lparr>rec_seq = trace_seq, rec_node = i, rec_action = action,
                     rec_outputs = outputs, rec_state = st\<rparr>)
      })"

section \<open>The JSON-Lines file\<close>

datatype ('j, 'e) trace_error = Trace_Json 'j | Trace_Line nat 'j | Trace_Io 'e

type_synonym ('w, 'e) writer = "'w \<Rightarrow> utext \<Rightarrow> 'e + 'w"
type_synonym 'j to_json = "trace_record \<Rightarrow> 'j + utext"
type_synonym 'j of_json = "utext \<Rightarrow> 'j + trace_record"

definition write_jsonl ::
    "'j to_json \<Rightarrow> ('w, 'e) writer \<Rightarrow> trace_record \<Rightarrow> 'w \<Rightarrow> ('j, 'e) trace_error + 'w" where
  "write_jsonl to_string write_all rec w =
     (case to_string rec of
        Inl e \<Rightarrow> Inl (Trace_Json e)
      | Inr line \<Rightarrow> (case write_all w line of
            Inl e \<Rightarrow> Inl (Trace_Io e)
          | Inr w1 \<Rightarrow> (case write_all w1 [10] of
                Inl e \<Rightarrow> Inl (Trace_Io e)
              | Inr w2 \<Rightarrow> Inr w2)))"

text \<open>The loop of \<^verbatim>\<open>trace_writer_task\<close> on the records the channel yields until it closes.\<close>

fun trace_writer_task ::
    "'j to_json \<Rightarrow> ('w, 'e) writer \<Rightarrow> trace_record list \<Rightarrow> nat \<Rightarrow> 'w \<Rightarrow>
     ('j, 'e) trace_error + ('w \<times> nat)" where
  "trace_writer_task to_string write_all [] cnt w = Inr (w, cnt)"
| "trace_writer_task to_string write_all (rec # recs) cnt w =
     (case write_jsonl to_string write_all rec w of
        Inl e \<Rightarrow> Inl e
      | Inr w' \<Rightarrow> trace_writer_task to_string write_all recs (cnt + 1) w')"

definition trim_is_empty :: "utext \<Rightarrow> bool" where
  "trim_is_empty l \<longleftrightarrow> trim l = []"

text \<open>The loop of \<^verbatim>\<open>read_jsonl\<close> on the results of the line iterator.\<close>

fun read_jsonl_loop ::
    "'j of_json \<Rightarrow> nat \<Rightarrow> trace_record list \<Rightarrow> ('e + utext) list \<Rightarrow>
     ('j, 'e) trace_error + trace_record list" where
  "read_jsonl_loop from_str i out [] = Inr out"
| "read_jsonl_loop from_str i out (Inl e # ls) = Inl (Trace_Io e)"
| "read_jsonl_loop from_str i out (Inr line # ls) =
     (if trim_is_empty line then read_jsonl_loop from_str (i + 1) out ls
      else (case from_str line of
          Inl e \<Rightarrow> Inl (Trace_Line (i + 1) e)
        | Inr rec \<Rightarrow> read_jsonl_loop from_str (i + 1) (out @ [rec]) ls))"

definition read_jsonl ::
    "'j of_json \<Rightarrow> ('e + utext) list \<Rightarrow> ('j, 'e) trace_error + trace_record list" where
  "read_jsonl from_str ls = read_jsonl_loop from_str 0 [] ls"

section \<open>Round trip\<close>

text \<open>What the code relies on \<^verbatim>\<open>serde_json\<close> for, on the records at hand: a record is printed
  as one line of printable text, which starts with a brace, and parsed back.\<close>

definition json_ok :: "'j to_json \<Rightarrow> 'j of_json \<Rightarrow> trace_record \<Rightarrow> bool" where
  "json_ok to_string from_str rec \<longleftrightarrow>
     (\<exists>l. to_string rec = Inr (123 # l) \<and> 10 \<notin> set l \<and> 13 \<notin> set l \<and> from_str (123 # l) = Inr rec)"

definition append_writer :: "(utext, 'e) writer" where
  "append_writer w l = Inr (w @ l)"

text \<open>The text the writer leaves for a list of records.\<close>

definition jsonl_text :: "'j to_json \<Rightarrow> trace_record list \<Rightarrow> utext" where
  "jsonl_text to_string recs =
     concat (map (\<lambda>r. case to_string r of Inr l \<Rightarrow> l @ [10] | Inl _ \<Rightarrow> []) recs)"

lemma trace_writer_text:
  assumes "\<forall>r\<in>set recs. json_ok to_string from_str r"
  shows "trace_writer_task to_string append_writer recs n w =
    Inr (w @ jsonl_text to_string recs, n + length recs)"
  using assms
  by (induction recs arbitrary: n w)
    (auto simp: jsonl_text_def write_jsonl_def append_writer_def json_ok_def)

lemma read_jsonl_text:
  assumes "\<forall>r\<in>set recs. json_ok to_string from_str r"
  shows "read_jsonl_loop from_str i out (map Inr (split_lines [] (jsonl_text to_string recs))) =
    Inr (out @ recs)"
  using assms
proof (induction recs arbitrary: i out)
  case (Cons r recs)
  obtain l where l: "to_string r = Inr (123 # l)" "10 \<notin> set l" "13 \<notin> set l"
      "from_str (123 # l) = Inr r"
    using Cons.prems by (auto simp: json_ok_def)
  have "split_lines [] (jsonl_text to_string (r # recs)) =
      (123 # l) # split_lines [] (jsonl_text to_string recs)"
    using l split_lines_line [of "123 # l" "[]"] by (simp add: jsonl_text_def)
  moreover have "\<not> trim_is_empty (123 # l)"
    by (simp add: trim_is_empty_def trim_eq_Nil) (simp add: is_whitespace_def)
  ultimately show ?case using Cons l by simp
qed (simp add: jsonl_text_def)

end
