(* ===== verification/Trace_Validate.thy ===== *)
theory Trace_Validate
  imports Trace
begin

text \<open>
  \<^verbatim>\<open>crates/trains-cli/src/bin/trace_validate.rs\<close>: the offline validator of a recorded trace. The
  loop of \<^verbatim>\<open>main\<close> is a fold over the records with the validator's maps as state; a violation
  message is a value naming the check that failed. A \<^verbatim>\<open>HashMap\<close> is an ordered map here: its
  iteration order only decides the order of the messages. Reading \<^verbatim>\<open>seen_clk[q]\<close> beyond its
  length panics. The declarative reading of the checks is \<open>trace_ok\<close>.
\<close>

section \<open>The validator\<close>

datatype violation =
    V_TypeOK nat proc_id node_state
  | V_ClockMonotonicity nat proc_id proc_id tick tick
  | V_NoSpuriousDelivery nat proc_id trace_payload_key
  | V_DeliveredLen nat proc_id nat nat
  | V_TrainIntegrity nat proc_id proc_id
  | V_ConsistentDelivery nat proc_id proc_id "trace_payload_key list" "trace_payload_key list"

record validator =
  latest :: "(proc_id, node_state) btm"
  on_wire :: "(proc_id \<times> nat) set"
  delivered_per_node :: "(proc_id, trace_payload_key list) btm"
  prev_seen_per_node :: "(proc_id, tick list) btm"
  violations :: "violation list"

definition validator_new :: validator where
  "validator_new = \<lparr>latest = [], on_wire = {}, delivered_per_node = [], prev_seen_per_node = [],
     violations = []\<rparr>"

definition type_ok :: "config \<Rightarrow> trace_record \<Rightarrow> bool" where
  "type_ok c r =
     (if rec_node r \<ge> RING_SIZE c then False
      else if st_id (rec_state r) \<ge> RING_SIZE c then False
      else if length (seen_clk (rec_state r)) \<noteq> RING_SIZE c then False
      else True)"

definition is_mutual_prefix :: "trace_payload_key list \<Rightarrow> trace_payload_key list \<Rightarrow> bool" where
  "is_mutual_prefix a b = (zip_prefix a b \<or> zip_prefix b a)"

definition check_clock ::
    "trace_record \<Rightarrow> tick list \<Rightarrow> proc_id \<Rightarrow> violation list \<Rightarrow> violation list option" where
  "check_clock r prev q vs =
     (let now = seen_clk (rec_state r)
      in if \<not> q < length now then None
         else if now ! q < prev ! q
         then Some (vs @ [V_ClockMonotonicity (rec_seq r) (rec_node r) q (prev ! q) (now ! q)])
         else Some vs)"

definition check_clocks ::
    "config \<Rightarrow> trace_record \<Rightarrow> tick list option \<Rightarrow> violation list \<Rightarrow> violation list option" where
  "check_clocks c r prev vs =
     (case prev of None \<Rightarrow> Some vs | Some p \<Rightarrow> fold_opt (check_clock r p) [0..<RING_SIZE c] vs)"

text \<open>The snapshot \<^verbatim>\<open>snap\<close>: the first \<^verbatim>\<open>RING_SIZE\<close> entries, zero where there are fewer.\<close>

definition seen_snap :: "config \<Rightarrow> tick list \<Rightarrow> tick list" where
  "seen_snap c xs = map (\<lambda>q. if q < length xs then xs ! q else 0) [0..<RING_SIZE c]"

fun action_keys :: "trace_action \<Rightarrow> (proc_id \<times> nat) list" where
  "action_keys (TA_Broadcast _) = []"
| "action_keys (TA_Initial t) = payload_keys t"
| "action_keys (TA_TrainArrived t) = payload_keys t"
| "action_keys TA_Tick = []"

fun check_delivered ::
    "trace_record \<Rightarrow> trace_payload_key list \<Rightarrow> (proc_id \<times> nat) set \<times> trace_payload_key list \<times> violation list \<Rightarrow>
     (proc_id \<times> nat) set \<times> trace_payload_key list \<times> violation list" where
  "check_delivered r [] st = st"
| "check_delivered r (p # ps) (bc, lg, vs) =
     check_delivered r ps (insert (pk_sender p, pk_seq p) bc, lg @ [p],
       if (pk_sender p, pk_seq p) \<notin> bc then vs @ [V_NoSpuriousDelivery (rec_seq r) (rec_node r) p] else vs)"

fun check_outputs ::
    "trace_record \<Rightarrow> trace_output list \<Rightarrow> (proc_id \<times> nat) set \<times> trace_payload_key list \<times> violation list \<Rightarrow>
     (proc_id \<times> nat) set \<times> trace_payload_key list \<times> violation list" where
  "check_outputs r [] st = st"
| "check_outputs r (TO_Forward t # os) (bc, lg, vs) =
     check_outputs r os (bc \<union> set (payload_keys t), lg, vs)"
| "check_outputs r (TO_Deliver ps # os) st = check_outputs r os (check_delivered r ps st)"
| "check_outputs r (TO_DeclareCrash v # os) st = check_outputs r os st"

definition check_integrity :: "config \<Rightarrow> trace_record \<Rightarrow> violation list" where
  "check_integrity c r = concat (map (\<lambda>out. case out of
       TO_Forward t \<Rightarrow> map (\<lambda>k. V_TrainIntegrity (rec_seq r) (rec_node r) (fst k))
                         (filter (\<lambda>k. fst k \<ge> RING_SIZE c) (payload_keys t))
     | _ \<Rightarrow> []) (rec_outputs r))"

definition delivered_this_step :: "trace_record \<Rightarrow> bool" where
  "delivered_this_step r = list_ex (\<lambda>out. case out of TO_Deliver _ \<Rightarrow> True | _ \<Rightarrow> False) (rec_outputs r)"

text \<open>The pairs \<^verbatim>\<open>i < j\<close> of the loop over \<^verbatim>\<open>ids\<close>.\<close>

fun id_pairs :: "'a list \<Rightarrow> ('a \<times> 'a) list" where
  "id_pairs [] = []"
| "id_pairs (x # xs) = map (Pair x) xs @ id_pairs xs"

definition check_consistent :: "trace_record \<Rightarrow> (proc_id, trace_payload_key list) btm \<Rightarrow> violation list" where
  "check_consistent r logs =
     (if delivered_this_step r then
        concat (map (\<lambda>((i, a), (j, b)).
          if \<not> is_mutual_prefix a b then [V_ConsistentDelivery (rec_seq r) i j a b] else []) (id_pairs logs))
      else [])"

definition or_default :: "'a list option \<Rightarrow> 'a list" where
  "or_default x = (case x of None \<Rightarrow> [] | Some l \<Rightarrow> l)"

definition validate_record :: "config \<Rightarrow> trace_record \<Rightarrow> validator \<Rightarrow> validator option" where
  "validate_record c r s = do {
     let vs1 = (if \<not> type_ok c r then violations s @ [V_TypeOK (rec_seq r) (rec_node r) (rec_state r)]
                else violations s);
     vs2 \<leftarrow> check_clocks c r (btm_get (prev_seen_per_node s) (rec_node r)) vs1;
     let prev = btm_insert (rec_node r) (seen_snap c (seen_clk (rec_state r))) (prev_seen_per_node s);
     let bc = on_wire s \<union> set (action_keys (rec_action r));
     let lg = or_default (btm_get (delivered_per_node s) (rec_node r));
     let (bc', lg', vs3) = check_outputs r (rec_outputs r) (bc, lg, vs2);
     let logs = btm_insert (rec_node r) lg' (delivered_per_node s);
     let vs4 = (if length lg' \<noteq> delivered_len (rec_state r)
                then vs3 @ [V_DeliveredLen (rec_seq r) (rec_node r) (delivered_len (rec_state r)) (length lg')]
                else vs3);
     let vs5 = vs4 @ check_integrity c r;
     let vs6 = vs5 @ check_consistent r logs;
     Some \<lparr>latest = btm_insert (rec_node r) (rec_state r) (latest s), on_wire = bc',
           delivered_per_node = logs, prev_seen_per_node = prev, violations = vs6\<rparr>
   }"

fun validate_loop :: "config \<Rightarrow> trace_record list \<Rightarrow> validator \<Rightarrow> validator option" where
  "validate_loop c [] s = Some s"
| "validate_loop c (r # rs) s = do {
     s' \<leftarrow> validate_record c r s;
     if length (violations s') \<ge> 5 then Some s' else validate_loop c rs s'
   }"

text \<open>The exit of \<^verbatim>\<open>main\<close>: success exactly when the loop ends without a violation.\<close>

definition validate :: "config \<Rightarrow> trace_record list \<Rightarrow> violation list option" where
  "validate c recs = map_option violations (validate_loop c recs validator_new)"

definition validate_main ::
    "config \<Rightarrow> 'j of_json \<Rightarrow> ('e + utext) list \<Rightarrow> ('j, 'e) trace_error + violation list option" where
  "validate_main c from_str ls =
     (case read_jsonl from_str ls of Inl e \<Rightarrow> Inl e | Inr records \<Rightarrow> Inr (validate c records))"

section \<open>What the checks mean\<close>

definition records_of :: "proc_id \<Rightarrow> trace_record list \<Rightarrow> trace_record list" where
  "records_of i tr = filter (\<lambda>r. rec_node r = i) tr"

fun delivered_keys :: "trace_output list \<Rightarrow> trace_payload_key list" where
  "delivered_keys [] = []"
| "delivered_keys (TO_Deliver ps # os) = ps @ delivered_keys os"
| "delivered_keys (TO_Forward t # os) = delivered_keys os"
| "delivered_keys (TO_DeclareCrash v # os) = delivered_keys os"

definition delivered_in :: "trace_record \<Rightarrow> trace_payload_key list" where
  "delivered_in r = delivered_keys (rec_outputs r)"

fun forwarded_in :: "trace_output list \<Rightarrow> (proc_id \<times> nat) set" where
  "forwarded_in [] = {}"
| "forwarded_in (TO_Forward t # os) = set (payload_keys t) \<union> forwarded_in os"
| "forwarded_in (TO_Deliver ps # os) = forwarded_in os"
| "forwarded_in (TO_DeclareCrash v # os) = forwarded_in os"

definition trace_log :: "proc_id \<Rightarrow> trace_record list \<Rightarrow> trace_payload_key list" where
  "trace_log i tr = concat (map delivered_in (records_of i tr))"

definition wire_keys :: "trace_record list \<Rightarrow> (proc_id \<times> nat) set" where
  "wire_keys tr = (\<Union>r\<in>set tr. set (action_keys (rec_action r)) \<union> forwarded_in (rec_outputs r))"

definition key_pair :: "trace_payload_key \<Rightarrow> proc_id \<times> nat" where
  "key_pair p = (pk_sender p, pk_seq p)"

text \<open>Every delivered key is among the keys observed before it.\<close>

fun outs_observed :: "(proc_id \<times> nat) set \<Rightarrow> trace_output list \<Rightarrow> bool" where
  "outs_observed B [] \<longleftrightarrow> True"
| "outs_observed B (TO_Forward t # os) \<longleftrightarrow> outs_observed (B \<union> set (payload_keys t)) os"
| "outs_observed B (TO_Deliver ps # os) \<longleftrightarrow> key_pair ` set ps \<subseteq> B \<and> outs_observed B os"
| "outs_observed B (TO_DeclareCrash v # os) \<longleftrightarrow> outs_observed B os"

definition clocks_monotone :: "config \<Rightarrow> trace_record list \<Rightarrow> trace_record \<Rightarrow> bool" where
  "clocks_monotone c h r \<longleftrightarrow> (records_of (rec_node r) h \<noteq> [] \<longrightarrow>
     (\<forall>q<RING_SIZE c. seen_clk (rec_state (last (records_of (rec_node r) h))) ! q \<le> seen_clk (rec_state r) ! q))"

text \<open>What concerns the record and its node alone, and the consistency of the logs.\<close>

definition record_local :: "config \<Rightarrow> trace_record list \<Rightarrow> trace_record \<Rightarrow> bool" where
  "record_local c h r \<longleftrightarrow>
     type_ok c r \<and> clocks_monotone c h r \<and>
     outs_observed (wire_keys h \<union> set (action_keys (rec_action r))) (rec_outputs r) \<and>
     delivered_len (rec_state r) = length (trace_log (rec_node r) (h @ [r])) \<and>
     (\<forall>k\<in>forwarded_in (rec_outputs r). fst k < RING_SIZE c)"

definition consistent_logs :: "trace_record list \<Rightarrow> bool" where
  "consistent_logs h \<longleftrightarrow> (\<forall>i j. prefix (trace_log i h) (trace_log j h) \<or> prefix (trace_log j h) (trace_log i h))"

definition record_ok :: "config \<Rightarrow> trace_record list \<Rightarrow> trace_record \<Rightarrow> bool" where
  "record_ok c h r \<longleftrightarrow> record_local c h r \<and> consistent_logs (h @ [r])"

definition trace_ok :: "config \<Rightarrow> trace_record list \<Rightarrow> bool" where
  "trace_ok c tr \<longleftrightarrow> (\<forall>n<length tr. record_ok c (take n tr) (tr ! n))"

lemma trace_ok_Nil [simp]: "trace_ok c []"
  by (simp add: trace_ok_def)

lemma trace_ok_snoc [simp]: "trace_ok c (tr @ [r]) \<longleftrightarrow> trace_ok c tr \<and> record_ok c tr r"
  by (auto simp: trace_ok_def less_Suc_eq nth_append)

lemma records_of_snoc [simp]:
  "records_of i (tr @ [r]) = records_of i tr @ (if rec_node r = i then [r] else [])"
  by (simp add: records_of_def)

lemma trace_log_snoc [simp]:
  "trace_log i (tr @ [r]) = trace_log i tr @ (if rec_node r = i then delivered_in r else [])"
  by (simp add: trace_log_def)

lemma wire_keys_snoc [simp]:
  "wire_keys (tr @ [r]) = wire_keys tr \<union> set (action_keys (rec_action r)) \<union> forwarded_in (rec_outputs r)"
  by (auto simp: wire_keys_def)

lemma trace_empty [simp]: "records_of i [] = []" "trace_log i [] = []" "wire_keys [] = {}"
  by (simp_all add: records_of_def trace_log_def wire_keys_def)

section \<open>The checks agree with their meaning\<close>

lemma check_delivered_spec:
  "\<exists>ex. check_delivered r ps (bc, lg, vs) = (bc \<union> key_pair ` set ps, lg @ ps, vs @ ex) \<and>
     (ex = [] \<longleftrightarrow> key_pair ` set ps \<subseteq> bc)"
proof (induction ps arbitrary: bc lg vs)
  case (Cons p ps)
  let ?v = "if key_pair p \<notin> bc then [V_NoSpuriousDelivery (rec_seq r) (rec_node r) p] else []"
  obtain ex where "check_delivered r ps (insert (key_pair p) bc, lg @ [p], vs @ ?v) =
        (insert (key_pair p) bc \<union> key_pair ` set ps, (lg @ [p]) @ ps, (vs @ ?v) @ ex)"
      "ex = [] \<longleftrightarrow> key_pair ` set ps \<subseteq> insert (key_pair p) bc"
    using Cons by blast
  then show ?case by (intro exI [of _ "?v @ ex"]) (auto simp: key_pair_def)
qed simp

lemma check_outputs_spec:
  "\<exists>ex. check_outputs r os (bc, lg, vs) =
       (bc \<union> forwarded_in os \<union> key_pair ` set (delivered_keys os), lg @ delivered_keys os, vs @ ex) \<and>
     (ex = [] \<longleftrightarrow> outs_observed bc os)"
proof (induction os arbitrary: bc lg vs)
  case (Cons out os)
  show ?case
  proof (cases out)
    case (TO_Forward t)
    then show ?thesis
      using Cons [of "bc \<union> set (payload_keys t)" lg vs] by (simp add: Un_assoc)
  next
    case (TO_Deliver ps)
    obtain ex where ex: "check_delivered r ps (bc, lg, vs) = (bc \<union> key_pair ` set ps, lg @ ps, vs @ ex)"
        "ex = [] \<longleftrightarrow> key_pair ` set ps \<subseteq> bc"
      using check_delivered_spec by blast
    obtain ex' where ex': "check_outputs r os (bc \<union> key_pair ` set ps, lg @ ps, vs @ ex) =
         (bc \<union> key_pair ` set ps \<union> forwarded_in os \<union> key_pair ` set (delivered_keys os),
          (lg @ ps) @ delivered_keys os, (vs @ ex) @ ex')"
        "ex' = [] \<longleftrightarrow> outs_observed (bc \<union> key_pair ` set ps) os"
      using Cons by blast
    have "ex @ ex' = [] \<longleftrightarrow> outs_observed bc (out # os)"
      using ex(2) ex'(2) TO_Deliver by (cases "key_pair ` set ps \<subseteq> bc") (simp_all add: Un_absorb2)
    moreover have "check_outputs r (out # os) (bc, lg, vs) =
        (bc \<union> forwarded_in (out # os) \<union> key_pair ` set (delivered_keys (out # os)),
         lg @ delivered_keys (out # os), vs @ ex @ ex')"
      using ex(1) ex'(1) TO_Deliver by (simp add: image_Un Un_ac)
    ultimately show ?thesis by blast
  next
    case (TO_DeclareCrash v)
    then show ?thesis using Cons [of bc lg vs] by simp
  qed
qed simp

lemma check_clock_grows: "fold_opt (check_clock r p) qs vs = Some vs' \<Longrightarrow> \<exists>ex. vs' = vs @ ex"
proof (induction qs arbitrary: vs)
  case (Cons q qs)
  then obtain vs1 where vs1: "check_clock r p q vs = Some vs1"
      "fold_opt (check_clock r p) qs vs1 = Some vs'"
    by (auto split: bind_splits)
  then obtain e where "vs1 = vs @ e" by (auto simp: check_clock_def Let_def split: if_splits)
  with Cons.IH [OF vs1(2)] show ?case by auto
qed simp

lemma check_clock_clean:
  "fold_opt (check_clock r p) qs vs = Some vs \<longleftrightarrow>
     (\<forall>q\<in>set qs. q < length (seen_clk (rec_state r)) \<and> p ! q \<le> seen_clk (rec_state r) ! q)"
proof (induction qs)
  case (Cons q qs)
  have "fold_opt (check_clock r p) qs (vs @ [v]) \<noteq> Some vs" for v
    using check_clock_grows [of r p qs "vs @ [v]" vs] by auto
  then show ?case
    using Cons by (simp add: check_clock_def [of r p q vs] Let_def not_less)
qed simp

lemma check_clocks_grows: "check_clocks c r p vs = Some vs' \<Longrightarrow> \<exists>ex. vs' = vs @ ex"
  by (cases p) (auto simp: check_clocks_def dest: check_clock_grows)

lemma id_pairs_all:
  assumes sym: "\<And>x y. P x y \<Longrightarrow> P y x" and refl: "\<And>x. P x x"
  shows "(\<forall>e\<in>set (id_pairs xs). P (fst e) (snd e)) \<longleftrightarrow> (\<forall>x\<in>set xs. \<forall>y\<in>set xs. P x y)"
proof (induction xs)
  case (Cons a xs)
  have "(\<forall>e\<in>set (id_pairs (a # xs)). P (fst e) (snd e)) \<longleftrightarrow>
      (\<forall>y\<in>set xs. P a y) \<and> (\<forall>x\<in>set xs. \<forall>y\<in>set xs. P x y)"
    using Cons by (simp add: ball_Un)
  also have "\<dots> \<longleftrightarrow> (\<forall>x\<in>set (a # xs). \<forall>y\<in>set (a # xs). P x y)"
    using sym refl by (simp only: list.set ball_simps) blast
  finally show ?case .
qed simp

lemma check_consistent_spec:
  "check_consistent r logs = [] \<longleftrightarrow> (delivered_this_step r \<longrightarrow>
     (\<forall>a\<in>snd ` set logs. \<forall>b\<in>snd ` set logs. prefix a b \<or> prefix b a))"
proof -
  let ?P = "\<lambda>x y. prefix (snd x) (snd y) \<or> prefix (snd y) (snd (x :: proc_id \<times> trace_payload_key list))"
  have "check_consistent r logs = [] \<longleftrightarrow>
      (delivered_this_step r \<longrightarrow> (\<forall>e\<in>set (id_pairs logs). ?P (fst e) (snd e)))"
    by (simp add: check_consistent_def is_mutual_prefix_def zip_prefix_iff split_beta) blast
  also have "\<dots> \<longleftrightarrow> (delivered_this_step r \<longrightarrow> (\<forall>x\<in>set logs. \<forall>y\<in>set logs. ?P x y))"
    using id_pairs_all [of ?P logs] by blast
  finally show ?thesis by simp
qed

lemma check_integrity_spec:
  "check_integrity c r = [] \<longleftrightarrow> (\<forall>k\<in>forwarded_in (rec_outputs r). fst k < RING_SIZE c)"
proof -
  have "concat (map (\<lambda>out. case out of
       TO_Forward t \<Rightarrow> map (\<lambda>k. V_TrainIntegrity (rec_seq r) (rec_node r) (fst k))
                         (filter (\<lambda>k. fst k \<ge> RING_SIZE c) (payload_keys t))
     | _ \<Rightarrow> []) os) = [] \<longleftrightarrow> (\<forall>k\<in>forwarded_in os. fst k < RING_SIZE c)" for os
    by (induction os rule: forwarded_in.induct) (auto simp: filter_empty_conv not_le)
  then show ?thesis by (simp add: check_integrity_def)
qed

lemma not_delivered: "\<not> delivered_this_step r \<Longrightarrow> delivered_in r = []"
proof -
  have "\<not> list_ex (\<lambda>out. case out of TO_Deliver _ \<Rightarrow> True | _ \<Rightarrow> False) os \<Longrightarrow> delivered_keys os = []" for os
    by (induction os rule: delivered_keys.induct) simp_all
  then show "\<not> delivered_this_step r \<Longrightarrow> delivered_in r = []"
    by (simp add: delivered_this_step_def delivered_in_def)
qed

section \<open>One record\<close>

text \<open>The validator's log of the node after a record, and its state.\<close>

definition new_log :: "trace_record \<Rightarrow> validator \<Rightarrow> trace_payload_key list" where
  "new_log r s = or_default (btm_get (delivered_per_node s) (rec_node r)) @ delivered_in r"

definition new_logs :: "trace_record \<Rightarrow> validator \<Rightarrow> (proc_id, trace_payload_key list) btm" where
  "new_logs r s = btm_insert (rec_node r) (new_log r s) (delivered_per_node s)"

definition record_accepted :: "config \<Rightarrow> trace_record \<Rightarrow> validator \<Rightarrow> bool" where
  "record_accepted c r s \<longleftrightarrow> type_ok c r \<and>
     check_clocks c r (btm_get (prev_seen_per_node s) (rec_node r)) [] = Some [] \<and>
     outs_observed (on_wire s \<union> set (action_keys (rec_action r))) (rec_outputs r) \<and>
     length (new_log r s) = delivered_len (rec_state r) \<and>
     check_integrity c r = [] \<and> check_consistent r (new_logs r s) = []"

lemma validate_record_effect:
  assumes "validate_record c r s = Some s'"
  shows "on_wire s' = on_wire s \<union> set (action_keys (rec_action r)) \<union> forwarded_in (rec_outputs r) \<union>
      key_pair ` set (delivered_in r)"
    "delivered_per_node s' = new_logs r s"
    "prev_seen_per_node s' =
      btm_insert (rec_node r) (seen_snap c (seen_clk (rec_state r))) (prev_seen_per_node s)"
    "\<exists>ex. violations s' = violations s @ ex"
    "violations s = [] \<Longrightarrow> violations s' = [] \<longleftrightarrow> record_accepted c r s"
proof -
  let ?tv = "if \<not> type_ok c r then [V_TypeOK (rec_seq r) (rec_node r) (rec_state r)] else []"
  let ?p = "btm_get (prev_seen_per_node s) (rec_node r)"
  obtain vs2 where vs2: "check_clocks c r ?p (violations s @ ?tv) = Some vs2"
    using assms by (auto simp: validate_record_def Let_def split: bind_splits if_splits)
  then obtain e1 where e1: "vs2 = (violations s @ ?tv) @ e1" using check_clocks_grows by blast
  obtain e2 where e2: "check_outputs r (rec_outputs r) (on_wire s \<union> set (action_keys (rec_action r)),
        or_default (btm_get (delivered_per_node s) (rec_node r)), vs2) =
      (on_wire s \<union> set (action_keys (rec_action r)) \<union> forwarded_in (rec_outputs r) \<union>
         key_pair ` set (delivered_keys (rec_outputs r)),
       or_default (btm_get (delivered_per_node s) (rec_node r)) @ delivered_keys (rec_outputs r), vs2 @ e2)"
      "e2 = [] \<longleftrightarrow> outs_observed (on_wire s \<union> set (action_keys (rec_action r))) (rec_outputs r)"
    using check_outputs_spec by blast
  let ?lv = "if length (new_log r s) \<noteq> delivered_len (rec_state r)
     then [V_DeliveredLen (rec_seq r) (rec_node r) (delivered_len (rec_state r)) (length (new_log r s))] else []"
  have s': "s' = \<lparr>latest = btm_insert (rec_node r) (rec_state r) (latest s),
      on_wire = on_wire s \<union> set (action_keys (rec_action r)) \<union> forwarded_in (rec_outputs r) \<union>
        key_pair ` set (delivered_in r),
      delivered_per_node = new_logs r s,
      prev_seen_per_node = btm_insert (rec_node r) (seen_snap c (seen_clk (rec_state r))) (prev_seen_per_node s),
      violations = vs2 @ e2 @ ?lv @ check_integrity c r @ check_consistent r (new_logs r s)\<rparr>"
    using assms vs2 e2(1)
    by (simp add: validate_record_def Let_def new_log_def new_logs_def delivered_in_def split: if_splits)
  show "on_wire s' = on_wire s \<union> set (action_keys (rec_action r)) \<union> forwarded_in (rec_outputs r) \<union>
      key_pair ` set (delivered_in r)"
    "delivered_per_node s' = new_logs r s"
    "prev_seen_per_node s' =
      btm_insert (rec_node r) (seen_snap c (seen_clk (rec_state r))) (prev_seen_per_node s)"
    by (simp_all add: s')
  show "\<exists>ex. violations s' = violations s @ ex" by (simp add: s' e1)
  assume "violations s = []"
  then show "violations s' = [] \<longleftrightarrow> record_accepted c r s"
    using vs2 e1 e2(2) by (auto simp: s' record_accepted_def)
qed

lemma record_accepted_runs:
  assumes "record_accepted c r s" and "violations s = []"
  shows "\<exists>s'. validate_record c r s = Some s'"
  using assms by (auto simp: record_accepted_def validate_record_def Let_def split_beta)

section \<open>The whole trace\<close>

definition mirrors :: "trace_record list \<Rightarrow> validator \<Rightarrow> bool" where
  "mirrors h s \<longleftrightarrow> violations s = [] \<and> btm_ok (delivered_per_node s) \<and> on_wire s = wire_keys h \<and>
     (\<forall>i. btm_get (prev_seen_per_node s) i =
        (if records_of i h = [] then None else Some (seen_clk (rec_state (last (records_of i h)))))) \<and>
     (\<forall>i. btm_get (delivered_per_node s) i =
        (if records_of i h = [] then None else Some (trace_log i h)))"

lemma mirrors_new: "mirrors [] validator_new"
  by (simp add: mirrors_def validator_new_def)

lemma new_log_mirrors:
  assumes "mirrors h s"
  shows "new_log r s = trace_log (rec_node r) (h @ [r])"
    "\<And>i. btm_get (new_logs r s) i =
      (if records_of i (h @ [r]) = [] then None else Some (trace_log i (h @ [r])))"
    "btm_ok (new_logs r s)"
proof -
  show *: "new_log r s = trace_log (rec_node r) (h @ [r])"
    using assms by (simp add: new_log_def mirrors_def or_default_def trace_log_def)
  show "btm_get (new_logs r s) i =
      (if records_of i (h @ [r]) = [] then None else Some (trace_log i (h @ [r])))" for i
    using assms * by (simp add: new_logs_def get_btm_insert mirrors_def)
  show "btm_ok (new_logs r s)" using assms by (simp add: new_logs_def mirrors_def btm_ok_insert)
qed

lemma outs_observed_subset: "outs_observed B os \<Longrightarrow> key_pair ` set (delivered_keys os) \<subseteq> B \<union> forwarded_in os"
  by (induction B os rule: outs_observed.induct) auto

lemma trace_ok_consistent: "trace_ok c h \<Longrightarrow> consistent_logs h"
  by (cases h rule: rev_cases) (simp_all only: trace_ok_snoc record_ok_def, simp_all add: consistent_logs_def)

lemma record_accepted_iff:
  assumes m: "mirrors h s" and ok: "trace_ok c h"
  shows "record_accepted c r s \<longleftrightarrow> record_ok c h r"
proof -
  have clocks: "check_clocks c r (btm_get (prev_seen_per_node s) (rec_node r)) [] = Some [] \<longleftrightarrow>
      clocks_monotone c h r" if "type_ok c r"
    using that m check_clock_clean
    by (auto simp: check_clocks_def mirrors_def clocks_monotone_def type_ok_def split: if_splits)
  have logs: "snd ` set (new_logs r s) = {trace_log i (h @ [r]) |i. records_of i (h @ [r]) \<noteq> []}"
  proof -
    have "(i, a) \<in> set (new_logs r s) \<longleftrightarrow> records_of i (h @ [r]) \<noteq> [] \<and> a = trace_log i (h @ [r])" for i a
      unfolding btm_mem_get [OF new_log_mirrors(3) [OF m]] new_log_mirrors(2) [OF m] by auto
    then have "a \<in> snd ` set (new_logs r s) \<longleftrightarrow> (\<exists>i. records_of i (h @ [r]) \<noteq> [] \<and> a = trace_log i (h @ [r]))" for a
      by (metis (no_types, lifting) imageE imageI prod.collapse snd_conv)
    then show ?thesis by blast
  qed
  have nil: "trace_log i (h @ [r]) = []" if "records_of i (h @ [r]) = []" for i
    using that by (simp only: trace_log_def) simp
  have cons: "check_consistent r (new_logs r s) = [] \<longleftrightarrow> consistent_logs (h @ [r])"
  proof (cases "delivered_this_step r")
    case True
    then show ?thesis using nil
      unfolding check_consistent_spec logs consistent_logs_def by (smt (verit) mem_Collect_eq Nil_prefix)
  next
    case False
    then have "trace_log i (h @ [r]) = trace_log i h" for i by (simp add: not_delivered)
    then show ?thesis
      using False trace_ok_consistent [OF ok] by (simp add: check_consistent_spec consistent_logs_def)
  qed
  show ?thesis
    using m clocks
    by (auto simp only: record_accepted_def record_ok_def record_local_def new_log_mirrors(1) [OF m]
        cons check_integrity_spec mirrors_def)
qed

lemma mirrors_step:
  assumes m: "mirrors h s" and ok: "trace_ok c h"
    and st: "validate_record c r s = Some s'" and "violations s' = []"
  shows "record_ok c h r" "mirrors (h @ [r]) s'"
proof -
  have acc: "record_accepted c r s"
    using validate_record_effect(5) [OF st] m assms(4) by (simp add: mirrors_def)
  then show rok: "record_ok c h r" using record_accepted_iff [OF m ok] by blast
  have snap: "seen_snap c (seen_clk (rec_state r)) = seen_clk (rec_state r)"
  proof -
    have "length (seen_clk (rec_state r)) = RING_SIZE c"
      using rok by (simp add: record_ok_def record_local_def type_ok_def split: if_splits)
    then show ?thesis by (intro nth_equalityI) (simp_all add: seen_snap_def)
  qed
  have "key_pair ` set (delivered_in r) \<subseteq> on_wire s \<union> set (action_keys (rec_action r)) \<union> forwarded_in (rec_outputs r)"
    using acc outs_observed_subset by (simp add: record_accepted_def delivered_in_def)
  then have "on_wire s' = wire_keys (h @ [r])"
    using validate_record_effect(1) [OF st] m by (simp only: mirrors_def wire_keys_snoc Un_absorb2)
  moreover have "btm_get (prev_seen_per_node s') i = (if records_of i (h @ [r]) = [] then None
      else Some (seen_clk (rec_state (last (records_of i (h @ [r]))))))" for i
    using validate_record_effect(3) [OF st] m snap by (simp add: mirrors_def get_btm_insert)
  ultimately show "mirrors (h @ [r]) s'"
    using new_log_mirrors [OF m, of r] validate_record_effect(2) [OF st] assms(4)
    by (simp only: mirrors_def) simp
qed

lemma validate_loop_grows: "validate_loop c rs s = Some s' \<Longrightarrow> \<exists>ex. violations s' = violations s @ ex"
proof (induction rs arbitrary: s)
  case (Cons r rs)
  then obtain s1 where s1: "validate_record c r s = Some s1"
      "s' = s1 \<or> validate_loop c rs s1 = Some s'"
    by (auto split: bind_splits if_splits)
  then show ?case using validate_record_effect(4) [OF s1(1)] Cons.IH [of s1] by auto
qed simp

lemma validate_loop_clean:
  assumes "mirrors h s" and "trace_ok c h"
  shows "(\<exists>s'. validate_loop c rs s = Some s' \<and> violations s' = []) \<longleftrightarrow> trace_ok c (h @ rs)"
  using assms
proof (induction rs arbitrary: h s)
  case (Cons r rs)
  show ?case
  proof (cases "\<exists>s1. validate_record c r s = Some s1 \<and> violations s1 = []")
    case True
    then obtain s1 where s1: "validate_record c r s = Some s1" "violations s1 = []" by blast
    have "trace_ok c (h @ [r])" using mirrors_step(1) [OF Cons.prems s1] Cons.prems(2) by simp
    then show ?thesis using Cons.IH [OF mirrors_step(2) [OF Cons.prems s1]] s1 by simp
  next
    case False
    then have "\<not> record_accepted c r s"
      using record_accepted_runs validate_record_effect(5) Cons.prems(1) by (metis mirrors_def)
    then have "\<not> record_ok c h r" using record_accepted_iff [OF Cons.prems] by blast
    moreover have "take (length h) (h @ r # rs) = h" "(h @ r # rs) ! length h = r" by simp_all
    ultimately have "\<not> trace_ok c (h @ r # rs)"
      unfolding trace_ok_def by (metis length_append less_add_same_cancel1 list.size(4) zero_less_Suc add_Suc_right)
    moreover have "violations s' \<noteq> []" if "validate_loop c (r # rs) s = Some s'" for s'
      using that False validate_loop_grows [of c rs _ s'] by (fastforce split: bind_splits if_splits)
    ultimately show ?thesis by blast
  qed
qed (auto simp: mirrors_def)

lemma validate_iff: "validate c recs = Some [] \<longleftrightarrow> trace_ok c recs"
  using validate_loop_clean [OF mirrors_new trace_ok_Nil, of c recs] by (auto simp: validate_def)

text \<open>C37. The validator decides the trace invariants: it ends without a panic and without a
  violation exactly on the traces in which every record is well typed, no clock of a node
  goes back, every delivered payload was on a recorded train before, the recorded log
  lengths are right, forwarded payloads have ring members as senders, and at every point
  any two logs are prefixes of one another.\<close>

theorem validator_decides_trace_ok: "validate c recs = Some [] \<longleftrightarrow> trace_ok c recs"
  by (rule validate_iff)

text \<open>What it does not decide: two different initial trains with the same clock and issuer pass
  (the check of \<^verbatim>\<open>IssuerUniqueness\<close> its documentation lists is not made), and a second record
  of a node whose clock vector is too short panics the validator.\<close>

definition sample_record :: "(proc_id \<times> nat) list \<Rightarrow> tick list \<Rightarrow> trace_record" where
  "sample_record ks clks = \<lparr>rec_seq = 0, rec_node = 0,
     rec_action = TA_Initial \<lparr>ts_issuer = 0, ts_clock = 1, ts_ack_bits = 1, payload_keys = ks\<rparr>,
     rec_outputs = [], rec_state = \<lparr>st_id = 0, seen_clk = clks, iss_clk = 2, pending_count = 0,
       done_keys_count = 0, delivered_len = 0\<rparr>\<rparr>"

lemma validator_gaps:
  "validate cfg2 [sample_record [(0, 0)] [0, 0], sample_record [(1, 0)] [0, 0]] = Some [] \<and>
   validate cfg2 [sample_record [] [0, 0], sample_record [] [0]] = None"
  by code_simp

end
