(* ===== verification/Trace_Ring.thy ===== *)
theory Trace_Ring
  imports Trace_Validate
begin

text \<open>
  The node tasks of \<^verbatim>\<open>crates/trains-cli/src/ring.rs\<close> with their trace emission. After an arm of its
  \<^verbatim>\<open>select!\<close> a task takes the next sequence number and snapshots its state, then sends the
  record on the channel of the writer task; other tasks run in between, so the records of
  different nodes interleave in any order and the sequence numbers need not ascend in the
  file. A task takes its next arm only when its record is sent. The main result is that the
  offline validator accepts the trace of every run.
\<close>

section \<open>Tasks\<close>

datatype task_phase =
    Task_Select
  | Task_Emit trace_action "trace_output list"
  | Task_Send trace_record

record traced_ring =
  tring :: ring_state
  trace_seq :: nat
  tphase :: "proc_id \<Rightarrow> task_phase"
  trace_channel :: "trace_record list"

fun action_of :: "node_input \<Rightarrow> trace_action" where
  "action_of (LocalBroadcast d) = TA_Broadcast (length d)"
| "action_of (TrainReceived t) = TA_TrainArrived (summary_of t)"
| "action_of Tick = TA_Tick"

fun interesting :: "node_input \<Rightarrow> node_output list \<Rightarrow> bool" where
  "interesting (LocalBroadcast d) outs = True"
| "interesting (TrainReceived t) outs = (payloads t \<noteq> [] \<or> outs_contain_delivery_or_crash outs)"
| "interesting Tick outs = outs_contain_delivery_or_crash outs"

text \<open>The start of the task. The record of the initial train is emitted before the train is
  sent; here the train is queued first, which only lets the successor run earlier.\<close>

definition traced_start ::
    "config \<Rightarrow> nat \<Rightarrow> delivery_mode \<Rightarrow> proc_id \<Rightarrow> traced_ring \<Rightarrow> traced_ring option" where
  "traced_start c num_trains m i s = do {
     r \<leftarrow> start_node c num_trains m i (tring s);
     if i < num_trains then do {
       core \<leftarrow> node_new c i m;
       (_, t) \<leftarrow> issue_initial_train c core;
       Some (s\<lparr>tring := r, tphase := (tphase s)(i := Task_Emit (TA_Initial (summary_of t)) [])\<rparr>)
     }
     else Some (s\<lparr>tring := r, tphase := (tphase s)(i := Task_Select)\<rparr>)
   }"

definition traced_arm :: "config \<Rightarrow> proc_id \<Rightarrow> node_input \<Rightarrow> traced_ring \<Rightarrow> traced_ring option" where
  "traced_arm c i inp s = do {
     (core, outs) \<leftarrow> step c inp (cores (tring s) i);
     Some (s\<lparr>tring := dispatch c i outs ((tring s)\<lparr>cores := (cores (tring s))(i := core)\<rparr>),
             tphase := (tphase s)(i := if interesting inp outs
               then Task_Emit (action_of inp) (map trace_output_of outs) else Task_Select)\<rparr>)
   }"

definition traced_emit ::
    "config \<Rightarrow> proc_id \<Rightarrow> trace_action \<Rightarrow> trace_output list \<Rightarrow> traced_ring \<Rightarrow> traced_ring option" where
  "traced_emit c i a outs s = do {
     (sq, ro) \<leftarrow> emit_trace c True (trace_seq s) i (cores (tring s) i) (rlog (tring s) i) a outs True;
     Some (s\<lparr>trace_seq := sq, tphase := (tphase s)(i := case ro of None \<Rightarrow> Task_Select | Some r \<Rightarrow> Task_Send r)\<rparr>)
   }"

definition traced_send :: "proc_id \<Rightarrow> trace_record \<Rightarrow> traced_ring \<Rightarrow> traced_ring" where
  "traced_send i r s = s\<lparr>tphase := (tphase s)(i := Task_Select), trace_channel := trace_channel s @ [r]\<rparr>"

abbreviation set_tring :: "ring_state \<Rightarrow> traced_ring \<Rightarrow> traced_ring" where
  "set_tring r s \<equiv> s\<lparr>tring := r\<rparr>"

definition traced_init :: "config \<Rightarrow> traced_ring \<Rightarrow> bool" where
  "traced_init c s \<longleftrightarrow> ring_init c (tring s) \<and> trace_seq s = 0 \<and> tphase s = (\<lambda>_. Task_Select) \<and>
     trace_channel s = []"

inductive traced_step ::
    "config \<Rightarrow> nat \<Rightarrow> delivery_mode \<Rightarrow> traced_ring \<Rightarrow> traced_ring \<Rightarrow> bool" for c k m where
  tr_start: "i < RING_SIZE c \<Longrightarrow> i \<notin> up (tring s) \<Longrightarrow> traced_start c k m i s = Some s' \<Longrightarrow>
    traced_step c k m s s'"
| tr_bcast: "i \<in> up (tring s) \<Longrightarrow> tphase s i = Task_Select \<Longrightarrow>
    traced_arm c i (LocalBroadcast bs) s = Some s' \<Longrightarrow> traced_step c k m s s'"
| tr_recv: "i \<in> up (tring s) \<Longrightarrow> tphase s i = Task_Select \<Longrightarrow> inbox (tring s) i = t # ts \<Longrightarrow>
    traced_arm c i (TrainReceived t) (set_tring (pop_inbox i (tring s)) s) = Some s' \<Longrightarrow>
    traced_step c k m s s'"
| tr_tick: "i \<in> up (tring s) \<Longrightarrow> tphase s i = Task_Select \<Longrightarrow>
    traced_arm c i Tick s = Some s' \<Longrightarrow> traced_step c k m s s'"
| tr_emit: "tphase s i = Task_Emit a outs \<Longrightarrow> traced_emit c i a outs s = Some s' \<Longrightarrow>
    traced_step c k m s s'"
| tr_send: "tphase s i = Task_Send r \<Longrightarrow> traced_step c k m s (traced_send i r s)"
| tr_lose: "inbox (tring s) i = xs @ ys @ zs \<Longrightarrow>
    traced_step c k m s (set_tring ((tring s)\<lparr>inbox := (inbox (tring s))(i := xs @ zs)\<rparr>) s)"

abbreviation traced_reach :: "config \<Rightarrow> nat \<Rightarrow> delivery_mode \<Rightarrow> traced_ring \<Rightarrow> bool" where
  "traced_reach c k m \<equiv> reach (traced_init c) (traced_step c k m)"

section \<open>Tracing does not disturb the ring\<close>

lemma traced_arm_ring:
  "traced_arm c i inp s = Some s' \<Longrightarrow> node_arm c i inp (tring s) = Some (tring s')"
  by (auto simp: traced_arm_def node_arm_def split: bind_splits)

lemma traced_step_ring:
  assumes "traced_step c k m s s'"
  shows "(ring_step c k m)\<^sup>*\<^sup>* (tring s) (tring s')"
  using assms
proof (cases rule: traced_step.cases)
  case (tr_start i)
  then have "start_node c k m i (tring s) = Some (tring s')"
    by (auto simp: traced_start_def split: bind_splits if_splits)
  then show ?thesis using tr_start ring_start by blast
next
  case (tr_bcast i bs)
  then show ?thesis using traced_arm_ring ring_bcast by blast
next
  case (tr_recv i t ts)
  then show ?thesis using traced_arm_ring [OF tr_recv(4)] ring_recv [OF tr_recv(1,3)] by auto
next
  case (tr_tick i)
  then show ?thesis using traced_arm_ring ring_tick by blast
next
  case (tr_emit i a outs)
  then have "tring s' = tring s" by (auto simp: traced_emit_def split: bind_splits)
  then show ?thesis by simp
next
  case (tr_send i r)
  then show ?thesis by (simp add: traced_send_def)
next
  case (tr_lose i xs ys zs)
  then show ?thesis using ring_lose [of "tring s" i xs ys zs c k m] by auto
qed

definition traced_sim :: "traced_ring \<Rightarrow> ring_state \<Rightarrow> bool" where
  "traced_sim s r \<longleftrightarrow> r = tring s"

interpretation traced: simulation_system "traced_init c" "traced_step c k m" "ring_init c" "ring_step c k m" traced_sim
  for c k m
  by unfold_locales (auto simp: traced_init_def traced_sim_def dest: traced_step_ring)

lemma traced_reach_ring: "traced_reach c k m s \<Longrightarrow> ring_reach c k m (tring s)"
  using traced.reach_sim by (auto simp: traced_sim_def)

section \<open>What a step adds to the trace\<close>

definition train_keys :: "train \<Rightarrow> (proc_id \<times> nat) set" where
  "train_keys t = payload_id ` set (payloads t)"

fun input_keys :: "node_input \<Rightarrow> (proc_id \<times> nat) set" where
  "input_keys (TrainReceived t) = train_keys t"
| "input_keys (LocalBroadcast d) = {}"
| "input_keys Tick = {}"

definition parked_trains :: "trains_node \<Rightarrow> train set" where
  "parked_trains n = snd ` set (parked n)"

definition parked_payload_keys :: "trains_node \<Rightarrow> (proc_id \<times> nat) set" where
  "parked_payload_keys n = (\<Union>t\<in>parked_trains n. train_keys t)"

lemma key_pair_of [simp]: "key_pair (payload_key_of p) = payload_id p"
  by (simp add: key_pair_def payload_key_of_def payload_id_def)

lemma summary_keys [simp]: "set (payload_keys (summary_of t)) = train_keys t"
  by (auto simp: summary_of_def train_keys_def payload_id_def)

lemma action_keys_of [simp]: "set (action_keys (action_of inp)) = input_keys inp"
  by (cases inp) simp_all

lemma delivered_keys_of [simp]:
  "delivered_keys (map trace_output_of outs) = map payload_key_of (concat (batches outs))"
proof (induction outs)
  case (Cons out outs)
  then show ?case by (cases out) simp_all
qed simp

lemma forwarded_of [simp]:
  "forwarded_in (map trace_output_of outs) = (\<Union>t\<in>set (sends outs). train_keys t)"
proof (induction outs)
  case (Cons out outs)
  then show ?case by (cases out) simp_all
qed simp

lemma outs_observed_if: "key_pair ` set (delivered_keys os) \<subseteq> B \<Longrightarrow> outs_observed B os"
  by (induction B os rule: outs_observed.induct) auto

lemma outs_observed_mono: "outs_observed B os \<Longrightarrow> B \<subseteq> B' \<Longrightarrow> outs_observed B' os"
proof (induction B os arbitrary: B' rule: outs_observed.induct)
  case (2 B t os)
  then have "outs_observed (B' \<union> set (payload_keys t)) os" by (meson Un_mono order_refl outs_observed.simps(2))
  then show ?case by simp
qed auto

lemma batch_keys: "payload_id ` \<Union> (set ` set (batch_of t)) = train_keys t"
  by (simp add: batch_of_def train_keys_def sort_payloads_def)

lemma run_keys:
  "payload_id ` set (concat (concat (map batch_of ts))) = (\<Union>t\<in>set ts. train_keys t)"
  by (induction ts) (simp_all add: image_Un batch_keys)

lemma delivery_run_parked:
  assumes "delivery_run c t n ts n'"
  shows "parked_trains n' \<subseteq> insert t (parked_trains n)" "set ts \<subseteq> insert t (parked_trains n)"
    "clocks n' = clocks n" "pending n' = pending n"
proof -
  obtain n1 where n1: "maybe_park c t n n1" "delivers c n1 ts n'"
    using assms by (auto simp: delivery_run_def)
  show "parked_trains n' \<subseteq> insert t (parked_trains n)"
    using set_maybe_park [OF n1(1)] delivers_parked [OF n1(2)] by (auto simp: parked_trains_def)
  show "set ts \<subseteq> insert t (parked_trains n)"
    using assms by (auto simp: delivery_run_def parked_trains_def)
  have "clocks n1 = clocks n" "pending n1 = pending n" using n1(1) by (auto simp: maybe_park_def)
  then show "clocks n' = clocks n" "pending n' = pending n" using delivers_frame [OF n1(2)] by simp_all
qed

text \<open>The effect of one step, as far as the trace shows it: clocks do not go back, deliveries
  come from the input and the parked trains, trains are parked as they arrived, forwarded
  trains carry what arrived and what was pending.\<close>

definition traced_effect ::
    "config \<Rightarrow> node_input \<Rightarrow> trains_node \<Rightarrow> trains_node \<Rightarrow> node_output list \<Rightarrow> bool" where
  "traced_effect c inp n n' outs \<longleftrightarrow>
     (\<forall>q<RING_SIZE c. seen (clocks n) ! q \<le> seen (clocks n') ! q) \<and>
     parked_payload_keys n' \<subseteq> parked_payload_keys n \<union> input_keys inp \<and>
     payload_id ` set (concat (batches outs)) \<subseteq> parked_payload_keys n \<union> input_keys inp \<and>
     (\<forall>t\<in>set (sends outs). train_keys t \<subseteq> input_keys inp \<union> payload_id ` set (pending n)) \<and>
     (payload_id ` set (pending n') \<subseteq> payload_id ` set (pending n) \<union> {node_id n} \<times> UNIV) \<and>
     node_ok c n' \<and> node_id n' = node_id n"

lemma traced_effectD:
  assumes "traced_effect c inp n n' outs"
  shows "\<And>q. q < RING_SIZE c \<Longrightarrow> seen (clocks n) ! q \<le> seen (clocks n') ! q"
    "parked_payload_keys n' \<subseteq> parked_payload_keys n \<union> input_keys inp"
    "payload_id ` set (concat (batches outs)) \<subseteq> parked_payload_keys n \<union> input_keys inp"
    "\<And>t. t \<in> set (sends outs) \<Longrightarrow> train_keys t \<subseteq> input_keys inp \<union> payload_id ` set (pending n)"
    "payload_id ` set (pending n') \<subseteq> payload_id ` set (pending n) \<union> {node_id n} \<times> UNIV"
    "node_ok c n'" "node_id n' = node_id n"
  using assms unfolding traced_effect_def by blast+

lemma traced_effect_run:
  assumes run: "delivery_run c t n0 ts n'" and n0: "parked n0 = parked n" "pending n0 = pending n"
      "node_id n0 = node_id n" "\<And>q. q < RING_SIZE c \<Longrightarrow> seen (clocks n) ! q \<le> seen (clocks n0) ! q"
    and ok: "node_ok c n'" and outs: "set (sends outs) \<subseteq> {t}" "batches outs = concat (map batch_of ts)"
  shows "traced_effect c (TrainReceived t) n n' outs"
proof -
  note R = delivery_run_parked [OF run]
  have idn: "node_id n' = node_id n"
    using run n0(3) by (auto simp: delivery_run_def maybe_park_def dest: delivers_frame(1))
  have pk: "parked_trains n0 = parked_trains n" by (simp add: parked_trains_def n0(1))
  have "parked_payload_keys n' \<subseteq> parked_payload_keys n \<union> train_keys t"
    using R(1) unfolding pk parked_payload_keys_def by blast
  moreover have "payload_id ` set (concat (batches outs)) \<subseteq> parked_payload_keys n \<union> train_keys t"
    unfolding outs(2) run_keys using R(2) unfolding pk parked_payload_keys_def by blast
  moreover have "\<forall>u\<in>set (sends outs). train_keys u \<subseteq> train_keys t \<union> payload_id ` set (pending n)"
    using outs(1) by blast
  ultimately show ?thesis using ok idn R(3,4) n0(2,4) by (simp add: traced_effect_def)
qed

lemma delivers_parked_trains: "delivers c n ts n' \<Longrightarrow> parked_trains n' \<subseteq> parked_trains n"
  unfolding parked_trains_def by (drule delivers_parked) auto

lemma recv_traced:
  assumes c: "valid_config c" and ok: "node_ok c n" and t: "issuer t < RING_SIZE c" "clock t \<le> u64_max"
    and st: "step c (TrainReceived t) n = Some (n', outs)"
  shows "traced_effect c (TrainReceived t) n n' outs"
  using c ok t
proof (cases rule: step_cases)
  case fenced
  then show ?thesis using st ok by (auto simp: traced_effect_def)
next
  case (replay m ts us)
  have nm: "n' = m" "outs = deliver_outs ts @ [ForwardTrain t] @ deliver_outs us"
    using st replay(4) by simp_all
  show ?thesis unfolding nm by (rule traced_effect_run [OF replay(5)]) (simp_all add: replay(6))
next
  case (first m ts)
  have "parked_trains (load_node t n) = parked_trains n" by (simp add: parked_trains_def)
  then have pk: "parked_payload_keys m \<subseteq> parked_payload_keys n" "(\<Union>t\<in>set ts. train_keys t) \<subseteq> parked_payload_keys n"
    using delivers_parked_trains [OF first(5)] first(6) [folded parked_trains_def]
    unfolding parked_payload_keys_def by blast+
  have seen: "seen (clocks n) ! q \<le> seen (clocks m) ! q" if "q < RING_SIZE c" for q
    using that delivers_frame(2) [OF first(5)] seen_raise_seen [OF node_wfD(2) [OF node_okD(1) [OF ok]] that]
    by simp
  have nm: "n' = m" "outs = gap_outs t n @ [ForwardTrain (load_train n t)] @ deliver_outs ts"
    using st first(4) by simp_all
  have "train_keys (load_train n t) = train_keys t \<union> payload_id ` set (pending n)"
    by (simp add: train_keys_def load_train_def image_Un)
  moreover have "payload_id ` set (concat (batches outs)) \<subseteq> parked_payload_keys n"
    unfolding nm(2) using pk(2) run_keys [of ts] by simp
  moreover have "sends outs = [load_train n t]" by (simp add: nm(2))
  ultimately show ?thesis
    using pk(1) seen first(8) delivers_frame(1,7) [OF first(5)]
    by (simp only: traced_effect_def nm(1) input_keys.simps) (simp add: le_supI1)
next
  case recycle
  then show ?thesis
    using st issue_node_ok [OF ok]
    by (auto simp: traced_effect_def parked_payload_keys_def parked_trains_def train_keys_def fresh_train_def)
next
  case (return m ts us)
  have seen: "seen (clocks n) ! q \<le> seen (clocks (raise_seen (node_id n) (clock t) n)) ! q"
    if "q < RING_SIZE c" for q
    using seen_raise_seen [OF node_wfD(2) [OF node_okD(1) [OF ok]] that] by simp
  have nm: "n' = m" "outs = deliver_outs ts @ deliver_outs us @ [ForwardTrain t]"
    using st return(4) by simp_all
  show ?thesis
    unfolding nm by (rule traced_effect_run [OF return(5)]) (simp_all add: return(6) seen)
qed

lemma step_traced:
  assumes c: "valid_config c" and ok: "node_ok c n" and inp: "input_ok c inp"
    and st: "step c inp n = Some (n', outs)"
  shows "traced_effect c inp n n' outs"
proof (cases inp)
  case (TrainReceived t)
  then show ?thesis using recv_traced [OF c ok] inp st by auto
next
  case (LocalBroadcast bs)
  then have n': "n' = fst (handle_broadcast bs n)" "outs = []"
    using st by (auto simp: handle_broadcast_def Let_def split: if_splits)
  then show ?thesis
    using LocalBroadcast handle_broadcast_ok [OF ok]
    by (auto simp: traced_effect_def handle_broadcast_def Let_def parked_payload_keys_def
        parked_trains_def payload_id_def)
next
  case Tick
  then show ?thesis using st ok by (auto simp: traced_effect_def handle_tick_def)
qed

section \<open>The invariant of the traced ring\<close>

text \<open>The deliveries and the observed keys a task still owes to the trace.\<close>

fun owed_log :: "task_phase \<Rightarrow> trace_payload_key list" where
  "owed_log Task_Select = []"
| "owed_log (Task_Emit a outs) = delivered_keys outs"
| "owed_log (Task_Send r) = delivered_in r"

fun owed_keys :: "task_phase \<Rightarrow> (proc_id \<times> nat) set" where
  "owed_keys Task_Select = {}"
| "owed_keys (Task_Emit a outs) = set (action_keys a)"
| "owed_keys (Task_Send r) = set (action_keys (rec_action r))"

definition own_keys :: "proc_id \<Rightarrow> trace_record list \<Rightarrow> (proc_id \<times> nat) set" where
  "own_keys i tr = wire_keys (records_of i tr)"

fun phase_ok :: "config \<Rightarrow> traced_ring \<Rightarrow> proc_id \<Rightarrow> task_phase \<Rightarrow> bool" where
  "phase_ok c s i Task_Select \<longleftrightarrow> True"
| "phase_ok c s i (Task_Emit a outs) \<longleftrightarrow>
     outs_observed (own_keys i (trace_channel s) \<union> set (action_keys a)) outs \<and>
     (\<forall>k\<in>forwarded_in outs. fst k < RING_SIZE c)"
| "phase_ok c s i (Task_Send r) \<longleftrightarrow>
     outs_observed (own_keys i (trace_channel s) \<union> set (action_keys (rec_action r))) (rec_outputs r) \<and>
     (\<forall>k\<in>forwarded_in (rec_outputs r). fst k < RING_SIZE c) \<and>
     rec_node r = i \<and> type_ok c r \<and> seen_clk (rec_state r) = seen (clocks (cores (tring s) i)) \<and>
     delivered_len (rec_state r) = length (trace_log i (trace_channel s) @ delivered_in r)"

definition task_inv :: "config \<Rightarrow> traced_ring \<Rightarrow> proc_id \<Rightarrow> bool" where
  "task_inv c s i \<longleftrightarrow>
     trace_log i (trace_channel s) @ owed_log (tphase s i) = map payload_key_of (rlog (tring s) i) \<and>
     phase_ok c s i (tphase s i) \<and>
     (if i \<in> up (tring s) then
        i < RING_SIZE c \<and> node_ok c (cores (tring s) i) \<and> node_id (cores (tring s) i) = i \<and>
        (records_of i (trace_channel s) \<noteq> [] \<longrightarrow> (\<forall>q<RING_SIZE c.
           seen_clk (rec_state (last (records_of i (trace_channel s)))) ! q \<le> seen (clocks (cores (tring s) i)) ! q)) \<and>
        parked_payload_keys (cores (tring s) i) \<subseteq> own_keys i (trace_channel s) \<union> owed_keys (tphase s i) \<and>
        (\<forall>p\<in>set (pending (cores (tring s) i)). sender p < RING_SIZE c)
      else tphase s i = Task_Select \<and> records_of i (trace_channel s) = [])"

definition inbox_ok :: "config \<Rightarrow> ring_state \<Rightarrow> bool" where
  "inbox_ok c r \<longleftrightarrow> (\<forall>i. \<forall>t\<in>set (inbox r i). issuer t < NUM_TRAINS c \<and> clock t \<le> u64_max \<and>
     (\<forall>p\<in>set (payloads t). sender p < RING_SIZE c))"

definition traced_inv :: "config \<Rightarrow> traced_ring \<Rightarrow> bool" where
  "traced_inv c s \<longleftrightarrow> valid_config c \<and> inbox_ok c (tring s) \<and> (\<forall>i. task_inv c s i) \<and>
     (\<forall>n<length (trace_channel s). record_local c (take n (trace_channel s)) (trace_channel s ! n))"

lemma task_inv_frame:
  assumes "task_inv c s i" and "rlog (tring s') i = rlog (tring s) i"
    and "cores (tring s') i = cores (tring s) i" and "i \<in> up (tring s') \<longleftrightarrow> i \<in> up (tring s)"
    and "tphase s' i = tphase s i" and "records_of i (trace_channel s') = records_of i (trace_channel s)"
  shows "task_inv c s' i"
proof -
  have "own_keys i (trace_channel s') = own_keys i (trace_channel s)"
    "trace_log i (trace_channel s') = trace_log i (trace_channel s)"
    using assms(6) by (simp_all add: own_keys_def trace_log_def)
  moreover from this have "phase_ok c s' i (tphase s i) = phase_ok c s i (tphase s i)"
    using assms(3) by (cases "tphase s i") simp_all
  ultimately show ?thesis using assms by (simp add: task_inv_def)
qed

lemma fst_keys: "(\<forall>k\<in>payload_id ` set ps. fst k < N) \<longleftrightarrow> (\<forall>p\<in>set ps. sender p < N)"
  by (auto simp: payload_id_def)

fun input_fine :: "config \<Rightarrow> node_input \<Rightarrow> bool" where
  "input_fine c (TrainReceived t) \<longleftrightarrow> issuer t < NUM_TRAINS c \<and> clock t \<le> u64_max \<and>
     (\<forall>p\<in>set (payloads t). sender p < RING_SIZE c)"
| "input_fine c (LocalBroadcast d) \<longleftrightarrow> True"
| "input_fine c Tick \<longleftrightarrow> True"

lemma input_fine_ok: "valid_config c \<Longrightarrow> input_fine c inp \<Longrightarrow> input_ok c inp"
  using valid_configD(5) [of c] by (cases inp) auto

lemma input_fine_keys: "input_fine c inp \<Longrightarrow> k \<in> input_keys inp \<Longrightarrow> fst k < RING_SIZE c"
  by (cases inp) (auto simp: train_keys_def payload_id_def)

lemma dull_step:
  assumes "\<not> interesting inp outs"
  shows "input_keys inp = {}" "batches outs = []"
proof -
  have nd: "batches outs = []" if "\<not> outs_contain_delivery_or_crash outs"
    using that unfolding outs_contain_delivery_or_crash_def
  proof (induction outs)
    case (Cons out outs)
    then show ?case by (cases out) simp_all
  qed simp
  show "input_keys inp = {}" "batches outs = []"
    using assms nd by (cases inp; simp add: train_keys_def)+
qed

lemma sends_fine:
  assumes c: "valid_config c" and ok: "node_ok c n" and inp: "input_fine c inp"
    and pend: "\<forall>p\<in>set (pending n). sender p < RING_SIZE c"
    and st: "step c inp n = Some (n', outs)" and u: "u \<in> set (sends outs)"
  shows "issuer u < NUM_TRAINS c \<and> clock u \<le> u64_max \<and> (\<forall>p\<in>set (payloads u). sender p < RING_SIZE c)"
proof -
  note eff = traced_effectD(4) [OF step_traced [OF c ok input_fine_ok [OF c inp] st] u]
  have "fst k < RING_SIZE c" if "k \<in> payload_id ` set (pending n)" for k
    using that pend [folded fst_keys] by blast
  then have "fst k < RING_SIZE c" if "k \<in> train_keys u" for k
    using that eff input_fine_keys [OF inp] by blast
  then have "\<forall>p\<in>set (payloads u). sender p < RING_SIZE c"
    unfolding fst_keys [symmetric] train_keys_def by blast
  moreover have "issuer u < NUM_TRAINS c \<and> clock u \<le> u64_max"
  proof (cases "\<exists>t. inp = TrainReceived t")
    case True
    then show ?thesis using step_train_frame(4) [OF c ok _ _ _ u] inp st by auto
  next
    case False
    then show ?thesis using step_other_frame [OF ok st] u by auto
  qed
  ultimately show ?thesis by blast
qed

lemma traced_arm_inv:
  assumes inv: "traced_inv c s" and i: "i \<in> up (tring s)" "tphase s i = Task_Select"
    and inp: "input_fine c inp" and st: "traced_arm c i inp s = Some s'"
  shows "traced_inv c s'"
proof -
  let ?n = "cores (tring s) i"
  have c: "valid_config c" using inv by (simp add: traced_inv_def)
  have ti: "task_inv c s i" using inv by (simp add: traced_inv_def)
  then have n: "i < RING_SIZE c" "node_ok c ?n" "node_id ?n = i"
      "\<forall>p\<in>set (pending ?n). sender p < RING_SIZE c"
      "parked_payload_keys ?n \<subseteq> own_keys i (trace_channel s)"
      "trace_log i (trace_channel s) = map payload_key_of (rlog (tring s) i)"
    using i by (simp_all add: task_inv_def)
  obtain n' outs where r: "step c inp ?n = Some (n', outs)"
    and s': "s' = s\<lparr>tring := dispatch c i outs ((tring s)\<lparr>cores := (cores (tring s))(i := n')\<rparr>),
      tphase := (tphase s)(i := if interesting inp outs
        then Task_Emit (action_of inp) (map trace_output_of outs) else Task_Select)\<rparr>"
    using st by (auto simp: traced_arm_def split: bind_splits)
  note eff = traced_effectD [OF step_traced [OF c n(2) input_fine_ok [OF c inp] r]]
  have snd_fine: "issuer u < NUM_TRAINS c \<and> clock u \<le> u64_max \<and> (\<forall>p\<in>set (payloads u). sender p < RING_SIZE c)"
    if "u \<in> set (sends outs)" for u
    using sends_fine [OF c n(2) inp n(4) r that] .
  have obs: "payload_id ` set (concat (batches outs)) \<subseteq> own_keys i (trace_channel s) \<union> input_keys inp"
    using eff(3) n(5) by blast
  have "outs_observed (own_keys i (trace_channel s) \<union> input_keys inp) (map trace_output_of outs)"
    using obs by (intro outs_observed_if) (simp add: image_image)
  moreover have "fst k < RING_SIZE c" if "k \<in> forwarded_in (map trace_output_of outs)" for k
    using that snd_fine by (auto simp: train_keys_def payload_id_def)
  ultimately have ph: "phase_ok c s' i (tphase s' i)" by (simp add: s')
  have "fst k < RING_SIZE c" if "k \<in> payload_id ` set (pending n')" for k
    using that eff(5) n(1,3) n(4) [folded fst_keys] by force
  then have pend: "\<forall>p\<in>set (pending n'). sender p < RING_SIZE c" unfolding fst_keys [symmetric] by blast
  have park: "parked_payload_keys n' \<subseteq> own_keys i (trace_channel s) \<union> owed_keys (tphase s' i)"
    using eff(2) n(5) dull_step(1) [of inp outs] by (cases "interesting inp outs") (auto simp: s')
  have seen: "\<forall>q<RING_SIZE c. seen_clk (rec_state (last (records_of i (trace_channel s)))) ! q \<le> seen (clocks n') ! q"
    if "records_of i (trace_channel s) \<noteq> []"
    using that ti i(1) eff(1) by (auto simp: task_inv_def intro: order_trans)
  have "owed_log (tphase s' i) = map payload_key_of (concat (batches outs))"
    using dull_step(2) [of inp outs] by (cases "interesting inp outs") (simp_all add: s')
  then have "trace_log i (trace_channel s') @ owed_log (tphase s' i) = map payload_key_of (rlog (tring s') i)"
    using n(6) by (simp add: s' dispatch_effect)
  then have "task_inv c s' i"
    using ph pend park seen eff(6,7) n(1,3) i(1) unfolding task_inv_def
    by (simp add: s' dispatch_effect)
  moreover have "task_inv c s' j" if "j \<noteq> i" for j
    using that inv by (intro task_inv_frame [of c s j s']) (auto simp: s' dispatch_effect traced_inv_def)
  moreover have "inbox_ok c (tring s')"
    using inv snd_fine by (auto simp: inbox_ok_def traced_inv_def s' dispatch_effect)
  ultimately have "\<forall>j. task_inv c s' j" "inbox_ok c (tring s')" by metis+
  then show ?thesis using inv by (simp add: traced_inv_def s')
qed

lemma traced_start_inv:
  assumes inv: "traced_inv c s" and k: "k \<le> NUM_TRAINS c" and i: "i < RING_SIZE c" "i \<notin> up (tring s)"
    and st: "traced_start c k m i s = Some s'"
  shows "traced_inv c s'"
proof -
  have c: "valid_config c" using inv by (simp add: traced_inv_def)
  have ti: "task_inv c s i" using inv by (simp add: traced_inv_def)
  then have old: "trace_log i (trace_channel s) = map payload_key_of (rlog (tring s) i)"
      "records_of i (trace_channel s) = []"
    using i(2) by (auto simp: task_inv_def)
  obtain n where n: "node_new c i m = Some n" using i(1) by (simp add: node_new_def)
  note N = node_new_fields [OF n] and ok = node_new_ok [OF n]
  have iss: "issue_initial_train c n = Some (issue_node n, fresh_train n)"
    using issue_new_train_pure [OF c node_okD(1) [OF ok]] by (simp add: issue_initial_train_def)
  define core where "core = (if i < k then issue_node n else n)"
  define inb where "inb = (if i < k then (inbox (tring s))(successor c i :=
      inbox (tring s) (successor c i) @ [fresh_train n]) else inbox (tring s))"
  define ph where "ph = (if i < k then Task_Emit (TA_Initial (summary_of (fresh_train n))) [] else Task_Select)"
  have s': "s' = s\<lparr>tring := (tring s)\<lparr>cores := (cores (tring s))(i := core),
        up := insert i (up (tring s)), inbox := inb\<rparr>, tphase := (tphase s)(i := ph)\<rparr>"
    using st [symmetric] n iss
    by (cases "i < k") (simp_all add: traced_start_def start_node_def outbox_send_def core_def inb_def ph_def)
  have core: "node_ok c core" "node_id core = i" "pending core = []" "parked core = []"
    using ok issue_node_ok [OF ok] N by (simp_all add: core_def)
  have "task_inv c s' i"
    using core i(1) old by (simp add: task_inv_def s' ph_def parked_payload_keys_def parked_trains_def)
  moreover have "task_inv c s' j" if "j \<noteq> i" for j
    using that inv by (intro task_inv_frame [of c s j s']) (auto simp: s' traced_inv_def)
  moreover have "inbox_ok c (tring s')"
  proof -
    have "i < k \<Longrightarrow> issuer (fresh_train n) < NUM_TRAINS c" "clock (fresh_train n) \<le> u64_max"
        "payloads (fresh_train n) = []"
      using k N by (simp_all add: fresh_train_def u64_max_def)
    then show ?thesis using inv by (auto simp: inbox_ok_def traced_inv_def s' inb_def)
  qed
  ultimately have "\<forall>j. task_inv c s' j" "inbox_ok c (tring s')" by metis+
  then show ?thesis using inv by (simp add: traced_inv_def s')
qed

lemma emit_trace_record:
  assumes "emit_trace c True sq i n lg a outs True = Some (sq', Some r)" and "node_wf c n"
  shows "seen_clk (rec_state r) = seen (clocks n)" "rec_node r = i" "st_id (rec_state r) = i"
    "rec_action r = a" "rec_outputs r = outs" "delivered_len (rec_state r) = length lg"
  using assms(1) seen_clocks_pure [OF assms(2)] by (auto simp: emit_trace_def Let_def)

lemma traced_emit_inv:
  assumes inv: "traced_inv c s" and ph: "tphase s i = Task_Emit a outs"
    and st: "traced_emit c i a outs s = Some s'"
  shows "traced_inv c s'"
proof -
  let ?n = "cores (tring s) i"
  have ti: "task_inv c s i" using inv by (simp add: traced_inv_def)
  then have up: "i \<in> up (tring s)" using ph by (simp add: task_inv_def split: if_splits)
  then have n: "node_ok c ?n" "i < RING_SIZE c" using ti by (simp_all add: task_inv_def)
  obtain sq r where r: "emit_trace c True (trace_seq s) i ?n (rlog (tring s) i) a outs True = Some (sq, Some r)"
    and s': "s' = s\<lparr>trace_seq := sq, tphase := (tphase s)(i := Task_Send r)\<rparr>"
    using st seen_clocks_pure [OF node_okD(1) [OF n(1)]]
    by (simp add: traced_emit_def emit_trace_def Let_def)
  note r = emit_trace_record [OF r node_okD(1) [OF n(1)]]
  have log: "map payload_key_of (rlog (tring s) i) = trace_log i (trace_channel s) @ delivered_in r"
    using ti ph r by (simp add: task_inv_def delivered_in_def)
  then have "length (rlog (tring s) i) = length (trace_log i (trace_channel s) @ delivered_in r)"
    by (metis length_map)
  moreover have "type_ok c r"
    using r n(2) node_wfD(2) [OF node_okD(1) [OF n(1)]] by (simp add: type_ok_def clock_ok_def)
  ultimately have "task_inv c s' i"
    using ti ph up r by (simp add: task_inv_def s' delivered_in_def)
  moreover have "task_inv c s' j" if "j \<noteq> i" for j
    using that inv by (intro task_inv_frame [of c s j s']) (auto simp: s' traced_inv_def)
  ultimately have "\<forall>j. task_inv c s' j" by metis
  then show ?thesis using inv by (simp add: traced_inv_def s')
qed

lemma own_keys_sub: "own_keys i tr \<subseteq> wire_keys tr"
  by (auto simp: own_keys_def wire_keys_def records_of_def)

lemma own_keys_snoc:
  "own_keys i (tr @ [r]) = own_keys i tr \<union>
     (if rec_node r = i then set (action_keys (rec_action r)) \<union> forwarded_in (rec_outputs r) else {})"
  by (simp add: own_keys_def Un_assoc)

lemma traced_send_inv:
  assumes inv: "traced_inv c s" and ph: "tphase s i = Task_Send r"
  shows "traced_inv c (traced_send i r s)"
proof -
  let ?s = "traced_send i r s" and ?tr = "trace_channel s"
  have ti: "task_inv c s i" using inv by (simp add: traced_inv_def)
  then have up: "i \<in> up (tring s)" using ph by (simp add: task_inv_def split: if_splits)
  have R: "rec_node r = i" "type_ok c r" "seen_clk (rec_state r) = seen (clocks (cores (tring s) i))"
      "outs_observed (own_keys i ?tr \<union> set (action_keys (rec_action r))) (rec_outputs r)"
      "\<forall>k\<in>forwarded_in (rec_outputs r). fst k < RING_SIZE c"
      "delivered_len (rec_state r) = length (trace_log i ?tr @ delivered_in r)"
  proof -
    have "phase_ok c s i (Task_Send r)" using ti unfolding task_inv_def ph by blast
    then show "rec_node r = i" "type_ok c r" "seen_clk (rec_state r) = seen (clocks (cores (tring s) i))"
      "outs_observed (own_keys i ?tr \<union> set (action_keys (rec_action r))) (rec_outputs r)"
      "\<forall>k\<in>forwarded_in (rec_outputs r). fst k < RING_SIZE c"
      "delivered_len (rec_state r) = length (trace_log i ?tr @ delivered_in r)"
      unfolding phase_ok.simps by blast+
  qed
  have "record_local c ?tr r"
    unfolding record_local_def
  proof (intro conjI)
    show "clocks_monotone c ?tr r" using ti up R(1,3) by (simp add: clocks_monotone_def task_inv_def)
    show "outs_observed (wire_keys ?tr \<union> set (action_keys (rec_action r))) (rec_outputs r)"
      using outs_observed_mono [OF R(4)] own_keys_sub [of i ?tr] by blast
  qed (use R in simp_all)
  then have "\<forall>n<length (trace_channel ?s). record_local c (take n (trace_channel ?s)) (trace_channel ?s ! n)"
    using inv by (auto simp: traced_send_def traced_inv_def less_Suc_eq nth_append)
  moreover have "task_inv c ?s i"
    using ti ph up R by (auto simp: task_inv_def traced_send_def own_keys_snoc)
  moreover have "task_inv c ?s j" if "j \<noteq> i" for j
    using that inv R(1) by (intro task_inv_frame [of c s j ?s]) (auto simp: traced_send_def traced_inv_def)
  ultimately have "\<forall>j. task_inv c ?s j" "\<forall>n<length (trace_channel ?s). record_local c (take n (trace_channel ?s)) (trace_channel ?s ! n)"
    by metis+
  then show ?thesis using inv by (simp add: traced_inv_def) (simp add: traced_send_def)
qed

lemma traced_inv_ring:
  assumes "traced_inv c s" and "\<And>i. set (inbox r i) \<subseteq> set (inbox (tring s) i)"
    and "cores r = cores (tring s)" "up r = up (tring s)" "rlog r = rlog (tring s)"
  shows "traced_inv c (set_tring r s)"
proof -
  have "task_inv c (set_tring r s) j" for j
  proof -
    have "task_inv c s j" using assms(1) by (simp add: traced_inv_def)
    then show ?thesis by (rule task_inv_frame) (simp_all add: assms(3-5))
  qed
  moreover have "inbox_ok c r" using assms(1,2) unfolding traced_inv_def inbox_ok_def by blast
  ultimately show ?thesis using assms(1) by (simp add: traced_inv_def)
qed

lemma traced_inv_step:
  assumes inv: "traced_inv c s" and k: "k \<le> NUM_TRAINS c" and st: "traced_step c k m s s'"
  shows "traced_inv c s'"
  using st
proof (cases rule: traced_step.cases)
  case (tr_start i)
  then show ?thesis using traced_start_inv [OF inv k] by blast
next
  case (tr_bcast i bs)
  then show ?thesis using traced_arm_inv [OF inv tr_bcast(1,2) _ tr_bcast(3)] by simp
next
  case (tr_recv i t ts)
  let ?s = "set_tring (pop_inbox i (tring s)) s"
  have "traced_inv c ?s"
    using tr_recv(3) by (intro traced_inv_ring [OF inv]) (auto simp: pop_inbox_def)
  moreover have "input_fine c (TrainReceived t)"
  proof -
    have "t \<in> set (inbox (tring s) i)" using tr_recv(3) by simp
    then show ?thesis using inv unfolding traced_inv_def inbox_ok_def input_fine.simps by blast
  qed
  ultimately show ?thesis
    using traced_arm_inv [of c ?s i "TrainReceived t" s'] tr_recv by (simp add: pop_inbox_def)
next
  case (tr_tick i)
  then show ?thesis using traced_arm_inv [OF inv tr_tick(1,2) _ tr_tick(3)] by simp
next
  case (tr_emit i a outs)
  then show ?thesis using traced_emit_inv [OF inv] by blast
next
  case (tr_send i r)
  then show ?thesis using traced_send_inv [OF inv] by blast
next
  case (tr_lose i xs ys zs)
  then show ?thesis by (auto intro!: traced_inv_ring [OF inv] split: if_splits)
qed

lemma traced_inv_init: "traced_init c s \<Longrightarrow> traced_inv c s"
  by (simp add: traced_inv_def traced_init_def ring_init_def inbox_ok_def task_inv_def)

definition traced_start_state :: "config \<Rightarrow> nat \<Rightarrow> traced_ring \<Rightarrow> bool" where
  "traced_start_state c k s \<longleftrightarrow> traced_init c s \<and> k \<le> NUM_TRAINS c"

definition tasks_inv :: "config \<Rightarrow> nat \<Rightarrow> traced_ring \<Rightarrow> bool" where
  "tasks_inv c k s \<longleftrightarrow> traced_inv c s \<and> k \<le> NUM_TRAINS c"

interpretation traced_tasks: invariant_system "traced_start_state c k" "traced_step c k m" "tasks_inv c k"
  for c k m
  by unfold_locales
    (auto simp: traced_start_state_def tasks_inv_def intro: traced_inv_init traced_inv_step)

lemma traced_reach_inv:
  assumes "traced_reach c k m s" and "k \<le> NUM_TRAINS c"
  shows "traced_inv c s"
proof -
  have "reach (traced_start_state c k) (traced_step c k m) s"
    using assms by (induction rule: reach.induct) (auto intro: reach.intros simp: traced_start_state_def)
  then show ?thesis using traced_tasks.reach_inv by (auto simp: tasks_inv_def)
qed

section \<open>Accepted traces\<close>

lemma trace_log_prefix: "prefix (trace_log i (take n tr)) (trace_log i tr)"
proof -
  have "trace_log i tr = trace_log i (take n tr) @ trace_log i (drop n tr)"
    by (metis append_take_drop_id concat_append filter_append map_append records_of_def trace_log_def)
  then show ?thesis by simp
qed

lemma consistent_take:
  assumes "consistent_logs tr"
  shows "consistent_logs (take n tr)"
  unfolding consistent_logs_def
proof (intro allI)
  fix i j
  consider "prefix (trace_log i tr) (trace_log j tr)" | "prefix (trace_log j tr) (trace_log i tr)"
    using assms unfolding consistent_logs_def by blast
  then show "prefix (trace_log i (take n tr)) (trace_log j (take n tr)) \<or>
      prefix (trace_log j (take n tr)) (trace_log i (take n tr))"
    by cases (meson prefix_order.trans prefix_same_cases trace_log_prefix)+
qed

lemma trace_ok_local:
  assumes "\<forall>n<length tr. record_local c (take n tr) (tr ! n)" and "consistent_logs tr"
  shows "trace_ok c tr"
  unfolding trace_ok_def record_ok_def
proof (intro allI impI conjI)
  fix n assume n: "n < length tr"
  then show "record_local c (take n tr) (tr ! n)" using assms(1) by blast
  show "consistent_logs (take n tr @ [tr ! n])"
    using consistent_take [OF assms(2), of "Suc n"] by (simp add: take_Suc_conv_app_nth n)
qed

lemma traced_consistent:
  assumes r: "traced_reach c k m s" and k: "k \<le> NUM_TRAINS c" and left: "ring_clocks_left c (tring s)"
  shows "consistent_logs (trace_channel s)"
  unfolding consistent_logs_def
proof (intro allI)
  fix i j
  note inv = traced_reach_inv [OF r k]
  have pre: "prefix (trace_log q (trace_channel s)) (map payload_key_of (rlog (tring s) q))" for q
  proof -
    have "task_inv c s q" using inv by (simp add: traced_inv_def)
    then show ?thesis unfolding task_inv_def by (metis prefixI)
  qed
  have nil: "trace_log q (trace_channel s) = []" if "\<not> q < RING_SIZE c" for q
  proof -
    have "task_inv c s q" using inv by (simp add: traced_inv_def)
    then have "records_of q (trace_channel s) = []" using that by (auto simp: task_inv_def split: if_splits)
    then show ?thesis by (simp add: trace_log_def)
  qed
  show "prefix (trace_log i (trace_channel s)) (trace_log j (trace_channel s)) \<or>
      prefix (trace_log j (trace_channel s)) (trace_log i (trace_channel s))"
  proof (cases "i < RING_SIZE c \<and> j < RING_SIZE c")
    case True
    then have "prefix (map payload_key_of (rlog (tring s) i)) (map payload_key_of (rlog (tring s) j)) \<or>
        prefix (map payload_key_of (rlog (tring s) j)) (map payload_key_of (rlog (tring s) i))"
      using ring_consistent [OF traced_reach_ring [OF r] k left] by (meson map_mono_prefix)
    then show ?thesis using pre [of i] pre [of j] by (meson prefix_order.trans prefix_same_cases)
  qed (use nil in auto)
qed

section \<open>Executing schedules\<close>

datatype traced_move = TM_Start proc_id | TM_Bcast proc_id "byte list" | TM_Recv proc_id | TM_Emit proc_id

text \<open>\<open>TM_Emit\<close> is the next step of a task that owes a record.\<close>

fun traced_exec ::
    "config \<Rightarrow> nat \<Rightarrow> delivery_mode \<Rightarrow> traced_move \<Rightarrow> traced_ring \<Rightarrow> traced_ring option" where
  "traced_exec c k m (TM_Start i) s =
     (if i < RING_SIZE c \<and> i \<notin> up (tring s) then traced_start c k m i s else None)"
| "traced_exec c k m (TM_Bcast i bs) s =
     (if i \<in> up (tring s) \<and> tphase s i = Task_Select then traced_arm c i (LocalBroadcast bs) s else None)"
| "traced_exec c k m (TM_Recv i) s =
     (case inbox (tring s) i of [] \<Rightarrow> None
      | t # ts \<Rightarrow> if i \<in> up (tring s) \<and> tphase s i = Task_Select
          then traced_arm c i (TrainReceived t) (set_tring (pop_inbox i (tring s)) s) else None)"
| "traced_exec c k m (TM_Emit i) s =
     (case tphase s i of
        Task_Select \<Rightarrow> None
      | Task_Emit a outs \<Rightarrow> traced_emit c i a outs s
      | Task_Send r \<Rightarrow> Some (traced_send i r s))"

lemma traced_exec_step: "traced_exec c k m mv s = Some s' \<Longrightarrow> traced_step c k m s s'"
  by (cases mv) (auto split: if_splits list.splits task_phase.splits intro: traced_step.intros)

definition demo_traced_start :: traced_ring where
  "demo_traced_start = \<lparr>tring = \<lparr>cores = demo_node, inbox = (\<lambda>_. []), up = {}, rlog = (\<lambda>_. [])\<rparr>,
     trace_seq = 0, tphase = (\<lambda>_. Task_Select), trace_channel = []\<rparr>"

definition demo_schedule :: "traced_move list" where
  "demo_schedule = [TM_Start 1, TM_Start 0, TM_Bcast 1 [9], TM_Emit 1, TM_Emit 0, TM_Emit 0, TM_Emit 1,
     TM_Recv 1, TM_Recv 0, TM_Emit 0, TM_Recv 1, TM_Emit 1, TM_Emit 1, TM_Emit 0]"

definition demo_traced :: traced_ring where
  "demo_traced = the (fold_opt (traced_exec cfg2 1 UniformTotalOrder) demo_schedule demo_traced_start)"

lemma demo_traced_facts:
  "fold_opt (traced_exec cfg2 1 UniformTotalOrder) demo_schedule demo_traced_start \<noteq> None \<and>
   map rec_seq (trace_channel demo_traced) = [1, 0, 3, 2] \<and>
   map (\<lambda>r. (rec_node r, delivered_in r)) (trace_channel demo_traced) =
     [(0, []), (1, []), (1, [\<lparr>pk_sender = 1, pk_seq = 0\<rparr>]), (0, [\<lparr>pk_sender = 1, pk_seq = 0\<rparr>])] \<and>
   up (tring demo_traced) = {0, 1} \<and>
   next_issue_clock (cores (tring demo_traced) 0) = 2 \<and> next_issue_clock (cores (tring demo_traced) 1) = 1"
  by code_simp

lemma demo_traced_reach: "traced_reach cfg2 1 UniformTotalOrder demo_traced"
proof -
  have "traced_init cfg2 demo_traced_start"
    by (simp add: traced_init_def ring_init_def demo_traced_start_def cfg2_valid)
  then have "traced_reach cfg2 1 UniformTotalOrder demo_traced_start" by (rule reach_init)
  moreover have "fold_opt (traced_exec cfg2 1 UniformTotalOrder) demo_schedule demo_traced_start =
      Some demo_traced"
    using demo_traced_facts by (auto simp: demo_traced_def)
  ultimately show ?thesis by (rule fold_opt_reach [rotated]) (rule traced_exec_step)
qed

text \<open>A printer and a parser for the four records of the run: a brace and the sequence number.\<close>

definition demo_to_json :: "unit to_json" where
  "demo_to_json r = Inr [123, 48 + rec_seq r]"

definition demo_from_json :: "unit of_json" where
  "demo_from_json l =
     (case find (\<lambda>r. [123, 48 + rec_seq r] = l) (trace_channel demo_traced) of
        None \<Rightarrow> Inl () | Some r \<Rightarrow> Inr r)"

lemma find_distinct:
  assumes "r \<in> set xs" and "inj_on f (set xs)"
  shows "find (\<lambda>x. f x = f r) xs = Some r"
  using assms by (induction xs) (auto simp: inj_on_def)

lemma demo_json_ok: "\<forall>r\<in>set (trace_channel demo_traced). json_ok demo_to_json demo_from_json r"
proof
  fix r assume r: "r \<in> set (trace_channel demo_traced)"
  have sq: "map rec_seq (trace_channel demo_traced) = [1, 0, 3, 2]" using demo_traced_facts by blast
  then have "distinct (map rec_seq (trace_channel demo_traced))" by simp
  then have "inj_on (\<lambda>r. [123, 48 + rec_seq r]) (set (trace_channel demo_traced))"
    by (auto simp: distinct_map inj_on_def)
  moreover have "rec_seq r \<in> {0, 1, 2, 3}" using r arg_cong [OF sq, of set] by (auto simp: image_iff)
  ultimately show "json_ok demo_to_json demo_from_json r"
    using find_distinct [OF r, of "\<lambda>r. [123, 48 + rec_seq r]"]
    by (auto simp: json_ok_def demo_to_json_def demo_from_json_def)
qed

text \<open>C38. Every run of the ring passes its offline validation: whatever the interleaving of the
  node tasks and of their trace records, and whatever trains the links lose, the writer
  task stores every record, and the validator that reads the file back accepts it without
  a panic and without a violation.\<close>

theorem ring_traces_validate:
  assumes "traced_reach c k m s" and "k \<le> NUM_TRAINS c" and "ring_clocks_left c (tring s)"
    and "\<forall>r\<in>set (trace_channel s). json_ok to_string from_str r"
  shows "\<exists>file. trace_writer_task to_string append_writer (trace_channel s) 0 [] =
      Inr (file, length (trace_channel s)) \<and>
    validate_main c from_str (map Inr (split_lines [] file)) = Inr (Some [])"
proof -
  have "\<forall>n<length (trace_channel s). record_local c (take n (trace_channel s)) (trace_channel s ! n)"
    using traced_reach_inv [OF assms(1,2)] by (simp add: traced_inv_def)
  then have "validate c (trace_channel s) = Some []"
    using trace_ok_local [OF _ traced_consistent [OF assms(1-3)]] by (simp add: validate_iff)
  then show ?thesis
    by (intro exI [of _ "jsonl_text to_string (trace_channel s)"])
      (simp add: trace_writer_text [OF assms(4)] read_jsonl_text [OF assms(4)] validate_main_def read_jsonl_def)
qed

theorem ring_traces_validate_witness:
  "\<exists>file. trace_writer_task demo_to_json append_writer (trace_channel demo_traced) 0 [] = Inr (file, 4) \<and>
    validate_main cfg2 demo_from_json (map Inr (split_lines [] file)) = Inr (Some [])"
proof -
  have "length (trace_channel demo_traced) = 4"
  proof -
    have "map rec_seq (trace_channel demo_traced) = [1, 0, 3, 2]" using demo_traced_facts by blast
    from arg_cong [OF this, of length] show ?thesis by simp
  qed
  moreover have "ring_clocks_left cfg2 (tring demo_traced)"
    using demo_traced_facts by (auto simp: ring_clocks_left_def u64_max_def)
  ultimately show ?thesis
    using ring_traces_validate [OF demo_traced_reach _ _ demo_json_ok] by (simp add: cfg2_def)
qed

end
