(* ===== verification/Cli_Main.thy ===== *)
theory Cli_Main
  imports Tls Ring
begin

text \<open>
  \<^verbatim>\<open>crates/trains-cli/src/main.rs\<close>: what the command line becomes before a node or a ring runs. The
  argument parser and the parser of socket addresses are not part of the repository: a
  command is a value of \<open>cmd\<close>, the address parser an argument. A failed \<^verbatim>\<open>?\<close> is a \<open>main_error\<close>.
\<close>

section \<open>Commands\<close>

datatype delivery_mode_arg = Uto | To

fun mode_of_arg :: "delivery_mode_arg \<Rightarrow> delivery_mode" where
  "mode_of_arg Uto = UniformTotalOrder"
| "mode_of_arg To = TotalOrder"

datatype ('p, 'a) cmd =
    Cmd_Keygen 'p "utext list"
  | Cmd_Node proc_id 'a 'a 'p utext bool delivery_mode_arg "utext list"
  | Cmd_Ring nat nat nat "utext list" "'p option" delivery_mode_arg

record 'a node_args =
  na_id :: proc_id
  na_listen :: 'a
  na_successor :: 'a
  na_identity :: node_identity
  na_pinned :: "spki_fingerprint list"
  na_issue_initial :: bool
  na_mode :: delivery_mode
  na_ring_addrs :: "'a list"

record 'p ring_args =
  ra_num :: nat
  ra_num_trains :: nat
  ra_seconds :: nat
  ra_broadcasts :: "(nat \<times> byte list) list"
  ra_trace_path :: "'p option"
  ra_mode :: delivery_mode

datatype ('r, 'h, 'j, 'e) main_error =
    ME_Generate "('r, 'h) tls_error"
  | ME_Identity "('j, 'h, 'e) identity_error"
  | ME_PeerFp "('r, 'h) tls_error"
  | ME_BroadcastFormat utext
  | ME_NodeId utext
  | ME_PeerAddrFormat utext
  | ME_PeerId utext
  | ME_PeerAddr utext
  | ME_NotContiguous nat nat

section \<open>Parsing\<close>

text \<open>Collecting the results of a fallible iterator: the first error ends it. \<^term>\<open>None\<close> is a panic.\<close>

fun collect_results :: "('a \<Rightarrow> ('e + 'b) option) \<Rightarrow> 'a list \<Rightarrow> ('e + 'b list) option" where
  "collect_results f [] = Some (Inr [])"
| "collect_results f (x # xs) = do {
     y \<leftarrow> f x;
     (case y of
        Inl e \<Rightarrow> Some (Inl e)
      | Inr v \<Rightarrow> map_option (map_sum id (Cons v)) (collect_results f xs))
   }"

definition parse_peer_fp ::
    "'h hex_dec \<Rightarrow> utext \<Rightarrow> (('r, 'h) tls_error + spki_fingerprint list) option" where
  "parse_peer_fp decode s =
     collect_results (from_hex decode) (filter (\<lambda>w. w \<noteq> []) (map trim (split_at 44 s)))"

definition parse_broadcast :: "utext \<Rightarrow> ('r, 'h, 'j, 'e) main_error + nat \<times> byte list" where
  "parse_broadcast s =
     (case split_once 58 s of
        None \<Rightarrow> Inl (ME_BroadcastFormat s)
      | Some (n, msg) \<Rightarrow>
          (case parse_unsigned 255 n of
             None \<Rightarrow> Inl (ME_NodeId n)
           | Some i \<Rightarrow> Inr (i, utf8_bytes msg)))"

definition parse_peer_entry ::
    "(utext \<Rightarrow> 'a option) \<Rightarrow> utext \<Rightarrow> ('r, 'h, 'j, 'e) main_error + nat \<times> 'a" where
  "parse_peer_entry parse_addr e =
     (case split_once 61 e of
        None \<Rightarrow> Inl (ME_PeerAddrFormat e)
      | Some (id_s, addr_s) \<Rightarrow>
          (case parse_unsigned u64_max (trim id_s) of
             None \<Rightarrow> Inl (ME_PeerId e)
           | Some i \<Rightarrow> (case parse_addr (trim addr_s) of
                 None \<Rightarrow> Inl (ME_PeerAddr e)
               | Some a \<Rightarrow> Inr (i, a))))"

fun parse_entries ::
    "(utext \<Rightarrow> 'a option) \<Rightarrow> utext list \<Rightarrow> (nat \<times> 'a) list \<Rightarrow>
     ('r, 'h, 'j, 'e) main_error + (nat \<times> 'a) list" where
  "parse_entries parse_addr [] pairs = Inr pairs"
| "parse_entries parse_addr (e # es) pairs =
     (case parse_peer_entry parse_addr e of
        Inl err \<Rightarrow> Inl err
      | Inr p \<Rightarrow> parse_entries parse_addr es (pairs @ [p]))"

fun check_contiguous :: "nat \<Rightarrow> (nat \<times> 'a) list \<Rightarrow> ('r, 'h, 'j, 'e) main_error + unit" where
  "check_contiguous k [] = Inr ()"
| "check_contiguous k ((i, a) # ps) =
     (if i \<noteq> k then Inl (ME_NotContiguous i k) else check_contiguous (k + 1) ps)"

definition parse_ring_addrs ::
    "(utext \<Rightarrow> 'a option) \<Rightarrow> utext list \<Rightarrow> ('r, 'h, 'j, 'e) main_error + 'a list" where
  "parse_ring_addrs parse_addr entries =
     (if entries = [] then Inr []
      else case parse_entries parse_addr entries [] of
          Inl e \<Rightarrow> Inl e
        | Inr pairs0 \<Rightarrow>
            (let pairs = sort_key fst pairs0
             in case check_contiguous 0 pairs of
                 Inl e \<Rightarrow> Inl e
               | Inr _ \<Rightarrow> Inr (map snd pairs)))"

section \<open>The commands\<close>

text \<open>\<^verbatim>\<open>keygen\<close>: the identity written and the fingerprint printed.\<close>

definition main_keygen ::
    "(utext list \<Rightarrow> 'r + byte list \<times> byte list) \<Rightarrow> digest \<Rightarrow> hex_enc \<Rightarrow> (stored_identity \<Rightarrow> 'j + byte list) \<Rightarrow>
     ('p \<Rightarrow> byte list \<Rightarrow> 'fs \<Rightarrow> 'e + 'fs) \<Rightarrow> 'p \<Rightarrow> utext list \<Rightarrow> 'fs \<Rightarrow>
     (('r, 'h, 'j, 'e) main_error + 'fs \<times> utext) option" where
  "main_keygen self_signed sha256 encode to_vec write_file out sni fs =
     (case generate self_signed sha256 sni of
        Inl e \<Rightarrow> Some (Inl (ME_Generate e))
      | Inr idt \<Rightarrow> do {
          r \<leftarrow> save encode to_vec write_file idt out fs;
          (case r of
             Inl e \<Rightarrow> Some (Inl (ME_Identity e))
           | Inr fs' \<Rightarrow> Some (Inr (fs', to_hex encode (fingerprint idt))))
        })"

text \<open>\<^verbatim>\<open>node\<close>: the arguments the driver is started with.\<close>

definition main_node ::
    "'h hex_dec \<Rightarrow> (byte list \<Rightarrow> 'j + stored_identity) \<Rightarrow> ('p \<Rightarrow> 'fs \<Rightarrow> 'e + byte list) \<Rightarrow> digest \<Rightarrow>
     (utext \<Rightarrow> 'a option) \<Rightarrow> 'fs \<Rightarrow> proc_id \<Rightarrow> 'a \<Rightarrow> 'a \<Rightarrow> 'p \<Rightarrow> utext \<Rightarrow> bool \<Rightarrow> delivery_mode_arg \<Rightarrow>
     utext list \<Rightarrow> (('r, 'h, 'j, 'e) main_error + 'a node_args) option" where
  "main_node decode from_slice read_file sha256 parse_addr fs i listen succ_addr identity peer_fp
     issue_initial m peer_addr =
     (case load decode from_slice read_file sha256 identity fs of
        Inl e \<Rightarrow> Some (Inl (ME_Identity e))
      | Inr id_obj \<Rightarrow> do {
          r \<leftarrow> parse_peer_fp decode peer_fp;
          (case r of
             Inl e \<Rightarrow> Some (Inl (ME_PeerFp e))
           | Inr ps \<Rightarrow> (case parse_ring_addrs parse_addr peer_addr of
                 Inl e \<Rightarrow> Some (Inl e)
               | Inr addrs \<Rightarrow>
                   Some (Inr \<lparr>na_id = i, na_listen = listen, na_successor = succ_addr,
                     na_identity = id_obj, na_pinned = ps, na_issue_initial = issue_initial,
                     na_mode = mode_of_arg m, na_ring_addrs = addrs\<rparr>)))
        })"

fun parse_broadcasts ::
    "utext list \<Rightarrow> ('r, 'h, 'j, 'e) main_error + (nat \<times> byte list) list" where
  "parse_broadcasts [] = Inr []"
| "parse_broadcasts (s # ss) =
     (case parse_broadcast s of
        Inl e \<Rightarrow> Inl e
      | Inr b \<Rightarrow> map_sum id (Cons b) (parse_broadcasts ss))"

definition main_ring ::
    "nat \<Rightarrow> nat \<Rightarrow> nat \<Rightarrow> utext list \<Rightarrow> 'p option \<Rightarrow> delivery_mode_arg \<Rightarrow>
     ('r, 'h, 'j, 'e) main_error + 'p ring_args" where
  "main_ring num num_trains seconds bcasts tr m =
     (case parse_broadcasts bcasts of
        Inl e \<Rightarrow> Inl e
      | Inr bs \<Rightarrow> Inr \<lparr>ra_num = num, ra_num_trains = num_trains, ra_seconds = seconds,
          ra_broadcasts = bs, ra_trace_path = tr, ra_mode = mode_of_arg m\<rparr>)"

datatype ('fs, 'p, 'a) main_outcome =
    Keygen_Done 'fs utext
  | Run_Node "'a node_args"
  | Run_Ring "'p ring_args"

fun main_cmd ::
    "(utext list \<Rightarrow> 'r + byte list \<times> byte list) \<Rightarrow> digest \<Rightarrow> hex_enc \<Rightarrow> 'h hex_dec \<Rightarrow>
     (stored_identity \<Rightarrow> 'j + byte list) \<Rightarrow> (byte list \<Rightarrow> 'j + stored_identity) \<Rightarrow>
     ('p \<Rightarrow> byte list \<Rightarrow> 'fs \<Rightarrow> 'e + 'fs) \<Rightarrow> ('p \<Rightarrow> 'fs \<Rightarrow> 'e + byte list) \<Rightarrow> (utext \<Rightarrow> 'a option) \<Rightarrow>
     'fs \<Rightarrow> ('p, 'a) cmd \<Rightarrow> (('r, 'h, 'j, 'e) main_error + ('fs, 'p, 'a) main_outcome) option" where
  "main_cmd self_signed sha256 encode decode to_vec from_slice write_file read_file parse_addr fs
     (Cmd_Keygen out sni) =
     map_option (map_sum id (\<lambda>(fs', fp). Keygen_Done fs' fp))
       (main_keygen self_signed sha256 encode to_vec write_file out sni fs)"
| "main_cmd self_signed sha256 encode decode to_vec from_slice write_file read_file parse_addr fs
     (Cmd_Node i listen succ_addr identity peer_fp issue_initial m peer_addr) =
     map_option (map_sum id Run_Node)
       (main_node decode from_slice read_file sha256 parse_addr fs i listen succ_addr identity peer_fp
          issue_initial m peer_addr)"
| "main_cmd self_signed sha256 encode decode to_vec from_slice write_file read_file parse_addr fs
     (Cmd_Ring num num_trains seconds bcasts tr m) =
     Some (map_sum id Run_Ring (main_ring num num_trains seconds bcasts tr m))"

text \<open>The loop of \<^verbatim>\<open>ring.rs\<close> that hands the broadcasts to the node tasks: those for a node outside the
  ring are skipped.\<close>

definition ring_submissions :: "'p ring_args \<Rightarrow> (nat \<times> byte list) list" where
  "ring_submissions args = filter (\<lambda>(i, msg). \<not> i \<ge> ra_num args) (ra_broadcasts args)"

section \<open>Peer addresses\<close>

lemma parse_entries_Inr:
  "parse_entries pa es acc = (Inr ps :: ('r, 'h, 'j, 'e) main_error + (nat \<times> 'a) list) \<longleftrightarrow>
     (\<exists>qs. ps = acc @ qs \<and> list_all2 (\<lambda>e q. parse_peer_entry pa e = (Inr q :: ('r, 'h, 'j, 'e) main_error + nat \<times> 'a)) es qs)"
  for acc :: "(nat \<times> 'a) list"
proof (induction es arbitrary: acc)
  case (Cons e es)
  then show ?case
    by (cases "parse_peer_entry pa e :: ('r, 'h, 'j, 'e) main_error + nat \<times> 'a")
      (auto simp: list_all2_Cons1)
qed auto

lemma check_contiguous_Inr:
  "check_contiguous k ps = (Inr () :: ('r, 'h, 'j, 'e) main_error + unit) \<longleftrightarrow> map fst ps = [k..<k + length ps]"
proof (induction ps arbitrary: k)
  case (Cons p ps)
  then show ?case by (cases p) (auto simp: upt_rec [of k])
qed simp

lemma sort_key_fst_contiguous:
  "map fst (sort_key fst ps) = [0..<length ps] \<longleftrightarrow> distinct (map fst ps) \<and> fst ` set ps = {..<length ps}"
proof
  assume l: "map fst (sort_key fst ps) = [0..<length ps]"
  have "mset (map fst (sort_key fst ps)) = mset (map fst ps)" by simp
  then have "mset (map fst ps) = mset [0..<length ps]" using l by metis
  then show "distinct (map fst ps) \<and> fst ` set ps = {..<length ps}"
    by (metis atLeast_upt distinct_upt list.set_map mset_eq_imp_distinct_iff set_mset_mset)
next
  assume "distinct (map fst ps) \<and> fst ` set ps = {..<length ps}"
  then have "sort (map fst ps) = [0..<length ps]"
    by (metis atLeast_upt distinct_upt list.set_map properties_for_sort sorted_upt set_eq_iff_mset_eq_distinct)
  moreover have "map fst (sort_key fst ps) = sort (map fst ps)"
    by (intro properties_for_sort [symmetric]) auto
  ultimately show "map fst (sort_key fst ps) = [0..<length ps]" by simp
qed

lemma parse_ring_addrs_Inr:
  fixes pa :: "utext \<Rightarrow> 'a option"
  assumes "es \<noteq> []"
  shows "parse_ring_addrs pa es = (Inr addrs :: ('r, 'h, 'j, 'e) main_error + 'a list) \<longleftrightarrow>
    (\<exists>ps. list_all2 (\<lambda>e q. parse_peer_entry pa e = (Inr q :: ('r, 'h, 'j, 'e) main_error + nat \<times> 'a)) es ps \<and>
       distinct (map fst ps) \<and> fst ` set ps = {..<length ps} \<and> addrs = map snd (sort_key fst ps))"
proof -
  have "parse_ring_addrs pa es = (Inr addrs :: ('r, 'h, 'j, 'e) main_error + 'a list) \<longleftrightarrow>
      (\<exists>ps. parse_entries pa es [] = (Inr ps :: ('r, 'h, 'j, 'e) main_error + (nat \<times> 'a) list) \<and>
         check_contiguous 0 (sort_key fst ps) = (Inr () :: ('r, 'h, 'j, 'e) main_error + unit) \<and>
         addrs = map snd (sort_key fst ps))"
    using assms by (auto simp: parse_ring_addrs_def Let_def split: sum.splits)
  also have "\<dots> \<longleftrightarrow> (\<exists>ps. list_all2 (\<lambda>e q. parse_peer_entry pa e = (Inr q :: ('r, 'h, 'j, 'e) main_error + nat \<times> 'a)) es ps \<and>
       distinct (map fst ps) \<and> fst ` set ps = {..<length ps} \<and> addrs = map snd (sort_key fst ps))"
    by (simp add: parse_entries_Inr check_contiguous_Inr sort_key_fst_contiguous conj_assoc)
  finally show ?thesis .
qed

text \<open>Looking an id up in the sorted pairs gives the address it was given with.\<close>

lemma sorted_pairs_nth:
  assumes d: "distinct (map fst ps)" "fst ` set ps = {..<length ps}" and p: "(i, a) \<in> set ps"
  shows "i < length ps" "map snd (sort_key fst ps) ! i = a"
proof -
  show i: "i < length ps" using d(2) p by force
  have l: "map fst (sort_key fst ps) = [0..<length ps]" using d sort_key_fst_contiguous by blast
  obtain j where j: "j < length ps" "sort_key fst ps ! j = (i, a)"
    using p by (metis in_set_conv_nth length_sort set_sort)
  then have "i = j" using l by (metis add_0 fst_conv length_sort nth_map nth_upt)
  then show "map snd (sort_key fst ps) ! i = a" using j by simp
qed

section \<open>Fingerprints from the command line\<close>

lemma collect_results_all:
  "\<forall>x\<in>set xs. f (h x) = Some (Inr (g x)) \<Longrightarrow> collect_results f (map h xs) = Some (Inr (map g xs))"
  by (induction xs) simp_all

lemma from_hex_trim: "from_hex decode (trim w) = from_hex decode w"
  by (simp add: from_hex_def trim_idem)

lemma parse_peer_fp_words:
  fixes decode :: "'h hex_dec"
  assumes ne: "ws \<noteq> []" and sep: "\<forall>w\<in>set ws. 44 \<notin> set w"
    and ok: "\<forall>w\<in>set ws. trim w \<noteq> [] \<and>
      from_hex decode w = (Some (Inr (g w)) :: (('r, 'h) tls_error + spki_fingerprint) option)"
  shows "parse_peer_fp decode (join_with 44 ws) =
    (Some (Inr (map g ws)) :: (('r, 'h) tls_error + spki_fingerprint list) option)"
proof -
  have f: "filter (\<lambda>w. w \<noteq> []) (map trim ws) = map trim ws" using ok by (simp add: filter_True)
  show ?thesis
    unfolding parse_peer_fp_def split_at_join [OF ne sep] f
    using ok by (intro collect_results_all) (simp add: from_hex_trim)
qed

lemma to_hex_word:
  assumes h: "hex_ok encode decode" and fp: "length (as_bytes fp) = 32"
  shows "44 \<notin> set (to_hex encode fp)" "trim (to_hex encode fp) = to_hex encode fp" "to_hex encode fp \<noteq> []"
proof -
  have d: "hex_digit ch" if "ch \<in> set (to_hex encode fp)" for ch
    using that hex_okD(2) [OF h] by (simp add: to_hex_def)
  then show "44 \<notin> set (to_hex encode fp)" using hex_digit_plain by blast
  show "trim (to_hex encode fp) = to_hex encode fp" using d hex_digit_plain trim_clean by blast
  have "length (to_hex encode fp) = 64" using hex_okD(1) [OF h] fp by (simp add: to_hex_def)
  then show "to_hex encode fp \<noteq> []" by auto
qed

section \<open>Properties\<close>

text \<open>From key generation to admission: a verifier pinned with the comma-separated list of the
  fingerprints that \<^verbatim>\<open>keygen\<close> printed for the members' certificates parses without an error
  and admits a peer exactly when the digest of its certificate is that of a member, at
  both ends of a link.\<close>

theorem printed_fingerprints_admit_members:
  fixes decode :: "'h hex_dec"
  assumes "hex_ok encode decode" and "certs \<noteq> []" and "\<forall>cert\<in>set certs. length (sha256 cert) = 32"
  shows "\<exists>ps. parse_peer_fp decode
      (join_with 44 (map (\<lambda>cert. to_hex encode (from_cert_der sha256 cert)) certs)) =
        (Some (Inr ps) :: (('r, 'h) tls_error + spki_fingerprint list) option) \<and>
    (client_admitted sha256 encode (verifier_new ps) tls13 cert msg dss \<longleftrightarrow> sha256 cert \<in> sha256 ` set certs) \<and>
    (server_admitted sha256 encode (verifier_new ps) tls13 cert msg dss \<longleftrightarrow> sha256 cert \<in> sha256 ` set certs)"
proof -
  let ?ws = "map (\<lambda>cert. to_hex encode (from_cert_der sha256 cert)) certs"
  define g where "g w = (case decode w of Inr bs \<Rightarrow> SpkiFingerprint bs | Inl _ \<Rightarrow> SpkiFingerprint [])" for w
  have fp: "length (as_bytes (from_cert_der sha256 cert)) = 32" if "cert \<in> set certs" for cert
    using that assms(3) by (simp add: from_cert_der_def)
  have g: "g (to_hex encode fp) = fp" for fp
    using hex_okD(3) [OF assms(1)] by (simp add: g_def to_hex_def)
  have "\<forall>w\<in>set ?ws. trim w \<noteq> [] \<and>
      from_hex decode w = (Some (Inr (g w)) :: (('r, 'h) tls_error + spki_fingerprint) option)"
    using to_hex_word [OF assms(1) fp] from_hex_padded [OF assms(1) fp, of _ "[]" "[]"] g by auto
  moreover have "\<forall>w\<in>set ?ws. 44 \<notin> set w" using to_hex_word(1) [OF assms(1) fp] by auto
  ultimately have "parse_peer_fp decode (join_with 44 ?ws) =
      (Some (Inr (map g ?ws)) :: (('r, 'h) tls_error + spki_fingerprint list) option)"
    using assms(2) by (intro parse_peer_fp_words) auto
  moreover have "set (map g ?ws) = from_cert_der sha256 ` set certs" by (simp add: g image_image)
  ultimately show ?thesis
    by (intro exI [of _ "map g ?ws"])
      (auto simp: client_admitted_iff server_admitted_iff verifier_new_def from_cert_der_def g)
qed

theorem printed_fingerprints_admit_members_witness:
  "\<exists>ps. parse_peer_fp demo_hex_dec
      (join_with 44 (map (\<lambda>cert. to_hex demo_hex_enc (from_cert_der demo_sha cert)) [[1], [2]])) =
        (Some (Inr ps) :: ((unit, unit) tls_error + _) option) \<and>
    \<not> client_admitted demo_sha demo_hex_enc (verifier_new ps) True [3] [] ()"
proof -
  have "demo_sha [3] \<notin> demo_sha ` set [[1], [2]]" by (simp add: demo_sha_def)
  moreover have "\<forall>cert\<in>set [[1], [2]]. length (demo_sha cert) = 32" by (simp add: demo_sha_def)
  ultimately show ?thesis
    using printed_fingerprints_admit_members [OF demo_hex_ok, of "[[1], [2]]" demo_sha True "[3]" "[]" "()"] by blast
qed

text \<open>Ring addresses: the \<^verbatim>\<open>--peer-addr\<close> entries, in any order, are accepted exactly when each parses
  to an id and an address and the ids are 0 to N-1, each once; then position \<^verbatim>\<open>id\<close> of the
  result is the address given for that id.\<close>

theorem ring_addrs_indexed_by_id:
  fixes pa :: "utext \<Rightarrow> 'a option"
  shows "parse_ring_addrs pa es = (Inr addrs :: ('r, 'h, 'j, 'e) main_error + 'a list) \<longleftrightarrow>
    (\<exists>ps. list_all2 (\<lambda>e q. parse_peer_entry pa e = (Inr q :: ('r, 'h, 'j, 'e) main_error + nat \<times> 'a)) es ps \<and>
       distinct (map fst ps) \<and> fst ` set ps = {..<length ps} \<and> length addrs = length ps \<and>
       list_all (\<lambda>(i, a). i < length addrs \<and> addrs ! i = a) ps)"
proof (cases "es = []")
  case True
  then show ?thesis by (auto simp: parse_ring_addrs_def)
next
  case False
  have "addrs = map snd (sort_key fst ps) \<longleftrightarrow>
      length addrs = length ps \<and> list_all (\<lambda>(i, a). i < length addrs \<and> addrs ! i = a) ps"
    if d: "distinct (map fst ps)" "fst ` set ps = {..<length ps}" for ps :: "(nat \<times> 'a) list"
  proof
    assume "addrs = map snd (sort_key fst ps)"
    then show "length addrs = length ps \<and> list_all (\<lambda>(i, a). i < length addrs \<and> addrs ! i = a) ps"
      using sorted_pairs_nth [OF d] by (auto simp: list_all_iff)
  next
    assume r: "length addrs = length ps \<and> list_all (\<lambda>(i, a). i < length addrs \<and> addrs ! i = a) ps"
    show "addrs = map snd (sort_key fst ps)"
    proof (rule nth_equalityI)
      fix i assume "i < length addrs"
      then have "i \<in> fst ` set ps" using r d(2) by simp
      then obtain a where "(i, a) \<in> set ps" by auto
      then show "addrs ! i = map snd (sort_key fst ps) ! i"
        using r sorted_pairs_nth(2) [OF d] by (auto simp: list_all_iff)
    qed (use r in simp)
  qed
  then show ?thesis unfolding parse_ring_addrs_Inr [OF False] by blast
qed

end
