(* ===== verification/Spec2Isabelle.thy ===== *)
theory Spec2Isabelle
  imports Total_Order View_Sync View_Round Fleet_Order Kernel_Live Ring_Short Raft_Baseline Bench_Tls Kani Node_Tests Recovery_Tests Net_Tests Endpoint_Tasks Ring_Setup Cli_Node Quic Snapshot Reference Trace_Ring Cli_Main Ao
begin

text \<open>
  Verification library of TRAINS, a ring protocol for uniform total-order broadcast.

  \<^bold>\<open>The program.\<close> \<^verbatim>\<open>RING_SIZE\<close> nodes form a ring. The nodes \<^verbatim>\<open>0 .. NUM_TRAINS-1\<close> issue trains; a train
  travels round the ring, collects payloads and an acknowledgement bit per node on its first
  lap, and is delivered on the next one in the order of its key (clock, issuer). When its issuer
  has delivered it, the issuer recycles it with the next clock. The core (\<^verbatim>\<open>crates/trains-core\<close>) is a
  pure state machine, \<^verbatim>\<open>TrainsNode::step\<close>; a driver (\<^verbatim>\<open>crates/trains-cli\<close>) feeds it the messages of a
  transport (\<^verbatim>\<open>crates/trains-net\<close>), sends what it forwards and prints what it delivers. When a member
  is confirmed dead (\<^verbatim>\<open>crates/trains-recovery\<close>), a token gathers the survivors' reports, one survivor
  merges them into a plan, and every survivor applies it and continues in the next view.

  \<^bold>\<open>Where each part is modelled.\<close>
  \<^item> \<open>Prelude\<close>, \<open>Systems\<close>: machine integers, saturation, the option monad (None is a panic), bit lemmas;
    reachability, the locales \<open>invariant_system\<close> and \<open>simulation_system\<close>.
  \<^item> \<open>BTree_Map\<close>: \<^verbatim>\<open>BTreeMap\<close> as a sorted association list, with the locale \<open>ordered_map\<close>.
  \<^item> \<open>Types\<close>: \<^verbatim>\<open>types.rs\<close> and both \<^verbatim>\<open>build.rs\<close>. The build constants are a record \<open>config\<close>, an argument of
    every definition; debug assertions are the flag \<open>checks\<close> of that record.
  \<^item> \<open>Clock\<close>, \<open>Delivery\<close>, \<open>Recovery\<close>, \<open>Node\<close>: \<^verbatim>\<open>clock.rs\<close>, \<^verbatim>\<open>delivery.rs\<close>, \<^verbatim>\<open>recovery.rs\<close>, \<^verbatim>\<open>node.rs\<close>, method by
    method. A method that may panic returns an option; \<open>step\<close> returns the new node and its
    outputs. \<open>Node_Inv\<close> has the node invariant \<open>node_ok\<close> and what a drain delivers, \<open>Node_Steps\<close> what
    each handler does and the case rule \<open>step_cases\<close>, \<open>Node_Recovery\<close> the recovery plan and the
    export and import of a snapshot.
  \<^item> \<open>Soup\<close>, \<open>Soup_Safety\<close>, \<open>Total_Order\<close>: all nodes on a network that loses, duplicates and reorders
    trains, its invariant, the safety properties and the refinement of abstract total-order
    broadcast.
  \<^item> \<open>Soup_Cache\<close>, \<open>View_Net\<close>, \<open>View_Sync\<close>: what the delivered caches hold, the same network while nodes exclude
    a peer (freeze, then confirm the crash, as the driver's \<^verbatim>\<open>exclude\<close>) and report, and the survivors'
    logs after the plan.
  \<^item> \<open>Ring\<close>, \<open>Ring_Setup\<close>: the node tasks and channels of \<^verbatim>\<open>ring.rs\<close> (a simulation
    into \<open>Soup\<close>, so every safety property carries over) and what its \<^verbatim>\<open>run\<close> sets up around them.
    \<open>Ring_Hop\<close> to \<open>Ring_Delivery\<close> follow the trains of a ring whose links lose nothing: one hop
    (\<open>Ring_Hop\<close>), the laps of a train (\<open>Ring_Laps\<close>), the start (\<open>Ring_Boot\<close>), whole runs (\<open>Ring_Runs\<close>), fair schedules
    (\<open>Ring_Sched\<close>), progress (\<open>Ring_Live\<close>, \<open>Ring_Delivery\<close>); \<open>Ring_Short\<close> is the ring with too few issuers.
  \<^item> \<open>Failure_Detector\<close>, \<open>View_Change\<close>, \<open>View_Round\<close>, \<open>Cli_Node\<close>: \<^verbatim>\<open>failure_detector.rs\<close>, \<^verbatim>\<open>wire.rs\<close>,
    \<^verbatim>\<open>view_change.rs\<close>, one exclusion or re-admission round over the members (the locale \<open>token_round\<close>,
    interpreted for both), and the event loop of \<^verbatim>\<open>trains-cli/node.rs\<close> with what it sends, prints and retargets.
    \<open>Fleet\<close> runs one such loop per member over links that keep their order; \<open>Fleet_Order\<close> simulates it
    by the network of \<open>View_Net\<close> until the first plan is applied.
  \<^item> \<open>Codec\<close>, \<open>Transport\<close>, \<open>Quic\<close>, \<open>Snapshot\<close>, \<open>Tls\<close>: \<^verbatim>\<open>codec.rs\<close>, \<^verbatim>\<open>transport.rs\<close>, \<^verbatim>\<open>quic_transport.rs\<close>, \<^verbatim>\<open>snapshot.rs\<close>,
    \<^verbatim>\<open>tls.rs\<close>. A connection is a byte list, a connector a state machine driven by the outcomes of
    its socket calls; the locales \<open>framing\<close> and \<open>retaining_sender\<close> hold what both links and the state
    transfer share. \<open>Endpoint\<close> has the TLS configurations and the start-up of both transports and of the
    state transfer, \<open>Endpoint_Tasks\<close> the listener, its connection tasks and \<^verbatim>\<open>RingTransport::abort\<close>.
  \<^item> \<open>Unicode_Text\<close>, \<open>Trace\<close>, \<open>Trace_Validate\<close>, \<open>Trace_Ring\<close>, \<open>Cli_Main\<close>: \<^verbatim>\<open>trace.rs\<close>, \<^verbatim>\<open>trace_validate.rs\<close>, the traced
    tasks and the trace writer of \<^verbatim>\<open>ring.rs\<close>, and \<^verbatim>\<open>main.rs\<close> from the parsed options on, over the string
    functions of the standard library.
  \<^item> \<open>Reference\<close>, \<open>Drt\<close>, \<open>Ao\<close>: \<^verbatim>\<open>verification/reference\<close>, the differential test of \<^verbatim>\<open>verification/drt\<close>, and the
    envelopes and adapter of \<^verbatim>\<open>crates/trains-ao\<close>.
  \<^item> \<open>Bench_Kernel\<close>, \<open>Kernel_Live\<close>, \<open>Bench_Tls\<close>, \<open>Raft_Baseline\<close>: the benchmarks \<^verbatim>\<open>bench_kernel.rs\<close>, \<^verbatim>\<open>bench_ring_tls.rs\<close>
    and \<^verbatim>\<open>bench_raft_baseline.rs\<close>, without their statistics.
  \<^item> \<open>Kani\<close>, \<open>Core_Tests\<close>, \<open>Node_Tests\<close>, \<open>Recovery_Tests\<close>, \<open>Net_Tests\<close>: the proof harnesses of \<^verbatim>\<open>lib.rs\<close> and the unit tests
    that need no socket, as executable checks of the model; the property test of the recovery merge
    is proved for every input.

  \<^bold>\<open>What is shown.\<close>
  \<^item> One node: no input for a ring member makes \<open>step\<close> panic and the invariant is kept; deliveries come
    in key order, once; a frozen node delivers nothing; each branch of the handlers is described.
  \<^item> All nodes: logs are prefixes of one another, nothing is invented or delivered twice, a
    delivered key was acknowledged by every node, and the network refines total-order
    broadcast. The check that \<^verbatim>\<open>ring.rs\<close> performs at its end succeeds.
  \<^item> Progress: on a ring that loses nothing and schedules its tasks fairly every submitted payload
    comes into every log and nobody is suspected; the kernel benchmark ends with exactly its
    target delivered if the time limit allows; the Raft baseline ends with every message
    committed if their number fits the channels and connections, and deadlocks above that.
  \<^item> View change: any exclusion or re-admission round converges to one plan, fenced by view; applying a
    plan closes every key up to its boundary and is idempotent; survivors that apply the plan of
    their reports end with the same log and the same delivered keys, if none is more than the
    delivered cache behind. A delivery of the excluded node alone may be skipped.
  \<^item> Deployed ring: no member panics on what the members send each other, through any number of
    exclusions. Until the first plan is applied what the members print is one order; afterwards
    a train of the excluded issuer that arrives in the new view can be delivered in different
    orders by two survivors.
  \<^item> Links: messages are written in order, none is lost, whatever fails; a dead successor is
    reported; framing is bounded and a cut frame or transfer is an error; only peers with a pinned
    certificate are heard or served; \<^verbatim>\<open>abort\<close> ends every connection that was tracked.
  \<^item> Optimised or secondary code against a specification: the failure detector, the reference
    implementation, the trace validator, the number parser of the build scripts. The adapters of
    an AO host are a network of nodes.
  \<^item> Errors: the panics and stalls the code can be brought to are theorems as well.

  \<^bold>\<open>Bounds and totality.\<close> Clocks are 64-bit and saturate; the agreement properties assume that issue
  clocks are left (\<open>clocks_left\<close>, \<open>ring_clocks_left\<close>), i.e. fewer than \<open>2 ^ 64 - 1\<close> trains per issuer. The
  loops of the core are \<open>function\<close>s with a measure; \<open>next_alive_loop\<close>, which would not end on a ring
  without survivors, is a \<open>partial_function (option)\<close> shown to return. A view-change round is run for
  three laps of the members, which the convergence theorems show to be enough. The kernel benchmark's
  loop is a \<open>partial_function (option)\<close> shown to return when the run fits the 64-bit counters
  (\<open>kernel_fits\<close>); a run of the Raft baseline with \<open>P\<close> payload bytes per message and \<open>T\<close> messages has at most
  \<open>(12 P + 57) T + 2\<close> steps (\<open>raft_steps\<close>).

  \<^bold>\<open>Parameters.\<close> Code that is not part of the repository is an argument: \<^verbatim>\<open>bincode\<close> and \<^verbatim>\<open>serde_json\<close> (an
  encoder and a decoder with the round-trip law), \<^verbatim>\<open>hex\<close>, SHA-256, \<^verbatim>\<open>rcgen\<close>, \<^verbatim>\<open>rustls\<close>, the socket-address
  parser and the file system. Every property that assumes a law of one has a witness with a
  concrete instance.

  \<^bold>\<open>Environment.\<close> \<open>Soup\<close> loses, duplicates and reorders trains. The links of \<open>Ring\<close> keep their order and may lose
  trains, but do not repeat them, as the connector of \<open>Transport\<close> may after a failed write; its safety
  properties come from \<open>Soup\<close>, where repeats are covered. The links of \<open>Fleet\<close> keep everything; what was
  sent before a retarget stays on the old link, where the connector would write what it still holds
  to the new successor. The connections of \<open>Raft_Baseline\<close> hold a bounded number of bytes each way.

  \<^bold>\<open>Not modelled.\<close> Socket options, timers (a tick or a timeout is an event that may happen at any
  time), log lines, \<^verbatim>\<open>clap\<close>, the latency statistics of the benchmarks; \<^verbatim>\<open>bench_raft_openraft\<close>, a driver of a
  third-party Raft; the tests that run real sockets and threads; the TLA+ modules.
\<close>

section \<open>Properties of the ring\<close>

text \<open>C2. The check \<^verbatim>\<open>run\<close> performs on the collected logs succeeds: in every state the ring of
  \<^verbatim>\<open>ring.rs\<close> can reach, with at most \<^verbatim>\<open>NUM_TRAINS\<close> issuers, links that may lose trains and
  nodes that start at any time or stop, the pairwise prefix test over all nodes holds.\<close>

theorem ring_consistency_check_holds:
  assumes "ring_reach c k m s" and "k \<le> NUM_TRAINS c" and "ring_clocks_left c s"
  shows "consistency_check (map (rlog s) [0..<RING_SIZE c])"
  using ring_consistent [OF assms] by (auto simp: consistency_check_iff)

definition demo_ring :: ring_state where
  "demo_ring = the (fold_opt (ring_exec cfg2 1 UniformTotalOrder)
     [RM_Start 1, RM_Start 0, RM_Bcast 1 [9], RM_Recv 1, RM_Recv 0, RM_Recv 1] idle_ring)"

lemma demo_ring_facts:
  "fold_opt (ring_exec cfg2 1 UniformTotalOrder)
     [RM_Start 1, RM_Start 0, RM_Bcast 1 [9], RM_Recv 1, RM_Recv 0, RM_Recv 1] idle_ring \<noteq> None \<and>
   rlog demo_ring 0 = [\<lparr>sender = 1, seq = 0, data = [9]\<rparr>] \<and>
   rlog demo_ring 1 = [\<lparr>sender = 1, seq = 0, data = [9]\<rparr>] \<and> up demo_ring = {0, 1} \<and>
   next_issue_clock (cores demo_ring 0) = 2 \<and> next_issue_clock (cores demo_ring 1) = 1"
  by code_simp

lemma demo_ring_reach: "ring_reach cfg2 1 UniformTotalOrder demo_ring"
proof -
  have "ring_init cfg2 idle_ring" by (simp add: ring_init_def idle_ring_def cfg2_valid)
  then have "ring_reach cfg2 1 UniformTotalOrder idle_ring" by (rule reach_init)
  moreover have "fold_opt (ring_exec cfg2 1 UniformTotalOrder)
      [RM_Start 1, RM_Start 0, RM_Bcast 1 [9], RM_Recv 1, RM_Recv 0, RM_Recv 1] idle_ring = Some demo_ring"
    using demo_ring_facts by (auto simp: demo_ring_def)
  ultimately show ?thesis by (rule fold_opt_reach [rotated]) (rule ring_exec_step)
qed

theorem ring_consistency_check_holds_witness:
  "consistency_check (map (rlog demo_ring) [0..<RING_SIZE cfg2]) \<and> rlog demo_ring 0 \<noteq> []"
  using ring_consistency_check_holds [OF demo_ring_reach] demo_ring_facts
  by (auto simp: cfg2_def ring_clocks_left_def u64_max_def)

text \<open>C3. Refinement: while issue clocks are left, every run of the network is a run of abstract
  total-order broadcast, in which one global sequence of batches grows at its end and each
  node appends the next batch of it to its own log; the logs are the same.\<close>

theorem network_refines_total_order:
  assumes "soup_reach c m s" and "clocks_left c s"
  shows "\<exists>a. reach tob_init tob_step a \<and> logs a = dlog s \<and>
    (\<forall>i<RING_SIZE c. prefix (dlog s i) (order a))"
  using tob.reach_sim [OF reach_live [OF assms]] by (auto simp: tob_sim_def)

theorem network_refines_total_order_witness:
  "\<exists>a. reach tob_init tob_step a \<and> logs a 0 = [[demo_payload]] \<and> logs a 1 = [[demo_payload]]"
  using network_refines_total_order [OF demo_net_reach demo_net_left] demo_net_facts by metis

section \<open>The view change end to end\<close>

text \<open>The driver's \<^verbatim>\<open>exclude\<close> does to the core what the exclusion step of \<open>View_Net\<close> does.\<close>

lemma driver_exclude_core:
  assumes "exclude c v d = Some d'" and "v \<notin> d_dead d" and "v < 256"
  shows "\<exists>outs. confirm_crash c v (set_frozen True (core d)) = Some (core d', outs)"
  using assms by (auto simp: exclude_def Let_def split: bind_splits if_splits)

text \<open>Tokens and nodes together: the survivors of an exclusion have frozen and reported, the token
  carries their reports. Within three laps each of them has exactly one plan and the next view, and
  whatever trains reach it before it applies that plan, all survivors come out with one log and the
  same delivered keys.\<close>

theorem exclusion_round_synchronises:
  assumes net: "view_reach c m x" "clocks_left c (vn x)"
    and lap: "\<And>i. i \<in> set lap \<Longrightarrow> in_view n v D s i" "\<And>i. plans s i = []" "v < u64_max"
      "distinct lap" "set lap = {p. p < n mod 256 \<and> p \<notin> insert victim D}" "d \<in> set lap" "victim \<notin> D"
    and rep: "\<And>i. i \<in> set lap \<Longrightarrow> i < RING_SIZE c \<and> vreports x i = Some (rep i)"
    and cap: "\<And>i j. i \<in> set lap \<Longrightarrow> j \<in> set lap \<Longrightarrow>
      card (done_keys (delivery (nodes (vn x) j)) - done_keys (delivery (nodes (vn x) i))) \<le> DELIVERED_CACHE_CAP"
    and late: "\<And>i inp. i \<in> set lap \<Longrightarrow> inp \<in> set (inps i) \<Longrightarrow> input_ok c inp"
      "\<And>i. i \<in> set lap \<Longrightarrow> run_node (step c) (inps i) (nodes (vn x) i) = Some (late i, outs i)"
  shows "\<exists>vc token s' L K. on_confirm c victim (rep d) (vcs s d) = Some (vc, [Send token]) \<and>
    View_Round.visit c rep (lap @ lap @ lap) token (s\<lparr>vcs := (vcs s)(d := vc)\<rparr>) = (s', None) \<and>
    (\<forall>i\<in>set lap. installed_view (vcs s' i) = Suc v \<and> (\<exists>p n' out. plans s' i = [p] \<and>
       apply_recovery c p (late i) = Some (n', out) \<and> \<not> frozen n' \<and>
       dlog (vn x) i @ concat (map batches (outs i)) @ batches out = L \<and> done_keys (delivery n') = K))"
proof -
  obtain vc token s' R where r: "on_confirm c victim (rep d) (vcs s d) = Some (vc, [Send token])"
      "View_Round.visit c rep (lap @ lap @ lap) token (s\<lparr>vcs := (vcs s)(d := vc)\<rparr>) = (s', None)"
      "mset (map fst R) = mset lap" "\<forall>(i, r)\<in>set R. r = rep i"
      "\<forall>i\<in>set lap. plans s' i = [compute_recovery_plan c (map snd R)] \<and> installed_view (vcs s' i) = Suc v"
    using exclusion_converges [where c = c and rep = rep, OF lap] by blast
  have S: "set (map fst R) = set lap" using r(3) by (rule mset_eq_setD)
  have R: "map snd R = map rep (map fst R)" using r(4) by (auto simp: case_prod_beta)
  obtain L K where LK: "\<forall>i\<in>set (map fst R). \<exists>n' out.
      apply_recovery c (compute_recovery_plan c (map rep (map fst R))) (late i) = Some (n', out) \<and> \<not> frozen n' \<and>
      dlog (vn x) i @ concat (map batches (outs i)) @ batches out = L \<and> done_keys (delivery n') = K"
    using survivors_agree [OF net, of "map fst R" rep inps late outs] rep cap late unfolding S by blast
  have "installed_view (vcs s' i) = Suc v \<and> (\<exists>p n' out. plans s' i = [p] \<and>
      apply_recovery c p (late i) = Some (n', out) \<and> \<not> frozen n' \<and>
      dlog (vn x) i @ concat (map batches (outs i)) @ batches out = L \<and> done_keys (delivery n') = K)"
    if "i \<in> set lap" for i
    using bspec [OF LK [unfolded S R [symmetric]] that] bspec [OF r(5) that] by simp
  then show ?thesis using r(1,2) by (intro exI [of _ vc] exI [of _ token] exI [of _ s'] exI [of _ L] exI [of _ K]) simp
qed

end
